(* ===== verification/Prelude.thy ===== *)
theory Prelude
  imports "HOL-Library.Word"
begin

text \<open>
  Shared vocabulary of the development: the C integer types as words of their width, the byte
  order conversions of an x86 target, byte-addressed memory, the faults a C expression can raise
  (an access outside an array, a null pointer, a division by zero, a read of an uninitialised
  variable), and the generic lemmas the component theories use.  The fact collections
  \<open>byte_simps\<close> (byte order and memory) and \<open>struct_defs\<close> (small accessor definitions) are filled
  here and in the component theories.
\<close>

unbundle bit_operations_syntax

named_theorems byte_simps \<open>byte order, serialisation and memory\<close>
named_theorems struct_defs \<open>small definitions unfolded by the component proofs\<close>

section \<open>Integer types\<close>

type_synonym u8 = "8 word"
type_synonym u16 = "16 word"
type_synonym u32 = "32 word"
type_synonym u64 = "64 word"

section \<open>Faults\<close>

text \<open>
  A C operation that has no defined result ends in a fault; every other result is \<open>Inr\<close>.
\<close>

datatype fault = OutOfBounds | NullDeref | DivByZero | UninitRead

type_synonym 'a outcome = "fault + 'a"

fun bind_ok :: "'a outcome \<Rightarrow> ('a \<Rightarrow> 'b outcome) \<Rightarrow> 'b outcome" where
  "bind_ok (Inl e) f = Inl e"
| "bind_ok (Inr x) f = f x"

lemma bind_ok_cong [fundef_cong]:
  "m = m' \<Longrightarrow> (\<And>x. m' = Inr x \<Longrightarrow> f x = g x) \<Longrightarrow> bind_ok m f = bind_ok m' g"
  by (cases m') auto

lemma bind_ok_eq_Inr_iff: "bind_ok m f = Inr y \<longleftrightarrow> (\<exists>x. m = Inr x \<and> f x = Inr y)"
  by (cases m) auto

lemma bind_okE:
  assumes "bind_ok m f = Inr y" obtains x where "m = Inr x" "f x = Inr y"
  using assms by (auto simp: bind_ok_eq_Inr_iff)

text \<open>A store to an array element: \<open>a[i] = x\<close>.\<close>

definition store_at :: "'a list \<Rightarrow> nat \<Rightarrow> 'a \<Rightarrow> 'a list outcome" where
  "store_at a i x = (if i < length a then Inr (a[i := x]) else Inl OutOfBounds)"

definition load_at :: "'a list \<Rightarrow> nat \<Rightarrow> 'a outcome" where
  "load_at a i = (if i < length a then Inr (a ! i) else Inl OutOfBounds)"

lemma store_at_ok [simp]: "i < length a \<Longrightarrow> store_at a i x = Inr (a[i := x])"
  by (simp add: store_at_def)

lemma load_at_ok [simp]: "i < length a \<Longrightarrow> load_at a i = Inr (a ! i)"
  by (simp add: load_at_def)

text \<open>The same with a C \<open>int\<close> as index.\<close>

definition store_i :: "'a list \<Rightarrow> int \<Rightarrow> 'a \<Rightarrow> 'a list outcome" where
  "store_i a i x = (if 0 \<le> i then store_at a (nat i) x else Inl OutOfBounds)"

definition load_i :: "'a list \<Rightarrow> int \<Rightarrow> 'a outcome" where
  "load_i a i = (if 0 \<le> i then load_at a (nat i) else Inl OutOfBounds)"

lemma store_i_ok [simp]: "0 \<le> i \<Longrightarrow> nat i < length a \<Longrightarrow> store_i a i x = Inr (a[nat i := x])"
  by (simp add: store_i_def)

lemma load_i_ok [simp]: "0 \<le> i \<Longrightarrow> nat i < length a \<Longrightarrow> load_i a i = Inr (a ! nat i)"
  by (simp add: load_i_def)

text \<open>A \<open>memcpy\<close> of the bytes \<open>bs\<close> to offset \<open>off\<close> of a buffer, and from it.\<close>

definition put_bytes :: "'a list \<Rightarrow> nat \<Rightarrow> 'a list \<Rightarrow> 'a list outcome" where
  "put_bytes buf off bs =
     (if off + length bs \<le> length buf
      then Inr (take off buf @ bs @ drop (off + length bs) buf) else Inl OutOfBounds)"

definition get_bytes :: "'a list \<Rightarrow> nat \<Rightarrow> nat \<Rightarrow> 'a list outcome" where
  "get_bytes buf off n =
     (if off + n \<le> length buf then Inr (take n (drop off buf)) else Inl OutOfBounds)"

lemma put_bytes_ok [simp]:
  "off + length bs \<le> length buf \<Longrightarrow> put_bytes buf off bs = Inr (take off buf @ bs @ drop (off + length bs) buf)"
  by (simp add: put_bytes_def)

lemma put_bytes_length: "put_bytes buf off bs = Inr buf' \<Longrightarrow> length buf' = length buf"
  by (auto simp: put_bytes_def split: if_splits)

lemma put_bytes_at_end:
  "length pre = off \<Longrightarrow> length bs \<le> length rest \<Longrightarrow>
   put_bytes (pre @ rest) off bs = Inr (pre @ bs @ drop (length bs) rest)"
  by (simp add: put_bytes_def)

lemma get_bytes_ok [simp]: "off + n \<le> length buf \<Longrightarrow> get_bytes buf off n = Inr (take n (drop off buf))"
  by (simp add: get_bytes_def)

text \<open>A counted loop over a list of indices, whose body may fault.\<close>

primrec for_each :: "'i list \<Rightarrow> ('i \<Rightarrow> 's \<Rightarrow> 's outcome) \<Rightarrow> 's \<Rightarrow> 's outcome" where
  "for_each [] f s = Inr s"
| "for_each (i # is) f s = bind_ok (f i s) (for_each is f)"

lemma for_each_cong [fundef_cong]:
  "xs = ys \<Longrightarrow> s = t \<Longrightarrow> (\<And>i s. i \<in> set ys \<Longrightarrow> f i s = g i s) \<Longrightarrow> for_each xs f s = for_each ys g t"
proof (induction xs arbitrary: ys s t)
  case (Cons x xs)
  then show ?case by (cases "g x s") auto
qed auto

lemma for_each_append: "for_each (xs @ ys) f s = bind_ok (for_each xs f s) (for_each ys f)"
proof (induction xs arbitrary: s)
  case (Cons x xs)
  then show ?case by (cases "f x s") auto
qed simp

lemma bind_ok_Inr [simp]: "bind_ok m Inr = m"
  by (cases m) auto

lemma bind_ok_assoc: "bind_ok (bind_ok m f) g = bind_ok m (\<lambda>x. bind_ok (f x) g)"
  by (cases m) auto

lemma for_each_single [simp]: "for_each [i] f = f i"
proof
  fix s show "for_each [i] f s = f i s" by (cases "f i s") auto
qed

text \<open>A loop whose body never faults is a fold.\<close>

lemma for_each_fold: "(\<And>i s. i \<in> set is \<Longrightarrow> f i s = Inr (g i s)) \<Longrightarrow> for_each is f s = Inr (fold g is s)"
  by (induction "is" arbitrary: s) auto

section \<open>Byte order\<close>

text \<open>
  \<open>rte_cpu_to_be_16\<close>, \<open>rte_be_to_cpu_16\<close>, \<open>htons\<close> and \<open>ntohs\<close> on the little-endian target are
  the byte swap; \<open>htonl\<close> and \<open>ntohl\<close> the 32-bit swap.
\<close>

text \<open>The bytes of an integer in memory, lowest address first.\<close>

definition le16 :: "u16 \<Rightarrow> u8 list" where
  "le16 w = [ucast w, ucast (drop_bit 8 w)]"

definition le32 :: "u32 \<Rightarrow> u8 list" where
  "le32 w = [ucast w, ucast (drop_bit 8 w), ucast (drop_bit 16 w), ucast (drop_bit 24 w)]"

definition of_le16 :: "u8 \<Rightarrow> u8 \<Rightarrow> u16" where
  "of_le16 b0 b1 = ucast b0 OR push_bit 8 (ucast b1)"

definition of_le32 :: "u8 \<Rightarrow> u8 \<Rightarrow> u8 \<Rightarrow> u8 \<Rightarrow> u32" where
  "of_le32 b0 b1 b2 b3 =
     ucast b0 OR push_bit 8 (ucast b1) OR push_bit 16 (ucast b2) OR push_bit 24 (ucast b3)"

definition bswap16 :: "u16 \<Rightarrow> u16" where
  "bswap16 w = of_le16 (ucast (drop_bit 8 w)) (ucast w)"

definition bswap32 :: "u32 \<Rightarrow> u32" where
  "bswap32 w = of_le32 (ucast (drop_bit 24 w)) (ucast (drop_bit 16 w)) (ucast (drop_bit 8 w)) (ucast w)"

lemma length_le16 [simp]: "length (le16 w) = 2"
  by (simp add: le16_def)

lemma length_le32 [simp]: "length (le32 w) = 4"
  by (simp add: le32_def)

lemma of_le16_bytes [byte_simps]:
  "ucast (of_le16 b0 b1) = b0" "ucast (drop_bit 8 (of_le16 b0 b1)) = b1"
  by (rule bit_word_eqI; auto simp: of_le16_def bit_simps dest: bit_imp_le_length)+

lemma of_le32_bytes [byte_simps]:
  "ucast (of_le32 b0 b1 b2 b3) = b0" "ucast (drop_bit 8 (of_le32 b0 b1 b2 b3)) = b1"
  "ucast (drop_bit 16 (of_le32 b0 b1 b2 b3)) = b2" "ucast (drop_bit 24 (of_le32 b0 b1 b2 b3)) = b3"
  by (rule bit_word_eqI; auto simp: of_le32_def bit_simps dest: bit_imp_le_length)+

lemma of_le16_le16 [byte_simps]: "of_le16 (ucast w) (ucast (drop_bit 8 w)) = w"
proof (rule bit_word_eqI)
  fix n assume "n < LENGTH(16)"
  then show "bit (of_le16 (ucast w) (ucast (drop_bit 8 w))) n = bit w n"
    by (cases "n < 8") (auto simp: of_le16_def bit_simps less_diff_conv2)
qed

lemma of_le32_le32 [byte_simps]:
  "of_le32 (ucast w) (ucast (drop_bit 8 w)) (ucast (drop_bit 16 w)) (ucast (drop_bit 24 w)) = w"
proof (rule bit_word_eqI)
  fix n assume n: "n < LENGTH(32)"
  consider "n < 8" | "8 \<le> n" "n < 16" | "16 \<le> n" "n < 24" | "24 \<le> n" by linarith
  then show "bit (of_le32 (ucast w) (ucast (drop_bit 8 w)) (ucast (drop_bit 16 w))
      (ucast (drop_bit 24 w))) n = bit w n"
    using n by cases (auto simp: of_le32_def bit_simps less_diff_conv2)
qed

lemma bswap16_bswap16 [simp]: "bswap16 (bswap16 w) = w"
  by (simp add: bswap16_def byte_simps)

lemma bswap32_bswap32 [simp]: "bswap32 (bswap32 w) = w"
  by (simp add: bswap32_def byte_simps)

lemma bswap16_inject [simp]: "bswap16 a = bswap16 b \<longleftrightarrow> a = b"
  by (rule inj_eq) (rule inj_on_inverseI [where g = bswap16], simp)

lemma bswap32_inject [simp]: "bswap32 a = bswap32 b \<longleftrightarrow> a = b"
  by (rule inj_eq) (rule inj_on_inverseI [where g = bswap32], simp)

lemma of_le16_swapped: "of_le16 (ucast (drop_bit 8 w)) (ucast w) = bswap16 w"
  by (simp add: bswap16_def)

lemma le16_bswap16 [byte_simps]: "le16 (bswap16 w) = [ucast (drop_bit 8 w), ucast w]"
  by (simp add: le16_def bswap16_def byte_simps)

lemma le32_bswap32 [byte_simps]:
  "le32 (bswap32 w) = [ucast (drop_bit 24 w), ucast (drop_bit 16 w), ucast (drop_bit 8 w), ucast w]"
  by (simp add: le32_def bswap32_def byte_simps)

text \<open>The 16-bit integer at a byte offset.\<close>

definition load16 :: "u8 list \<Rightarrow> nat \<Rightarrow> u16 outcome" where
  "load16 bs off = bind_ok (get_bytes bs off 2) (\<lambda>b. Inr (of_le16 (b ! 0) (b ! 1)))"

definition load32 :: "u8 list \<Rightarrow> nat \<Rightarrow> u32 outcome" where
  "load32 bs off = bind_ok (get_bytes bs off 4) (\<lambda>b. Inr (of_le32 (b ! 0) (b ! 1) (b ! 2) (b ! 3)))"

lemma load16_at: "load16 (pre @ le16 w @ rest) (length pre) = Inr w"
  by (simp add: load16_def byte_simps le16_def)

lemma load16_0 [simp]: "load16 (le16 w @ rest) 0 = Inr w"
  using load16_at [of "[]" w rest] by simp

lemma load32_at: "load32 (pre @ le32 w @ rest) (length pre) = Inr w"
  by (simp add: load32_def byte_simps le32_def)

lemma load16_drop: "load16 bs (a + b) = load16 (drop a bs) b" if "a \<le> length bs"
  using that by (auto simp: load16_def get_bytes_def drop_drop add.commute le_diff_conv2 add.left_commute)

section \<open>Memory\<close>

text \<open>
  PDU payloads are reached through pointers (\<open>pPDU_start\<close>, \<open>pStart\<close>).  A pointer is a 64-bit
  address, \<open>NULL\<close> is 0, memory maps addresses to bytes and \<open>load_bytes\<close> is what a \<open>memcpy\<close>
  of \<open>n\<close> bytes from an address copies.
\<close>

type_synonym ptr = u64
type_synonym mem = "u64 \<Rightarrow> u8"

definition NULL :: ptr where "NULL = 0"

definition sample_mem :: mem where "sample_mem a = ucast a"

definition load_bytes :: "mem \<Rightarrow> ptr \<Rightarrow> nat \<Rightarrow> u8 list" where
  "load_bytes m p n = map (\<lambda>i. m (p + of_nat i)) [0..<n]"

lemma length_load_bytes [simp]: "length (load_bytes m p n) = n"
  by (simp add: load_bytes_def)

lemma load_bytes_0 [simp]: "load_bytes m p 0 = []"
  by (simp add: load_bytes_def)

lemma load_bytes_append:
  "load_bytes m p (a + b) = load_bytes m p a @ load_bytes m (p + of_nat a) b"
proof (rule nth_equalityI)
  fix i assume "i < length (load_bytes m p (a + b))"
  then have i: "i < a + b" by simp
  show "load_bytes m p (a + b) ! i = (load_bytes m p a @ load_bytes m (p + of_nat a) b) ! i"
  proof (cases "i < a")
    case True
    then show ?thesis by (simp add: load_bytes_def nth_append)
  next
    case False
    then have "p + of_nat i = p + of_nat a + of_nat (i - a)"
      by (simp flip: of_nat_add)
    with False i show ?thesis by (simp add: load_bytes_def nth_append)
  qed
qed simp

lemma nth_load_bytes: "i < n \<Longrightarrow> load_bytes m p n ! i = m (p + of_nat i)"
  by (simp add: load_bytes_def)

section \<open>Word arithmetic used by several components\<close>

lemma unat_add_lt: "unat (a :: 'a::len word) + unat b < 2 ^ LENGTH('a) \<Longrightarrow> unat (a + b) = unat a + unat b"
  by (simp add: unat_word_ariths)

lemma unat_u8_lt: "unat (x :: u8) < 256"
  using unsigned_less [of x, where ?'a = nat] by simp

lemma uint_eq_int_unat: "uint w = int (unat w)"
  by simp

lemma sint_eq_int_unat:
  fixes w :: "'a::len word"
  assumes "unat w < 2 ^ (LENGTH('a) - 1)"
  shows "sint w = int (unat w)"
proof -
  have "int (unat w) < 2 ^ (LENGTH('a) - 1)" using assms by (metis of_nat_less_numeral_power_cancel_iff of_nat_less_iff of_nat_numeral of_nat_power)
  moreover have "uint w = int (unat w)" by simp
  ultimately have "- (2 ^ (LENGTH('a) - 1)) \<le> uint w" "uint w < 2 ^ (LENGTH('a) - 1)" by linarith+
  then have "signed_take_bit (LENGTH('a) - 1) (uint w) = uint w" by (rule signed_take_bit_int_eq_self)
  then show ?thesis by (simp add: sint_uint)
qed

lemma ucast_12_add: "(ucast (a + b :: u16) :: 12 word) = ucast a + ucast b"
  by (simp add: word_unat_eq_iff unat_word_ariths unsigned_ucast_eq take_bit_eq_mod)
    (simp add: mod_simps mod_mod_cancel)

lemma ucast_12_of_nat: "(ucast (of_nat n :: u16) :: 12 word) = of_nat n"
  by transfer simp

lemma ucast_u8_u16 [simp]: "ucast (ucast (w :: u8) :: u16) = w"
  by (rule bit_word_eqI) (simp add: bit_simps)

lemma ucast_u16_u32 [simp]: "ucast (ucast (w :: u16) :: u32) = w"
  by (rule bit_word_eqI) (simp add: bit_simps)

lemma bits_below: "unat (w :: 'a::len word) < 2 ^ k \<Longrightarrow> bit w n \<Longrightarrow> n < k"
proof -
  assume "unat w < 2 ^ k" "bit w n"
  then have "take_bit k (unat w) = unat w" "bit (unat w) n"
    by (simp_all add: take_bit_nat_eq_self bit_unsigned_iff)
  then show "n < k" by (metis bit_take_bit_iff)
qed

lemma unat_ucast_up: "LENGTH('a) \<le> LENGTH('b) \<Longrightarrow> unat (ucast (x :: 'a::len word) :: 'b::len word) = unat x"
proof -
  assume le: "LENGTH('a) \<le> LENGTH('b)"
  have "unat x < 2 ^ LENGTH('a)" using unsigned_less [of x, where ?'a = nat] by simp
  also have "\<dots> \<le> 2 ^ LENGTH('b)" using le by simp
  finally show ?thesis by (simp add: unsigned_ucast_eq take_bit_nat_eq_self)
qed

lemma ucast_label_2_bits: "lt < (4 :: u8) \<Longrightarrow> (ucast (ucast lt :: 2 word) :: u16) = ucast lt"
proof -
  assume "lt < 4"
  then have "unat lt < 4" by (simp add: word_less_nat_alt)
  moreover have "unat (ucast (ucast lt :: 2 word) :: u16) = unat lt mod 4"
    by (simp add: unat_ucast_up unsigned_ucast_eq take_bit_eq_mod unat_mod mod_mod_cancel)
  ultimately show ?thesis
    by (intro unsigned_word_eqI [where ?'a = nat]) (simp add: unat_ucast_up)
qed

lemma unat_sub_le: "b \<le> a \<Longrightarrow> unat (a - b :: 'a::len word) = unat a - unat b"
  by (simp add: unat_sub)

lemma unat_of_nat_lt: "n < 2 ^ LENGTH('a) \<Longrightarrow> unat (of_nat n :: 'a::len word) = n"
  by (simp add: unat_of_nat take_bit_nat_eq_self)

lemma unat_u16_lt: "unat (x :: u16) < 65536"
  using unsigned_less [of x, where ?'a = nat] by simp

lemma unat_u32_lt: "unat (x :: u32) < 4294967296"
  using unsigned_less [of x, where ?'a = nat] by simp

section \<open>Ring buffers\<close>

text \<open>Two indices less than the capacity apart never share a slot.\<close>

lemma mod_add_inj:
  fixes h i j m :: nat
  assumes "i < m" "j < m" "(h + i) mod m = (h + j) mod m"
  shows "i = j"
proof -
  have "m dvd (h + j) - (h + i)" "m dvd (h + i) - (h + j)"
    using assms(3) by (metis diff_is_0_eq dvd_0_right le_cases mod_eq_dvd_iff_nat)+
  moreover have "j - i < m" "i - j < m" using assms(1,2) by auto
  ultimately show ?thesis using nat_dvd_not_less [of "j - i" m] nat_dvd_not_less [of "i - j" m]
    by (cases "i < j"; cases "j < i") auto
qed

lemma mod_Suc_wrap:
  fixes t m :: nat
  assumes "t < m"
  shows "(if m \<le> t + 1 then 0 else t + 1) = (t + 1) mod m"
proof (cases "m \<le> t + 1")
  case True
  with assms have "t + 1 = m" by simp
  then show ?thesis by simp
qed simp

text \<open>The \<open>n\<close> items of a ring buffer \<open>v\<close> from index \<open>h\<close> on.\<close>

definition ring :: "'a list \<Rightarrow> nat \<Rightarrow> nat \<Rightarrow> 'a list" where
  "ring v h n = map (\<lambda>i. v ! ((h + i) mod length v)) [0..<n]"

lemma length_ring [simp]: "length (ring v h n) = n"
  by (simp add: ring_def)

lemma nth_ring: "i < n \<Longrightarrow> ring v h n ! i = v ! ((h + i) mod length v)"
  by (simp add: ring_def)

lemma ring_snoc:
  assumes "n < length v"
  shows "ring (v[(h + n) mod length v := d]) h (Suc n) = ring v h n @ [d]"
proof (rule nth_equalityI)
  fix i assume "i < length (ring (v[(h + n) mod length v := d]) h (Suc n))"
  then have i: "i < Suc n" by simp
  have pos: "0 < length v" using assms by auto
  show "ring (v[(h + n) mod length v := d]) h (Suc n) ! i = (ring v h n @ [d]) ! i"
  proof (cases "i = n")
    case True
    then show ?thesis using pos by (simp add: nth_ring nth_append)
  next
    case False
    moreover have "(h + i) mod length v \<noteq> (h + n) mod length v"
      using mod_add_inj [of i "length v" n h] False i assms by auto
    ultimately show ?thesis using i by (simp add: nth_ring nth_append)
  qed
qed simp

lemma ring_tl: "ring v ((h + 1) mod length v) n = tl (ring v h (Suc n))"
  by (rule nth_equalityI) (simp_all add: nth_ring nth_tl mod_add_left_eq)

lemma ring_replace_oldest:
  assumes "h < length v"
  shows "ring (v[h := d]) ((h + 1) mod length v) (length v) = tl (ring v h (length v)) @ [d]"
proof -
  obtain n where n: "length v = Suc n" using assms by (cases "length v") auto
  have "h + 1 + n = h + Suc n" by simp
  then have "((h + 1) mod Suc n + n) mod Suc n = (h + Suc n) mod Suc n"
    by (simp only: mod_add_left_eq)
  also have "\<dots> = h" using assms n by (simp only: mod_add_self2 mod_less)
  finally have "((h + 1) mod Suc n + n) mod Suc n = h" .
  then have "ring (v[h := d]) ((h + 1) mod length v) (Suc n) = ring v ((h + 1) mod length v) n @ [d]"
    using ring_snoc [of n v "(h + 1) mod length v" d] n by simp
  then show ?thesis unfolding ring_tl using n by simp
qed

end
