(* ===== verification/Crc.thy ===== *)
theory Crc
  imports Prelude
begin

text \<open>
  The checksums of \<open>src/general_module.c\<close> (and \<open>calc_CRC8\<close> of \<open>src/decapsulate.c\<close>): the bit
  reversal, the generated tables, the table-driven CRC-8 and CRC-32 that protect the BBFRAME
  header, the ISL header and a fragmented PDU, and the bit-serial versions.  The lemmas show that
  the table-driven loops compute the bit-serial remainders, and that the CRC-32 detects every
  error burst confined to four consecutive bytes.
\<close>

section \<open>Bit reversal\<close>

definition rev_round :: "nat \<Rightarrow> nat \<Rightarrow> u32 \<times> u32 \<Rightarrow> u32 \<times> u32" where
  "rev_round bw i s =
     (drop_bit 1 (fst s),
      if fst s AND 1 \<noteq> 0 then snd s OR push_bit (bw - 1 - i) 1 else snd s)"

definition bit_rev :: "u32 \<Rightarrow> nat \<Rightarrow> u32" where
  "bit_rev input bw = snd (fold (rev_round bw) [0..<bw] (input, 0))"

text \<open>\<open>mcs_bit_rev\<close> is a second copy of the loop, with the shift written \<open>bit_width-bit_idx-1\<close>.\<close>

definition mcs_bit_rev :: "u32 \<Rightarrow> nat \<Rightarrow> u32" where
  "mcs_bit_rev data bit_width =
     snd (fold (\<lambda>bit_idx s. (drop_bit 1 (fst s),
             if fst s AND 1 \<noteq> 0 then snd s OR push_bit (bit_width - bit_idx - 1) 1 else snd s))
           [0..<bit_width] (data, 0))"

section \<open>Tables and table-driven loops\<close>

text \<open>One round of the reflected remainder, \<open>(crc & 1) ? poly ^ (crc >> 1) : crc >> 1\<close>.\<close>

definition refl_step :: "'a::len word \<Rightarrow> 'a word \<Rightarrow> 'a word" where
  "refl_step poly crc = (if crc AND 1 \<noteq> 0 then poly XOR drop_bit 1 crc else drop_bit 1 crc)"

definition crc8_init_table :: "u32 \<Rightarrow> u8 list" where
  "crc8_init_table poly =
     (let p = bit_rev poly 8
      in map (\<lambda>i. ((\<lambda>crc. if crc AND 1 \<noteq> 0 then ucast (p XOR ucast (drop_bit 1 crc)) else drop_bit 1 crc) ^^ 8)
                   (of_nat i :: u8)) [0..<256])"

definition crc32_init_table :: "u32 \<Rightarrow> u32 list" where
  "crc32_init_table poly = map (\<lambda>i. (refl_step (bit_rev poly 32) ^^ 8) (of_nat i)) [0..<256]"

definition mcs_init_crc8_table :: "u32 \<Rightarrow> u8 list" where
  "mcs_init_crc8_table poly =
     map (\<lambda>i. ucast (((\<lambda>value. if value AND 0x80 \<noteq> 0 then push_bit 1 value XOR poly
                              else push_bit 1 value) ^^ 8) (of_nat i :: u32)))
       [0..<256]"

definition mcs_init_crc32_table :: "u32 \<Rightarrow> u32 list" where
  "mcs_init_crc32_table poly = map (\<lambda>i. (refl_step (mcs_bit_rev poly 32) ^^ 8) (of_nat i)) [0..<256]"

definition poly_32 :: u32 where "poly_32 = 0x04C11DB7"
definition poly_8 :: u32 where "poly_8 = 0x31"
definition MCS_CRC_8_POLY :: u32 where "MCS_CRC_8_POLY = 0xD5"
definition MCS_CRC_32_POLY :: u32 where "MCS_CRC_32_POLY = 0x4C11DB7"

text \<open>The global tables after \<open>init_encap_mem\<close> or \<open>init_decap_mem\<close> has run.\<close>

definition CRC8_table :: "u8 list" where "CRC8_table = crc8_init_table poly_8"
definition CRC32_table :: "u32 list" where "CRC32_table = crc32_init_table poly_32"
definition crc8_table :: "u8 list" where "crc8_table = mcs_init_crc8_table MCS_CRC_8_POLY"
definition crc32_table :: "u32 list" where "crc32_table = mcs_init_crc32_table MCS_CRC_32_POLY"

definition crc32_round :: "u32 list \<Rightarrow> u8 \<Rightarrow> u32 \<Rightarrow> u32" where
  "crc32_round t b crc = t ! unat (ucast (crc XOR ucast b) :: u8) XOR drop_bit 8 crc"

definition crc32_lookup_table :: "u8 list \<Rightarrow> u32" where
  "crc32_lookup_table pdata = fold (crc32_round CRC32_table) pdata 0xFFFFFFFF XOR 0xFFFFFFFF"

definition mcs_get_crc32 :: "u8 list \<Rightarrow> u32 \<Rightarrow> u32" where
  "mcs_get_crc32 seg_data pre_seg_crc =
     (if seg_data = [] then 0 else fold (crc32_round crc32_table) seg_data pre_seg_crc)"

definition crc8_lookup_table :: "u8 list \<Rightarrow> u8" where
  "crc8_lookup_table pdata =
     ucast (fold (\<lambda>b crc. push_bit 8 crc XOR ucast (CRC8_table ! unat (ucast crc XOR b :: u8)))
              pdata (0 :: u32))"

definition mcs_get_crc8 :: "u8 list \<Rightarrow> u8" where
  "mcs_get_crc8 dat =
     (if dat = [] then 0 else fold (\<lambda>b crc. crc8_table ! unat (crc XOR b)) dat 0)"

section \<open>Bit-serial loops\<close>

definition msb_step32 :: "u32 \<Rightarrow> u32 \<Rightarrow> u32 \<Rightarrow> u32" where
  "msb_step32 msb_mask gx crc = (if crc AND msb_mask \<noteq> 0 then push_bit 1 crc XOR gx else push_bit 1 crc)"

definition calc_crc8 :: "u8 list \<Rightarrow> u8" where
  "calc_crc8 pdata =
     ucast (fold (\<lambda>b crc. (msb_step32 0x80 0xC5 ^^ 8) (crc XOR ucast b)) pdata 0)"

definition calc_crc32 :: "u8 list \<Rightarrow> u32" where
  "calc_crc32 pdata =
     fold (\<lambda>b crc. (msb_step32 0x80000000 0x04C11DB7 ^^ 8) (crc XOR push_bit 24 (ucast b))) pdata 0"

definition msb_step8 :: "u8 \<Rightarrow> u8 \<Rightarrow> u8" where
  "msb_step8 gx crc = (if crc AND 0x80 \<noteq> 0 then push_bit 1 crc XOR gx else push_bit 1 crc)"

definition calc_CRC8 :: "u8 list \<Rightarrow> u8" where
  "calc_CRC8 pdata = fold (\<lambda>b crc. (msb_step8 0x31 ^^ 8) (crc XOR b)) pdata 0"

text \<open>The bit-serial specification of the reflected CRC-32.\<close>

definition crc32_serial :: "u32 \<Rightarrow> u8 list \<Rightarrow> u32 \<Rightarrow> u32" where
  "crc32_serial p = fold (\<lambda>b crc. (refl_step p ^^ 8) (crc XOR ucast b))"

section \<open>Bit reversal, bit by bit\<close>

lemma and_one_bit: "(w AND 1 \<noteq> 0) \<longleftrightarrow> bit w 0" for w :: "'a::len word"
  by (simp add: and_one_eq bit_0 mod_2_eq_odd)

lemma mcs_bit_rev_eq: "mcs_bit_rev w bw = bit_rev w bw"
proof -
  have "(\<lambda>i s. (drop_bit 1 (fst s), if fst s AND 1 \<noteq> 0 then snd s OR push_bit (bw - i - 1) 1 else snd s))
      = rev_round bw"
    by (intro ext) (simp add: rev_round_def)
  then show ?thesis by (simp only: mcs_bit_rev_def bit_rev_def)
qed

lemma bit_rev_loop:
  assumes "n \<le> bw"
  shows "fst (fold (rev_round bw) [0..<n] (w, 0)) = drop_bit n w \<and>
    (\<forall>k. bit (snd (fold (rev_round bw) [0..<n] (w, 0))) k
       \<longleftrightarrow> k < 32 \<and> k < bw \<and> bw - 1 - k < n \<and> bit w (bw - 1 - k))"
  using assms
proof (induction n)
  case 0
  then show ?case by simp
next
  case (Suc n)
  let ?s = "fold (rev_round bw) [0..<n] (w, 0)"
  have f: "fst ?s = drop_bit n w"
    and b: "\<And>k. bit (snd ?s) k \<longleftrightarrow> k < 32 \<and> k < bw \<and> bw - 1 - k < n \<and> bit w (bw - 1 - k)"
    using Suc by auto
  have t: "fst ?s AND 1 \<noteq> 0 \<longleftrightarrow> bit w n"
    unfolding and_one_bit f by (simp add: bit_simps)
  have s': "fold (rev_round bw) [0..<Suc n] (w, 0)
      = (drop_bit 1 (fst ?s), if bit w n then snd ?s OR push_bit (bw - 1 - n) 1 else snd ?s)"
    using t by (simp add: rev_round_def)
  have "bit (if bit w n then snd ?s OR push_bit (bw - 1 - n) 1 else snd ?s) k
      \<longleftrightarrow> k < 32 \<and> k < bw \<and> bw - 1 - k < Suc n \<and> bit w (bw - 1 - k)" for k
  proof (cases "k = bw - 1 - n")
    case True
    then show ?thesis using Suc.prems by (auto simp: bit_or_iff b bit_push_bit_iff bit_1_iff bit_exp_iff)
  next
    case False
    then have "bw - 1 - k < Suc n \<longleftrightarrow> bw - 1 - k < n" if "k < bw" using that Suc.prems by linarith
    with False show ?thesis using Suc.prems by (auto simp: bit_or_iff b bit_push_bit_iff bit_1_iff bit_exp_iff)
  qed
  then show ?case using f by (simp only: s' fst_conv snd_conv) simp
qed

lemma bit_bit_rev: "bit (bit_rev w bw) k \<longleftrightarrow> k < 32 \<and> k < bw \<and> bit w (bw - 1 - k)"
proof -
  have "bit (bit_rev w bw) k \<longleftrightarrow> k < 32 \<and> k < bw \<and> bw - 1 - k < bw \<and> bit w (bw - 1 - k)"
    unfolding bit_rev_def using bit_rev_loop [of bw bw w] by blast
  then show ?thesis by auto
qed

lemma bit_rev_bit_rev: "bit_rev (bit_rev w 32) 32 = w"
  by (rule bit_word_eqI) (auto simp: bit_bit_rev)

section \<open>The reflected step is linear and injective\<close>

lemma refl_step_bit: "refl_step p c = (if bit c 0 then p XOR drop_bit 1 c else drop_bit 1 c)"
  by (simp only: refl_step_def and_one_bit)

lemma refl_step_xor: "refl_step p (a XOR b) = refl_step p a XOR refl_step p b"
  by (cases "bit a 0"; cases "bit b 0")
    (simp_all add: refl_step_bit bit_xor_iff drop_bit_xor xor.assoc xor.left_commute)

lemma refl_steps_xor: "(refl_step p ^^ n) (a XOR b) = (refl_step p ^^ n) a XOR (refl_step p ^^ n) b"
  by (induction n) (simp_all add: refl_step_xor)

lemma refl_step_push:
  fixes x :: u32
  assumes "\<And>k. bit x k \<Longrightarrow> k + Suc n < 32"
  shows "refl_step p (push_bit (Suc n) x) = push_bit n x"
proof -
  have "\<not> bit (push_bit (Suc n) x) 0" by (simp only: bit_push_bit_iff) simp
  then have "refl_step p (push_bit (Suc n) x) = drop_bit 1 (push_bit (Suc n) x)"
    by (simp add: refl_step_bit)
  also have "\<dots> = push_bit n x"
  proof (rule bit_word_eqI)
    fix k
    show "bit (drop_bit 1 (push_bit (Suc n) x)) k = bit (push_bit n x) k"
      using assms [of "k - n"]
      by (auto simp: bit_drop_bit_eq bit_push_bit_iff simp del: push_bit_Suc)
  qed
  finally show ?thesis .
qed

lemma refl_steps_push:
  fixes x :: u32
  assumes "\<And>k. bit x k \<Longrightarrow> k + n < 32"
  shows "(refl_step p ^^ n) (push_bit n x) = x"
  using assms
proof (induction n)
  case 0
  then show ?case by simp
next
  case (Suc n)
  have "(refl_step p ^^ Suc n) (push_bit (Suc n) x) = (refl_step p ^^ n) (refl_step p (push_bit (Suc n) x))"
    by (simp add: funpow_swap1)
  also have "\<dots> = (refl_step p ^^ n) (push_bit n x)"
    using Suc.prems by (subst refl_step_push) auto
  also have "\<dots> = x" using Suc.prems by (intro Suc.IH) force
  finally show ?case .
qed

lemma xor_left_cancel: "p XOR a = p XOR b \<longleftrightarrow> a = b" for p :: "'a::len word"
proof
  assume "p XOR a = p XOR b"
  then have "p XOR (p XOR a) = p XOR (p XOR b)" by (rule arg_cong)
  then show "a = b" by (simp flip: xor.assoc)
qed simp

lemma refl_step_inj:
  assumes "bit p 31" "refl_step p a = refl_step p (b :: u32)"
  shows "a = b"
proof -
  have "bit (refl_step p c) 31 \<longleftrightarrow> bit c 0" for c :: u32
    using assms(1) by (auto simp: refl_step_bit bit_simps dest: bit_imp_le_length)
  then have lo: "bit a 0 = bit b 0" using assms(2) by metis
  then have "drop_bit 1 a = drop_bit 1 b"
    using assms(2) by (cases "bit b 0") (simp_all add: refl_step_bit xor_left_cancel)
  then have "bit a (Suc k) = bit b (Suc k)" for k
    by (metis One_nat_def bit_drop_bit_eq plus_1_eq_Suc comp_apply)
  with lo show ?thesis by (intro bit_word_eqI) (metis not0_implies_Suc)
qed

lemma refl_steps_inj:
  "bit p 31 \<Longrightarrow> (refl_step p ^^ n) a = (refl_step p ^^ n) (b :: u32) \<Longrightarrow> a = b"
  by (induction n) (auto dest: refl_step_inj)

section \<open>The table-driven CRC-32 computes the bit-serial remainder\<close>

lemma crc32_init_table_nth:
  "crc32_init_table poly ! unat (b :: u8) = (refl_step (bit_rev poly 32) ^^ 8) (ucast b)"
  using unat_u8_lt [of b] by (simp add: crc32_init_table_def of_nat_unat)

lemma byte_split32: "(c :: u32) = ucast (ucast c :: u8) XOR push_bit 8 (drop_bit 8 c)"
proof (rule bit_word_eqI)
  fix k assume "k < LENGTH(32)"
  then show "bit c k = bit (ucast (ucast c :: u8) XOR push_bit 8 (drop_bit 8 c)) k"
    by (cases "k < 8") (auto simp: bit_simps)
qed

lemma drop_byte32: "drop_bit 8 (c XOR ucast (b :: u8)) = drop_bit 8 (c :: u32)"
  by (rule bit_word_eqI) (auto simp: bit_simps dest: bit_imp_le_length)

lemma refl_steps_byte:
  "(refl_step p ^^ 8) (c :: u32) = (refl_step p ^^ 8) (ucast (ucast c :: u8)) XOR drop_bit 8 c"
proof -
  have "(refl_step p ^^ 8) c
      = (refl_step p ^^ 8) (ucast (ucast c :: u8) XOR push_bit 8 (drop_bit 8 c))"
    using byte_split32 [of c] by (rule arg_cong)
  also have "\<dots> = (refl_step p ^^ 8) (ucast (ucast c :: u8)) XOR (refl_step p ^^ 8) (push_bit 8 (drop_bit 8 c))"
    by (rule refl_steps_xor)
  also have "(refl_step p ^^ 8) (push_bit 8 (drop_bit 8 c)) = drop_bit 8 c"
    by (rule refl_steps_push) (auto simp: bit_drop_bit_eq dest: bit_imp_le_length)
  finally show ?thesis .
qed

lemma crc32_round_serial:
  "crc32_round (crc32_init_table poly) b crc = (refl_step (bit_rev poly 32) ^^ 8) (crc XOR ucast b)"
  unfolding crc32_round_def crc32_init_table_nth
  by (subst (2) refl_steps_byte) (simp only: drop_byte32)

lemma crc32_fold_serial:
  "fold (crc32_round (crc32_init_table poly)) bs c = crc32_serial (bit_rev poly 32) bs c"
proof -
  have "crc32_round (crc32_init_table poly) = (\<lambda>b crc. (refl_step (bit_rev poly 32) ^^ 8) (crc XOR ucast b))"
    by (intro ext) (rule crc32_round_serial)
  then show ?thesis by (simp only: crc32_serial_def)
qed

lemma mcs_crc32_table_eq: "crc32_table = CRC32_table"
  by (simp add: crc32_table_def CRC32_table_def mcs_init_crc32_table_def crc32_init_table_def
      mcs_bit_rev_eq MCS_CRC_32_POLY_def poly_32_def)

lemma crc32_lookup_serial:
  "crc32_lookup_table d = crc32_serial (bit_rev poly_32 32) d 0xFFFFFFFF XOR 0xFFFFFFFF"
  by (simp only: crc32_lookup_table_def CRC32_table_def crc32_fold_serial)

lemma bit_poly_32_rev: "bit (bit_rev poly_32 32) 31"
  by (simp add: bit_bit_rev poly_32_def)

section \<open>Burst detection\<close>

text \<open>The bytes a window contributes to the register, first byte lowest.\<close>

fun pack_le :: "u8 list \<Rightarrow> u32" where
  "pack_le [] = 0"
| "pack_le (b # bs) = ucast b XOR push_bit 8 (pack_le bs)"

lemma pack_le_bits: "bit (pack_le bs) k \<Longrightarrow> k < 8 * length bs"
proof (induction bs arbitrary: k)
  case Nil
  then show ?case by simp
next
  case (Cons b bs)
  then have "bit (ucast b :: u32) k \<or> 8 \<le> k \<and> bit (pack_le bs) (k - 8)"
    by (auto simp: bit_xor_iff bit_push_bit_iff)
  then show ?case
    using Cons.IH [of "k - 8"] by (auto simp: bit_simps dest: bit_imp_le_length)
qed

lemma pack_le_inj:
  "length u = length v \<Longrightarrow> length u \<le> 4 \<Longrightarrow> pack_le u = pack_le v \<Longrightarrow> u = v"
proof (induction u v rule: list_induct2)
  case Nil
  then show ?case by simp
next
  case (Cons a u b v)
  have low: "ucast (ucast c XOR push_bit 8 x :: u32) = c" for c :: u8 and x
    by (rule bit_word_eqI) (simp add: bit_simps)
  have high: "drop_bit 8 (ucast c XOR push_bit 8 (pack_le w)) = pack_le w" if "length w \<le> 3" for c :: u8 and w
  proof (rule bit_word_eqI)
    fix k assume "k < LENGTH(32)"
    show "bit (drop_bit 8 (ucast c XOR push_bit 8 (pack_le w))) k = bit (pack_le w) k"
      using pack_le_bits [of w k] that by (auto simp: bit_simps dest: bit_imp_le_length)
  qed
  have "a = b" using Cons.prems(2) low by (metis pack_le.simps(2))
  moreover have "pack_le u = pack_le v"
    using Cons.prems Cons.hyps high [of u a] high [of v b] by simp
  ultimately show ?case using Cons.IH Cons.prems(1) by simp
qed

lemma crc32_serial_window:
  "length bs \<le> 4 \<Longrightarrow> crc32_serial p bs c = (refl_step p ^^ (8 * length bs)) (c XOR pack_le bs)"
proof (induction bs arbitrary: c)
  case Nil
  then show ?case by (simp add: crc32_serial_def)
next
  case (Cons b bs)
  let ?c = "(refl_step p ^^ 8) (c XOR ucast b)"
  have "(refl_step p ^^ 8) (push_bit 8 (pack_le bs)) = pack_le bs"
    using Cons.prems pack_le_bits [of bs] by (intro refl_steps_push) force
  then have win: "?c XOR pack_le bs = (refl_step p ^^ 8) (c XOR pack_le (b # bs))"
    by (simp add: refl_steps_xor xor.assoc)
  have "crc32_serial p (b # bs) c = crc32_serial p bs ?c"
    by (simp add: crc32_serial_def)
  also have "\<dots> = (refl_step p ^^ (8 * length bs)) (?c XOR pack_le bs)"
    using Cons by simp
  also have "\<dots> = (refl_step p ^^ (8 * length bs + 8)) (c XOR pack_le (b # bs))"
    by (simp only: win funpow_add comp_apply)
  finally show ?case by (simp add: add.commute)
qed

lemma crc32_serial_append: "crc32_serial p (xs @ ys) c = crc32_serial p ys (crc32_serial p xs c)"
  by (simp add: crc32_serial_def)

lemma crc32_serial_inj:
  "bit p 31 \<Longrightarrow> crc32_serial p bs a = crc32_serial p bs b \<Longrightarrow> a = b"
proof (induction bs arbitrary: a b)
  case Nil
  then show ?case by (simp add: crc32_serial_def)
next
  case (Cons x bs)
  then have "(refl_step p ^^ 8) (a XOR ucast x) = (refl_step p ^^ 8) (b XOR ucast x)"
    by (auto simp: crc32_serial_def)
  then have "a XOR ucast x = b XOR ucast x" by (rule refl_steps_inj [OF Cons.prems(1)])
  then show ?case by (simp add: xor.commute [of _ "ucast x"] xor_left_cancel)
qed

lemma crc32_serial_burst:
  assumes p: "bit p 31" and len: "length u = length v" "length u \<le> 4"
    and eq: "crc32_serial p (xs @ u @ ys) c = crc32_serial p (xs @ v @ ys) c"
  shows "u = v"
proof -
  let ?c = "crc32_serial p xs c"
  have "crc32_serial p u ?c = crc32_serial p v ?c"
    using eq crc32_serial_inj [OF p] by (simp only: crc32_serial_append)
  then have "?c XOR pack_le u = ?c XOR pack_le v"
    using len refl_steps_inj [OF p] by (simp add: crc32_serial_window)
  then show ?thesis using pack_le_inj len by (simp add: xor_left_cancel)
qed

text \<open>A message followed by its own CRC-32, lowest byte first, leaves the same remainder whatever the message is.\<close>

lemma pack_le_le32: "pack_le (le32 w) = w"
  by (rule bit_word_eqI) (auto simp: le32_def bit_simps)

lemma crc32_serial_self: "crc32_serial p (le32 (s XOR x)) s = (refl_step p ^^ 32) x"
  by (simp add: crc32_serial_window pack_le_le32 flip: xor.assoc)

section \<open>CRC-8\<close>

lemma and_x80_bit: "(c AND 0x80 \<noteq> 0) \<longleftrightarrow> bit (c :: 'a::len word) 7"
  using bit_iff_and_push_bit_not_eq_0 [of c 7] by simp

lemma bit_shift1: "bit (w * 2) n \<longleftrightarrow> 0 < n \<and> n < LENGTH('a) \<and> bit w (n - 1)" for w :: "'a::len word"
  using bit_push_bit_iff [of 1 w n] by auto

lemma msb_step8_bit: "msb_step8 gx c = (if bit c 7 then push_bit 1 c XOR gx else push_bit 1 c)"
  by (simp only: msb_step8_def and_x80_bit)

text \<open>Shifting left in a 32-bit register and truncating is the 8-bit step.\<close>

lemma ucast_msb_steps:
  fixes v :: u32 and p :: u32
  shows "(ucast (((\<lambda>v. if v AND 0x80 \<noteq> 0 then push_bit 1 v XOR p else push_bit 1 v) ^^ n) v) :: u8)
       = (msb_step8 (ucast p) ^^ n) (ucast v)"
proof (induction n)
  case 0
  then show ?case by simp
next
  case (Suc n)
  have "(ucast (if w AND 0x80 \<noteq> 0 then push_bit 1 w XOR p else push_bit 1 w) :: u8)
      = msb_step8 (ucast p) (ucast w)" for w :: u32
    unfolding and_x80_bit msb_step8_bit
    by (rule bit_word_eqI) (auto simp: bit_simps bit_shift1)
  with Suc show ?case by simp
qed

lemma mcs_init_crc8_table_nth:
  "mcs_init_crc8_table p ! unat (b :: u8) = (msb_step8 (ucast p) ^^ 8) b"
proof -
  have "mcs_init_crc8_table p ! unat b = (msb_step8 (ucast p) ^^ 8) (ucast (of_nat (unat b) :: u32))"
    using unat_u8_lt [of b] by (simp add: mcs_init_crc8_table_def ucast_msb_steps del: funpow.simps)
  moreover have "ucast (ucast b :: u32) = b"
    by (rule bit_word_eqI) (auto simp: bit_simps)
  ultimately show ?thesis by simp
qed

definition crc8_serial :: "u8 \<Rightarrow> u8 list \<Rightarrow> u8 \<Rightarrow> u8" where
  "crc8_serial p = fold (\<lambda>b crc. (msb_step8 p ^^ 8) (crc XOR b))"

lemma mcs_get_crc8_serial: "mcs_get_crc8 d = crc8_serial 0xD5 d 0"
  by (simp add: mcs_get_crc8_def crc8_serial_def crc8_table_def mcs_init_crc8_table_nth
      MCS_CRC_8_POLY_def del: funpow.simps)

lemma calc_CRC8_serial: "calc_CRC8 d = crc8_serial 0x31 d 0"
  by (simp add: calc_CRC8_def crc8_serial_def)

lemma calc_crc8_serial: "calc_crc8 d = crc8_serial 0xC5 d 0"
proof -
  have "(ucast (fold (\<lambda>b crc. (msb_step32 0x80 0xC5 ^^ 8) (crc XOR ucast b)) d c) :: u8)
      = fold (\<lambda>b crc. (msb_step8 0xC5 ^^ 8) (crc XOR b)) d (ucast c)" for c
  proof (induction d arbitrary: c)
    case (Cons b d)
    have "(ucast ((msb_step32 0x80 0xC5 ^^ 8) v) :: u8) = (msb_step8 0xC5 ^^ 8) (ucast v)" for v :: u32
      unfolding msb_step32_def by (subst ucast_msb_steps) simp
    moreover have "ucast (c XOR ucast b) = (ucast c XOR b :: u8)"
      by (rule bit_word_eqI) (auto simp: bit_simps)
    ultimately show ?case using Cons by (simp del: funpow.simps)
  qed simp
  then show ?thesis by (simp add: calc_crc8_def crc8_serial_def)
qed

lemma msb_step8_inj:
  assumes "bit p 0" "msb_step8 p a = msb_step8 p b"
  shows "a = b"
proof -
  have "bit (msb_step8 p c) 0 \<longleftrightarrow> bit c 7" for c
    using assms(1) by (auto simp: msb_step8_bit bit_xor_iff bit_shift1)
  then have hi: "bit a 7 = bit b 7" using assms(2) by metis
  then have "push_bit 1 a = push_bit 1 b"
    using assms(2) by (cases "bit b 7")
      (simp_all add: msb_step8_bit xor.commute [of _ p] xor_left_cancel)
  then have low: "bit a k = bit b k" if "k < 7" for k
  proof -
    have "bit (a * 2) (Suc k) = bit (b * 2) (Suc k)"
      using \<open>push_bit 1 a = push_bit 1 b\<close> by simp
    with that show ?thesis by (simp add: bit_shift1)
  qed
  show ?thesis
  proof (rule bit_word_eqI)
    fix k assume "k < LENGTH(8)"
    then have "k < 7 \<or> k = 7" by auto
    then show "bit a k = bit b k" using low hi by auto
  qed
qed

lemma msb_steps8_inj: "bit p 0 \<Longrightarrow> (msb_step8 p ^^ n) a = (msb_step8 p ^^ n) b \<Longrightarrow> a = b"
  by (induction n) (auto dest: msb_step8_inj)

lemma crc8_serial_inj: "bit p 0 \<Longrightarrow> crc8_serial p d a = crc8_serial p d b \<Longrightarrow> a = b"
proof (induction d arbitrary: a b)
  case Nil
  then show ?case by (simp add: crc8_serial_def)
next
  case (Cons x d)
  then have "(msb_step8 p ^^ 8) (a XOR x) = (msb_step8 p ^^ 8) (b XOR x)"
    by (auto simp: crc8_serial_def)
  then have "a XOR x = b XOR x" by (rule msb_steps8_inj [OF Cons.prems(1)])
  then show ?case by (simp add: xor.commute [of _ x] xor_left_cancel)
qed

lemma crc8_serial_byte:
  assumes "bit p 0" "crc8_serial p (xs @ a # ys) c = crc8_serial p (xs @ b # ys) c"
  shows "a = b"
proof -
  let ?c = "crc8_serial p xs c"
  have app: "crc8_serial p (xs @ z # ys) c = crc8_serial p ys ((msb_step8 p ^^ 8) (?c XOR z))" for z
    by (simp add: crc8_serial_def)
  have "(msb_step8 p ^^ 8) (?c XOR a) = (msb_step8 p ^^ 8) (?c XOR b)"
    using assms(2) crc8_serial_inj [OF assms(1)] by (simp only: app)
  then have "?c XOR a = ?c XOR b" by (rule msb_steps8_inj [OF assms(1)])
  then show ?thesis by (simp add: xor_left_cancel)
qed

lemma crc8_lookup_table_fold:
  "crc8_lookup_table d = fold (\<lambda>b crc. CRC8_table ! unat (crc XOR b)) d 0"
proof -
  have "(ucast (fold (\<lambda>b crc. push_bit 8 crc XOR ucast (CRC8_table ! unat (ucast crc XOR b :: u8))) d (c :: u32)) :: u8)
      = fold (\<lambda>b crc. CRC8_table ! unat (crc XOR b)) d (ucast c)" for c
  proof (induction d arbitrary: c)
    case (Cons b d)
    have "(ucast (push_bit 8 c XOR ucast (t :: u8)) :: u8) = t" for t
      by (rule bit_word_eqI) (auto simp: bit_simps)
    with Cons show ?case by simp
  qed simp
  from this [of 0] show ?thesis by (simp add: crc8_lookup_table_def)
qed

section \<open>Segmented CRC-32\<close>

lemma mcs_get_crc32_append:
  "xs \<noteq> [] \<Longrightarrow> ys \<noteq> [] \<Longrightarrow> mcs_get_crc32 (xs @ ys) c = mcs_get_crc32 ys (mcs_get_crc32 xs c)"
  by (simp add: mcs_get_crc32_def)

lemma mcs_get_crc32_lookup:
  "d \<noteq> [] \<Longrightarrow> crc32_lookup_table d = mcs_get_crc32 d 0xFFFFFFFF XOR 0xFFFFFFFF"
  by (simp add: mcs_get_crc32_def crc32_lookup_table_def mcs_crc32_table_eq)

section \<open>Properties\<close>

text \<open>C25: the table-driven CRC-32 of \<open>crc32_lookup_table\<close> is the bit-serial remainder of the
  reflected generator polynomial, started and finished with the all-ones register.\<close>

theorem crc32_lookup_table_is_serial:
  "crc32_lookup_table d
   = fold (\<lambda>b crc. (refl_step 0xEDB88320 ^^ 8) (crc XOR ucast b)) d 0xFFFFFFFF XOR 0xFFFFFFFF"
proof -
  have "bit_rev poly_32 32 = 0xEDB88320" by code_simp
  then show ?thesis by (simp only: crc32_lookup_serial crc32_serial_def)
qed

lemma crc32_residue:
  "crc32_lookup_table (d @ le32 (crc32_lookup_table d)) = (refl_step (bit_rev poly_32 32) ^^ 32) 0xFFFFFFFF XOR 0xFFFFFFFF"
  by (simp only: crc32_lookup_serial crc32_serial_append crc32_serial_self)

lemma crc32_burst_differs:
  assumes "length u = length v" "length v \<le> 4" "u \<noteq> v"
  shows "crc32_lookup_table (xs @ u @ ys) \<noteq> crc32_lookup_table (xs @ v @ ys)"
  using crc32_serial_burst [OF bit_poly_32_rev assms(1)] assms(2,3)
  by (auto simp: assms(1) crc32_lookup_serial xor.commute [of _ "0xFFFFFFFF"] xor_left_cancel)

lemma crc8_byte_differs:
  assumes "a \<noteq> b"
  shows "mcs_get_crc8 (xs @ a # ys) \<noteq> mcs_get_crc8 (xs @ b # ys)"
proof
  have p: "bit (0xD5 :: u8) 0" by simp
  assume "mcs_get_crc8 (xs @ a # ys) = mcs_get_crc8 (xs @ b # ys)"
  then have "a = b" unfolding mcs_get_crc8_serial by (rule crc8_serial_byte [OF p])
  with assms show False ..
qed

text \<open>C26: two messages that differ only inside a window of at most four consecutive bytes never
  have the same CRC-32: every error burst of up to 32 bits is detected.\<close>

theorem crc32_detects_burst:
  assumes "length u = length v" "length v \<le> 4" "u \<noteq> v"
  shows "crc32_lookup_table (xs @ u @ ys) \<noteq> crc32_lookup_table (xs @ v @ ys)"
  by (rule crc32_burst_differs [OF assms])

theorem crc32_detects_burst_witness:
  "crc32_lookup_table ([0x45, 1] @ [7, 8, 9] @ [0]) \<noteq> crc32_lookup_table ([0x45, 1] @ [7, 0, 1] @ [0])"
  by (rule crc32_detects_burst) simp_all

text \<open>Computing the CRC-32 of a message segment by segment with \<open>mcs_get_crc32\<close>, as its
  comment prescribes, gives the CRC-32 \<open>crc32_lookup_table\<close> computes in one go.\<close>

theorem mcs_get_crc32_segments:
  assumes "xs \<noteq> []" "ys \<noteq> []"
  shows "mcs_get_crc32 ys (mcs_get_crc32 xs 0xFFFFFFFF) XOR 0xFFFFFFFF = crc32_lookup_table (xs @ ys)"
  using assms mcs_get_crc32_append [of xs ys] mcs_get_crc32_lookup [of "xs @ ys"] by simp

theorem mcs_get_crc32_segments_witness:
  "mcs_get_crc32 [3] (mcs_get_crc32 [1, 2] 0xFFFFFFFF) XOR 0xFFFFFFFF = crc32_lookup_table ([1, 2] @ [3])"
  by (rule mcs_get_crc32_segments) simp_all

text \<open>C27: the CRC-8 of the BBFRAME header changes whenever one byte of the header changes.\<close>

theorem mcs_get_crc8_detects_byte:
  assumes "a \<noteq> b"
  shows "mcs_get_crc8 (xs @ a # ys) \<noteq> mcs_get_crc8 (xs @ b # ys)"
  by (rule crc8_byte_differs [OF assms])

theorem mcs_get_crc8_detects_byte_witness:
  "mcs_get_crc8 ([0x72, 0] @ 5 # [0, 1]) \<noteq> mcs_get_crc8 ([0x72, 0] @ 6 # [0, 1])"
  by (rule mcs_get_crc8_detects_byte) simp

end
