(* ===== verification/CircularQueue.thy ===== *)
theory CircularQueue
  imports Prelude
begin

text \<open>
  The circular queue of \<open>src/circular_queue.c\<close>: a buffer of 16-bit items with head and tail
  indices, used as the FIFO of fragment IDs of an encapsulation channel.  \<open>Head\<close> and \<open>Tail\<close> are
  C \<open>int\<close>s that the code compares and reduces as unsigned, so they are kept as 32-bit words with
  \<open>-1\<close> for "empty".  The last section states the bounded FIFO contract as a locale and proves
  that the queue implements it below its capacity.
\<close>

section \<open>State\<close>

record CIRCULAR_QUEUE =
  QueueSize :: u32
  QueueMaxSize :: u32
  Head :: u32
  Tail :: u32
  pQueueStart :: "u16 list"

definition POINT_ERROR :: int where "POINT_ERROR = -128"
definition SIZE_ERROR :: int where "SIZE_ERROR = -1"

section \<open>Operations\<close>

text \<open>\<open>malloc_ok\<close> says whether the allocation of the buffer succeeded.\<close>

definition InitCircleQueue :: "bool \<Rightarrow> u32 \<Rightarrow> CIRCULAR_QUEUE outcome" where
  "InitCircleQueue malloc_ok nSize =
     (if malloc_ok
      then Inr \<lparr>QueueSize = 0, QueueMaxSize = nSize, Head = -1, Tail = -1,
                pQueueStart = replicate (unat nSize) 0\<rparr>
      else Inl NullDeref)"

definition IsFull :: "CIRCULAR_QUEUE \<Rightarrow> bool \<times> CIRCULAR_QUEUE" where
  "IsFull q = (if QueueMaxSize q \<le> QueueSize q
               then (True, q\<lparr>QueueSize := QueueMaxSize q\<rparr>) else (False, q))"

definition IsEmpty :: "CIRCULAR_QUEUE \<Rightarrow> bool" where
  "IsEmpty q = (QueueSize q = 0)"

definition store_tail :: "CIRCULAR_QUEUE \<Rightarrow> u16 \<Rightarrow> CIRCULAR_QUEUE outcome" where
  "store_tail q d =
     bind_ok (store_at (pQueueStart q) (unat (Tail q)) d) (\<lambda>b. Inr (q\<lparr>pQueueStart := b\<rparr>))"

definition push_not_full :: "CIRCULAR_QUEUE \<Rightarrow> CIRCULAR_QUEUE" where
  "push_not_full q =
     (let q1 = (if Head q = -1 then q\<lparr>Head := (Head q + 1) mod QueueMaxSize q\<rparr> else q);
          q2 = q1\<lparr>Tail := Tail q1 + 1\<rparr>;
          q3 = (if QueueMaxSize q2 \<le> Tail q2 then q2\<lparr>Tail := 0\<rparr> else q2)
      in q3\<lparr>QueueSize := QueueSize q3 + 1\<rparr>)"

definition push_full :: "CIRCULAR_QUEUE \<Rightarrow> CIRCULAR_QUEUE" where
  "push_full q =
     (let q1 = q\<lparr>Head := Head q + 1, Tail := Tail q + 1\<rparr>
      in if QueueMaxSize q1 \<le> Tail q1 then q1\<lparr>Head := 1, Tail := 0\<rparr>
         else q1\<lparr>Head := Head q1 + 1, Tail := Tail q1 + 1\<rparr>)"

definition Push :: "CIRCULAR_QUEUE \<Rightarrow> u16 \<Rightarrow> CIRCULAR_QUEUE outcome" where
  "Push q d = (case IsFull q of
       (False, q') \<Rightarrow> store_tail (push_not_full q') d
     | (True, q') \<Rightarrow> store_tail (push_full q') d)"

definition Pop :: "CIRCULAR_QUEUE \<Rightarrow> CIRCULAR_QUEUE" where
  "Pop q =
     (if \<not> IsEmpty q
      then let q1 = q\<lparr>QueueSize := QueueSize q - 1\<rparr>
           in if 0 < QueueSize q1
              then let q2 = q1\<lparr>Head := Head q1 + 1\<rparr>
                   in if QueueMaxSize q2 \<le> Head q2 then q2\<lparr>Head := 0\<rparr> else q2
              else q1\<lparr>Head := -1, Tail := -1\<rparr>
      else q\<lparr>Head := -1, Tail := -1\<rparr>)"

definition Clear :: "CIRCULAR_QUEUE \<Rightarrow> CIRCULAR_QUEUE" where
  "Clear q = q\<lparr>pQueueStart := replicate (unat (QueueMaxSize q)) 0, QueueSize := 0,
               Head := -1, Tail := -1\<rparr>"

definition GetSize :: "CIRCULAR_QUEUE \<Rightarrow> u32" where
  "GetSize q = QueueSize q"

text \<open>\<open>GetElement\<close> returns the slot's address; the model returns its index, \<open>None\<close> for NULL.\<close>

definition GetElement :: "CIRCULAR_QUEUE \<Rightarrow> u32 \<Rightarrow> nat option" where
  "GetElement q pos =
     (if 0 < QueueMaxSize q \<and> pos \<le> QueueMaxSize q
      then Some (unat ((Head q + pos) mod QueueMaxSize q)) else None)"

definition SetElement :: "CIRCULAR_QUEUE \<Rightarrow> u32 \<Rightarrow> u16 \<Rightarrow> CIRCULAR_QUEUE outcome" where
  "SetElement q pos d =
     (if pos \<le> QueueMaxSize q
      then if QueueMaxSize q = 0 then Inl DivByZero
           else bind_ok (store_at (pQueueStart q) (unat ((Head q + pos) mod QueueMaxSize q)) d)
                  (\<lambda>b. Inr (q\<lparr>pQueueStart := b\<rparr>))
      else Inr q)"

text \<open>\<open>TraverseQueue\<close> walks the items and changes nothing; the indices it computes:\<close>

definition TraverseQueue :: "CIRCULAR_QUEUE \<Rightarrow> nat list" where
  "TraverseQueue q =
     map (\<lambda>pos. unat ((Head q + of_nat pos) mod QueueMaxSize q)) [0..<unat (QueueSize q)]"

text \<open>The exported functions take a pointer, which may be NULL.\<close>

definition Push_p :: "CIRCULAR_QUEUE option \<Rightarrow> u16 \<Rightarrow> (int \<times> CIRCULAR_QUEUE option) outcome" where
  "Push_p p d = (case p of None \<Rightarrow> Inr (POINT_ERROR, None)
     | Some q \<Rightarrow> bind_ok (Push q d) (\<lambda>q'. Inr (0, Some q')))"

definition Pop_p :: "CIRCULAR_QUEUE option \<Rightarrow> CIRCULAR_QUEUE option" where
  "Pop_p p = map_option Pop p"

definition GetSize_p :: "CIRCULAR_QUEUE option \<Rightarrow> int" where
  "GetSize_p p = (case p of None \<Rightarrow> -1 | Some q \<Rightarrow> sint (GetSize q))"

section \<open>Well-formed queues and their contents\<close>

definition cq_wf :: "CIRCULAR_QUEUE \<Rightarrow> bool" where
  "cq_wf q \<longleftrightarrow> 0 < unat (QueueMaxSize q) \<and> unat (QueueMaxSize q) < 2 ^ 31
     \<and> length (pQueueStart q) = unat (QueueMaxSize q)
     \<and> unat (QueueSize q) \<le> unat (QueueMaxSize q)
     \<and> (if QueueSize q = 0 then Head q = -1 \<and> Tail q = -1
        else unat (Head q) < unat (QueueMaxSize q)
           \<and> unat (Tail q) = (unat (Head q) + unat (QueueSize q) - 1) mod unat (QueueMaxSize q))"

definition slot :: "CIRCULAR_QUEUE \<Rightarrow> nat \<Rightarrow> nat" where
  "slot q i = (unat (Head q) + i) mod unat (QueueMaxSize q)"

definition cq_list :: "CIRCULAR_QUEUE \<Rightarrow> u16 list" where
  "cq_list q = map (\<lambda>i. pQueueStart q ! slot q i) [0..<unat (QueueSize q)]"

definition cq_cap :: "CIRCULAR_QUEUE \<Rightarrow> nat" where
  "cq_cap q = unat (QueueMaxSize q)"

lemma length_cq_list [simp]: "length (cq_list q) = unat (QueueSize q)"
  by (simp add: cq_list_def)

lemma cq_list_eq_Nil [simp]: "cq_list q = [] \<longleftrightarrow> QueueSize q = 0"
  by (simp add: cq_list_def unat_eq_zero)

lemma nth_cq_list: "i < unat (QueueSize q) \<Longrightarrow> cq_list q ! i = pQueueStart q ! slot q i"
  by (simp add: cq_list_def)

lemma cq_wf_nonempty:
  assumes "cq_wf q" "QueueSize q \<noteq> 0"
  shows "unat (Head q) < unat (QueueMaxSize q)" "unat (Tail q) < unat (QueueMaxSize q)"
    "unat (Tail q) = (unat (Head q) + unat (QueueSize q) - 1) mod unat (QueueMaxSize q)"
    "0 < unat (QueueSize q)" "Head q \<noteq> -1"
proof -
  show h: "unat (Head q) < unat (QueueMaxSize q)" and t:
    "unat (Tail q) = (unat (Head q) + unat (QueueSize q) - 1) mod unat (QueueMaxSize q)"
    using assms by (auto simp: cq_wf_def)
  show "unat (Tail q) < unat (QueueMaxSize q)" using assms(1) t by (simp add: cq_wf_def)
  show "0 < unat (QueueSize q)" using assms(2) by (simp add: unat_gt_0)
  show "Head q \<noteq> -1"
  proof
    assume "Head q = -1"
    then have "unat (Head q) = 2 ^ 32 - 1" by (simp add: unsigned_minus_1_eq_mask mask_eq_exp_minus_1)
    with h assms(1) show False by (simp add: cq_wf_def)
  qed
qed

text \<open>What a push below the capacity does to the indices.\<close>

lemma push_not_full_fields:
  assumes wf: "cq_wf q" and room: "unat (QueueSize q) < unat (QueueMaxSize q)"
  defines "h \<equiv> (if QueueSize q = 0 then 0 else unat (Head q))"
  shows "unat (Head (push_not_full q)) = h"
    "unat (Tail (push_not_full q)) = (h + unat (QueueSize q)) mod unat (QueueMaxSize q)"
    "unat (QueueSize (push_not_full q)) = Suc (unat (QueueSize q))"
    "QueueMaxSize (push_not_full q) = QueueMaxSize q"
    "pQueueStart (push_not_full q) = pQueueStart q"
proof -
  have m: "0 < unat (QueueMaxSize q)" "unat (QueueMaxSize q) < 2 ^ 31"
    using wf by (auto simp: cq_wf_def)
  show "unat (QueueSize (push_not_full q)) = Suc (unat (QueueSize q))"
    using room m by (simp add: push_not_full_def Let_def unat_add_lt)
  show "QueueMaxSize (push_not_full q) = QueueMaxSize q"
    "pQueueStart (push_not_full q) = pQueueStart q"
    by (simp_all add: push_not_full_def Let_def)
  show "unat (Head (push_not_full q)) = h"
    using cq_wf_nonempty [OF wf] wf
    by (auto simp: push_not_full_def Let_def h_def cq_wf_def)
  show "unat (Tail (push_not_full q)) = (h + unat (QueueSize q)) mod unat (QueueMaxSize q)"
  proof (cases "QueueSize q = 0")
    case True
    then have "Tail q = -1" "Head q = -1" using wf by (auto simp: cq_wf_def)
    with True m show ?thesis
      by (simp add: push_not_full_def Let_def h_def word_le_nat_alt)
  next
    case False
    note ne = cq_wf_nonempty [OF wf False]
    have t1: "unat (Tail q + 1) = unat (Tail q) + 1"
      using ne(2) m by (subst unat_add_lt) auto
    have "unat (Tail (push_not_full q)) = (unat (Tail q) + 1) mod unat (QueueMaxSize q)"
      using ne m t1 mod_Suc_wrap [OF ne(2)]
      by (auto simp: push_not_full_def Let_def word_le_nat_alt)
    also have "\<dots> = (unat (Head q) + unat (QueueSize q)) mod unat (QueueMaxSize q)"
      using ne(3,4) by (simp add: mod_Suc_eq)
    finally show ?thesis using False by (simp add: h_def)
  qed
qed

section \<open>The queue below its capacity is a FIFO\<close>

lemma IsFull_room: "unat (QueueSize q) < unat (QueueMaxSize q) \<Longrightarrow> IsFull q = (False, q)"
  by (simp add: IsFull_def word_le_nat_alt)

lemma Push_below_capacity:
  assumes wf: "cq_wf q" and room: "unat (QueueSize q) < unat (QueueMaxSize q)"
  obtains q' where "Push q d = Inr q'" "cq_wf q'" "cq_list q' = cq_list q @ [d]"
    "cq_cap q' = cq_cap q"
proof
  let ?p = "push_not_full q" and ?m = "unat (QueueMaxSize q)" and ?s = "unat (QueueSize q)"
  let ?h = "if QueueSize q = 0 then 0 else unat (Head q)"
  let ?q = "?p\<lparr>pQueueStart := (pQueueStart q)[unat (Tail ?p) := d]\<rparr>"
  note f = push_not_full_fields [OF wf room]
  have m: "0 < ?m" "?m < 2 ^ 31" "length (pQueueStart q) = ?m" using wf by (auto simp: cq_wf_def)
  have h: "?h < ?m" using m cq_wf_nonempty [OF wf] by auto
  have t: "unat (Tail ?p) < ?m" using f(2) m by simp
  show "Push q d = Inr ?q"
    using t m by (simp add: Push_def IsFull_room [OF room] store_tail_def f)
  have ne: "QueueSize ?p \<noteq> 0" using f(3) by (metis nat.distinct(1) unat_0)
  show "cq_wf ?q"
    using f m h room ne by (auto simp: cq_wf_def)
  show "cq_cap ?q = cq_cap q" by (simp add: cq_cap_def f)
  have sl: "slot ?q i = (?h + i) mod ?m" for i by (simp add: slot_def f)
  have len: "length (cq_list ?q) = Suc ?s" by (simp add: f)
  show "cq_list ?q = cq_list q @ [d]"
  proof (rule nth_equalityI)
    show "length (cq_list ?q) = length (cq_list q @ [d])" using len by simp
    fix i assume "i < length (cq_list ?q)"
    then have i: "i < Suc ?s" using len by simp
    have "cq_list ?q ! i = (pQueueStart q)[unat (Tail ?p) := d] ! ((?h + i) mod ?m)"
      using i f(3) by (subst nth_cq_list) (simp_all only: sl CIRCULAR_QUEUE.simps, simp_all)
    also have "\<dots> = (cq_list q @ [d]) ! i"
    proof (cases "i = ?s")
      case True
      then show ?thesis using f(2) m by (simp add: nth_append)
    next
      case False
      with i have lt: "i < ?s" by simp
      then have "QueueSize q \<noteq> 0" by auto
      moreover have "(?h + i) mod ?m \<noteq> (?h + ?s) mod ?m"
        using mod_add_inj [of i ?m ?s ?h] lt room by auto
      ultimately show ?thesis using lt f(2) m
        by (simp add: nth_append nth_cq_list slot_def)
    qed
    finally show "cq_list ?q ! i = (cq_list q @ [d]) ! i" .
  qed
qed

lemma Pop_fields:
  assumes wf: "cq_wf q" and two: "1 < unat (QueueSize q)"
  shows "unat (Head (Pop q)) = (unat (Head q) + 1) mod unat (QueueMaxSize q)"
    "unat (QueueSize (Pop q)) = unat (QueueSize q) - 1"
    "Tail (Pop q) = Tail q" "QueueMaxSize (Pop q) = QueueMaxSize q"
    "pQueueStart (Pop q) = pQueueStart q"
proof -
  have nz: "QueueSize q \<noteq> 0" using two by auto
  note ne = cq_wf_nonempty [OF wf nz]
  have m: "unat (QueueMaxSize q) < 2 ^ 31" using wf by (simp add: cq_wf_def)
  have h1: "unat (Head q + 1) = unat (Head q) + 1" using ne(1) m by (subst unat_add_lt) auto
  have s1: "unat (QueueSize q - 1) = unat (QueueSize q) - 1"
    using two by (subst unat_sub_le) (auto simp: word_le_nat_alt)
  then have pos: "0 < QueueSize q - 1" using two by (simp add: word_less_nat_alt)
  show "unat (Head (Pop q)) = (unat (Head q) + 1) mod unat (QueueMaxSize q)"
    using nz pos h1 mod_Suc_wrap [OF ne(1)]
    by (auto simp: Pop_def IsEmpty_def Let_def word_le_nat_alt)
  show "unat (QueueSize (Pop q)) = unat (QueueSize q) - 1" "Tail (Pop q) = Tail q"
    "QueueMaxSize (Pop q) = QueueMaxSize q" "pQueueStart (Pop q) = pQueueStart q"
    using nz pos s1 by (simp_all add: Pop_def IsEmpty_def Let_def)
qed

lemma Pop_last:
  assumes "unat (QueueSize q) \<le> 1"
  shows "Pop q = q\<lparr>QueueSize := 0, Head := -1, Tail := -1\<rparr>"
proof (cases "QueueSize q = 0")
  case True
  then show ?thesis by (simp add: Pop_def IsEmpty_def)
next
  case False
  with assms have "unat (QueueSize q) = unat (1 :: u32)" by (simp add: unat_eq_zero le_Suc_eq)
  then have "QueueSize q = 1" by (rule unsigned_word_eqI)
  then show ?thesis by (simp add: Pop_def IsEmpty_def Let_def)
qed

lemma cq_wf_empty: "cq_wf q \<Longrightarrow> cq_wf (q\<lparr>QueueSize := 0, Head := -1, Tail := -1\<rparr>)"
  by (simp add: cq_wf_def)

lemma Pop_wf:
  assumes wf: "cq_wf q"
  shows "cq_wf (Pop q)"
proof (cases "1 < unat (QueueSize q)")
  case False
  then show ?thesis using wf by (simp add: Pop_last cq_wf_empty)
next
  case True
  then have nz: "QueueSize q \<noteq> 0" by auto
  note f = Pop_fields [OF wf True] and ne = cq_wf_nonempty [OF wf nz]
  let ?m = "unat (QueueMaxSize q)" and ?s = "unat (QueueSize q)" and ?h = "unat (Head q)"
  have "QueueSize (Pop q) \<noteq> 0" using f(2) True by (metis not_gr0 unat_0 zero_less_diff)
  moreover have "((?h + 1) mod ?m + (?s - 1) - 1) mod ?m = (?h + ?s - 1) mod ?m"
  proof -
    have "?h + 1 + (?s - 2) = ?h + ?s - 1"
      and "(?h + 1) mod ?m + (?s - 1) - 1 = (?h + 1) mod ?m + (?s - 2)" using True by simp_all
    then show ?thesis by (simp only: mod_add_left_eq)
  qed
  ultimately show ?thesis
    using wf f ne True by (auto simp: cq_wf_def)
qed

lemma Pop_list:
  assumes wf: "cq_wf q"
  shows "cq_list (Pop q) = tl (cq_list q)"
proof (cases "1 < unat (QueueSize q)")
  case False
  then have "length (cq_list (Pop q)) = 0" "length (tl (cq_list q)) = 0"
    by (simp_all add: Pop_last)
  then show ?thesis by (metis length_0_conv)
next
  case True
  note f = Pop_fields [OF wf True]
  show ?thesis
  proof (rule nth_equalityI)
    show "length (cq_list (Pop q)) = length (tl (cq_list q))" using f(2) by simp
    fix i assume "i < length (cq_list (Pop q))"
    then have i: "i < unat (QueueSize q) - 1" using f(2) by simp
    have "slot (Pop q) i = slot q (Suc i)"
      by (simp only: slot_def f(1,4) mod_add_left_eq) simp
    then show "cq_list (Pop q) ! i = tl (cq_list q) ! i"
      using i f(2,5) by (simp add: nth_cq_list nth_tl)
  qed
qed

lemma Pop_cap: "cq_cap (Pop q) = cq_cap q"
  by (simp add: cq_cap_def Pop_def Let_def)

lemma InitCircleQueue_ok:
  assumes "0 < n" "unat n < 2 ^ 31" "InitCircleQueue True n = Inr q"
  shows "cq_wf q" "cq_list q = []" "cq_cap q = unat n"
  using assms by (auto simp: InitCircleQueue_def cq_wf_def cq_cap_def cq_list_def word_less_nat_alt)

section \<open>Access to the head slot\<close>

text \<open>The head item as \<open>get_fragmentID\<close> reads it: \<open>None\<close> for a NULL address.\<close>

definition front :: "CIRCULAR_QUEUE \<Rightarrow> u16 option" where
  "front q = (case GetElement q 0 of None \<Rightarrow> None
     | Some i \<Rightarrow> (if i < length (pQueueStart q) then Some (pQueueStart q ! i) else None))"

lemma front_nonempty:
  assumes "cq_wf q" "cq_list q \<noteq> []"
  shows "front q = Some (hd (cq_list q))"
proof -
  have s: "0 < unat (QueueSize q)" "QueueSize q \<noteq> 0"
    using assms(2) by (simp_all add: unat_gt_0)
  note ne = cq_wf_nonempty [OF assms(1) s(2)]
  have "hd (cq_list q) = pQueueStart q ! unat (Head q)"
    using s nth_cq_list [of 0 q] assms(2) ne(1) by (simp add: hd_conv_nth slot_def)
  then show ?thesis
    using assms(1) ne(1) by (auto simp: front_def GetElement_def cq_wf_def unat_mod word_less_nat_alt)
qed

text \<open>
  On an empty queue the head slot the C code reads is the one before index 0, that is the last
  slot of the buffer, because \<open>-1\<close> is reduced as an unsigned number.
\<close>

lemma GetElement_empty_slot:
  assumes "cq_wf q" "cq_list q = []"
  shows "GetElement q 0 = Some ((2 ^ 32 - 1) mod cq_cap q)"
proof -
  have "QueueSize q = 0" using assms(2) by simp
  then have "Head q = -1" using assms(1) by (simp add: cq_wf_def)
  then show ?thesis
    using assms(1) by (simp add: GetElement_def cq_wf_def cq_cap_def word_less_nat_alt unat_mod
        unsigned_minus_1_eq_mask mask_eq_exp_minus_1)
qed

text \<open>Overwriting the head item, as \<open>fetch_pdu_fragment\<close> does before it pops it.\<close>

lemma SetElement_head:
  assumes wf: "cq_wf q" and ne: "cq_list q \<noteq> []"
  shows "\<exists>q'. SetElement q 0 d = Inr q' \<and> cq_wf q' \<and> cq_list q' = d # tl (cq_list q) \<and> cq_cap q' = cq_cap q"
proof -
  let ?m = "unat (QueueMaxSize q)" and ?h = "unat (Head q)"
  have nz: "QueueSize q \<noteq> 0" using ne by simp
  note f = cq_wf_nonempty [OF wf nz]
  have b: "length (pQueueStart q) = ?m" "0 < ?m" "unat (QueueSize q) \<le> ?m"
    using wf by (auto simp: cq_wf_def)
  let ?q = "q\<lparr>pQueueStart := (pQueueStart q)[?h := d]\<rparr>"
  have "SetElement q 0 d = Inr ?q"
    using f(1) b by (auto simp: SetElement_def unat_mod)
  moreover have "cq_wf ?q" using wf by (simp add: cq_wf_def)
  moreover have "cq_list ?q = d # tl (cq_list q)"
  proof (rule nth_equalityI)
    show "length (cq_list ?q) = length (d # tl (cq_list q))" using f(4) by simp
    fix i assume "i < length (cq_list ?q)"
    then have i: "i < unat (QueueSize q)" by simp
    have "slot ?q i = slot q i" by (simp add: slot_def)
    moreover have "slot q i \<noteq> ?h" if "0 < i"
      using mod_add_inj [of i ?m 0 ?h] i b f(1) that by (auto simp: slot_def)
    moreover have "slot q 0 = ?h" using f(1) by (simp add: slot_def)
    ultimately show "cq_list ?q ! i = (d # tl (cq_list q)) ! i"
      using i f(1) b by (cases i) (simp_all add: nth_cq_list nth_tl)
  qed
  moreover have "cq_cap ?q = cq_cap q" by (simp add: cq_cap_def)
  ultimately show ?thesis by blast
qed

section \<open>The bounded FIFO contract\<close>

text \<open>
  What the fragmenter relies on: a push below the capacity appends, a pop drops the first item,
  and the front is the first item.  \<open>fifo_run\<close> is what a list of at most \<open>n\<close> items answers to
  pushes and pops in any order: the items popped and the items left.  A pop of an empty list
  takes nothing; a push onto a full one is outside the contract.
\<close>

datatype 'a fifo_op = FPush 'a | FPop

fun fifo_run :: "nat \<Rightarrow> 'a fifo_op list \<Rightarrow> 'a list \<Rightarrow> ('a list \<times> 'a list) option" where
  "fifo_run n [] xs = Some ([], xs)"
| "fifo_run n (FPush x # ops) xs = (if length xs < n then fifo_run n ops (xs @ [x]) else None)"
| "fifo_run n (FPop # ops) [] = fifo_run n ops []"
| "fifo_run n (FPop # ops) (x # xs) = map_option (\<lambda>(out, ys). (x # out, ys)) (fifo_run n ops xs)"

lemma fifo_run_bounded: "fifo_run n ops xs = Some (out, ys) \<Longrightarrow> length xs \<le> n \<Longrightarrow> length ys \<le> n"
  by (induction n ops xs arbitrary: out rule: fifo_run.induct) (auto split: if_splits)

locale bounded_fifo =
  fixes push :: "'q \<Rightarrow> 'a \<Rightarrow> 'q outcome"
    and pop :: "'q \<Rightarrow> 'q"
    and head :: "'q \<Rightarrow> 'a option"
    and is_empty :: "'q \<Rightarrow> bool"
    and items :: "'q \<Rightarrow> 'a list"
    and cap :: "'q \<Rightarrow> nat"
    and inv :: "'q \<Rightarrow> bool"
  assumes push_law: "inv q \<Longrightarrow> length (items q) < cap q \<Longrightarrow>
      \<exists>q'. push q x = Inr q' \<and> inv q' \<and> items q' = items q @ [x] \<and> cap q' = cap q"
    and pop_inv: "inv q \<Longrightarrow> inv (pop q)"
    and pop_items: "inv q \<Longrightarrow> items (pop q) = tl (items q)"
    and pop_cap: "inv q \<Longrightarrow> cap (pop q) = cap q"
    and head_law: "inv q \<Longrightarrow> items q \<noteq> [] \<Longrightarrow> head q = Some (hd (items q))"
    and empty_law: "inv q \<Longrightarrow> is_empty q \<longleftrightarrow> items q = []"
begin

fun run :: "'a fifo_op list \<Rightarrow> 'q \<Rightarrow> ('a option list \<times> 'q) outcome" where
  "run [] q = Inr ([], q)"
| "run (FPush x # ops) q = bind_ok (push q x) (\<lambda>q'. run ops q')"
| "run (FPop # ops) q =
     (if is_empty q then run ops (pop q)
      else bind_ok (run ops (pop q)) (\<lambda>(out, q'). Inr (head q # out, q')))"

lemma run_refines:
  "inv q \<Longrightarrow> fifo_run (cap q) ops (items q) = Some (out, ys) \<Longrightarrow>
   \<exists>q'. run ops q = Inr (map Some out, q') \<and> inv q' \<and> items q' = ys \<and> cap q' = cap q"
proof (induction ops q arbitrary: out rule: run.induct)
  case (2 x ops q)
  then have room: "length (items q) < cap q" by (simp split: if_splits)
  from push_law [OF "2.prems"(1) room, of x] obtain q1
    where q1: "push q x = Inr q1" "inv q1" "items q1 = items q @ [x]" "cap q1 = cap q" by blast
  with "2.IH" [of q1 out] "2.prems"(2) room show ?case by simp
next
  case (3 ops q)
  note p = pop_inv [OF "3.prems"(1)] pop_items [OF "3.prems"(1)] pop_cap [OF "3.prems"(1)]
  show ?case
  proof (cases "items q")
    case Nil
    then show ?thesis using "3.IH"(1) [of out] "3.prems" p empty_law by simp
  next
    case (Cons x xs)
    with "3.prems"(2) obtain out1 where "fifo_run (cap q) ops xs = Some (out1, ys)" "out = x # out1"
      by auto
    then show ?thesis
      using "3.IH"(2) [of out1] "3.prems"(1) p Cons empty_law head_law [of q] by auto
  qed
qed auto

end

interpretation cq: bounded_fifo Push Pop front IsEmpty cq_list cq_cap cq_wf
proof
  fix q :: CIRCULAR_QUEUE and x
  assume "cq_wf q" "length (cq_list q) < cq_cap q"
  then show "\<exists>q'. Push q x = Inr q' \<and> cq_wf q' \<and> cq_list q' = cq_list q @ [x] \<and> cq_cap q' = cq_cap q"
    by (auto simp: cq_cap_def elim: Push_below_capacity [of q x])
qed (simp_all add: Pop_wf Pop_list Pop_cap front_nonempty IsEmpty_def)

text \<open>The code's queue under a run of pushes and pops; a pop first reads the head slot, as the
  fragmenter does.\<close>

fun cq_run :: "u16 fifo_op list \<Rightarrow> CIRCULAR_QUEUE \<Rightarrow> (u16 option list \<times> CIRCULAR_QUEUE) outcome" where
  "cq_run [] q = Inr ([], q)"
| "cq_run (FPush d # ops) q = bind_ok (Push q d) (\<lambda>q'. cq_run ops q')"
| "cq_run (FPop # ops) q =
     (if IsEmpty q then cq_run ops (Pop q)
      else bind_ok (cq_run ops (Pop q)) (\<lambda>(out, q'). Inr (front q # out, q')))"

lemma cq_run_eq: "cq_run ops q = cq.run ops q"
  by (induction ops q rule: cq_run.induct) (simp_all cong: bind_ok_cong)

lemma IsFull_iff: "cq_wf q \<Longrightarrow> fst (IsFull q) \<longleftrightarrow> length (cq_list q) = cq_cap q"
  by (auto simp: IsFull_def cq_wf_def cq_cap_def word_le_nat_alt)

lemma TraverseQueue_list:
  assumes "cq_wf q"
  shows "map (\<lambda>i. pQueueStart q ! i) (TraverseQueue q) = cq_list q"
proof -
  have "unat ((Head q + of_nat i) mod QueueMaxSize q) = slot q i" if "i < unat (QueueSize q)" for i
  proof -
    have nz: "QueueSize q \<noteq> 0" using that by auto
    have b: "unat (QueueMaxSize q) < 2 ^ 31" "unat (QueueSize q) \<le> unat (QueueMaxSize q)"
      using assms by (auto simp: cq_wf_def)
    have u: "unat (of_nat i :: u32) = i" using that b by (intro unat_of_nat_lt) simp
    have "unat (Head q + of_nat i) = unat (Head q) + i"
      using cq_wf_nonempty(1) [OF assms nz] b that u by (subst unat_add_lt) simp_all
    then show ?thesis by (simp add: unat_mod slot_def)
  qed
  then show ?thesis by (simp add: TraverseQueue_def cq_list_def)
qed

section \<open>Pushing onto a full queue\<close>

text \<open>A full queue holds an item in every slot, so the oldest one is behind the newest one.\<close>

lemma full_head:
  assumes wf: "cq_wf q" and full: "QueueSize q = QueueMaxSize q"
  shows "unat (Head q) = (unat (Tail q) + 1) mod unat (QueueMaxSize q)"
    "unat (Tail q) < unat (QueueMaxSize q)" "IsFull q = (True, q)"
proof -
  have m: "0 < unat (QueueMaxSize q)" using wf by (simp add: cq_wf_def)
  then have nz: "QueueSize q \<noteq> 0" using full by auto
  note ne = cq_wf_nonempty [OF wf nz]
  have "(unat (Tail q) + 1) mod unat (QueueMaxSize q)
      = (unat (Head q) + unat (QueueMaxSize q) - 1 + 1) mod unat (QueueMaxSize q)"
    by (simp only: ne(3) full mod_add_left_eq)
  also have "\<dots> = unat (Head q)" using ne(1) m by simp
  finally show "unat (Head q) = (unat (Tail q) + 1) mod unat (QueueMaxSize q)" by simp
  show "unat (Tail q) < unat (QueueMaxSize q)" by (rule ne(2))
  show "IsFull q = (True, q)" using full by (simp add: IsFull_def)
qed

text \<open>The list of a queue of maximal size whose first item is in slot \<open>h\<close>.\<close>

lemma cq_list_full:
  "QueueSize q = QueueMaxSize q \<Longrightarrow>
   cq_list q = map (\<lambda>i. pQueueStart q ! ((unat (Head q) + i) mod unat (QueueMaxSize q))) [0..<unat (QueueMaxSize q)]"
  by (simp add: cq_list_def slot_def)

lemma Push_full_result:
  assumes wf: "cq_wf q" and full: "QueueSize q = QueueMaxSize q"
  shows "Push q d =
     (if Tail q + 1 = QueueMaxSize q
      then Inr (q\<lparr>Head := 1, Tail := 0, pQueueStart := (pQueueStart q)[0 := d]\<rparr>)
      else if Tail q + 2 = QueueMaxSize q then Inl OutOfBounds
      else Inr (q\<lparr>Head := Head q + 2, Tail := Tail q + 2,
                  pQueueStart := (pQueueStart q)[unat (Tail q) + 2 := d]\<rparr>))"
proof -
  let ?m = "unat (QueueMaxSize q)" and ?t = "unat (Tail q)"
  note f = full_head [OF wf full]
  have m: "0 < ?m" "?m < 2 ^ 31" "length (pQueueStart q) = ?m" using wf by (auto simp: cq_wf_def)
  have t1: "unat (Tail q + 1) = ?t + 1" using f(2) m by (subst unat_add_lt) auto
  have t2: "unat (Tail q + 2) = ?t + 2" using f(2) m by (subst unat_add_lt) auto
  have c1: "Tail q + 1 = QueueMaxSize q \<longleftrightarrow> ?t + 1 = ?m"
    using t1 by (metis unsigned_word_eqI)
  have c2: "Tail q + 2 = QueueMaxSize q \<longleftrightarrow> ?t + 2 = ?m"
    using t2 by (metis unsigned_word_eqI)
  have le: "QueueMaxSize q \<le> Tail q + 1 \<longleftrightarrow> ?t + 1 = ?m"
    using t1 f(2) by (auto simp: word_le_nat_alt)
  have "push_full q = (if ?t + 1 = ?m then q\<lparr>Head := 1, Tail := 0\<rparr>
      else q\<lparr>Head := Head q + 2, Tail := Tail q + 2\<rparr>)"
    using le by (simp add: push_full_def Let_def add.assoc)
  then show ?thesis
    using m t2 f(2) by (simp add: Push_def f(3) c1 c2 store_tail_def store_at_def)
qed

lemma Push_full_last_slot:
  assumes wf: "cq_wf q" and full: "QueueSize q = QueueMaxSize q"
    and last: "unat (Tail q) + 1 = unat (QueueMaxSize q)"
  shows "cq_list (q\<lparr>Head := 1, Tail := 0, pQueueStart := (pQueueStart q)[0 := d]\<rparr>) = tl (cq_list q) @ [d]"
    (is "cq_list ?q = _")
proof (rule nth_equalityI)
  let ?m = "unat (QueueMaxSize q)"
  have m: "0 < ?m" "length (pQueueStart q) = ?m" using wf by (auto simp: cq_wf_def)
  have h: "unat (Head q) = 0" using full_head(1) [OF wf full] last by simp
  have full': "QueueSize ?q = QueueMaxSize ?q" using full by simp
  show "length (cq_list ?q) = length (tl (cq_list q) @ [d])" using m full by simp
  fix i assume "i < length (cq_list ?q)"
  then have i: "i < ?m" using full by simp
  show "cq_list ?q ! i = (tl (cq_list q) @ [d]) ! i"
  proof (cases "i + 1 = ?m")
    case True
    then show ?thesis using m i full by (auto simp: cq_list_full [OF full'] nth_append)
  next
    case False
    with i have "i + 1 < ?m" by simp
    then show ?thesis using m i h full
      by (auto simp: cq_list_full [OF full'] cq_list_full [OF full] nth_append nth_tl)
  qed
qed

lemma Push_full_skips:
  assumes wf: "cq_wf q" and full: "QueueSize q = QueueMaxSize q"
    and room: "unat (Tail q) + 2 < unat (QueueMaxSize q)"
  shows "cq_list (q\<lparr>Head := Head q + 2, Tail := Tail q + 2, pQueueStart := (pQueueStart q)[unat (Tail q) + 2 := d]\<rparr>)
    = drop 2 (cq_list q) @ [hd (cq_list q), d]" (is "cq_list ?q = _")
proof (rule nth_equalityI)
  let ?m = "unat (QueueMaxSize q)" and ?h = "unat (Head q)"
  have m: "2 < ?m" "?m < 2 ^ 31" "length (pQueueStart q) = ?m" using wf room by (auto simp: cq_wf_def)
  have h: "?h = unat (Tail q) + 1" "?h + 1 < ?m" using full_head(1) [OF wf full] room by simp_all
  have h2: "unat (Head q + 2) = ?h + 2" using h m by (subst unat_add_lt) auto
  have full': "QueueSize ?q = QueueMaxSize ?q" using full by simp
  have nth: "cq_list q ! i = pQueueStart q ! ((?h + i) mod ?m)" if "i < ?m" for i
    using that by (simp add: cq_list_full [OF full])
  show "length (cq_list ?q) = length (drop 2 (cq_list q) @ [hd (cq_list q), d])" using m full by simp
  fix i assume "i < length (cq_list ?q)"
  then have i: "i < ?m" using full by simp
  have q: "cq_list ?q ! i = (pQueueStart q)[?h + 1 := d] ! ((?h + 2 + i) mod ?m)"
    unfolding cq_list_full [OF full'] using i h by (simp add: h2)
  have hd: "hd (cq_list q) = pQueueStart q ! ?h"
    using nth [of 0] m full h by (subst hd_conv_nth) auto
  consider "i + 2 < ?m" | "i + 2 = ?m" | "i + 1 = ?m" using i by linarith
  then show "cq_list ?q ! i = (drop 2 (cq_list q) @ [hd (cq_list q), d]) ! i"
  proof cases
    case 1
    have "(?h + (2 + i)) mod ?m \<noteq> (?h + 1) mod ?m" using mod_add_inj [of "2 + i" ?m 1 ?h] 1 m by auto
    then show ?thesis using 1 nth [of "2 + i"] h(2) full unfolding q by (auto simp: nth_append add.assoc)
  next
    case 2
    then have "?h + 2 + i = ?h + ?m" by simp
    then have "(?h + 2 + i) mod ?m = ?h" using h by (metis add_lessD1 mod_add_self2 mod_less)
    then show ?thesis using 2 h(2) m full unfolding q by (auto simp: nth_append hd)
  next
    case 3
    then have "?h + 2 + i = ?h + 1 + ?m" by simp
    then have "(?h + 2 + i) mod ?m = ?h + 1" using h by (metis mod_add_self2 mod_less)
    then show ?thesis using 3 h(2) m full unfolding q by (auto simp: nth_append)
  qed
qed

section \<open>Properties\<close>

text \<open>C12: starting from an initialised queue of \<open>n\<close> slots, pushes and pops in any order, with
  never more than \<open>n\<close> items in the queue, behave as a list: the items read and popped come out
  first in, first out, however often the indices wrap around, and what is left in the queue, its size, its two
  tests and what a traversal sees are those of the list.  The indices stay slots of the buffer, the head that of the
  first item and the tail that of the last, and are both \<open>-1\<close> when the queue is empty.\<close>

theorem queue_is_fifo:
  assumes "InitCircleQueue True n = Inr q" "0 < n" "unat n < 2 ^ 31"
    "fifo_run (unat n) ops [] = Some (out, ys)"
  shows "\<exists>q'. cq_run ops q = Inr (map Some out, q') \<and> cq_list q' = ys
    \<and> unat (GetSize q') = length ys \<and> IsEmpty q' = (ys = []) \<and> fst (IsFull q') = (length ys = unat n)
    \<and> map (\<lambda>i. pQueueStart q' ! i) (TraverseQueue q') = ys
    \<and> (if ys = [] then Head q' = -1 \<and> Tail q' = -1
       else unat (Head q') < unat n \<and> unat (Tail q') = (unat (Head q') + length ys - 1) mod unat n)"
proof -
  note i = InitCircleQueue_ok [OF assms(2,3,1)]
  obtain q' where q': "cq.run ops q = Inr (map Some out, q')" "cq_wf q'" "cq_list q' = ys" "cq_cap q' = unat n"
    using cq.run_refines [OF i(1)] assms(4) unfolding i(2,3) by blast
  have l: "unat (GetSize q') = length ys" using length_cq_list [of q'] by (simp add: q'(3) GetSize_def)
  have e: "QueueSize q' = 0 \<longleftrightarrow> ys = []" using q'(3) cq_list_eq_Nil by metis
  have "if ys = [] then Head q' = -1 \<and> Tail q' = -1
    else unat (Head q') < unat n \<and> unat (Tail q') = (unat (Head q') + length ys - 1) mod unat n"
    using q'(2,4) l e by (auto simp: cq_wf_def cq_cap_def GetSize_def)
  with q' l show ?thesis
    using cq.empty_law [OF q'(2)] by (simp add: cq_run_eq IsFull_iff TraverseQueue_list)
qed

theorem queue_is_fifo_witness:
  "\<exists>q'. cq_run [FPush 4, FPush 5, FPush 6, FPop, FPush 7, FPop, FPop, FPop, FPop, FPush 8, FPush 9]
       \<lparr>QueueSize = 0, QueueMaxSize = 3, Head = -1, Tail = -1, pQueueStart = [0, 0, 0]\<rparr>
     = Inr (map Some [4, 5, 6, 7], q') \<and> cq_list q' = [8, 9] \<and> unat (GetSize q') = 2 \<and> unat (Head q') < 3"
proof -
  let ?q = "\<lparr>QueueSize = 0, QueueMaxSize = 3, Head = -1, Tail = -1, pQueueStart = [0, 0, 0]\<rparr>"
  let ?ops = "[FPush 4, FPush 5, FPush 6, FPop, FPush 7, FPop, FPop, FPop, FPop, FPush 8, FPush (9 :: u16)]"
  have "InitCircleQueue True 3 = Inr ?q" by code_simp
  moreover have "fifo_run (unat (3 :: u32)) ?ops [] = Some ([4, 5, 6, 7], [8, 9])" by simp
  ultimately show ?thesis using queue_is_fifo [of 3 ?q ?ops "[4, 5, 6, 7]" "[8, 9]"] by auto
qed

text \<open>C28: pushing onto a full queue, which the code means to overwrite the oldest item, does so only
  when the newest item is in the last slot.  Otherwise head and tail advance twice: the second-oldest item is lost
  and the oldest one comes out behind the others; and when the newest item is in the last slot but
  one, the item is written behind the end of the buffer.\<close>

theorem Push_full_advances_twice:
  assumes "cq_wf q" "QueueSize q = QueueMaxSize q"
  shows "if unat (Tail q) + 2 = unat (QueueMaxSize q) then Push q d = Inl OutOfBounds
    else \<exists>q'. Push q d = Inr q' \<and> QueueSize q' = QueueMaxSize q' \<and> QueueMaxSize q' = QueueMaxSize q
      \<and> (if unat (Tail q) + 1 = unat (QueueMaxSize q)
         then Head q' = 1 \<and> Tail q' = 0 \<and> cq_list q' = tl (cq_list q) @ [d]
         else Head q' = Head q + 2 \<and> Tail q' = Tail q + 2
           \<and> cq_list q' = drop 2 (cq_list q) @ [hd (cq_list q), d])"
proof -
  let ?m = "unat (QueueMaxSize q)" and ?t = "unat (Tail q)"
  have b: "?t < ?m" "?m < 2 ^ 31" using full_head(2) [OF assms] assms(1) by (auto simp: cq_wf_def)
  have "unat (Tail q + 1) = ?t + 1" "unat (Tail q + 2) = ?t + 2" using b by (subst unat_add_lt; simp)+
  then have c: "Tail q + 1 = QueueMaxSize q \<longleftrightarrow> ?t + 1 = ?m" "Tail q + 2 = QueueMaxSize q \<longleftrightarrow> ?t + 2 = ?m"
    by (metis unsigned_word_eqI)+
  consider "?t + 1 = ?m" | "?t + 2 = ?m" | "?t + 2 < ?m" using b(1) by linarith
  then show ?thesis
  proof cases
    case 1
    then show ?thesis using Push_full_last_slot [OF assms 1, of d] assms(2)
      by (simp add: Push_full_result [OF assms] c)
  next
    case 2
    then show ?thesis by (simp add: Push_full_result [OF assms] c)
  next
    case 3
    then show ?thesis using Push_full_skips [OF assms 3, of d] assms(2)
      by (simp add: Push_full_result [OF assms] c)
  qed
qed

theorem Push_full_advances_twice_witness:
  "bind_ok (InitCircleQueue True 2) (\<lambda>q0. bind_ok (cq_run [FPush 7, FPush 8, FPop, FPush 9] q0) (\<lambda>(_, q2). Push q2 10))
     = Inl OutOfBounds
   \<and> (\<exists>q'. bind_ok (InitCircleQueue True 4) (\<lambda>q0. bind_ok (cq_run [FPush 6, FPush 7, FPush 8, FPush 9, FPop, FPush 5] q0)
        (\<lambda>(_, q2). Push q2 10)) = Inr q' \<and> cq_list q' = [9, 5, 7, 10])"
proof -
  let ?q = "\<lparr>QueueSize = 2, QueueMaxSize = 2, Head = 1, Tail = 0, pQueueStart = [9, 8]\<rparr>"
  let ?r = "\<lparr>QueueSize = 4, QueueMaxSize = 4, Head = 1, Tail = 0, pQueueStart = [5, 7, 8, 9]\<rparr>"
  let ?e = "\<lambda>n xs. \<lparr>QueueSize = 0, QueueMaxSize = n, Head = -1, Tail = -1, pQueueStart = xs\<rparr>"
  have q: "InitCircleQueue True 2 = Inr (?e 2 [0, 0])" "InitCircleQueue True 4 = Inr (?e 4 [0, 0, 0, 0])"
    "cq_run [FPush 7, FPush 8, FPop, FPush 9] (?e 2 [0, 0]) = Inr ([Some 7], ?q)"
    "cq_run [FPush 6, FPush 7, FPush 8, FPush 9, FPop, FPush 5] (?e 4 [0, 0, 0, 0]) = Inr ([Some 6], ?r)"
    by code_simp+
  have wf: "cq_wf ?q" "cq_wf ?r" by (simp_all add: cq_wf_def)
  have l: "cq_list ?r = [7, 8, 9, 5]" by code_simp
  have "Push ?q 10 = Inl OutOfBounds" using Push_full_advances_twice [OF wf(1), of 10] by simp
  moreover have "\<exists>q'. Push ?r 10 = Inr q' \<and> cq_list q' = [9, 5, 7, 10]"
    using Push_full_advances_twice [OF wf(2), of 10] l by auto
  ultimately show ?thesis using q by (simp del: cq_run.simps)
qed

end
