(* ===== verification/GeneralModule.thy ===== *)
theory GeneralModule
  imports Prelude
begin

text \<open>
  The remaining routines of \<open>src/general_module.c\<close> the encapsulator and the decapsulator call:
  the payload size of a MODCOD, the comparison of MAC addresses, the conversion of a hexadecimal
  string (the MAC addresses of the mapping table), the time difference, and the sliding window of
  recent samples.
\<close>

section \<open>MODCOD payloads\<close>

definition valid_payload :: "u16 list" where
  "valid_payload = [0,
     2001 - 10, 2676 - 10, 3216 - 10, 4026 - 10, 4836 - 10, 5380 - 10, 6051 - 10, 6456 - 10,
     6730 - 10, 7184 - 10, 7274 - 10,
     4836 - 10, 5380 - 10, 6051 - 10, 6730 - 10, 7184 - 10, 7274 - 10,
     5380 - 10, 6051 - 10, 6456 - 10, 6730 - 10, 7184 - 10, 7274 - 10,
     6051 - 10, 6456 - 10, 6730 - 10, 7184 - 10, 7274 - 10,
     0, 0, 0]"

definition map_modcod_payload :: "u8 \<Rightarrow> u16 outcome" where
  "map_modcod_payload modcod = load_at valid_payload (unat modcod)"

section \<open>MAC addresses\<close>

definition MAC_SAME :: u8 where "MAC_SAME = 1"
definition MAC_DIFFERENCE :: u8 where "MAC_DIFFERENCE = 0"

text \<open>The comparison loop, index by index; reading past a buffer is a fault.\<close>

fun equal_mac_from :: "u8 list \<Rightarrow> u8 list \<Rightarrow> nat \<Rightarrow> nat \<Rightarrow> u8 outcome" where
  "equal_mac_from MAC1 MAC2 0 i = Inr MAC_SAME"
| "equal_mac_from MAC1 MAC2 (Suc n) i =
     bind_ok (load_at MAC1 i) (\<lambda>a. bind_ok (load_at MAC2 i) (\<lambda>b.
       if a \<noteq> b then Inr MAC_DIFFERENCE else equal_mac_from MAC1 MAC2 n (Suc i)))"

definition equal_mac :: "u8 list \<Rightarrow> u8 list \<Rightarrow> nat \<Rightarrow> u8 outcome" where
  "equal_mac MAC1 MAC2 len = equal_mac_from MAC1 MAC2 len 0"

lemma equal_mac_from_eq:
  "i + n \<le> length a \<Longrightarrow> i + n \<le> length b \<Longrightarrow>
   equal_mac_from a b n i
   = Inr (if take n (drop i a) = take n (drop i b) then MAC_SAME else MAC_DIFFERENCE)"
proof (induction n arbitrary: i)
  case (Suc n)
  then have "take (Suc n) (drop i a) = a ! i # take n (drop (Suc i) a)"
    "take (Suc n) (drop i b) = b ! i # take n (drop (Suc i) b)"
    by (simp_all add: Cons_nth_drop_Suc [symmetric])
  with Suc show ?case by simp
qed simp

lemma equal_mac_eq:
  "n \<le> length a \<Longrightarrow> n \<le> length b \<Longrightarrow>
   equal_mac a b n = Inr (if take n a = take n b then MAC_SAME else MAC_DIFFERENCE)"
  by (simp add: equal_mac_def equal_mac_from_eq)

section \<open>Time difference\<close>

text \<open>A \<open>struct timeval\<close> is a pair of seconds and microseconds; the result is in microseconds.\<close>

definition calc_time_diff :: "u64 \<times> u64 \<Rightarrow> u64 \<times> u64 \<Rightarrow> u64" where
  "calc_time_diff time0 time1 =
     (let t0 = fst time0 * 1000000 + snd time0;
          t1 = fst time1 * 1000000 + snd time1
      in t1 - t0)"

section \<open>The window of recent samples\<close>

text \<open>
  \<open>CIRCLE_ARRAY\<close>: \<open>head_pos\<close> (the oldest sample) and \<open>tail_pos\<close> (the newest) are signed bytes,
  kept as 8-bit words and read with \<open>sint\<close>; the samples are C doubles, which the code only stores,
  so the record is polymorphic in their type.
\<close>

record 'v CIRCLE_ARRAY =
  ca_value :: "'v list"
  head_pos :: u8
  tail_pos :: u8
  array_max_size :: u8
  valid_max_number :: u8
  data_number :: u8
  valid_number :: u8

definition count_valid :: "'v CIRCLE_ARRAY \<Rightarrow> 'v CIRCLE_ARRAY" where
  "count_valid a = (if valid_number a < valid_max_number a
                    then a\<lparr>valid_number := valid_number a + 1\<rparr> else a)"

definition acess_circle_array :: "'v CIRCLE_ARRAY \<Rightarrow> 'v \<Rightarrow> 'v CIRCLE_ARRAY outcome" where
  "acess_circle_array a d =
     (if array_max_size a \<le> data_number a
      then bind_ok (store_i (ca_value a) (sint (head_pos a)) d) (\<lambda>v.
             Inr (count_valid (a\<lparr>ca_value := v, tail_pos := head_pos a,
               head_pos := (if sint (head_pos a) < uint (array_max_size a) - 1
                            then head_pos a + 1 else 0)\<rparr>)))
      else (let t = head_pos a + data_number a;
                t' = (if uint (array_max_size a) - 1 < sint t then t - array_max_size a else t)
            in bind_ok (store_i (ca_value a) (sint t') d) (\<lambda>v.
                 Inr (count_valid (a\<lparr>ca_value := v, tail_pos := t',
                   data_number := data_number a + 1\<rparr>)))))"

definition ca_wf :: "'v CIRCLE_ARRAY \<Rightarrow> bool" where
  "ca_wf a \<longleftrightarrow> 0 < unat (array_max_size a) \<and> unat (array_max_size a) \<le> 64
     \<and> length (ca_value a) = unat (array_max_size a)
     \<and> unat (head_pos a) < unat (array_max_size a)
     \<and> unat (data_number a) \<le> unat (array_max_size a)
     \<and> valid_number a \<le> valid_max_number a"

text \<open>The samples in the window, oldest first.\<close>

definition ca_list :: "'v CIRCLE_ARRAY \<Rightarrow> 'v list" where
  "ca_list a = ring (ca_value a) (unat (head_pos a)) (unat (data_number a))"

lemma count_valid_fields [simp]:
  "ca_value (count_valid a) = ca_value a" "head_pos (count_valid a) = head_pos a"
  "tail_pos (count_valid a) = tail_pos a" "array_max_size (count_valid a) = array_max_size a"
  "data_number (count_valid a) = data_number a" "valid_max_number (count_valid a) = valid_max_number a"
  by (simp_all add: count_valid_def)

lemma count_valid_le: "valid_number a \<le> valid_max_number a \<Longrightarrow>
  valid_number (count_valid a) \<le> valid_max_number a"
  by (simp add: count_valid_def inc_le)

lemma sint_small: "unat (w :: u8) < 128 \<Longrightarrow> sint w = uint w"
proof -
  assume "unat w < 128"
  moreover have "uint w = int (unat w)" by simp
  ultimately have "- 128 \<le> uint w" "uint w < 128" by linarith+
  then have "signed_take_bit 7 (uint w) = uint w" by (intro signed_take_bit_int_eq_self) simp_all
  then show ?thesis by (simp add: sint_uint)
qed

lemma uint_compare:
  "uint (a :: 'a::len word) - 1 < uint b \<longleftrightarrow> unat a \<le> unat b"
  "uint a < uint b - 1 \<longleftrightarrow> unat a + 1 < unat b"
  "nat (uint a) = unat a"
proof -
  have "uint a = int (unat a)" "uint b = int (unat b)" by simp_all
  then show "uint a - 1 < uint b \<longleftrightarrow> unat a \<le> unat b"
    "uint a < uint b - 1 \<longleftrightarrow> unat a + 1 < unat b" "nat (uint a) = unat a" by linarith+
qed

lemma acess_not_full:
  assumes wf: "ca_wf a" and room: "unat (data_number a) < unat (array_max_size a)"
  shows "\<exists>a'. acess_circle_array a d = Inr a' \<and> ca_wf a' \<and> ca_list a' = ca_list a @ [d]
           \<and> array_max_size a' = array_max_size a
           \<and> ca_value a' ! unat (tail_pos a') = d"
proof -
  let ?h = "unat (head_pos a)" and ?n = "unat (data_number a)" and ?m = "unat (array_max_size a)"
  define t where "t = head_pos a + data_number a"
  define t' where "t' = (if uint (array_max_size a) - 1 < sint t then t - array_max_size a else t)"
  have b: "?m \<le> 64" "?h < ?m" "length (ca_value a) = ?m" using wf by (auto simp: ca_wf_def)
  have t1: "unat t = ?h + ?n" unfolding t_def using b room by (subst unat_add_lt) simp_all
  then have "unat t < 128" using b room by linarith
  then have t2: "sint t = uint t" by (rule sint_small)
  have t': "unat t' = (?h + ?n) mod ?m"
  proof (cases "?m \<le> ?h + ?n")
    case True
    then have "t' = t - array_max_size a" using t1 by (simp add: t'_def t2 uint_compare)
    moreover have "array_max_size a \<le> t" using True t1 by (simp add: word_le_nat_alt)
    ultimately have "unat t' = ?h + ?n - ?m" using t1 by (simp add: unat_sub_le)
    then show ?thesis using True b room by (simp add: le_mod_geq)
  next
    case False
    then show ?thesis using t1 by (simp add: t'_def t2 uint_compare)
  qed
  then have lt: "unat t' < ?m" using b by simp
  have st: "store_i (ca_value a) (sint t') d = Inr ((ca_value a)[unat t' := d])"
    using lt b by (simp add: store_i_def sint_small uint_compare)
  let ?z = "a\<lparr>ca_value := (ca_value a)[unat t' := d], tail_pos := t',
               data_number := data_number a + 1\<rparr>"
  let ?a = "count_valid ?z"
  have n1: "unat (data_number a + 1) = Suc ?n" using room b by (subst unat_add_lt) simp_all
  have res: "acess_circle_array a d = Inr ?a"
    using room st by (simp add: acess_circle_array_def Let_def word_le_nat_alt flip: t_def t'_def)
  have "ca_list ?a = ca_list a @ [d]"
    using ring_snoc [of ?n "ca_value a" ?h d] room b t' by (simp add: ca_list_def n1)
  moreover have "ca_wf ?a"
    using wf room n1 count_valid_le [of ?z] by (simp add: ca_wf_def)
  ultimately show ?thesis using res lt b by simp
qed

lemma acess_full:
  assumes wf: "ca_wf a" and full: "unat (data_number a) = unat (array_max_size a)"
  shows "\<exists>a'. acess_circle_array a d = Inr a' \<and> ca_wf a' \<and> ca_list a' = tl (ca_list a) @ [d]
           \<and> array_max_size a' = array_max_size a
           \<and> ca_value a' ! unat (tail_pos a') = d"
proof -
  let ?h = "unat (head_pos a)" and ?m = "unat (array_max_size a)"
  define h' where "h' = (if sint (head_pos a) < uint (array_max_size a) - 1 then head_pos a + 1 else 0)"
  have b: "0 < ?m" "?m \<le> 64" "?h < ?m" "length (ca_value a) = ?m" using wf by (auto simp: ca_wf_def)
  have sh: "sint (head_pos a) = uint (head_pos a)" using b by (simp add: sint_small)
  have h': "unat h' = (?h + 1) mod ?m"
  proof (cases "?h + 1 < ?m")
    case True
    then have "unat (head_pos a + 1) = ?h + 1" using b by (subst unat_add_lt) auto
    then show ?thesis using True sh by (simp add: h'_def uint_compare)
  next
    case False
    then have "?h + 1 = ?m" using b by simp
    then show ?thesis using sh by (simp add: h'_def uint_compare)
  qed
  let ?z = "a\<lparr>ca_value := (ca_value a)[?h := d], tail_pos := head_pos a, head_pos := h'\<rparr>"
  let ?a = "count_valid ?z"
  have res: "acess_circle_array a d = Inr ?a"
    using full sh b by (simp add: acess_circle_array_def store_i_def h'_def word_le_nat_alt uint_compare)
  have "ca_list ?a = tl (ca_list a) @ [d]"
    using ring_replace_oldest [of ?h "ca_value a" d] b full h' by (simp add: ca_list_def)
  moreover have "ca_wf ?a"
    using wf h' b count_valid_le [of ?z] by (simp add: ca_wf_def)
  ultimately show ?thesis using res b by simp
qed

definition last_n :: "nat \<Rightarrow> 'v list \<Rightarrow> 'v list" where
  "last_n n xs = drop (length xs - n) xs"

fun access_all :: "'v CIRCLE_ARRAY \<Rightarrow> 'v list \<Rightarrow> 'v CIRCLE_ARRAY outcome" where
  "access_all a [] = Inr a"
| "access_all a (x # xs) = bind_ok (acess_circle_array a x) (\<lambda>a'. access_all a' xs)"

lemma length_ca_list [simp]: "length (ca_list a) = unat (data_number a)"
  by (simp add: ca_list_def)

lemma acess_last_n:
  assumes "ca_wf a"
  shows "\<exists>a'. acess_circle_array a d = Inr a' \<and> ca_wf a'
     \<and> ca_list a' = last_n (unat (array_max_size a)) (ca_list a @ [d])
     \<and> array_max_size a' = array_max_size a"
proof (cases "unat (data_number a) < unat (array_max_size a)")
  case True
  then show ?thesis using acess_not_full [OF assms True, of d] by (auto simp: last_n_def)
next
  case False
  then have "unat (data_number a) = unat (array_max_size a)" using assms by (simp add: ca_wf_def)
  moreover have "0 < unat (array_max_size a)" using assms by (simp add: ca_wf_def)
  ultimately show ?thesis using acess_full [OF assms, of d] by (auto simp: last_n_def drop_Suc tl_drop)
qed

lemma last_n_last_n: "last_n n (last_n n xs @ ys) = last_n n (xs @ ys)"
  by (cases "length xs \<le> n") (auto simp: last_n_def add.commute)

lemma access_all_last_n:
  "ca_wf a \<Longrightarrow> \<exists>a'. access_all a xs = Inr a' \<and> ca_wf a'
     \<and> ca_list a' = last_n (unat (array_max_size a)) (ca_list a @ xs)
     \<and> array_max_size a' = array_max_size a"
proof (induction xs arbitrary: a)
  case Nil
  then show ?case by (simp add: last_n_def ca_wf_def)
next
  case (Cons x xs)
  obtain b where b: "acess_circle_array a x = Inr b" "ca_wf b"
    "ca_list b = last_n (unat (array_max_size a)) (ca_list a @ [x])"
    "array_max_size b = array_max_size a"
    using acess_last_n [OF Cons.prems] by blast
  with Cons.IH [OF b(2)] last_n_last_n [of _ "ca_list a @ [x]" xs] show ?case by auto
qed

section \<open>Hexadecimal strings\<close>

text \<open>
  \<open>StrToHex\<close> collects the digits of the text in \<open>data[20]\<close> and then packs them two by two.  A
  character that is no letter and no digit leaves its element of \<open>data\<close> uninitialised
  (\<open>None\<close>); the counter \<open>cnt\<close> is a byte.  The text is given without its terminating zero.
\<close>

definition digit_of :: "u8 \<Rightarrow> u8 option" where
  "digit_of p =
     (if 0x30 \<le> p \<and> p \<le> 0x39 then Some (p - 0x30)
      else if 0x41 \<le> p \<and> p \<le> 0x5A then Some (p - 55)
      else if 0x61 \<le> p \<and> p \<le> 0x7A then Some (p - 87)
      else None)"

fun hex_scan :: "u8 list \<Rightarrow> u8 \<Rightarrow> u8 option list \<Rightarrow> (u8 \<times> u8 option list) outcome" where
  "hex_scan [] cnt data = Inr (cnt, data)"
| "hex_scan (p # str) cnt data =
     bind_ok (case digit_of p of
                Some d \<Rightarrow> store_at data (unat cnt) (Some d)
              | None \<Rightarrow> Inr data)
       (\<lambda>data'. hex_scan str (cnt + 1) data')"

definition read_init :: "'v option list \<Rightarrow> nat \<Rightarrow> 'v outcome" where
  "read_init data i = bind_ok (load_at data i)
     (\<lambda>v. case v of Some x \<Rightarrow> Inr x | None \<Rightarrow> Inl UninitRead)"

function hex_pairs :: "nat \<Rightarrow> nat \<Rightarrow> nat \<Rightarrow> u8 option list \<Rightarrow> u8 list \<Rightarrow> u8 list outcome" where
  "hex_pairs cnt i j data Hex =
     (if int i < int cnt - 1
      then bind_ok (read_init data i) (\<lambda>a. bind_ok (read_init data (i + 1)) (\<lambda>b.
             bind_ok (store_at Hex j (push_bit 4 a OR b)) (\<lambda>Hex'.
               hex_pairs cnt (i + 2) (j + 1) data Hex')))
      else Inr Hex)"
  by pat_completeness auto
termination by (relation "measure (\<lambda>(cnt, i, _). cnt - i)") auto

declare hex_pairs.simps [simp del]

definition StrToHex :: "u8 list \<Rightarrow> u8 list \<Rightarrow> u8 list outcome" where
  "StrToHex str Hex =
     bind_ok (hex_scan str 0 (replicate 20 None))
       (\<lambda>(cnt, data). hex_pairs (unat cnt) 0 0 data Hex)"

text \<open>The text \<open>%02x%02x...\<close> prints for a sequence of bytes.\<close>

definition hex_char :: "u8 \<Rightarrow> u8" where
  "hex_char n = (if n < 10 then n + 0x30 else n + 0x57)"

definition nibbles :: "u8 list \<Rightarrow> u8 list" where
  "nibbles m = concat (map (\<lambda>b. [drop_bit 4 b, b AND 15]) m)"

definition hex_text :: "u8 list \<Rightarrow> u8 list" where
  "hex_text m = map hex_char (nibbles m)"

lemma digit_of_hex_char: "n < 16 \<Longrightarrow> digit_of (hex_char n) = Some n"
proof -
  assume "n < 16"
  then have "unat n < 16" by (simp add: word_less_nat_alt)
  then have "unat n \<in> set [0..<16]" by simp
  moreover have "n = of_nat (unat n)" by simp
  ultimately have "n \<in> of_nat ` set [0..<16]" by (rule rev_image_eqI)
  moreover have "\<forall>k \<in> set [0..<16]. digit_of (hex_char (of_nat k)) = Some (of_nat k)"
    by code_simp
  ultimately show ?thesis by blast
qed

lemma and_15: "b AND 15 = take_bit 4 (b :: u8)"
  by (simp add: take_bit_eq_mask mask_eq_exp_minus_1)

lemma nibbles_less: "n \<in> set (nibbles m) \<Longrightarrow> n < 16"
proof -
  have "drop_bit 4 b < 16" "b AND 15 < 16" for b :: u8
  proof -
    have "unat (drop_bit 4 b) = unat b div 16" by (simp add: drop_bit_eq_div unat_div)
    also have "\<dots> < 16" using unat_u8_lt [of b] by simp
    finally show "drop_bit 4 b < 16" by (simp add: word_less_nat_alt)
    have "unat (b AND 15) = unat b mod 16"
      by (simp add: and_15 unsigned_take_bit_eq take_bit_eq_mod unat_mod)
    then show "b AND 15 < 16" by (simp add: word_less_nat_alt)
  qed
  then show "n \<in> set (nibbles m) \<Longrightarrow> n < 16" by (auto simp: nibbles_def)
qed

lemma length_nibbles [simp]: "length (nibbles m) = 2 * length m"
  by (induction m) (auto simp: nibbles_def)

lemma nibbles_Cons: "nibbles (b # m) = drop_bit 4 b # (b AND 15) # nibbles m"
  by (simp add: nibbles_def)

lemma nibbles_join: "push_bit 4 (drop_bit 4 b) OR (b AND 15) = (b :: u8)"
  by (rule bit_word_eqI) (auto simp: and_15 bit_simps not_less)

lemma hex_scan_digits:
  "\<forall>n \<in> set ns. n < 16 \<Longrightarrow> unat cnt + length ns \<le> length data \<Longrightarrow> length data \<le> 20 \<Longrightarrow>
   hex_scan (map hex_char ns) cnt data
   = Inr (cnt + of_nat (length ns),
          take (unat cnt) data @ map Some ns @ drop (unat cnt + length ns) data)"
proof (induction ns arbitrary: cnt data)
  case Nil
  then show ?case by simp
next
  case (Cons n ns)
  then have u: "unat (cnt + 1) = unat cnt + 1" by (subst unat_add_lt) auto
  have "hex_scan (map hex_char (n # ns)) cnt data
        = hex_scan (map hex_char ns) (cnt + 1) (data[unat cnt := Some n])"
    using Cons.prems by (simp add: digit_of_hex_char)
  also have "\<dots> = Inr (cnt + 1 + of_nat (length ns),
      take (unat cnt + 1) (data[unat cnt := Some n]) @ map Some ns
      @ drop (unat cnt + 1 + length ns) (data[unat cnt := Some n]))"
    using Cons.prems u by (subst Cons.IH) auto
  also have "take (unat cnt + 1) (data[unat cnt := Some n]) = take (unat cnt) data @ [Some n]"
    using Cons.prems by (simp add: take_Suc_conv_app_nth)
  finally show ?case by (simp add: add.assoc)
qed

lemma hex_pairs_nibbles:
  "length pre = 2 * length out \<Longrightarrow> length m \<le> length buf \<Longrightarrow>
   hex_pairs (2 * (length out + length m)) (2 * length out) (length out)
     (pre @ map Some (nibbles m) @ post) (out @ buf)
   = Inr (out @ m @ drop (length m) buf)"
proof (induction m arbitrary: pre out buf)
  case Nil
  then show ?case by (subst hex_pairs.simps) simp
next
  case (Cons b m)
  then obtain c buf' where buf: "buf = c # buf'" by (cases buf) auto
  let ?d = "pre @ map Some (nibbles (b # m)) @ post"
  have r: "read_init ?d (2 * length out) = Inr (drop_bit 4 b)"
    "read_init ?d (2 * length out + 1) = Inr (b AND 15)"
    using Cons.prems by (simp_all add: read_init_def nibbles_Cons nth_append)
  have "hex_pairs (2 * (length out + length (b # m))) (2 * length out) (length out) ?d (out @ buf)
        = hex_pairs (2 * (length (out @ [b]) + length m)) (2 * length (out @ [b])) (length (out @ [b]))
            ((pre @ [Some (drop_bit 4 b), Some (b AND 15)]) @ map Some (nibbles m) @ post)
            ((out @ [b]) @ buf')"
    using r by (subst hex_pairs.simps) (simp add: buf nibbles_join nibbles_Cons list_update_append)
  also have "\<dots> = Inr ((out @ [b]) @ m @ drop (length m) buf')"
    using Cons.prems buf by (intro Cons.IH) auto
  finally show ?case by (simp add: buf)
qed

section \<open>Properties\<close>

text \<open>The payload table has an entry for each of the 32 MODCODs, no entry exceeds the 7264
  bytes of the largest frame, exactly the reserved MODCODs have an empty payload, and a larger
  MODCOD reads past the table.\<close>

theorem map_modcod_payload_cases:
  "(case map_modcod_payload modcod of
      Inr p \<Rightarrow> modcod < 32 \<and> p \<le> 7264 \<and> (p = 0 \<longleftrightarrow> modcod = 0 \<or> 29 \<le> modcod)
    | Inl e \<Rightarrow> e = OutOfBounds \<and> 32 \<le> modcod)"
proof (cases "unat modcod < 32")
  case False
  then show ?thesis by (simp add: map_modcod_payload_def load_at_def valid_payload_def word_le_nat_alt)
next
  case True
  moreover have "\<forall>k \<in> set [0..<32]. valid_payload ! k \<le> 7264
      \<and> (valid_payload ! k = 0 \<longleftrightarrow> k = 0 \<or> 29 \<le> k)"
    by code_simp
  ultimately have "valid_payload ! unat modcod \<le> 7264
      \<and> (valid_payload ! unat modcod = 0 \<longleftrightarrow> unat modcod = 0 \<or> 29 \<le> unat modcod)"
    by (simp only: set_upt atLeastLessThan_iff) simp
  with True show ?thesis
    by (simp add: map_modcod_payload_def load_at_def word_le_nat_alt word_less_nat_alt unat_eq_zero)
      (simp add: valid_payload_def)
qed

text \<open>The window keeps the most recent samples in their order of arrival, as many as it has
  room for.\<close>

theorem access_all_keeps_recent:
  assumes "ca_wf a" "data_number a = 0"
  shows "\<exists>a'. access_all a xs = Inr a'
     \<and> ca_list a' = drop (length xs - unat (array_max_size a)) xs"
proof -
  have "ca_list a = []" using assms(2) by (simp add: ca_list_def ring_def)
  with access_all_last_n [OF assms(1), of xs] show ?thesis by (auto simp: last_n_def)
qed

theorem access_all_keeps_recent_witness:
  "\<exists>a'. access_all \<lparr>ca_value = [0, 0 :: nat], head_pos = 0, tail_pos = 0, array_max_size = 2,
        valid_max_number = 1, data_number = 0, valid_number = 0\<rparr> [5, 6, 7] = Inr a'
     \<and> ca_list a' = [6, 7]"
  using access_all_keeps_recent [of "\<lparr>ca_value = [0, 0 :: nat], head_pos = 0, tail_pos = 0,
      array_max_size = 2, valid_max_number = 1, data_number = 0, valid_number = 0\<rparr>" "[5, 6, 7]"]
  by (simp add: ca_wf_def)

text \<open>C29: \<open>StrToHex\<close> reads back what \<open>%02x\<close> prints: the text of up to ten bytes is converted to
  these bytes, and the rest of the output buffer is left alone.\<close>

theorem StrToHex_hex_text:
  assumes "length m \<le> 10" "length m \<le> length Hex"
  shows "StrToHex (hex_text m) Hex = Inr (m @ drop (length m) Hex)"
proof -
  have "hex_scan (hex_text m) 0 (replicate 20 None)
      = Inr (of_nat (2 * length m), map Some (nibbles m) @ replicate (20 - 2 * length m) None)"
    unfolding hex_text_def using assms(1)
    by (subst hex_scan_digits) (auto dest: nibbles_less)
  moreover have "unat (of_nat (2 * length m) :: u8) = 2 * length m"
    using assms(1) by (intro unat_of_nat_lt) simp
  ultimately show ?thesis
    using hex_pairs_nibbles [of "[]" "[]" m Hex] assms(2) by (simp add: StrToHex_def)
qed

theorem StrToHex_hex_text_witness:
  "StrToHex (hex_text [0x00, 0x1B, 0x21, 0xAF, 9, 0xFF]) [0, 0, 0, 0, 0, 0]
   = Inr [0x00, 0x1B, 0x21, 0xAF, 9, 0xFF]"
  by (subst StrToHex_hex_text) simp_all

end
