(* ===== verification/GseTypes.thy ===== *)
theory GseTypes
  imports Prelude CircularQueue
begin

text \<open>
  The data of the encapsulator (\<open>include/define_struct.h\<close>) and its constants
  (\<open>include/define_const.h\<close>): a PDU and its fragments, the group of PDUs that becomes one GSE
  packet, the GSE packet and the group of GSE packets that becomes one frame.  A C array is a list
  of the array's length; a field \<open>pdu_size\<close> of \<open>EN_PDU_NODE\<close> is \<open>n_pdu_size\<close>, of \<open>ONE_PDU\<close>
  \<open>o_pdu_size\<close>, and so on, since record fields share one name space.
\<close>

section \<open>Constants\<close>

definition PDU_MAX_NUM :: nat where "PDU_MAX_NUM = 180"
definition GSE_MAX_NUM :: nat where "GSE_MAX_NUM = 1000"
definition GSE_MAX_SIZE :: nat where "GSE_MAX_SIZE = 4095"
definition FRAGMENT_MAX_NUM :: nat where "FRAGMENT_MAX_NUM = 256"
definition EXT_HEADER_MAX_NUM :: nat where "EXT_HEADER_MAX_NUM = 10"
definition MAX_DEVICE_NUM :: nat where "MAX_DEVICE_NUM = 8"
definition FIFO_ITEM_SIZE :: nat where "FIFO_ITEM_SIZE = 7373"
definition GSE_PARAM_ERROR :: int where "GSE_PARAM_ERROR = -100"

definition PROTOCOL_IPV6 :: u16 where "PROTOCOL_IPV6 = 0x86DD"
definition PROTOCOL_IPV4 :: u16 where "PROTOCOL_IPV4 = 0x0800"
definition PROTOCOL_CTRL :: u16 where "PROTOCOL_CTRL = 0x00C9"
definition PDU_CONCAT :: u16 where "PDU_CONCAT = 3"
definition FRAG_SEQUENCE :: u16 where "FRAG_SEQUENCE = 0x0202"
definition TIME_STEMP :: u16 where "TIME_STEMP = 0x0301"

definition ENCAPSULATION_TYPE_WHOLE :: int where "ENCAPSULATION_TYPE_WHOLE = 0"
definition ENCAPSULATION_TYPE_CONCAT :: int where "ENCAPSULATION_TYPE_CONCAT = 1"
definition ENCAPSULATION_TYPE_FRAG :: int where "ENCAPSULATION_TYPE_FRAG = 2"

definition FRAGMENT_TYPE_S :: u8 where "FRAGMENT_TYPE_S = 0"
definition FRAGMENT_TYPE_M :: u8 where "FRAGMENT_TYPE_M = 1"
definition FRAGMENT_TYPE_E :: u8 where "FRAGMENT_TYPE_E = 2"

definition LABEL_TYPE_6B :: u8 where "LABEL_TYPE_6B = 0"
definition LABEL_TYPE_3B :: u8 where "LABEL_TYPE_3B = 1"
definition LABEL_TYPE_BROADCAST :: u8 where "LABEL_TYPE_BROADCAST = 2"
definition LABEL_TYPE_REUSE :: u8 where "LABEL_TYPE_REUSE = 3"

definition BROADCAST_TYPE_NO :: u8 where "BROADCAST_TYPE_NO = 0"
definition BROADCAST_TYPE_YES :: u8 where "BROADCAST_TYPE_YES = 1"

definition BOARDCAST_ADDRESS :: "u8 list" where
  "BOARDCAST_ADDRESS = [0xFF, 0xFF, 0xFF, 0xFF, 0xFF, 0xFF]"

lemmas encapsulation_type_defs =
  ENCAPSULATION_TYPE_WHOLE_def ENCAPSULATION_TYPE_CONCAT_def ENCAPSULATION_TYPE_FRAG_def GSE_PARAM_ERROR_def
lemmas fragment_type_defs = FRAGMENT_TYPE_S_def FRAGMENT_TYPE_M_def FRAGMENT_TYPE_E_def
lemmas label_type_defs =
  LABEL_TYPE_6B_def LABEL_TYPE_3B_def LABEL_TYPE_BROADCAST_def LABEL_TYPE_REUSE_def

section \<open>A PDU read from the encapsulation ring\<close>

record EN_PDU_NODE =
  n_pdu_size :: u16
  n_pPDU_start :: ptr
  n_mac_length :: u8
  n_MAC_address :: "u8 list"
  n_MODCOD :: u8
  n_vip_flag :: u8
  n_mobility :: u8
  n_userID :: u32
  n_priority :: u8
  n_protocoltype :: u16
  n_priority_group :: u8
  n_pPDU_address :: ptr
  n_mbuf_address :: ptr
  n_enq_time :: u64
  n_deq_time :: u64
  n_deq_prio_time :: u64
  n_deq_modcod_time :: u64
  n_read_time :: u64
  n_fragment_flag :: u8
  n_fragment_ID :: u8
  n_fragment_type :: u8
  n_fragment_seq :: u8
  n_pdu_total_length :: u16
  n_crc32 :: u32

definition zero_pdu_node :: EN_PDU_NODE where
  "zero_pdu_node =
    \<lparr>n_pdu_size = 0, n_pPDU_start = NULL, n_mac_length = 0, n_MAC_address = replicate 6 0, n_MODCOD = 0,
     n_vip_flag = 0, n_mobility = 0, n_userID = 0, n_priority = 0, n_protocoltype = 0,
     n_priority_group = 0, n_pPDU_address = NULL, n_mbuf_address = NULL, n_enq_time = 0,
     n_deq_time = 0, n_deq_prio_time = 0, n_deq_modcod_time = 0, n_read_time = 0,
     n_fragment_flag = 0, n_fragment_ID = 0, n_fragment_type = 0, n_fragment_seq = 0,
     n_pdu_total_length = 0, n_crc32 = 0\<rparr>"

section \<open>A PDU inside a GSE packet\<close>

record ONE_PDU =
  o_pdu_size :: u32
  o_pStart :: ptr
  o_priority :: u8
  o_enq_time :: u64
  o_deq_time :: u64
  o_deq_prio_time :: u64
  o_deq_modcod_time :: u64
  o_read_time :: u64
  o_pPDU_address :: ptr
  o_mbuf_address :: ptr
  o_vip_flag :: u8
  o_mobility :: u8

definition zero_one_pdu :: ONE_PDU where
  "zero_one_pdu =
    \<lparr>o_pdu_size = 0, o_pStart = NULL, o_priority = 0, o_enq_time = 0, o_deq_time = 0,
     o_deq_prio_time = 0, o_deq_modcod_time = 0, o_read_time = 0, o_pPDU_address = NULL,
     o_mbuf_address = NULL, o_vip_flag = 0, o_mobility = 0\<rparr>"

section \<open>Extension headers\<close>

text \<open>
  \<open>header_num\<close> is a C \<open>int\<close>.  The 16-bit values keep the byte order the code stores them in.
  The 20 bytes of a header value are a byte list; in the mandatory headers the C array is declared
  as ten \<open>uint16_t\<close>.
\<close>

record OPT_EXT_HEADER_INFO =
  opt_header_num :: int
  opt_header_type :: "u16 list"
  opt_header_size :: "u16 list"
  opt_header_value :: "u8 list list"
  opt_next_type :: "u16 list"

record MAN_EXT_HEADER_INFO =
  man_header_num :: int
  man_value_address :: "int list"
  man_header_type :: "u16 list"
  man_header_size :: "u16 list"
  man_header_value :: "u8 list list"
  man_header_address :: "ptr list"
  man_next_type :: "u16 list"

definition zero_opt :: OPT_EXT_HEADER_INFO where
  "zero_opt = \<lparr>opt_header_num = 0, opt_header_type = replicate 10 0, opt_header_size = replicate 10 0,
     opt_header_value = replicate 10 (replicate 20 0), opt_next_type = replicate 10 0\<rparr>"

definition zero_man :: MAN_EXT_HEADER_INFO where
  "zero_man = \<lparr>man_header_num = 0, man_value_address = replicate 10 0,
     man_header_type = replicate 10 0, man_header_size = replicate 10 0,
     man_header_value = replicate 10 (replicate 20 0), man_header_address = replicate 10 NULL,
     man_next_type = replicate 10 0\<rparr>"

section \<open>The PDUs of one GSE packet\<close>

record PDU_GROUP =
  g_MAC_address :: "u8 list"
  g_priority_group :: u8
  g_pdu_num :: u16
  g_protocol_type :: u16
  g_PDU_total_length :: u16
  g_fragment_flag :: u8
  g_fragment_type :: u8
  g_fragment_ID :: u8
  g_fragmented_PDU_length :: u16
  g_crc32 :: u32
  g_one_PDU :: "ONE_PDU list"
  g_opt :: OPT_EXT_HEADER_INFO
  g_man :: MAN_EXT_HEADER_INFO
  g_modcod :: u8
  g_label_type :: u8
  g_label_size :: u8
  g_gse_header_length :: u16
  g_ext_header_length :: u16
  g_gse_data_length :: u16
  g_gse_total_length :: u16

text \<open>\<open>memset(pPDU_group, 0, sizeof(PDU_GROUP))\<close>\<close>

definition zero_pdu_group :: PDU_GROUP where
  "zero_pdu_group =
    \<lparr>g_MAC_address = replicate 6 0, g_priority_group = 0, g_pdu_num = 0, g_protocol_type = 0,
     g_PDU_total_length = 0, g_fragment_flag = 0, g_fragment_type = 0, g_fragment_ID = 0,
     g_fragmented_PDU_length = 0, g_crc32 = 0, g_one_PDU = replicate 180 zero_one_pdu,
     g_opt = zero_opt, g_man = zero_man, g_modcod = 0, g_label_type = 0, g_label_size = 0,
     g_gse_header_length = 0, g_ext_header_length = 0, g_gse_data_length = 0,
     g_gse_total_length = 0\<rparr>"

section \<open>GSE packets and frames\<close>

record ONE_GSE =
  e_GSE_header :: "u8 list"
  e_GSE_header_size :: u8
  e_pdu_num :: u16
  e_fragment_flag :: u8
  e_fragment_type :: u8
  e_fragment_ID :: u8
  e_crc32 :: u32
  e_one_PDU :: "ONE_PDU list"
  e_opt :: OPT_EXT_HEADER_INFO
  e_man :: MAN_EXT_HEADER_INFO

text \<open>The \<open>encode_info\<close> of a group is reduced to its \<open>modcod\<close>, its only field the code uses.\<close>

record GSE_GROUP =
  s_modcod :: u8
  s_frame_create_time :: u64
  s_priority_group :: u8
  s_total_length :: u32
  s_gse_num :: u8
  s_pOneGSE :: "ONE_GSE list"

text \<open>
  The fixed header is a structure of bit fields; on the little-endian target the length has the
  low 12 bits and \<open>Start_Indicator\<close> the top bit.
\<close>

record GSE_FIXED_HEADER =
  GSE_Length :: "12 word"
  Label_Type :: "2 word"
  End_Indicator :: "1 word"
  Start_Indicator :: "1 word"

record GSE_VARIABLE_HEADER_SIZE =
  fragment_ID_size :: u8
  total_length_size :: u8
  protocol_type_size :: u8
  label_size :: u8

section \<open>Fragmentation and frame payload\<close>

record FRAGMENT_INFO =
  f_FragmentID :: u8
  f_total_num :: u8
  f_transfered_num :: u8
  f_middle_size :: u16
  f_start_size :: u16
  f_end_size :: u16
  f_CRC32 :: u32

definition zero_fragment_info :: FRAGMENT_INFO where
  "zero_fragment_info = \<lparr>f_FragmentID = 0, f_total_num = 0, f_transfered_num = 0,
     f_middle_size = 0, f_start_size = 0, f_end_size = 0, f_CRC32 = 0\<rparr>"

record FRAGMENT_BUFFER =
  b_used :: u8
  b_fragment_info :: FRAGMENT_INFO
  b_pdu_node :: EN_PDU_NODE

record FRAME_PAYLOAD =
  used_payload :: u16
  usable_payload :: u16
  max_payload :: u16
  frame_modcod :: u8

record ENCAP_PARAM =
  pPDU_Group :: PDU_GROUP
  pGSE_Group :: GSE_GROUP
  using_pdu :: EN_PDU_NODE
  pfragment_buffer :: "FRAGMENT_BUFFER list"
  fragmentID_queue :: CIRCULAR_QUEUE

end
