(* ===== verification/EncapGse.thy ===== *)
theory EncapGse
  imports GseTypes GeneralModule
begin

text \<open>
  GSE encapsulation (\<open>src/encapsulate_gse.c\<close>): PDUs are collected in a \<open>PDU_GROUP\<close>, extension
  headers are added to it, its GSE header is computed, and the resulting \<open>ONE_GSE\<close> is appended to
  the \<open>GSE_GROUP\<close> of the frame under construction.  The target is little-endian
  (\<open>little_endian = 1\<close>).
\<close>

section \<open>Adding PDUs and extension headers to a group\<close>

definition node_to_one_pdu :: "EN_PDU_NODE \<Rightarrow> ONE_PDU \<Rightarrow> ONE_PDU" where
  "node_to_one_pdu n o' = o'\<lparr>
     o_mbuf_address := n_mbuf_address n,
     o_pStart := n_pPDU_start n,
     o_pdu_size := ucast (n_pdu_size n),
     o_priority := n_priority n,
     o_enq_time := n_enq_time n,
     o_deq_modcod_time := n_deq_modcod_time n,
     o_deq_time := n_deq_time n,
     o_read_time := n_read_time n,
     o_pPDU_address := n_pPDU_address n,
     o_vip_flag := n_vip_flag n,
     o_mobility := n_mobility n\<rparr>"

definition add_opt_one :: "OPT_EXT_HEADER_INFO \<Rightarrow> int \<Rightarrow> OPT_EXT_HEADER_INFO \<Rightarrow> OPT_EXT_HEADER_INFO outcome" where
  "add_opt_one src i h =
     (let k = opt_header_num h in
      bind_ok (load_i (opt_header_type src) i) (\<lambda>ty.
      bind_ok (store_i (opt_header_type h) k ty) (\<lambda>types.
      bind_ok (load_i (opt_header_size src) i) (\<lambda>sz.
      bind_ok (store_i (opt_header_size h) k (sz + 2)) (\<lambda>sizes.
      bind_ok (load_i (opt_next_type src) i) (\<lambda>nx.
      bind_ok (store_i (opt_next_type h) k nx) (\<lambda>nexts.
      bind_ok (load_i (opt_header_value src) i) (\<lambda>v.
      bind_ok (get_bytes v 0 (unat sz)) (\<lambda>bs.
      bind_ok (load_i (opt_header_value h) k) (\<lambda>d.
      bind_ok (put_bytes d 0 bs) (\<lambda>d'.
      bind_ok (store_i (opt_header_value h) k d') (\<lambda>vals.
        Inr (h\<lparr>opt_header_type := types, opt_header_size := sizes, opt_next_type := nexts,
                opt_header_value := vals, opt_header_num := k + 1\<rparr>)))))))))))))"

definition add_opt_extension_header ::
    "OPT_EXT_HEADER_INFO \<Rightarrow> OPT_EXT_HEADER_INFO option \<Rightarrow> u16 \<Rightarrow> (int \<times> OPT_EXT_HEADER_INFO) outcome" where
  "add_opt_extension_header h src pdu_type = (case src of
     None \<Rightarrow> Inr (POINT_ERROR, h)
   | Some s \<Rightarrow>
       if int EXT_HEADER_MAX_NUM < opt_header_num h + opt_header_num s then Inr (-1, h)
       else
         bind_ok (if 0 < opt_header_num h
                  then bind_ok (load_i (opt_header_type s) 0) (\<lambda>ty.
                       bind_ok (store_i (opt_next_type h) (opt_header_num h - 1) ty) (\<lambda>nexts.
                         Inr (h\<lparr>opt_next_type := nexts\<rparr>)))
                  else Inr h) (\<lambda>h1.
         bind_ok (for_each [0..opt_header_num s - 1] (add_opt_one s) h1) (\<lambda>h2.
         bind_ok (store_i (opt_next_type h2) (opt_header_num h2 - 1) (bswap16 pdu_type)) (\<lambda>nexts.
           Inr (1, h2\<lparr>opt_next_type := nexts\<rparr>)))))"

definition add_man_one :: "MAN_EXT_HEADER_INFO \<Rightarrow> int \<Rightarrow> MAN_EXT_HEADER_INFO \<Rightarrow> MAN_EXT_HEADER_INFO outcome" where
  "add_man_one src i h =
     (let k = man_header_num h in
      bind_ok (load_i (man_header_type src) i) (\<lambda>ty.
      bind_ok (store_i (man_header_type h) k ty) (\<lambda>types.
      bind_ok (load_i (man_header_size src) i) (\<lambda>sz.
      bind_ok (store_i (man_header_size h) k (sz + 2)) (\<lambda>sizes.
      bind_ok (load_i (man_next_type src) i) (\<lambda>nx.
      bind_ok (store_i (man_next_type h) k nx) (\<lambda>nexts.
      bind_ok (load_i (man_value_address src) i) (\<lambda>va.
      bind_ok (store_i (man_value_address h) k va) (\<lambda>vas.
      bind_ok (if va \<noteq> 0 \<and> sz \<noteq> 0
               then bind_ok (load_i (man_header_value src) i) (\<lambda>v.
                    bind_ok (get_bytes v 0 (unat sz)) (\<lambda>bs.
                    bind_ok (load_i (man_header_value h) k) (\<lambda>d.
                    bind_ok (put_bytes d 0 bs) (\<lambda>d'.
                    bind_ok (store_i (man_header_value h) k d') (\<lambda>vals.
                      Inr (h\<lparr>man_header_value := vals\<rparr>))))))
               else bind_ok (load_i (man_header_address src) i) (\<lambda>a.
                    bind_ok (store_i (man_header_address h) k a) (\<lambda>addrs.
                      Inr (h\<lparr>man_header_address := addrs\<rparr>)))) (\<lambda>h'.
        Inr (h'\<lparr>man_header_type := types, man_header_size := sizes, man_next_type := nexts,
                man_value_address := vas, man_header_num := k + 1\<rparr>)))))))))))"

definition add_man_extension_header ::
    "MAN_EXT_HEADER_INFO \<Rightarrow> MAN_EXT_HEADER_INFO option \<Rightarrow> u16 \<Rightarrow> (int \<times> MAN_EXT_HEADER_INFO) outcome" where
  "add_man_extension_header h src pdu_type = (case src of
     None \<Rightarrow> Inr (POINT_ERROR, h)
   | Some s \<Rightarrow>
       if int EXT_HEADER_MAX_NUM < man_header_num h + man_header_num s then Inr (-1, h)
       else
         bind_ok (if 0 < man_header_num h
                  then bind_ok (load_i (man_header_type s) 0) (\<lambda>ty.
                       bind_ok (store_i (man_next_type h) (man_header_num h - 1) ty) (\<lambda>nexts.
                         Inr (h\<lparr>man_next_type := nexts\<rparr>)))
                  else Inr h) (\<lambda>h1.
         bind_ok (for_each [0..man_header_num s - 1] (add_man_one s) h1) (\<lambda>h2.
         bind_ok (store_i (man_next_type h2) (man_header_num h2 - 1) (bswap16 pdu_type)) (\<lambda>nexts.
           Inr (1, h2\<lparr>man_next_type := nexts\<rparr>)))))"

definition add_to_pdu_group :: "EN_PDU_NODE \<Rightarrow> PDU_GROUP \<Rightarrow> u8 \<Rightarrow> u8 \<Rightarrow> PDU_GROUP outcome" where
  "add_to_pdu_group n g label_type' label_size' =
     (let g1 = g\<lparr>g_priority_group := n_priority_group n, g_pdu_num := g_pdu_num g + 1,
                 g_fragment_flag := n_fragment_flag n, g_fragment_type := n_fragment_type n,
                 g_fragment_ID := n_fragment_ID n, g_crc32 := n_crc32 n\<rparr>;
          num = g_pdu_num g1
      in bind_ok
        (if num = 1 then
           (let g2 = g1\<lparr>g_MAC_address := n_MAC_address n, g_protocol_type := n_protocoltype n,
                        g_PDU_total_length := n_pdu_size n\<rparr>;
                g3 = (if g_fragment_flag g2 = 1
                      then g2\<lparr>g_fragmented_PDU_length := n_pdu_total_length n\<rparr> else g2);
                g4 = g3\<lparr>g_label_type := label_type', g_label_size := label_size', g_modcod := n_MODCOD n\<rparr>
            in bind_ok (add_opt_extension_header (g_opt g4) None (g_protocol_type g4)) (\<lambda>(_, opt).
               bind_ok (add_man_extension_header (g_man g4) None (g_protocol_type g4)) (\<lambda>(_, man).
                 Inr (g4\<lparr>g_opt := opt, g_man := man\<rparr>))))
         else if 1 < num then
           Inr (if num = 2
                then g1\<lparr>g_PDU_total_length := g_PDU_total_length g1 + (n_pdu_size n + 2 + 2)\<rparr>
                else g1\<lparr>g_PDU_total_length := g_PDU_total_length g1 + (n_pdu_size n + 2)\<rparr>)
         else Inr g1)
        (\<lambda>g5. if unat num \<le> PDU_MAX_NUM
               then bind_ok (load_i (g_one_PDU g5) (uint num - 1)) (\<lambda>p.
                    bind_ok (store_i (g_one_PDU g5) (uint num - 1) (node_to_one_pdu n p)) (\<lambda>ps.
                      Inr (g5\<lparr>g_one_PDU := ps\<rparr>)))
               else Inr g5))"

definition add_to_pdu_group_p ::
    "EN_PDU_NODE option \<Rightarrow> PDU_GROUP option \<Rightarrow> u8 \<Rightarrow> u8 \<Rightarrow> (int \<times> PDU_GROUP option) outcome" where
  "add_to_pdu_group_p n g lt ls = (case (n, g) of
     (Some n', Some g') \<Rightarrow> bind_ok (add_to_pdu_group n' g' lt ls) (\<lambda>r. Inr (0, Some r))
   | _ \<Rightarrow> Inr (POINT_ERROR, g))"

definition reset_pdu_group :: "PDU_GROUP \<Rightarrow> PDU_GROUP" where
  "reset_pdu_group g = zero_pdu_group"

definition reset_gse_group :: "GSE_GROUP \<Rightarrow> GSE_GROUP" where
  "reset_gse_group s = s\<lparr>s_priority_group := 0, s_modcod := 0, s_gse_num := 0, s_total_length := 0\<rparr>"

section \<open>Header and data lengths\<close>

definition get_encapsulation_type :: "u16 \<Rightarrow> u8 \<Rightarrow> int" where
  "get_encapsulation_type pdu_num fragment_flag =
     (if pdu_num = 1
      then if fragment_flag = 1 then ENCAPSULATION_TYPE_FRAG else ENCAPSULATION_TYPE_WHOLE
      else if 1 < pdu_num
      then if fragment_flag = 1 then GSE_PARAM_ERROR else ENCAPSULATION_TYPE_CONCAT
      else GSE_PARAM_ERROR)"

definition calc_gse_variable_header_size :: "int \<Rightarrow> u8 \<Rightarrow> u16 \<Rightarrow> u16 \<Rightarrow> GSE_VARIABLE_HEADER_SIZE" where
  "calc_gse_variable_header_size encapsulation_type fragment_type label_type data_length =
     \<lparr>fragment_ID_size = (if encapsulation_type = ENCAPSULATION_TYPE_FRAG then 1 else 0),
      total_length_size = (if encapsulation_type = ENCAPSULATION_TYPE_FRAG
                              \<and> fragment_type = FRAGMENT_TYPE_S then 2 else 0),
      protocol_type_size = (if 0 < data_length then 2 else 0),
      label_size = (if label_type = ucast LABEL_TYPE_6B then 6
                    else if label_type = ucast LABEL_TYPE_REUSE then 0
                    else if label_type = ucast LABEL_TYPE_BROADCAST then 0
                    else if label_type = ucast LABEL_TYPE_3B then 3 else 0)\<rparr>"

definition calc_gse_length :: "GSE_VARIABLE_HEADER_SIZE \<Rightarrow> u16 \<Rightarrow> u16" where
  "calc_gse_length v data_length =
     ucast (protocol_type_size v) + ucast (fragment_ID_size v) + ucast (total_length_size v)
     + ucast (label_size v) + data_length"

text \<open>
  \<open>sum_sizes hs n acc\<close> is the loop \<open>for (i = 0; i < n; i++) acc += hs[i]\<close> over an array of
  16-bit sizes.
\<close>

definition sum_sizes :: "u16 list \<Rightarrow> int \<Rightarrow> 'a::len word \<Rightarrow> 'a word outcome" where
  "sum_sizes hs n acc = for_each [0..n - 1] (\<lambda>i s. bind_ok (load_i hs i) (\<lambda>x. Inr (s + ucast x))) acc"

definition sum_concat :: "ONE_PDU list \<Rightarrow> u16 \<Rightarrow> 'a::len word \<Rightarrow> 'a word outcome" where
  "sum_concat ps n acc =
     for_each [0..uint n - 1] (\<lambda>i s. bind_ok (load_i ps i) (\<lambda>p. Inr (s + ucast (o_pdu_size p + 2)))) acc"

definition calc_data_length :: "PDU_GROUP \<Rightarrow> u32 outcome" where
  "calc_data_length g =
     (if g_pdu_num g = 1
      then bind_ok (load_i (g_one_PDU g) 0) (\<lambda>p.
        Inr (if g_fragment_flag g \<noteq> 0 \<and> g_fragment_type g = FRAGMENT_TYPE_E
             then o_pdu_size p + 4 else o_pdu_size p))
      else sum_concat (g_one_PDU g) (g_pdu_num g) 0)"

definition calc_ext_header_length :: "PDU_GROUP \<Rightarrow> u32 outcome" where
  "calc_ext_header_length g =
     (let opt = g_opt g; man = g_man g in
      bind_ok (if man_header_num man \<le> int EXT_HEADER_MAX_NUM
               then sum_sizes (opt_header_size opt) (opt_header_num opt) 0 else Inr 0) (\<lambda>l.
      if man_header_num man \<le> int EXT_HEADER_MAX_NUM
      then sum_sizes (man_header_size man) (man_header_num man) l else Inr l))"

definition calc_datafield_length :: "PDU_GROUP \<Rightarrow> u16 outcome" where
  "calc_datafield_length g =
     (let opt = g_opt g; man = g_man g in
      bind_ok
        (if g_pdu_num g = 1
         then bind_ok (load_i (g_one_PDU g) 0) (\<lambda>p.
           Inr (if g_fragment_flag g \<noteq> 0 \<and> g_fragment_type g = FRAGMENT_TYPE_E
                then ucast (o_pdu_size p) + 4 else ucast (o_pdu_size p)))
         else if unat (g_pdu_num g) \<le> PDU_MAX_NUM
         then sum_concat (g_one_PDU g) (g_pdu_num g) 0
         else Inr 0) (\<lambda>l1.
      bind_ok (if opt_header_num opt \<le> int EXT_HEADER_MAX_NUM
               then sum_sizes (opt_header_size opt) (opt_header_num opt) l1 else Inr l1) (\<lambda>l2.
      if man_header_num man \<le> int EXT_HEADER_MAX_NUM
      then sum_sizes (man_header_size man) (man_header_num man) l2 else Inr l2)))"

section \<open>The fixed and the variable header\<close>

definition fixed_header_indicators :: "int \<Rightarrow> u8 \<Rightarrow> 1 word \<times> 1 word" where
  "fixed_header_indicators encapsulation_type fragment_type =
     (if encapsulation_type = ENCAPSULATION_TYPE_WHOLE \<or> encapsulation_type = ENCAPSULATION_TYPE_CONCAT
      then (1, 1)
      else if encapsulation_type = ENCAPSULATION_TYPE_FRAG
      then if fragment_type = FRAGMENT_TYPE_S then (1, 0)
           else if fragment_type = FRAGMENT_TYPE_M then (0, 0)
           else if fragment_type = FRAGMENT_TYPE_E then (0, 1)
           else (0, 0)
      else (0, 0))"

definition package_gse_fixed_header ::
    "int \<Rightarrow> u8 \<Rightarrow> u8 \<Rightarrow> u16 \<Rightarrow> GSE_FIXED_HEADER \<times> GSE_VARIABLE_HEADER_SIZE" where
  "package_gse_fixed_header encapsulation_type label_type fragment_type data_length =
     (let (S, E) = fixed_header_indicators encapsulation_type fragment_type;
          lt = (ucast label_type :: 2 word);
          v = calc_gse_variable_header_size encapsulation_type fragment_type (ucast lt) data_length
      in (\<lparr>GSE_Length = ucast (calc_gse_length v data_length), Label_Type = lt,
           End_Indicator = E, Start_Indicator = S\<rparr>, v))"

text \<open>The 16 bits of the fixed header as the little-endian target stores them.\<close>

definition fixed_header_bits :: "GSE_FIXED_HEADER \<Rightarrow> u16" where
  "fixed_header_bits h =
     ucast (GSE_Length h) OR push_bit 12 (ucast (Label_Type h)) OR push_bit 14 (ucast (End_Indicator h))
     OR push_bit 15 (ucast (Start_Indicator h))"

definition bits_fixed_header :: "u16 \<Rightarrow> GSE_FIXED_HEADER" where
  "bits_fixed_header w =
     \<lparr>GSE_Length = ucast w, Label_Type = ucast (drop_bit 12 w), End_Indicator = ucast (drop_bit 14 w),
      Start_Indicator = ucast (drop_bit 15 w)\<rparr>"

text \<open>
  \<open>package_gse_variable_header\<close> returns \<open>SIZE_ERROR\<close> or 0 and the buffer.  The total length is
  stored last, into the two bytes it left free after the fragment ID.
\<close>

definition package_total_length :: "GSE_VARIABLE_HEADER_SIZE \<Rightarrow> PDU_GROUP \<Rightarrow> u16 outcome" where
  "package_total_length v g =
     (let opt = g_opt g; man = g_man g;
          l0 = ucast (protocol_type_size v) + ucast (label_size v) + g_fragmented_PDU_length g in
      bind_ok (if man_header_num man \<le> int EXT_HEADER_MAX_NUM
               then sum_sizes (opt_header_size opt) (opt_header_num opt) l0 else Inr l0) (\<lambda>l1.
      bind_ok (if man_header_num man \<le> int EXT_HEADER_MAX_NUM
               then sum_sizes (man_header_size man) (man_header_num man) l1 else Inr l1) (\<lambda>l2.
        Inr (bswap16 l2))))"

definition first_protocol_type :: "PDU_GROUP \<Rightarrow> u16 outcome" where
  "first_protocol_type g =
     (if 0 < opt_header_num (g_opt g) then load_i (opt_header_type (g_opt g)) 0
      else if 0 < man_header_num (g_man g) then load_i (man_header_type (g_man g)) 0
      else Inr (bswap16 (g_protocol_type g)))"

definition put_protocol_type :: "GSE_VARIABLE_HEADER_SIZE \<Rightarrow> PDU_GROUP \<Rightarrow> u8 list \<Rightarrow> nat \<Rightarrow> u8 list outcome" where
  "put_protocol_type v g buf off =
     bind_ok (first_protocol_type g) (\<lambda>ty. put_bytes buf off (le16 ty))"

definition package_gse_variable_header ::
    "GSE_VARIABLE_HEADER_SIZE \<Rightarrow> PDU_GROUP \<Rightarrow> u8 list \<Rightarrow> (int \<times> u8 list) outcome" where
  "package_gse_variable_header v g buf =
     (if 0 < fragment_ID_size v \<and> fragment_ID_size v \<noteq> 1 then Inr (SIZE_ERROR, buf) else
      bind_ok (if 0 < fragment_ID_size v then store_at buf 0 (g_fragment_ID g) else Inr buf) (\<lambda>buf1.
      let off1 = unat (fragment_ID_size v) in
      if 0 < total_length_size v \<and> total_length_size v \<noteq> 2 then Inr (SIZE_ERROR, buf1) else
      let off2 = off1 + unat (total_length_size v) in
      if 0 < protocol_type_size v \<and> protocol_type_size v \<noteq> 2 then Inr (SIZE_ERROR, buf1) else
      bind_ok (if 0 < protocol_type_size v then put_protocol_type v g buf1 off2 else Inr buf1) (\<lambda>buf2.
      let off3 = off2 + unat (protocol_type_size v) in
      if 0 < label_size v \<and> label_size v \<noteq> 3 \<and> label_size v \<noteq> 6 then Inr (SIZE_ERROR, buf2) else
      bind_ok (if 0 < label_size v
               then bind_ok (get_bytes (g_MAC_address g) 0 (unat (label_size v))) (put_bytes buf2 off3)
               else Inr buf2) (\<lambda>buf3.
      if total_length_size v = 2
      then bind_ok (package_total_length v g) (\<lambda>total.
           bind_ok (put_bytes buf3 (unat (fragment_ID_size v)) (le16 total)) (\<lambda>buf4. Inr (0, buf4)))
      else Inr (0, buf3)))))"

section \<open>The fragment sequence numbers and \<open>update_pdu_group\<close>\<close>

text \<open>
  The static variables of \<open>update_pdu_group\<close>: for every device and fragment ID a counter of the
  fragmented PDUs that used the ID, the last fragment ID of the device, and whether the device has
  sent a fragment yet.  The bound \<open>MAX_FRAGMENT_ID\<close> of the counters is not under \<open>src/\<close>; it is the
  length of the inner lists.
\<close>

record UPD_STATICS =
  u_frag_count :: "u16 list list"
  u_fragment_ID :: "u8 list"
  u_first_enter_flag :: "u8 list"

definition frag_time_seq :: "EN_PDU_NODE \<Rightarrow> u16 \<Rightarrow> UPD_STATICS \<Rightarrow> (u16 \<times> UPD_STATICS) outcome" where
  "frag_time_seq n mapping_id st =
     (let m = unat mapping_id; ID = n_fragment_ID n; k = unat ID in
      bind_ok (load_at (u_first_enter_flag st) m) (\<lambda>entered.
      bind_ok (if entered = 0
               then bind_ok (store_at (u_fragment_ID st) m ID) (\<lambda>ids.
                    bind_ok (store_at (u_first_enter_flag st) m 1) (\<lambda>fl.
                      Inr (st\<lparr>u_fragment_ID := ids, u_first_enter_flag := fl\<rparr>)))
               else Inr st) (\<lambda>st1.
      bind_ok (load_at (u_fragment_ID st1) m) (\<lambda>last.
      bind_ok (load_at (u_frag_count st1) m) (\<lambda>row.
      bind_ok (load_at row k) (\<lambda>cnt.
      let c1 = (if last \<noteq> ID then cnt + 1 else cnt);
          c2 = (if 8192 \<le> c1 then 0 else c1) in
      bind_ok (store_at row k c2) (\<lambda>row'.
      bind_ok (store_at (u_frag_count st1) m row') (\<lambda>counts.
      bind_ok (store_at (u_fragment_ID st1) m ID) (\<lambda>ids.
        Inr (push_bit 3 c2 OR ucast (n_fragment_seq n),
             st1\<lparr>u_frag_count := counts, u_fragment_ID := ids\<rparr>))))))))))"

text \<open>The extension header that carries the sequence number, and the one that announces a
  concatenation, as \<open>update_pdu_group\<close> builds them on its stack.\<close>

definition frag_sequence_header :: "u16 \<Rightarrow> u16 \<Rightarrow> OPT_EXT_HEADER_INFO" where
  "frag_sequence_header time_seq protocol_type =
     zero_opt\<lparr>opt_header_num := 1,
       opt_header_type := (opt_header_type zero_opt)[0 := bswap16 FRAG_SEQUENCE],
       opt_header_size := (opt_header_size zero_opt)[0 := 2],
       opt_next_type := (opt_next_type zero_opt)[0 := bswap16 protocol_type],
       opt_header_value := (opt_header_value zero_opt)[0 := le16 (bswap16 time_seq) @ replicate 18 0]\<rparr>"

definition pdu_concat_header :: "u16 \<Rightarrow> MAN_EXT_HEADER_INFO" where
  "pdu_concat_header protocol_type =
     zero_man\<lparr>man_header_num := 1,
       man_value_address := (man_value_address zero_man)[0 := 1],
       man_header_type := (man_header_type zero_man)[0 := bswap16 PDU_CONCAT],
       man_header_size := (man_header_size zero_man)[0 := 0],
       man_next_type := (man_next_type zero_man)[0 := bswap16 protocol_type]\<rparr>"

definition add_group_ext_header ::
    "EN_PDU_NODE \<Rightarrow> PDU_GROUP \<Rightarrow> u16 \<Rightarrow> UPD_STATICS \<Rightarrow> (PDU_GROUP \<times> UPD_STATICS) outcome" where
  "add_group_ext_header n g mapping_id st =
     (if n_fragment_flag n = 1
      then bind_ok (frag_time_seq n mapping_id st) (\<lambda>(time_seq, st').
           bind_ok (add_opt_extension_header (g_opt g)
                     (Some (frag_sequence_header time_seq (g_protocol_type g))) (g_protocol_type g)) (\<lambda>(_, opt).
             Inr (g\<lparr>g_opt := opt\<rparr>, st')))
      else if g_pdu_num g = 2
      then bind_ok (add_man_extension_header (g_man g)
                     (Some (pdu_concat_header (g_protocol_type g))) (g_protocol_type g)) (\<lambda>(_, man).
             Inr (g\<lparr>g_man := man\<rparr>, st))
      else Inr (g, st))"

definition set_group_lengths :: "EN_PDU_NODE \<Rightarrow> u8 \<Rightarrow> PDU_GROUP \<Rightarrow> PDU_GROUP outcome" where
  "set_group_lengths n label_type' g =
     bind_ok (calc_ext_header_length g) (\<lambda>ext_header_length.
     bind_ok (calc_datafield_length g) (\<lambda>datafield_length.
     let v = calc_gse_variable_header_size (get_encapsulation_type (g_pdu_num g) (g_fragment_flag g))
               (n_fragment_type n) (ucast label_type') datafield_length
     in Inr (g\<lparr>
       g_gse_header_length := 2 + ucast (fragment_ID_size v) + ucast (total_length_size v)
                              + ucast (protocol_type_size v) + ucast (label_size v),
       g_ext_header_length := ucast ext_header_length,
       g_gse_data_length := datafield_length,
       g_gse_total_length := 2 + calc_gse_length v datafield_length\<rparr>)))"

definition update_pdu_group ::
    "EN_PDU_NODE \<Rightarrow> PDU_GROUP \<Rightarrow> u8 \<Rightarrow> u8 \<Rightarrow> u16 \<Rightarrow> UPD_STATICS \<Rightarrow> (PDU_GROUP \<times> UPD_STATICS) outcome" where
  "update_pdu_group n g label_type' label_size' mapping_id st =
     bind_ok (add_to_pdu_group n g label_type' label_size') (\<lambda>g1.
     bind_ok (add_group_ext_header n g1 mapping_id st) (\<lambda>(g2, st').
     bind_ok (set_group_lengths n label_type' g2) (\<lambda>g3. Inr (g3, st'))))"

section \<open>The payload account of a frame\<close>

definition init_frame_payload :: "FRAME_PAYLOAD \<Rightarrow> u8 \<Rightarrow> FRAME_PAYLOAD outcome" where
  "init_frame_payload f modcod = bind_ok (map_modcod_payload modcod) (\<lambda>p.
     Inr (f\<lparr>max_payload := p, used_payload := 0, usable_payload := p, frame_modcod := modcod\<rparr>))"

definition recalc_frame_payload :: "FRAME_PAYLOAD \<Rightarrow> u8 \<Rightarrow> FRAME_PAYLOAD outcome" where
  "recalc_frame_payload f modcod = bind_ok (map_modcod_payload modcod) (\<lambda>p.
     Inr (f\<lparr>max_payload := p, usable_payload := p - used_payload f, frame_modcod := modcod\<rparr>))"

definition update_frame_payload :: "FRAME_PAYLOAD \<Rightarrow> u16 \<Rightarrow> FRAME_PAYLOAD" where
  "update_frame_payload f delta_length =
     f\<lparr>usable_payload := usable_payload f - delta_length, used_payload := used_payload f + delta_length\<rparr>"

section \<open>Labels\<close>

primrec broadcast_from :: "u8 list \<Rightarrow> nat list \<Rightarrow> u8 outcome" where
  "broadcast_from MAC [] = Inr BROADCAST_TYPE_YES"
| "broadcast_from MAC (i # is) =
     bind_ok (load_at MAC i) (\<lambda>a.
       if BOARDCAST_ADDRESS ! i \<noteq> a then Inr BROADCAST_TYPE_NO else broadcast_from MAC is)"

definition get_broadcast_type :: "u8 list \<Rightarrow> u8 outcome" where
  "get_broadcast_type MAC = broadcast_from MAC [0..<6]"

text \<open>The result is the pair of label type and label size.\<close>

definition decide_label :: "u8 \<Rightarrow> u8 list \<Rightarrow> u8 \<Rightarrow> u8 list \<Rightarrow> bool \<Rightarrow> (u8 \<times> u8) outcome" where
  "decide_label mac_length1 mac1 mac_length2 mac2 null_frame =
     bind_ok (get_broadcast_type mac1) (\<lambda>broadcast_type.
     if broadcast_type \<noteq> 0 then Inr (LABEL_TYPE_BROADCAST, 0)
     else
       let own_label = (if mac_length1 = 6 then LABEL_TYPE_6B else LABEL_TYPE_3B, mac_length1) in
       if \<not> null_frame \<and> mac_length1 = mac_length2
       then bind_ok (equal_mac mac1 mac2 (unat mac_length1)) (\<lambda>same_mac.
              Inr (if same_mac \<noteq> 0 then (LABEL_TYPE_REUSE, 0) else own_label))
       else Inr own_label)"

definition update_last_label :: "u8 \<Rightarrow> u8 list \<Rightarrow> u8 \<Rightarrow> u8 list \<Rightarrow> (u8 \<times> u8 list) outcome" where
  "update_last_label mac_length1 mac1 mac_length2 mac2 =
     bind_ok (get_bytes mac1 0 (unat mac_length1)) (\<lambda>bs.
     bind_ok (put_bytes mac2 0 bs) (\<lambda>mac2'. Inr (mac_length1, mac2')))"

section \<open>\<open>encapsulate_gse\<close>\<close>

text \<open>
  \<open>stack\<close> and \<open>field\<close> are the uninitialised locals \<open>one_GSE\<close> and \<open>variable_field_value[11]\<close>, and
  \<open>now\<close> is the clock read by \<open>get_current_time\<close>.
\<close>

definition enter_gse_group :: "u64 \<Rightarrow> PDU_GROUP \<Rightarrow> GSE_GROUP \<Rightarrow> GSE_GROUP" where
  "enter_gse_group now g s =
     (let s1 = s\<lparr>s_total_length := s_total_length s + ucast (g_gse_total_length g),
                 s_priority_group := g_priority_group g, s_gse_num := s_gse_num s + 1\<rparr>
      in if s_gse_num s1 = 1
         then s1\<lparr>s_modcod := g_modcod g, s_frame_create_time := now\<rparr> else s1)"

definition build_one_gse :: "u8 list \<Rightarrow> ONE_GSE \<Rightarrow> PDU_GROUP \<Rightarrow> ONE_GSE outcome" where
  "build_one_gse field stack g =
     bind_ok (calc_datafield_length g) (\<lambda>datafield_length.
     let (fixed, v) = package_gse_fixed_header (get_encapsulation_type (g_pdu_num g) (g_fragment_flag g))
                        (g_label_type g) (g_fragment_type g) datafield_length;
         var_len = uint (GSE_Length fixed) - uint datafield_length in
     bind_ok (package_gse_variable_header v g field) (\<lambda>(_, field').
     bind_ok (put_bytes (e_GSE_header stack) 0 (le16 (bswap16 (fixed_header_bits fixed)))) (\<lambda>hd1.
     if var_len < 0 then Inl OutOfBounds else
     bind_ok (get_bytes field' 0 (nat var_len)) (\<lambda>bs.
     bind_ok (put_bytes hd1 2 bs) (\<lambda>hd2.
     bind_ok (get_bytes (g_one_PDU g) 0 (unat (g_pdu_num g))) (\<lambda>ps.
     bind_ok (put_bytes (e_one_PDU stack) 0 ps) (\<lambda>pdus.
     let e = \<lparr>e_GSE_header = hd2, e_GSE_header_size = 2 + word_of_int var_len,
              e_pdu_num = g_pdu_num g, e_fragment_flag = g_fragment_flag g,
              e_fragment_type = g_fragment_type g, e_fragment_ID = g_fragment_ID g,
              e_crc32 = bswap32 (g_crc32 g), e_one_PDU = pdus, e_opt = g_opt g, e_man = g_man g\<rparr> in
     if 0 < opt_header_num (e_opt e) \<and> 0 < man_header_num (e_man e)
     then bind_ok (load_i (man_header_type (e_man e)) 0) (\<lambda>ty.
          bind_ok (store_i (opt_next_type (e_opt e)) (opt_header_num (e_opt e) - 1) ty) (\<lambda>nexts.
            Inr (e\<lparr>e_opt := (e_opt e)\<lparr>opt_next_type := nexts\<rparr>\<rparr>)))
     else Inr e)))))))"

definition encapsulate_gse ::
    "u64 \<Rightarrow> u8 list \<Rightarrow> ONE_GSE \<Rightarrow> PDU_GROUP \<Rightarrow> GSE_GROUP \<Rightarrow> bool
     \<Rightarrow> (int \<times> PDU_GROUP \<times> GSE_GROUP) outcome" where
  "encapsulate_gse now field stack g s bResetSrc =
     (if g_pdu_num g = 0 then Inr (POINT_ERROR, g, s)
      else
        let s1 = enter_gse_group now g s in
        bind_ok (build_one_gse field stack g) (\<lambda>e.
        bind_ok (store_i (s_pOneGSE s1) (uint (s_gse_num s1) - 1) e) (\<lambda>es.
          Inr (0, if bResetSrc then reset_pdu_group g else g, s1\<lparr>s_pOneGSE := es\<rparr>))))"

definition update_gse_group ::
    "u64 \<Rightarrow> u8 list \<Rightarrow> ONE_GSE \<Rightarrow> FRAME_PAYLOAD \<Rightarrow> ENCAP_PARAM \<Rightarrow> bool
     \<Rightarrow> (FRAME_PAYLOAD \<times> ENCAP_PARAM) outcome" where
  "update_gse_group now field stack f ep bResetSrc =
     (let f' = update_frame_payload f (g_gse_total_length (pPDU_Group ep)) in
      bind_ok (encapsulate_gse now field stack (pPDU_Group ep) (pGSE_Group ep) bResetSrc) (\<lambda>(_, g, s).
        Inr (f', ep\<lparr>pPDU_Group := g, pGSE_Group := s\<rparr>)))"

section \<open>Sums and buffers\<close>

lemma sum_sizes_ok:
  "n \<le> int (length hs) \<Longrightarrow> sum_sizes hs n acc = Inr (acc + sum_list (map ucast (take (nat n) hs)))"
proof (induction "nat n" arbitrary: n)
  case 0
  then show ?case by (simp add: sum_sizes_def)
next
  case (Suc k)
  then have n: "n = int (Suc k)" by linarith
  have "[0..n - 1] = [0..int k - 1] @ [int k]" by (simp add: n upto_rec2)
  then have "sum_sizes hs n acc
      = bind_ok (sum_sizes hs (int k) acc) (\<lambda>s. bind_ok (load_i hs (int k)) (\<lambda>x. Inr (s + ucast x)))"
    by (simp add: sum_sizes_def for_each_append)
  also have "sum_sizes hs (int k) acc = Inr (acc + sum_list (map ucast (take k hs)))"
    using Suc.hyps(1) [of "int k"] Suc.prems n by simp
  finally show ?case
    using Suc.prems n by (simp add: take_Suc_conv_app_nth nat_add_distrib add.assoc)
qed

definition opt_wf :: "OPT_EXT_HEADER_INFO \<Rightarrow> bool" where
  "opt_wf h \<longleftrightarrow> 0 \<le> opt_header_num h \<and> opt_header_num h \<le> 10
     \<and> length (opt_header_type h) = 10 \<and> length (opt_header_size h) = 10
     \<and> length (opt_next_type h) = 10 \<and> length (opt_header_value h) = 10
     \<and> (\<forall>v \<in> set (opt_header_value h). length v = 20)"

definition man_wf :: "MAN_EXT_HEADER_INFO \<Rightarrow> bool" where
  "man_wf h \<longleftrightarrow> 0 \<le> man_header_num h \<and> man_header_num h \<le> 10
     \<and> length (man_value_address h) = 10 \<and> length (man_header_type h) = 10
     \<and> length (man_header_size h) = 10 \<and> length (man_next_type h) = 10
     \<and> length (man_header_address h) = 10 \<and> length (man_header_value h) = 10
     \<and> (\<forall>v \<in> set (man_header_value h). length v = 20)"

definition group_wf :: "PDU_GROUP \<Rightarrow> bool" where
  "group_wf g \<longleftrightarrow> opt_wf (g_opt g) \<and> man_wf (g_man g)
     \<and> length (g_one_PDU g) = PDU_MAX_NUM \<and> length (g_MAC_address g) = 6"

text \<open>The total size of the extension headers of a group.\<close>

definition ext_bytes :: "PDU_GROUP \<Rightarrow> u16" where
  "ext_bytes g = sum_list (take (nat (opt_header_num (g_opt g))) (opt_header_size (g_opt g)))
     + sum_list (take (nat (man_header_num (g_man g))) (man_header_size (g_man g)))"

lemma sum_sizes_u16:
  "n \<le> int (length hs) \<Longrightarrow> sum_sizes hs n acc = Inr (acc + sum_list (take (nat n) hs) :: u16)"
  by (simp add: sum_sizes_ok map_idI)

lemma package_total_length_ok:
  assumes "group_wf g"
  shows "package_total_length v g = Inr (bswap16
     (ucast (protocol_type_size v) + ucast (label_size v) + g_fragmented_PDU_length g + ext_bytes g))"
  using assms
  by (simp add: package_total_length_def group_wf_def opt_wf_def man_wf_def sum_sizes_u16 ext_bytes_def
      EXT_HEADER_MAX_NUM_def Let_def add.assoc)

text \<open>The protocol type in the header: that of the first extension header, if there is one.\<close>

definition wire_protocol_type :: "PDU_GROUP \<Rightarrow> u16" where
  "wire_protocol_type g =
     (if 0 < opt_header_num (g_opt g) then opt_header_type (g_opt g) ! 0
      else if 0 < man_header_num (g_man g) then man_header_type (g_man g) ! 0
      else bswap16 (g_protocol_type g))"

lemma first_protocol_type_ok: "group_wf g \<Longrightarrow> first_protocol_type g = Inr (wire_protocol_type g)"
  by (simp add: first_protocol_type_def wire_protocol_type_def group_wf_def opt_wf_def man_wf_def)

definition label_bytes :: "u16 \<Rightarrow> u8 list \<Rightarrow> u8 list" where
  "label_bytes lt mac = (if lt = 0 then take 6 mac else if lt = 1 then take 3 mac else [])"

definition variable_header_bytes :: "int \<Rightarrow> u8 \<Rightarrow> u16 \<Rightarrow> PDU_GROUP \<Rightarrow> u8 list" where
  "variable_header_bytes etype ftype lt g =
     (if etype = ENCAPSULATION_TYPE_FRAG then [g_fragment_ID g] else [])
     @ (if etype = ENCAPSULATION_TYPE_FRAG \<and> ftype = FRAGMENT_TYPE_S
        then le16 (bswap16 (2 + of_nat (length (label_bytes lt (g_MAC_address g)))
               + g_fragmented_PDU_length g + ext_bytes g)) else [])
     @ le16 (wire_protocol_type g) @ label_bytes lt (g_MAC_address g)"

lemma length_label_bytes: "length mac = 6 \<Longrightarrow>
  length (label_bytes lt mac) = (if lt = 0 then 6 else if lt = 1 then 3 else 0)"
  by (simp add: label_bytes_def)

lemma label_size_cases:
  "label_size (calc_gse_variable_header_size et ft lt dl)
   = (if lt = 0 then 6 else if lt = 1 then 3 else 0)"
  by (simp add: calc_gse_variable_header_size_def label_type_defs)

lemma package_variable_header_bytes:
  assumes wf: "group_wf g" and buf: "length buf = 11" and dl: "0 < dl"
  shows "package_gse_variable_header (calc_gse_variable_header_size et ft lt dl) g buf
     = Inr (0, variable_header_bytes et ft lt g @ drop (length (variable_header_bytes et ft lt g)) buf)"
proof -
  obtain b0 b1 b2 b3 b4 b5 b6 b7 b8 b9 b10 where b: "buf = [b0, b1, b2, b3, b4, b5, b6, b7, b8, b9, b10]"
    using buf by (auto simp: eval_nat_numeral length_Suc_conv)
  have "length (g_MAC_address g) = 6" using wf by (simp add: group_wf_def)
  then obtain m0 m1 m2 m3 m4 m5 where m: "g_MAC_address g = [m0, m1, m2, m3, m4, m5]"
    by (auto simp: eval_nat_numeral length_Suc_conv)
  show ?thesis
    using dl wf
    by (simp add: package_gse_variable_header_def calc_gse_variable_header_size_def label_type_defs
        put_protocol_type_def first_protocol_type_ok package_total_length_ok variable_header_bytes_def
        label_bytes_def b m put_bytes_def get_bytes_def store_at_def le16_def Let_def)
qed

section \<open>The GSE packet of a group\<close>

lemma sum_concat_ok:
  "unat n \<le> length ps \<Longrightarrow> sum_concat ps n acc
   = Inr (acc + sum_list (map (\<lambda>p. ucast (o_pdu_size p + 2)) (take (unat n) ps)))"
proof -
  have aux: "k \<le> length ps \<Longrightarrow>
      for_each [0..int k - 1] (\<lambda>i s. bind_ok (load_i ps i) (\<lambda>p. Inr (s + ucast (o_pdu_size p + 2)))) acc
      = Inr (acc + sum_list (map (\<lambda>p. ucast (o_pdu_size p + 2)) (take k ps)))" for k
  proof (induction k)
    case (Suc k)
    have "[0..int (Suc k) - 1] = [0..int k - 1] @ [int k]" by (simp add: upto_rec2)
    with Suc show ?case by (simp add: for_each_append take_Suc_conv_app_nth add.assoc)
  qed simp
  assume "unat n \<le> length ps"
  from aux [OF this] show ?thesis by (simp add: sum_concat_def)
qed

definition payload_bytes :: "PDU_GROUP \<Rightarrow> u16" where
  "payload_bytes g =
     (if g_pdu_num g = 1
      then ucast (o_pdu_size (g_one_PDU g ! 0))
           + (if g_fragment_flag g \<noteq> 0 \<and> g_fragment_type g = FRAGMENT_TYPE_E then 4 else 0)
      else sum_list (map (\<lambda>p. ucast (o_pdu_size p + 2)) (take (unat (g_pdu_num g)) (g_one_PDU g))))"

definition data_bytes :: "PDU_GROUP \<Rightarrow> u16" where
  "data_bytes g = payload_bytes g + ext_bytes g"

lemma calc_datafield_length_ok:
  assumes "group_wf g" "unat (g_pdu_num g) \<le> PDU_MAX_NUM"
  shows "calc_datafield_length g = Inr (data_bytes g)"
  using assms
  by (auto simp: calc_datafield_length_def data_bytes_def payload_bytes_def group_wf_def opt_wf_def
      man_wf_def sum_sizes_u16 sum_concat_ok ext_bytes_def EXT_HEADER_MAX_NUM_def PDU_MAX_NUM_def
      Let_def add.assoc)

definition group_label :: "PDU_GROUP \<Rightarrow> 2 word" where
  "group_label g = ucast (g_label_type g)"

definition group_var_header :: "PDU_GROUP \<Rightarrow> u8 list" where
  "group_var_header g = variable_header_bytes (get_encapsulation_type (g_pdu_num g) (g_fragment_flag g))
     (g_fragment_type g) (ucast (group_label g)) g"

definition group_fixed_header :: "PDU_GROUP \<Rightarrow> GSE_FIXED_HEADER" where
  "group_fixed_header g =
     (let (S, E) = fixed_header_indicators (get_encapsulation_type (g_pdu_num g) (g_fragment_flag g))
                     (g_fragment_type g)
      in \<lparr>GSE_Length = of_nat (length (group_var_header g) + unat (data_bytes g)),
          Label_Type = group_label g, End_Indicator = E, Start_Indicator = S\<rparr>)"

lemma length_variable_header_bytes:
  assumes "length (g_MAC_address g) = 6" "0 < dl"
  shows "unat (fragment_ID_size (calc_gse_variable_header_size et ft lt dl))
     + unat (total_length_size (calc_gse_variable_header_size et ft lt dl))
     + unat (protocol_type_size (calc_gse_variable_header_size et ft lt dl))
     + unat (label_size (calc_gse_variable_header_size et ft lt dl))
     = length (variable_header_bytes et ft lt g)"
  using assms by (simp add: label_size_cases)
    (simp add: calc_gse_variable_header_size_def variable_header_bytes_def label_bytes_def)

lemma length_variable_header_le:
  "length (g_MAC_address g) = 6 \<Longrightarrow> length (variable_header_bytes et ft lt g) \<le> 11"
  by (simp add: variable_header_bytes_def label_bytes_def)

lemma calc_gse_length_ok:
  assumes "length (g_MAC_address g) = 6" "0 < dl"
  shows "calc_gse_length (calc_gse_variable_header_size et ft lt dl) dl
     = of_nat (length (variable_header_bytes et ft lt g)) + dl"
  unfolding length_variable_header_bytes [OF assms, symmetric]
  by (simp add: calc_gse_length_def ac_simps)

lemma package_gse_fixed_header_ok:
  assumes "length (g_MAC_address g) = 6" "0 < data_bytes g"
  shows "package_gse_fixed_header (get_encapsulation_type (g_pdu_num g) (g_fragment_flag g))
       (g_label_type g) (g_fragment_type g) (data_bytes g)
     = (group_fixed_header g,
        calc_gse_variable_header_size (get_encapsulation_type (g_pdu_num g) (g_fragment_flag g))
          (g_fragment_type g) (ucast (group_label g)) (data_bytes g))"
  using assms calc_gse_length_ok [OF assms]
  by (simp add: package_gse_fixed_header_def group_fixed_header_def group_var_header_def group_label_def
      ucast_12_add ucast_12_of_nat Let_def split: prod.splits)

lemma group_var_header_size:
  assumes "group_wf g" "0 < data_bytes g" "length field = 11"
  shows "length (group_var_header g) \<le> 11"
    "package_gse_variable_header (calc_gse_variable_header_size
        (get_encapsulation_type (g_pdu_num g) (g_fragment_flag g)) (g_fragment_type g)
        (ucast (group_label g)) (data_bytes g)) g field
     = Inr (0, group_var_header g @ drop (length (group_var_header g)) field)"
  using assms package_variable_header_bytes length_variable_header_le
  by (simp_all add: group_var_header_def group_wf_def)

text \<open>
  The packet fits the 12-bit length field exactly when variable header and data have at most 4095
  bytes; then the stored header is the one of \<open>group_fixed_header\<close> followed by the variable header.
\<close>

definition fits_gse :: "PDU_GROUP \<Rightarrow> bool" where
  "fits_gse g \<longleftrightarrow> length (group_var_header g) + unat (data_bytes g) \<le> GSE_MAX_SIZE"

lemma group_GSE_Length:
  "unat (GSE_Length (group_fixed_header g))
   = (length (group_var_header g) + unat (data_bytes g)) mod 4096"
proof -
  have "GSE_Length (group_fixed_header g) = of_nat (length (group_var_header g) + unat (data_bytes g))"
    by (simp add: group_fixed_header_def split: prod.splits)
  then show ?thesis by (simp only: unat_of_nat) simp
qed

lemma var_len_fits:
  assumes "fits_gse g"
  shows "uint (GSE_Length (group_fixed_header g)) - uint (data_bytes g) = int (length (group_var_header g))"
proof -
  have "unat (GSE_Length (group_fixed_header g)) = length (group_var_header g) + unat (data_bytes g)"
    using assms by (simp add: group_GSE_Length fits_gse_def GSE_MAX_SIZE_def)
  moreover have "uint (GSE_Length (group_fixed_header g)) = int (unat (GSE_Length (group_fixed_header g)))"
    "uint (data_bytes g) = int (unat (data_bytes g))" by simp_all
  ultimately show ?thesis by linarith
qed

lemma var_len_overflow:
  assumes "\<not> fits_gse g" "length (group_var_header g) \<le> 11"
  shows "uint (GSE_Length (group_fixed_header g)) < uint (data_bytes g)"
proof -
  have "(length (group_var_header g) + unat (data_bytes g)) mod 4096 < unat (data_bytes g)"
  proof (cases "unat (data_bytes g) < 4096")
    case True
    then have "(length (group_var_header g) + unat (data_bytes g)) mod 4096
        = length (group_var_header g) + unat (data_bytes g) - 4096"
      using assms by (simp add: fits_gse_def GSE_MAX_SIZE_def mod_if)
    then show ?thesis using True assms by (simp add: fits_gse_def GSE_MAX_SIZE_def)
  next
    case False
    have "(length (group_var_header g) + unat (data_bytes g)) mod 4096 < 4096" by simp
    with False show ?thesis by linarith
  qed
  then have "unat (GSE_Length (group_fixed_header g)) < unat (data_bytes g)"
    by (simp only: group_GSE_Length)
  moreover have "uint (GSE_Length (group_fixed_header g)) = int (unat (GSE_Length (group_fixed_header g)))"
    "uint (data_bytes g) = int (unat (data_bytes g))" by simp_all
  ultimately show ?thesis by linarith
qed

definition stack_ok :: "u8 list \<Rightarrow> ONE_GSE \<Rightarrow> bool" where
  "stack_ok field stack \<longleftrightarrow> length field = 11 \<and> length (e_GSE_header stack) = 13
     \<and> length (e_one_PDU stack) = PDU_MAX_NUM"

definition group_ok :: "PDU_GROUP \<Rightarrow> bool" where
  "group_ok g \<longleftrightarrow> group_wf g \<and> 0 < unat (g_pdu_num g) \<and> unat (g_pdu_num g) \<le> PDU_MAX_NUM
     \<and> 0 < data_bytes g"

lemma build_one_gse_overflow:
  assumes "group_ok g" "stack_ok field stack" "\<not> fits_gse g"
  shows "build_one_gse field stack g = Inl OutOfBounds"
proof -
  have g: "group_wf g" "unat (g_pdu_num g) \<le> PDU_MAX_NUM" "0 < data_bytes g" "length (g_MAC_address g) = 6"
    using assms(1) by (auto simp: group_ok_def group_wf_def)
  have f: "length field = 11" "length (e_GSE_header stack) = 13" using assms(2) by (auto simp: stack_ok_def)
  note h = group_var_header_size [OF g(1,3) f(1)]
  show ?thesis
    using var_len_overflow [OF assms(3) h(1)] f
    by (simp add: build_one_gse_def calc_datafield_length_ok [OF g(1,2)]
        package_gse_fixed_header_ok [OF g(4,3)] h(2) Let_def)
qed

lemma build_one_gse_fits:
  assumes "group_ok g" "stack_ok field stack" "fits_gse g"
  shows "\<exists>e. build_one_gse field stack g = Inr e
     \<and> unat (e_GSE_header_size e) = 2 + length (group_var_header g)
     \<and> length (e_GSE_header e) = 13
     \<and> take (unat (e_GSE_header_size e)) (e_GSE_header e)
       = le16 (bswap16 (fixed_header_bits (group_fixed_header g))) @ group_var_header g
     \<and> take (unat (g_pdu_num g)) (e_one_PDU e) = take (unat (g_pdu_num g)) (g_one_PDU g)
     \<and> length (e_one_PDU e) = PDU_MAX_NUM
     \<and> e_pdu_num e = g_pdu_num g \<and> e_fragment_flag e = g_fragment_flag g
     \<and> e_fragment_type e = g_fragment_type g \<and> e_fragment_ID e = g_fragment_ID g
     \<and> e_crc32 e = bswap32 (g_crc32 g) \<and> e_man e = g_man g
     \<and> (man_header_num (g_man g) = 0 \<longrightarrow> e_opt e = g_opt g)"
proof -
  have g: "group_wf g" "unat (g_pdu_num g) \<le> PDU_MAX_NUM" "0 < data_bytes g" "length (g_MAC_address g) = 6"
    using assms(1) by (auto simp: group_ok_def group_wf_def)
  have f: "length field = 11" "length (e_GSE_header stack) = 13" "length (e_one_PDU stack) = PDU_MAX_NUM"
    using assms(2) by (auto simp: stack_ok_def)
  note h = group_var_header_size [OF g(1,3) f(1)]
  let ?n = "length (group_var_header g)"
  have n: "?n \<le> 11" by (rule h(1))
  have size: "unat (2 + of_nat ?n :: u8) = 2 + ?n"
    using n by (subst unat_add_lt) (simp_all add: unat_of_nat_lt)
  have opt: "length (opt_next_type (g_opt g)) = 10" "opt_header_num (g_opt g) \<le> 10"
    "length (man_header_type (g_man g)) = 10" "0 \<le> man_header_num (g_man g)" "length (g_one_PDU g) = PDU_MAX_NUM"
    using g(1) by (auto simp: group_wf_def opt_wf_def man_wf_def)
  have len: "\<not> uint (GSE_Length (group_fixed_header g)) < uint (data_bytes g)"
    using var_len_fits [OF assms(3)] by linarith
  show ?thesis
    using n f g(2) opt size len
    by (simp add: build_one_gse_def calc_datafield_length_ok [OF g(1,2)]
        package_gse_fixed_header_ok [OF g(4,3)] h(2) var_len_fits [OF assms(3)] Let_def)
qed

section \<open>The group of a single PDU or fragment\<close>

definition base_group :: "EN_PDU_NODE \<Rightarrow> u8 \<Rightarrow> u8 \<Rightarrow> PDU_GROUP" where
  "base_group n lt ls = zero_pdu_group\<lparr>
     g_priority_group := n_priority_group n, g_pdu_num := 1,
     g_fragment_flag := n_fragment_flag n, g_fragment_type := n_fragment_type n,
     g_fragment_ID := n_fragment_ID n, g_crc32 := n_crc32 n, g_MAC_address := n_MAC_address n,
     g_protocol_type := n_protocoltype n, g_PDU_total_length := n_pdu_size n,
     g_fragmented_PDU_length := (if n_fragment_flag n = 1 then n_pdu_total_length n else 0),
     g_label_type := lt, g_label_size := ls, g_modcod := n_MODCOD n,
     g_one_PDU := (replicate 180 zero_one_pdu)[0 := node_to_one_pdu n zero_one_pdu]\<rparr>"

lemma add_to_zero_group: "add_to_pdu_group n zero_pdu_group lt ls = Inr (base_group n lt ls)"
  by (simp add: add_to_pdu_group_def base_group_def zero_pdu_group_def PDU_MAX_NUM_def Let_def
      add_opt_extension_header_def add_man_extension_header_def load_i_def store_i_def load_at_def
      store_at_def)

definition frag_opt :: "u16 \<Rightarrow> u16 \<Rightarrow> OPT_EXT_HEADER_INFO" where
  "frag_opt time_seq protocol_type = zero_opt\<lparr>opt_header_num := 1,
     opt_header_type := (replicate 10 0)[0 := bswap16 FRAG_SEQUENCE],
     opt_header_size := (replicate 10 0)[0 := 4],
     opt_header_value := (replicate 10 (replicate 20 0))[0 := le16 (bswap16 time_seq) @ replicate 18 0],
     opt_next_type := (replicate 10 0)[0 := bswap16 protocol_type]\<rparr>"

lemma add_frag_header:
  "add_opt_extension_header zero_opt (Some (frag_sequence_header ts pt)) pt = Inr (1, frag_opt ts pt)"
  by (simp add: add_opt_extension_header_def frag_sequence_header_def zero_opt_def add_opt_one_def
      EXT_HEADER_MAX_NUM_def load_i_def store_i_def load_at_def store_at_def get_bytes_def
      put_bytes_def frag_opt_def Let_def)

lemma wf_zero [simp]: "opt_wf zero_opt" "man_wf zero_man"
  by (simp_all add: opt_wf_def man_wf_def zero_opt_def zero_man_def)

lemma wf_frag_opt [simp]: "opt_wf (frag_opt ts pt)"
proof -
  have "set ((replicate 10 (replicate 20 0))[0 := le16 (bswap16 ts) @ replicate 18 0])
      \<subseteq> insert (le16 (bswap16 ts) @ replicate 18 0) (set (replicate 10 (replicate 20 0)))"
    by (rule set_update_subset_insert)
  then show ?thesis by (auto simp: opt_wf_def frag_opt_def zero_opt_def)
qed

text \<open>What \<open>set_group_lengths\<close> computes.\<close>

lemma set_group_lengths_ok:
  assumes "group_wf g" "unat (g_pdu_num g) \<le> PDU_MAX_NUM" "0 < data_bytes g"
  shows "\<exists>g'. set_group_lengths n lt g = Inr g' \<and> group_wf g' \<and> data_bytes g' = data_bytes g
    \<and> g_pdu_num g' = g_pdu_num g \<and> g_opt g' = g_opt g \<and> g_man g' = g_man g
    \<and> g_one_PDU g' = g_one_PDU g \<and> g_MAC_address g' = g_MAC_address g
    \<and> g_fragment_flag g' = g_fragment_flag g \<and> g_fragment_type g' = g_fragment_type g
    \<and> g_fragment_ID g' = g_fragment_ID g \<and> g_label_type g' = g_label_type g
    \<and> g_protocol_type g' = g_protocol_type g \<and> g_crc32 g' = g_crc32 g
    \<and> g_fragmented_PDU_length g' = g_fragmented_PDU_length g
    \<and> g_gse_total_length g' = 2 + of_nat (length (variable_header_bytes
        (get_encapsulation_type (g_pdu_num g) (g_fragment_flag g)) (n_fragment_type n) (ucast lt) g))
        + data_bytes g"
proof -
  have m: "length (g_MAC_address g) = 6" using assms(1) by (simp add: group_wf_def)
  have "opt_wf (g_opt g)" "man_wf (g_man g)" using assms(1) by (simp_all add: group_wf_def)
  then obtain l where l: "calc_ext_header_length g = Inr l"
    by (auto simp: calc_ext_header_length_def opt_wf_def man_wf_def sum_sizes_ok EXT_HEADER_MAX_NUM_def Let_def)
  show ?thesis
    using assms(1) calc_gse_length_ok [OF m assms(3)]
    by (simp add: set_group_lengths_def l calc_datafield_length_ok [OF assms(1,2)] Let_def
        group_wf_def data_bytes_def payload_bytes_def ext_bytes_def add.assoc)
qed

text \<open>The size of the data of a single PDU or fragment: the last fragment carries the CRC-32 of the
  PDU, and every fragment the 4 bytes of its sequence header.\<close>

definition node_data_bytes :: "EN_PDU_NODE \<Rightarrow> u16" where
  "node_data_bytes n = n_pdu_size n
     + (if n_fragment_flag n = 1
        then (if n_fragment_type n = FRAGMENT_TYPE_E then 8 else 4) else 0)"

definition node_ok :: "EN_PDU_NODE \<Rightarrow> bool" where
  "node_ok n \<longleftrightarrow> length (n_MAC_address n) = 6 \<and> 0 < node_data_bytes n
     \<and> (n_fragment_flag n = 0 \<or> n_fragment_flag n = 1)"

text \<open>\<open>single_group n lt opt g\<close>: the group \<open>g\<close> holds the one PDU or fragment \<open>n\<close>.\<close>

definition single_group :: "EN_PDU_NODE \<Rightarrow> u8 \<Rightarrow> OPT_EXT_HEADER_INFO \<Rightarrow> PDU_GROUP \<Rightarrow> bool" where
  "single_group n lt opt g \<longleftrightarrow> group_ok g \<and> g_pdu_num g = 1 \<and> g_opt g = opt \<and> g_man g = zero_man
     \<and> data_bytes g = node_data_bytes n
     \<and> g_one_PDU g ! 0 = node_to_one_pdu n zero_one_pdu \<and> g_MAC_address g = n_MAC_address n
     \<and> g_fragment_flag g = n_fragment_flag n \<and> g_fragment_type g = n_fragment_type n
     \<and> g_fragment_ID g = n_fragment_ID n \<and> g_label_type g = lt
     \<and> g_protocol_type g = n_protocoltype n \<and> g_crc32 g = n_crc32 n
     \<and> g_fragmented_PDU_length g = (if n_fragment_flag n = 1 then n_pdu_total_length n else 0)"

lemma base_group_wf:
  "length (n_MAC_address n) = 6 \<Longrightarrow> opt_wf opt \<Longrightarrow> group_wf (base_group n lt ls\<lparr>g_opt := opt\<rparr>)"
  by (simp add: group_wf_def base_group_def zero_pdu_group_def PDU_MAX_NUM_def)

lemma base_group_single:
  assumes n: "node_ok n" and opt: "opt_wf opt"
    and ext: "sum_list (take (nat (opt_header_num opt)) (opt_header_size opt))
              = (if n_fragment_flag n = 1 then 4 else 0)"
    and lt: "lt < 4"
  shows "\<exists>g. set_group_lengths n lt (base_group n lt ls\<lparr>g_opt := opt\<rparr>) = Inr g
     \<and> single_group n lt opt g
     \<and> g_gse_total_length g = 2 + of_nat (length (group_var_header g)) + data_bytes g"
proof -
  let ?b = "base_group n lt ls\<lparr>g_opt := opt\<rparr>"
  have wf: "group_wf ?b" using n opt by (simp add: base_group_wf node_ok_def)
  have num: "g_pdu_num ?b = 1" by (simp add: base_group_def)
  then have num': "unat (g_pdu_num ?b) \<le> PDU_MAX_NUM" by (simp add: PDU_MAX_NUM_def)
  have "ext_bytes ?b = (if n_fragment_flag n = 1 then 4 else 0)"
    using ext by (simp add: ext_bytes_def base_group_def zero_pdu_group_def zero_man_def)
  then have d: "data_bytes ?b = node_data_bytes n"
    using n by (auto simp: data_bytes_def payload_bytes_def base_group_def node_data_bytes_def
        node_to_one_pdu_def zero_one_pdu_def node_ok_def)
  have "0 < data_bytes ?b" using n d by (simp add: node_ok_def)
  from set_group_lengths_ok [OF wf num' this, of n lt] obtain g where
    g: "set_group_lengths n lt ?b = Inr g" "group_wf g" "data_bytes g = data_bytes ?b"
      "g_pdu_num g = g_pdu_num ?b" "g_opt g = g_opt ?b" "g_man g = g_man ?b"
      "g_one_PDU g = g_one_PDU ?b" "g_MAC_address g = g_MAC_address ?b"
      "g_fragment_flag g = g_fragment_flag ?b" "g_fragment_type g = g_fragment_type ?b"
      "g_fragment_ID g = g_fragment_ID ?b" "g_label_type g = g_label_type ?b"
      "g_protocol_type g = g_protocol_type ?b" "g_crc32 g = g_crc32 ?b"
      "g_fragmented_PDU_length g = g_fragmented_PDU_length ?b"
      "g_gse_total_length g = 2 + of_nat (length (variable_header_bytes
        (get_encapsulation_type (g_pdu_num ?b) (g_fragment_flag ?b)) (n_fragment_type n) (ucast lt) ?b))
        + data_bytes ?b"
    by blast
  have "single_group n lt opt g"
    using g n num' unfolding single_group_def group_ok_def d node_ok_def
    by (simp add: base_group_def zero_pdu_group_def)
  moreover have "(ucast (ucast lt :: 2 word) :: u16) = ucast lt"
    using lt by (rule ucast_label_2_bits)
  then have "length (group_var_header g) = length (variable_header_bytes
      (get_encapsulation_type (g_pdu_num ?b) (g_fragment_flag ?b)) (n_fragment_type n) (ucast lt) ?b)"
    using g by (simp add: group_var_header_def variable_header_bytes_def group_label_def base_group_def)
  ultimately show ?thesis using g by auto
qed

lemma node_data_bytes_whole [simp]:
  "n_fragment_flag n = 0 \<Longrightarrow> node_data_bytes n = n_pdu_size n"
  by (simp add: node_data_bytes_def)

lemma update_pdu_group_whole:
  assumes "node_ok n" "n_fragment_flag n = 0" "lt < 4"
  shows "\<exists>g. update_pdu_group n zero_pdu_group lt ls m st = Inr (g, st)
     \<and> single_group n lt zero_opt g
     \<and> g_gse_total_length g = 2 + of_nat (length (group_var_header g)) + data_bytes g"
proof -
  have opt: "base_group n lt ls\<lparr>g_opt := zero_opt\<rparr> = base_group n lt ls"
    by (simp add: base_group_def zero_pdu_group_def)
  have "sum_list (take (nat (opt_header_num zero_opt)) (opt_header_size zero_opt))
        = (if n_fragment_flag n = 1 then 4 else 0)"
    using assms(2) by (simp add: zero_opt_def)
  from base_group_single [OF assms(1) wf_zero(1) this assms(3), of ls]
  obtain g where g: "set_group_lengths n lt (base_group n lt ls) = Inr g" "single_group n lt zero_opt g"
    "g_gse_total_length g = 2 + of_nat (length (group_var_header g)) + data_bytes g"
    by (auto simp: opt)
  have "add_group_ext_header n (base_group n lt ls) m st = Inr (base_group n lt ls, st)"
    using assms(2) by (simp add: add_group_ext_header_def base_group_def)
  with g show ?thesis by (simp add: update_pdu_group_def add_to_zero_group)
qed

lemma update_pdu_group_fragment:
  assumes "node_ok n" "n_fragment_flag n = 1" "lt < 4" "frag_time_seq n m st = Inr (ts, st')"
  shows "\<exists>g. update_pdu_group n zero_pdu_group lt ls m st = Inr (g, st')
     \<and> single_group n lt (frag_opt ts (n_protocoltype n)) g
     \<and> g_gse_total_length g = 2 + of_nat (length (group_var_header g)) + data_bytes g"
proof -
  let ?o = "frag_opt ts (n_protocoltype n)"
  have "sum_list (take (nat (opt_header_num ?o)) (opt_header_size ?o))
        = (if n_fragment_flag n = 1 then 4 else 0)"
    using assms(2) by (simp add: frag_opt_def eval_nat_numeral)
  from base_group_single [OF assms(1) wf_frag_opt this assms(3), of ls]
  obtain g where g: "set_group_lengths n lt (base_group n lt ls\<lparr>g_opt := ?o\<rparr>) = Inr g" "single_group n lt ?o g"
    "g_gse_total_length g = 2 + of_nat (length (group_var_header g)) + data_bytes g"
    by auto
  have "g_opt (base_group n lt ls) = zero_opt" "g_protocol_type (base_group n lt ls) = n_protocoltype n"
    by (simp_all add: base_group_def zero_pdu_group_def)
  then have "add_group_ext_header n (base_group n lt ls) m st = Inr (base_group n lt ls\<lparr>g_opt := ?o\<rparr>, st')"
    using assms(2,4) by (simp add: add_group_ext_header_def add_frag_header)
  with g show ?thesis by (simp add: update_pdu_group_def add_to_zero_group)
qed

text \<open>The header of a whole PDU, and of a fragment, as the receiver sees it.\<close>

definition gse_wire_header :: "1 word \<Rightarrow> 1 word \<Rightarrow> 2 word \<Rightarrow> nat \<Rightarrow> u8 list" where
  "gse_wire_header S E lt len = le16 (bswap16 (fixed_header_bits
     \<lparr>GSE_Length = of_nat len, Label_Type = lt, End_Indicator = E, Start_Indicator = S\<rparr>))"

lemma single_whole_headers:
  assumes "single_group n lt zero_opt g" "n_fragment_flag n = 0" "lt < 4"
  shows "group_var_header g = le16 (bswap16 (n_protocoltype n)) @ label_bytes (ucast lt) (n_MAC_address n)"
    "le16 (bswap16 (fixed_header_bits (group_fixed_header g)))
     = gse_wire_header 1 1 (ucast lt) (length (group_var_header g) + unat (n_pdu_size n))"
proof -
  have et: "get_encapsulation_type (g_pdu_num g) (g_fragment_flag g) = ENCAPSULATION_TYPE_WHOLE"
    using assms(1,2) by (simp add: single_group_def get_encapsulation_type_def)
  have et1: "get_encapsulation_type 1 (n_fragment_flag n) = ENCAPSULATION_TYPE_WHOLE"
    using assms(2) by (simp add: get_encapsulation_type_def)
  show "group_var_header g = le16 (bswap16 (n_protocoltype n)) @ label_bytes (ucast lt) (n_MAC_address n)"
    using assms(1) ucast_label_2_bits [OF assms(3)]
    by (simp add: group_var_header_def variable_header_bytes_def et1 group_label_def wire_protocol_type_def
        single_group_def zero_opt_def zero_man_def encapsulation_type_defs)
  have "data_bytes g = n_pdu_size n" "g_label_type g = lt"
    using assms(1,2) by (simp_all add: single_group_def)
  then show "le16 (bswap16 (fixed_header_bits (group_fixed_header g)))
     = gse_wire_header 1 1 (ucast lt) (length (group_var_header g) + unat (n_pdu_size n))"
    by (simp add: group_fixed_header_def gse_wire_header_def et fixed_header_indicators_def group_label_def)
qed

definition frag_indicators :: "u8 \<Rightarrow> 1 word \<times> 1 word" where
  "frag_indicators ftype = (if ftype = FRAGMENT_TYPE_S then (1, 0)
     else if ftype = FRAGMENT_TYPE_E then (0, 1) else (0, 0))"

lemma single_fragment_headers:
  assumes "single_group n lt (frag_opt ts pt) g" "n_fragment_flag n = 1" "lt < 4"
  shows "group_var_header g = [n_fragment_ID n]
      @ (if n_fragment_type n = FRAGMENT_TYPE_S
         then le16 (bswap16 (6 + of_nat (length (label_bytes (ucast lt) (n_MAC_address n)))
                             + n_pdu_total_length n)) else [])
      @ le16 (bswap16 FRAG_SEQUENCE) @ label_bytes (ucast lt) (n_MAC_address n)"
    "le16 (bswap16 (fixed_header_bits (group_fixed_header g)))
     = gse_wire_header (fst (frag_indicators (n_fragment_type n))) (snd (frag_indicators (n_fragment_type n)))
         (ucast lt) (length (group_var_header g) + unat (node_data_bytes n))"
proof -
  have et: "get_encapsulation_type (g_pdu_num g) (g_fragment_flag g) = ENCAPSULATION_TYPE_FRAG"
    using assms(1,2) by (simp add: single_group_def get_encapsulation_type_def)
  have et1: "get_encapsulation_type 1 1 = ENCAPSULATION_TYPE_FRAG"
    by (simp add: get_encapsulation_type_def)
  have ext: "ext_bytes g = 4"
    using assms(1) by (simp add: single_group_def ext_bytes_def frag_opt_def zero_man_def eval_nat_numeral)
  show "group_var_header g = [n_fragment_ID n]
      @ (if n_fragment_type n = FRAGMENT_TYPE_S
         then le16 (bswap16 (6 + of_nat (length (label_bytes (ucast lt) (n_MAC_address n)))
                             + n_pdu_total_length n)) else [])
      @ le16 (bswap16 FRAG_SEQUENCE) @ label_bytes (ucast lt) (n_MAC_address n)"
    using assms(1,2) ucast_label_2_bits [OF assms(3)]
    by (simp add: group_var_header_def variable_header_bytes_def et1 ext group_label_def
        wire_protocol_type_def single_group_def frag_opt_def eval_nat_numeral)
      (simp add: algebra_simps)
  have "data_bytes g = node_data_bytes n" "g_label_type g = lt" "g_fragment_type g = n_fragment_type n"
    using assms(1,2) by (simp_all add: single_group_def)
  then show "le16 (bswap16 (fixed_header_bits (group_fixed_header g)))
     = gse_wire_header (fst (frag_indicators (n_fragment_type n))) (snd (frag_indicators (n_fragment_type n)))
         (ucast lt) (length (group_var_header g) + unat (node_data_bytes n))"
    by (simp add: group_fixed_header_def gse_wire_header_def et fixed_header_indicators_def group_label_def
        encapsulation_type_defs frag_indicators_def fragment_type_defs)
qed

lemma group_var_header_le: "group_ok g \<Longrightarrow> length (group_var_header g) \<le> 11"
  by (simp add: group_ok_def group_wf_def group_var_header_def length_variable_header_le)

lemma single_group_total:
  assumes "group_ok g" "fits_gse g" "build_one_gse field stack g = Inr e" "stack_ok field stack"
    "g_gse_total_length g = 2 + of_nat (length (group_var_header g)) + data_bytes g"
  shows "unat (g_gse_total_length g) = unat (e_GSE_header_size e) + unat (data_bytes g)"
proof -
  have "unat (e_GSE_header_size e) = 2 + length (group_var_header g)"
    using build_one_gse_fits [OF assms(1,4,2)] assms(3) by auto
  moreover have n: "2 + length (group_var_header g) + unat (data_bytes g) \<le> 4097"
    using assms(2) by (simp add: fits_gse_def GSE_MAX_SIZE_def)
  moreover have "g_gse_total_length g = of_nat (2 + length (group_var_header g) + unat (data_bytes g))"
    using assms(5) by simp
  ultimately show ?thesis by (simp only: unat_of_nat) simp
qed

lemma encapsulate_gse_fault:
  assumes "build_one_gse field stack g = Inl OutOfBounds" "g_pdu_num g \<noteq> 0"
  shows "encapsulate_gse now field stack g s reset = Inl OutOfBounds"
  using assms by (simp add: encapsulate_gse_def)

lemma enter_gse_group_num: "s_gse_num (enter_gse_group now g s) = s_gse_num s + 1"
  by (simp add: enter_gse_group_def Let_def)

section \<open>Time stamps of fragments\<close>

definition statics_ok :: "UPD_STATICS \<Rightarrow> bool" where
  "statics_ok st \<longleftrightarrow> length (u_fragment_ID st) = MAX_DEVICE_NUM
     \<and> length (u_first_enter_flag st) = MAX_DEVICE_NUM \<and> length (u_frag_count st) = MAX_DEVICE_NUM
     \<and> (\<forall>row \<in> set (u_frag_count st). length row = 256 \<and> (\<forall>c \<in> set row. c < 8192))"

definition frag_counter :: "UPD_STATICS \<Rightarrow> u16 \<Rightarrow> u8 \<Rightarrow> u16" where
  "frag_counter st m ID = u_frag_count st ! unat m ! unat ID"

text \<open>The device has sent fragments before and the last one had another ID.\<close>

definition new_frag_ID :: "UPD_STATICS \<Rightarrow> u16 \<Rightarrow> u8 \<Rightarrow> bool" where
  "new_frag_ID st m ID \<longleftrightarrow> u_first_enter_flag st ! unat m \<noteq> 0 \<and> u_fragment_ID st ! unat m \<noteq> ID"

lemma statics_row:
  assumes "statics_ok st" "unat m < MAX_DEVICE_NUM"
  shows "length (u_frag_count st ! unat m) = 256" "frag_counter st m ID < 8192"
proof -
  have "u_frag_count st ! unat m \<in> set (u_frag_count st)" using assms by (simp add: statics_ok_def)
  then have row: "length (u_frag_count st ! unat m) = 256" "\<forall>c \<in> set (u_frag_count st ! unat m). c < 8192"
    using assms by (auto simp: statics_ok_def)
  then show "length (u_frag_count st ! unat m) = 256" by blast
  have "u_frag_count st ! unat m ! unat ID \<in> set (u_frag_count st ! unat m)"
    using row(1) unat_u8_lt [of ID] by simp
  with row(2) show "frag_counter st m ID < 8192" by (simp add: frag_counter_def)
qed

definition next_count :: "UPD_STATICS \<Rightarrow> u16 \<Rightarrow> u8 \<Rightarrow> u16" where
  "next_count st m ID =
     (let c = (if new_frag_ID st m ID then frag_counter st m ID + 1 else frag_counter st m ID)
      in if 8192 \<le> c then 0 else c)"

lemma next_count_less: "statics_ok st \<Longrightarrow> unat m < MAX_DEVICE_NUM \<Longrightarrow> next_count st m ID < 8192"
  using statics_row(2) [of st m ID] by (auto simp: next_count_def Let_def not_le)

lemma frag_time_seq_step:
  assumes st: "statics_ok st" and m: "unat m < MAX_DEVICE_NUM"
  shows "\<exists>st'. frag_time_seq n m st = Inr (push_bit 3 (next_count st m (n_fragment_ID n)) OR ucast (n_fragment_seq n), st')
     \<and> statics_ok st' \<and> frag_counter st' m (n_fragment_ID n) = next_count st m (n_fragment_ID n)
     \<and> \<not> new_frag_ID st' m (n_fragment_ID n)
     \<and> (\<forall>ID. ID \<noteq> n_fragment_ID n \<longrightarrow> new_frag_ID st' m ID \<and> frag_counter st' m ID = frag_counter st m ID)"
proof -
  let ?ID = "n_fragment_ID n" and ?m = "unat m"
  let ?row = "(u_frag_count st ! ?m)[unat ?ID := next_count st m ?ID]"
  let ?st = "st\<lparr>u_frag_count := (u_frag_count st)[?m := ?row],
                u_fragment_ID := (u_fragment_ID st)[?m := ?ID],
                u_first_enter_flag := (if u_first_enter_flag st ! ?m = 0
                  then (u_first_enter_flag st)[?m := 1] else u_first_enter_flag st)\<rparr>"
  have len: "length (u_fragment_ID st) = MAX_DEVICE_NUM" "length (u_first_enter_flag st) = MAX_DEVICE_NUM"
    "length (u_frag_count st) = MAX_DEVICE_NUM" using st by (auto simp: statics_ok_def)
  note row = statics_row [OF st m]
  have ID: "unat x < 256" for x :: u8 by (rule unat_u8_lt)
  have "frag_time_seq n m st = Inr (push_bit 3 (next_count st m ?ID) OR ucast (n_fragment_seq n), ?st)"
    using m row(1) ID [of ?ID]
    by (simp add: frag_time_seq_def len next_count_def new_frag_ID_def frag_counter_def Let_def)
  moreover have "statics_ok ?st"
  proof -
    have "set ?row \<subseteq> insert (next_count st m ?ID) (set (u_frag_count st ! ?m))"
      by (rule set_update_subset_insert)
    moreover have "u_frag_count st ! ?m \<in> set (u_frag_count st)" using len m by simp
    ultimately have "length ?row = 256 \<and> (\<forall>c \<in> set ?row. c < 8192)"
      using st next_count_less [OF st m, of ?ID] by (auto simp: statics_ok_def)
    moreover have "set ((u_frag_count st)[?m := ?row]) \<subseteq> insert ?row (set (u_frag_count st))"
      by (rule set_update_subset_insert)
    ultimately show ?thesis using st len by (auto simp: statics_ok_def)
  qed
  moreover have "unat ?ID \<noteq> unat ID" if "ID \<noteq> ?ID" for ID :: u8 using that by (simp add: word_unat_eq_iff)
  ultimately show ?thesis
    using m row(1) len ID by (intro exI [of _ ?st]) (auto simp: frag_counter_def new_frag_ID_def)
qed

section \<open>Properties\<close>

text \<open>C30: a whole PDU of at most 4087 bytes becomes one GSE packet: start and end indicator set, the
  length field counts protocol type, label and PDU, the protocol type is in network order and the
  length the frame accounts for is header plus PDU.\<close>

theorem whole_pdu_packet:
  assumes "node_ok n" "n_fragment_flag n = 0" "lt < 4" "stack_ok field stack" "unat (n_pdu_size n) \<le> 4087"
  shows "\<exists>g e. update_pdu_group n zero_pdu_group lt ls m st = Inr (g, st)
    \<and> build_one_gse field stack g = Inr e
    \<and> take (unat (e_GSE_header_size e)) (e_GSE_header e)
      = gse_wire_header 1 1 (ucast lt)
          (2 + length (label_bytes (ucast lt) (n_MAC_address n)) + unat (n_pdu_size n))
        @ le16 (bswap16 (n_protocoltype n)) @ label_bytes (ucast lt) (n_MAC_address n)
    \<and> unat (g_gse_total_length g) = unat (e_GSE_header_size e) + unat (n_pdu_size n)"
proof -
  obtain g where g: "update_pdu_group n zero_pdu_group lt ls m st = Inr (g, st)"
    "single_group n lt zero_opt g"
    "g_gse_total_length g = 2 + of_nat (length (group_var_header g)) + data_bytes g"
    using update_pdu_group_whole [OF assms(1-3)] by blast
  note h = single_whole_headers [OF g(2) assms(2,3)]
  have ok: "group_ok g" and d: "data_bytes g = n_pdu_size n"
    using g(2) assms(2) by (simp_all add: single_group_def)
  have "length (group_var_header g) \<le> 8" by (simp add: h(1) label_bytes_def min.coboundedI2)
  then have fits: "fits_gse g" using assms(5) d by (simp add: fits_gse_def GSE_MAX_SIZE_def)
  obtain e where e: "build_one_gse field stack g = Inr e"
    "take (unat (e_GSE_header_size e)) (e_GSE_header e)
     = le16 (bswap16 (fixed_header_bits (group_fixed_header g))) @ group_var_header g"
    using build_one_gse_fits [OF ok assms(4) fits] by auto
  show ?thesis using single_group_total [OF ok fits e(1) assms(4) g(3)] g(1) e h d by auto
qed

definition sample_node :: EN_PDU_NODE where
  "sample_node = zero_pdu_node\<lparr>n_pdu_size := 1500, n_protocoltype := 0x0800,
     n_MAC_address := [2, 0, 0, 0, 0, 1]\<rparr>"

definition sample_stack :: ONE_GSE where
  "sample_stack = \<lparr>e_GSE_header = replicate 13 0xAA, e_GSE_header_size = 0, e_pdu_num = 0,
     e_fragment_flag = 0, e_fragment_type = 0, e_fragment_ID = 0, e_crc32 = 0,
     e_one_PDU = replicate 180 zero_one_pdu, e_opt = zero_opt, e_man = zero_man\<rparr>"

definition sample_statics :: UPD_STATICS where
  "sample_statics = \<lparr>u_frag_count = replicate 8 (replicate 256 0), u_fragment_ID = replicate 8 0,
     u_first_enter_flag = replicate 8 0\<rparr>"

lemma sample_ok:
  "node_ok sample_node" "stack_ok (replicate 11 0xAA) sample_stack" "statics_ok sample_statics"
  by (simp_all add: node_ok_def node_data_bytes_def sample_node_def zero_pdu_node_def stack_ok_def
      sample_stack_def PDU_MAX_NUM_def statics_ok_def sample_statics_def MAX_DEVICE_NUM_def)

theorem whole_pdu_packet_witness:
  "\<exists>g e. update_pdu_group sample_node zero_pdu_group 0 6 0 sample_statics = Inr (g, sample_statics)
    \<and> build_one_gse (replicate 11 0xAA) sample_stack g = Inr e
    \<and> take (unat (e_GSE_header_size e)) (e_GSE_header e)
      = [0xC5, 0xE4, 8, 0, 2, 0, 0, 0, 0, 1]
    \<and> unat (g_gse_total_length g) = unat (e_GSE_header_size e) + 1500"
proof -
  have "gse_wire_header 1 1 (ucast (0 :: u8))
          (2 + length (label_bytes (ucast (0 :: u8)) (n_MAC_address sample_node)) + unat (n_pdu_size sample_node))
        @ le16 (bswap16 (n_protocoltype sample_node)) @ label_bytes (ucast (0 :: u8)) (n_MAC_address sample_node)
      = [0xC5, 0xE4, 8, 0, 2, 0, 0, 0, 0, 1]"
    by code_simp
  moreover have "n_fragment_flag sample_node = 0" "unat (n_pdu_size sample_node) = 1500"
    by (simp_all add: sample_node_def zero_pdu_node_def)
  ultimately show ?thesis
    using whole_pdu_packet [OF sample_ok(1) _ _ sample_ok(2), of 0 6 0 sample_statics] by simp
qed

text \<open>C31: a fragment becomes one GSE packet whose indicators say which fragment it is; it carries its
  fragment ID, the first fragment also the total length (protocol type, label, sequence header and
  PDU), and the protocol type is that of the sequence header.\<close>

theorem fragment_packet:
  assumes "node_ok n" "n_fragment_flag n = 1" "lt < 4" "stack_ok field stack"
    "unat (node_data_bytes n) \<le> 4084" "frag_time_seq n m st = Inr (ts, st')"
  shows "\<exists>g e. update_pdu_group n zero_pdu_group lt ls m st = Inr (g, st')
    \<and> build_one_gse field stack g = Inr e
    \<and> take (unat (e_GSE_header_size e)) (e_GSE_header e)
      = gse_wire_header (fst (frag_indicators (n_fragment_type n)))
          (snd (frag_indicators (n_fragment_type n))) (ucast lt)
          (unat (e_GSE_header_size e) - 2 + unat (node_data_bytes n))
        @ [n_fragment_ID n]
        @ (if n_fragment_type n = FRAGMENT_TYPE_S
           then le16 (bswap16 (6 + of_nat (length (label_bytes (ucast lt) (n_MAC_address n)))
                               + n_pdu_total_length n)) else [])
        @ le16 (bswap16 FRAG_SEQUENCE) @ label_bytes (ucast lt) (n_MAC_address n)
    \<and> e_opt e = frag_opt ts (n_protocoltype n)
    \<and> unat (g_gse_total_length g) = unat (e_GSE_header_size e) + unat (node_data_bytes n)"
proof -
  obtain g where g: "update_pdu_group n zero_pdu_group lt ls m st = Inr (g, st')"
    "single_group n lt (frag_opt ts (n_protocoltype n)) g"
    "g_gse_total_length g = 2 + of_nat (length (group_var_header g)) + data_bytes g"
    using update_pdu_group_fragment [OF assms(1-3,6)] by blast
  note h = single_fragment_headers [OF g(2) assms(2,3)]
  have ok: "group_ok g" and d: "data_bytes g = node_data_bytes n"
    "g_opt g = frag_opt ts (n_protocoltype n)" "man_header_num (g_man g) = 0"
    using g(2) by (simp_all add: single_group_def zero_man_def)
  have fits: "fits_gse g"
    using assms(5) d group_var_header_le [OF ok] by (simp add: fits_gse_def GSE_MAX_SIZE_def)
  obtain e where e: "build_one_gse field stack g = Inr e"
    "unat (e_GSE_header_size e) = 2 + length (group_var_header g)"
    "take (unat (e_GSE_header_size e)) (e_GSE_header e)
     = le16 (bswap16 (fixed_header_bits (group_fixed_header g))) @ group_var_header g"
    "e_opt e = g_opt g"
    using build_one_gse_fits [OF ok assms(4) fits] d by auto
  show ?thesis
    using single_group_total [OF ok fits e(1) assms(4) g(3)] g(1) e h d
    by (intro exI [of _ g] exI [of _ e]) simp
qed

theorem fragment_packet_witness:
  "\<exists>g e st'. update_pdu_group (sample_node\<lparr>n_fragment_flag := 1, n_pdu_size := 1000\<rparr>) zero_pdu_group 2 0 0
        sample_statics = Inr (g, st')
    \<and> build_one_gse (replicate 11 0xAA) sample_stack g = Inr e
    \<and> unat (g_gse_total_length g) = unat (e_GSE_header_size e) + 1004"
proof -
  let ?n = "sample_node\<lparr>n_fragment_flag := 1, n_pdu_size := 1000\<rparr>"
  have m: "unat (0 :: u16) < MAX_DEVICE_NUM" by (simp add: MAX_DEVICE_NUM_def)
  obtain ts st' where "frag_time_seq ?n 0 sample_statics = Inr (ts, st')"
    using frag_time_seq_step [OF sample_ok(3) m, of ?n] by blast
  moreover have "node_ok ?n" "unat (node_data_bytes ?n) = 1004"
    by (simp_all add: node_ok_def node_data_bytes_def sample_node_def zero_pdu_node_def fragment_type_defs)
  ultimately show ?thesis
    using fragment_packet [OF _ _ _ sample_ok(2), of ?n 2 0 sample_statics ts st' 0] by auto
qed

text \<open>C32: a PDU that does not fit the 12-bit length field (header and PDU beyond 4095 bytes) makes
  \<open>encapsulate_gse\<close> copy a negative number of header bytes.\<close>

theorem oversized_pdu_faults:
  assumes "node_ok n" "n_fragment_flag n = 0" "lt < 4" "stack_ok field stack"
    "4093 < unat (n_pdu_size n) + length (label_bytes (ucast lt) (n_MAC_address n))"
  shows "\<exists>g. update_pdu_group n zero_pdu_group lt ls m st = Inr (g, st)
    \<and> encapsulate_gse now field stack g s reset = Inl OutOfBounds"
proof -
  obtain g where g: "update_pdu_group n zero_pdu_group lt ls m st = Inr (g, st)"
    "single_group n lt zero_opt g"
    using update_pdu_group_whole [OF assms(1-3)] by blast
  have ok: "group_ok g" "data_bytes g = n_pdu_size n" "g_pdu_num g \<noteq> 0"
    using g(2) assms(2) by (simp_all add: single_group_def)
  have "\<not> fits_gse g"
    using assms(5) ok(2) single_whole_headers(1) [OF g(2) assms(2,3)]
    by (simp add: fits_gse_def GSE_MAX_SIZE_def)
  then have "build_one_gse field stack g = Inl OutOfBounds"
    by (rule build_one_gse_overflow [OF ok(1) assms(4)])
  with g(1) ok(3) show ?thesis by (blast intro: encapsulate_gse_fault)
qed

theorem oversized_pdu_faults_witness:
  "\<exists>g. update_pdu_group (sample_node\<lparr>n_pdu_size := 4094\<rparr>) zero_pdu_group 2 0 0 sample_statics
        = Inr (g, sample_statics)
    \<and> encapsulate_gse 0 (replicate 11 0xAA) sample_stack g
        \<lparr>s_modcod = 0, s_frame_create_time = 0, s_priority_group = 0, s_total_length = 0, s_gse_num = 0,
         s_pOneGSE = replicate 1000 sample_stack\<rparr> True = Inl OutOfBounds"
  by (rule oversized_pdu_faults [OF _ _ _ sample_ok(2)])
    (simp_all add: node_ok_def node_data_bytes_def sample_node_def zero_pdu_node_def)

text \<open>The 256th GSE packet of a frame is stored at index \<open>-1\<close>, because the 8-bit packet counter
  wraps to 0.\<close>

theorem gse_counter_wraps:
  assumes "group_ok g" "stack_ok field stack" "fits_gse g" "s_gse_num s = 255"
  shows "encapsulate_gse now field stack g s reset = Inl OutOfBounds"
proof -
  obtain e where e: "build_one_gse field stack g = Inr e"
    using build_one_gse_fits [OF assms(1-3)] by blast
  have "g_pdu_num g \<noteq> 0" using assms(1) by (auto simp: group_ok_def)
  then show ?thesis
    using e assms(4) by (simp add: encapsulate_gse_def enter_gse_group_num store_i_def)
qed

theorem gse_counter_wraps_witness:
  "\<exists>g. encapsulate_gse 0 (replicate 11 0xAA) sample_stack g
        \<lparr>s_modcod = 28, s_frame_create_time = 0, s_priority_group = 0, s_total_length = 6120, s_gse_num = 255,
         s_pOneGSE = replicate 1000 sample_stack\<rparr> True = Inl OutOfBounds"
proof -
  let ?n = "sample_node\<lparr>n_pdu_size := 20\<rparr>"
  have n: "node_ok ?n" "n_fragment_flag ?n = 0"
    by (simp_all add: node_ok_def node_data_bytes_def sample_node_def zero_pdu_node_def)
  have lt: "(2 :: u8) < 4" by simp
  obtain g where g: "single_group ?n 2 zero_opt g"
    using update_pdu_group_whole [OF n lt] by blast
  have "data_bytes g = 20" using g n by (simp add: single_group_def)
  moreover have ok: "group_ok g" using g by (simp add: single_group_def)
  ultimately have "fits_gse g"
    using group_var_header_le [OF ok] by (simp add: fits_gse_def GSE_MAX_SIZE_def)
  from gse_counter_wraps [OF ok sample_ok(2) this] show ?thesis by (intro exI [of _ g]) simp
qed

text \<open>C33: fragments that follow each other with the same fragment ID carry the same time stamp, a
  fragment with another ID than its predecessor a time stamp one higher than the ID's last one
  (modulo 8192).\<close>

theorem frag_time_stamps:
  assumes "statics_ok st" "unat m < MAX_DEVICE_NUM" "n_fragment_seq n < 8" "n_fragment_seq n' < 8"
  shows "\<exists>ts st1 ts' st2. frag_time_seq n m st = Inr (ts, st1) \<and> frag_time_seq n' m st1 = Inr (ts', st2)
    \<and> ts AND 7 = ucast (n_fragment_seq n) \<and> drop_bit 3 ts < 8192
    \<and> ts' AND 7 = ucast (n_fragment_seq n')
    \<and> (n_fragment_ID n' = n_fragment_ID n \<longrightarrow> drop_bit 3 ts' = drop_bit 3 ts)
    \<and> (n_fragment_ID n' \<noteq> n_fragment_ID n \<longrightarrow>
        unat (drop_bit 3 ts') = (unat (frag_counter st m (n_fragment_ID n')) + 1) mod 8192)"
proof -
  have fields: "(push_bit 3 c OR ucast q) AND 7 = (ucast q :: u16)"
    "drop_bit 3 (push_bit 3 c OR ucast q :: u16) = c" if "c < 8192" "q < (8 :: u8)" for c :: u16 and q
  proof -
    have q: "\<not> bit q k" if "3 \<le> k" for k
      using bits_below [of q 3 k] \<open>q < 8\<close> that by (auto simp: word_less_nat_alt)
    have c: "\<not> bit c k" if "13 \<le> k" for k
      using bits_below [of c 13 k] \<open>c < 8192\<close> that by (auto simp: word_less_nat_alt)
    have "(push_bit 3 c OR ucast q) AND 7 = take_bit 3 (push_bit 3 c OR ucast q :: u16)"
      by (simp add: take_bit_eq_mask mask_eq_exp_minus_1)
    then show "(push_bit 3 c OR ucast q) AND 7 = (ucast q :: u16)"
      by (intro bit_word_eqI) (use q in \<open>auto simp: bit_simps not_le dest: leI\<close>)
    show "drop_bit 3 (push_bit 3 c OR ucast q :: u16) = c"
    proof (rule bit_word_eqI)
      fix k assume "k < LENGTH(16)"
      then show "bit (drop_bit 3 (push_bit 3 c OR ucast q :: u16)) k = bit c k"
        using q [of "3 + k"] c [of k] by (cases "13 \<le> k") (auto simp: bit_simps add.commute)
    qed
  qed
  obtain st1 where s1: "frag_time_seq n m st = Inr (push_bit 3 (next_count st m (n_fragment_ID n)) OR ucast (n_fragment_seq n), st1)"
    "statics_ok st1" "frag_counter st1 m (n_fragment_ID n) = next_count st m (n_fragment_ID n)"
    "\<not> new_frag_ID st1 m (n_fragment_ID n)"
    "\<forall>ID. ID \<noteq> n_fragment_ID n \<longrightarrow> new_frag_ID st1 m ID \<and> frag_counter st1 m ID = frag_counter st m ID"
    using frag_time_seq_step [OF assms(1,2), of n] by blast
  obtain st2 where s2: "frag_time_seq n' m st1 = Inr (push_bit 3 (next_count st1 m (n_fragment_ID n')) OR ucast (n_fragment_seq n'), st2)"
    using frag_time_seq_step [OF s1(2) assms(2), of n'] by blast
  note c1 = next_count_less [OF assms(1,2), of "n_fragment_ID n"]
  note c2 = next_count_less [OF s1(2) assms(2), of "n_fragment_ID n'"]
  have same: "next_count st1 m (n_fragment_ID n) = next_count st m (n_fragment_ID n)"
    using s1(3,4) c1 by (auto simp: next_count_def [of st1] Let_def dest: leD)
  have other: "unat (next_count st1 m ID) = (unat (frag_counter st m ID) + 1) mod 8192" if "ID \<noteq> n_fragment_ID n" for ID
  proof -
    have lt: "unat (frag_counter st m ID) < 8192"
      using statics_row(2) [OF assms(1,2)] by (simp add: word_less_nat_alt)
    then have "unat (frag_counter st m ID + 1) = unat (frag_counter st m ID) + 1"
      using unat_add_lt [of "frag_counter st m ID" 1] by simp
    then show ?thesis using lt that s1(5) by (auto simp: next_count_def Let_def word_le_nat_alt mod_Suc)
  qed
  show ?thesis
    using s1(1) s2 fields [OF c1 assms(3)] fields [OF c2 assms(4)] same other c1 by auto
qed

theorem frag_time_stamps_witness:
  "\<exists>ts st1 ts' st2. frag_time_seq (sample_node\<lparr>n_fragment_ID := 3\<rparr>) 0 sample_statics = Inr (ts, st1)
    \<and> frag_time_seq (sample_node\<lparr>n_fragment_ID := 4, n_fragment_seq := 2\<rparr>) 0 st1 = Inr (ts', st2)
    \<and> ts AND 7 = 0 \<and> ts' AND 7 = 2 \<and> unat (drop_bit 3 ts') = 1"
  using frag_time_stamps [OF sample_ok(3), of 0 "sample_node\<lparr>n_fragment_ID := 3\<rparr>"
      "sample_node\<lparr>n_fragment_ID := 4, n_fragment_seq := 2\<rparr>"]
  by (auto simp: MAX_DEVICE_NUM_def sample_node_def zero_pdu_node_def frag_counter_def sample_statics_def)

end
