(* ===== verification/Fragment.thy ===== *)
theory Fragment
  imports EncapGse Crc
begin

text \<open>
  Fragmentation of a PDU (\<open>src/fragment.c\<close>) and the reading of its fragments
  (\<open>fetch_pdu_fragment\<close> of \<open>src/encapsulate.c\<close>).  The fragmenter of a channel keeps a buffer of
  256 entries, one per fragment ID, the FIFO of the IDs in use and, per device, the last ID it
  allocated.  The statistics counters are left out; the macro \<open>INVALID_ID_VALUE\<close> is not under
  \<open>src/\<close> and is the parameter \<open>invalid_id\<close>.
\<close>

section \<open>Operations\<close>

definition ERROR_FRAGMENT_ID_INVALID :: int where "ERROR_FRAGMENT_ID_INVALID = -1"
definition ERROR_FRAGMENT_SIZE :: int where "ERROR_FRAGMENT_SIZE = -2"
definition ERROR_FRAGMENT_ID_USED :: int where "ERROR_FRAGMENT_ID_USED = -3"

definition GSE_HEADER_LENGTH_FRAGMENT_PDU_S1 :: u16 where "GSE_HEADER_LENGTH_FRAGMENT_PDU_S1 = 13"
definition GSE_HEADER_LENGTH_FRAGMENT_PDU_S2 :: u16 where "GSE_HEADER_LENGTH_FRAGMENT_PDU_S2 = 7"
definition GSE_HEADER_LENGTH_FRAGMENT_PDU_S3 :: u16 where "GSE_HEADER_LENGTH_FRAGMENT_PDU_S3 = 10"
definition GSE_HEADER_LENGTH_FRAGMENT_PDU_M1 :: u16 where "GSE_HEADER_LENGTH_FRAGMENT_PDU_M1 = 11"
definition GSE_HEADER_LENGTH_INTEGRITY_PDU1 :: nat where "GSE_HEADER_LENGTH_INTEGRITY_PDU1 = 10"
definition GSE_HEADER_LENGTH_INTEGRITY_PDU2 :: nat where "GSE_HEADER_LENGTH_INTEGRITY_PDU2 = 4"

definition init_fragment_info :: "bool \<Rightarrow> CIRCULAR_QUEUE outcome" where
  "init_fragment_info malloc_ok = InitCircleQueue malloc_ok 256"

definition decide_fragment :: "bool \<Rightarrow> EN_PDU_NODE option \<Rightarrow> u16 \<Rightarrow> u8 \<Rightarrow> bool outcome" where
  "decide_fragment bNewFrame node frame_usable_payload frame_MODCOD = (case node of
     None \<Rightarrow> Inr False
   | Some n \<Rightarrow> bind_ok (get_broadcast_type (n_MAC_address n)) (\<lambda>bt.
       let gse_header_length = (if bt = BROADCAST_TYPE_YES then GSE_HEADER_LENGTH_INTEGRITY_PDU2
                                else GSE_HEADER_LENGTH_INTEGRITY_PDU1)
       in Inr (if unat frame_usable_payload < unat (n_pdu_size n) + gse_header_length
               then bNewFrame
                 \<or> (n_MODCOD n \<le> frame_MODCOD \<and> GSE_HEADER_LENGTH_FRAGMENT_PDU_S1 < frame_usable_payload)
               else False)))"

primrec find_free :: "FRAGMENT_BUFFER list \<Rightarrow> nat list \<Rightarrow> nat option outcome" where
  "find_free buf [] = Inr None"
| "find_free buf (i # is) =
     bind_ok (load_at buf i) (\<lambda>b. if b_used b = 0 then Inr (Some i) else find_free buf is)"

definition allocate_fragmentID :: "u8 \<Rightarrow> FRAGMENT_BUFFER list \<Rightarrow> u8 option outcome" where
  "allocate_fragmentID last_FragmentID buf =
     bind_ok (find_free buf [unat last_FragmentID + 1..<FRAGMENT_MAX_NUM]) (\<lambda>r1.
     bind_ok (case r1 of Some i \<Rightarrow> Inr (Some i)
              | None \<Rightarrow> find_free buf [0..<unat last_FragmentID + 1]) (\<lambda>r2.
       Inr (map_option of_nat r2)))"

text \<open>The sizes of a fragmentation: first, middle and last fragment, and the number of fragments.\<close>

record FRAG_PLAN =
  p_start_size :: u16
  p_middle_size :: u16
  p_end_size :: u16
  p_total_num :: u32

definition start_header_length :: "u8 \<Rightarrow> u8 \<Rightarrow> u16" where
  "start_header_length broadcast_type mac_length =
     (if broadcast_type = BROADCAST_TYPE_YES then GSE_HEADER_LENGTH_FRAGMENT_PDU_S2
      else if mac_length = 3 then GSE_HEADER_LENGTH_FRAGMENT_PDU_S3
      else GSE_HEADER_LENGTH_FRAGMENT_PDU_S1)"

definition fragment_plan :: "bool \<Rightarrow> u16 \<Rightarrow> u16 \<Rightarrow> u16 \<Rightarrow> u16 \<Rightarrow> FRAG_PLAN outcome" where
  "fragment_plan bNewFrame frame_max_payload frame_usable_payload gse_header_length1 pdu_size =
     (let start_size = (if bNewFrame then frame_max_payload - gse_header_length1
                        else frame_usable_payload - gse_header_length1) - 4;
          remaining = (ucast pdu_size - ucast start_size :: u32);
          middle_size = (if unat frame_max_payload \<le> GSE_MAX_SIZE
                         then frame_max_payload - GSE_HEADER_LENGTH_FRAGMENT_PDU_M1 - 4
                         else frame_max_payload div 2 - GSE_HEADER_LENGTH_FRAGMENT_PDU_M1 - 4)
      in if middle_size = 0 then Inl DivByZero
         else let end_size = (ucast (remaining mod ucast middle_size) :: u16);
                  num = remaining div ucast middle_size
              in Inr \<lparr>p_start_size = start_size, p_middle_size = middle_size, p_end_size = end_size,
                      p_total_num = (if 0 < end_size then num + 1 else num) + 1\<rparr>)"

record FRAG_STATE =
  fs_buffer :: "FRAGMENT_BUFFER list"
  fs_queue :: CIRCULAR_QUEUE
  fs_last_ID :: "u8 list"

definition run_fragment ::
    "bool \<Rightarrow> u16 \<Rightarrow> u16 \<Rightarrow> EN_PDU_NODE \<Rightarrow> u32 \<Rightarrow> u16 \<Rightarrow> FRAG_STATE \<Rightarrow> (int \<times> FRAG_STATE) outcome" where
  "run_fragment bNewFrame frame_max_payload frame_usable_payload n CRC32 mapping_id s =
     bind_ok (load_at (fs_last_ID s) (unat mapping_id)) (\<lambda>last.
     bind_ok (allocate_fragmentID last (fs_buffer s)) (\<lambda>r. case r of
       None \<Rightarrow> Inr (-1, s)
     | Some FragmentID \<Rightarrow>
         if n_pdu_size n = 0 then Inr (-1, s) else
         bind_ok (store_at (fs_last_ID s) (unat mapping_id) FragmentID) (\<lambda>lasts.
         bind_ok (get_broadcast_type (n_MAC_address n)) (\<lambda>broadcast_type.
         bind_ok (fragment_plan bNewFrame frame_max_payload frame_usable_payload
                    (start_header_length broadcast_type (n_mac_length n)) (n_pdu_size n)) (\<lambda>p.
         let entry = \<lparr>b_used = 1,
               b_fragment_info = \<lparr>f_FragmentID = FragmentID, f_total_num = ucast (p_total_num p),
                 f_transfered_num = 0, f_middle_size = p_middle_size p, f_start_size = p_start_size p,
                 f_end_size = p_end_size p - 4, f_CRC32 = CRC32\<rparr>,
               b_pdu_node = n\<rparr> in
         bind_ok (store_at (fs_buffer s) (unat FragmentID) entry) (\<lambda>buf.
         bind_ok (Push (fs_queue s) (ucast FragmentID)) (\<lambda>q.
           Inr (uint FragmentID, \<lparr>fs_buffer = buf, fs_queue = q, fs_last_ID = lasts\<rparr>))))))))"

definition run_fragment_p ::
    "bool \<Rightarrow> u16 \<Rightarrow> u16 \<Rightarrow> EN_PDU_NODE option \<Rightarrow> u32 \<Rightarrow> u16 \<Rightarrow> FRAG_STATE \<Rightarrow> (int \<times> FRAG_STATE) outcome" where
  "run_fragment_p b mx us n c m s = (case n of None \<Rightarrow> Inr (POINT_ERROR, s)
     | Some n' \<Rightarrow> run_fragment b mx us n' c m s)"

text \<open>The size of the PDU is raised by the 4 bytes of the CRC-32 during the call and restored.\<close>

definition do_fragment ::
    "mem \<Rightarrow> bool \<Rightarrow> u16 \<Rightarrow> u16 \<Rightarrow> EN_PDU_NODE \<Rightarrow> u16 \<Rightarrow> FRAG_STATE \<Rightarrow> (int \<times> EN_PDU_NODE \<times> FRAG_STATE) outcome" where
  "do_fragment m bNewFrame frame_max_payload frame_usable_payload n mapping_id s =
     (let CRC32 = crc32_lookup_table (load_bytes m (n_pPDU_start n) (unat (n_pdu_size n)));
          n1 = n\<lparr>n_pdu_size := n_pdu_size n + 4\<rparr>
      in bind_ok (run_fragment bNewFrame frame_max_payload frame_usable_payload n1 CRC32 mapping_id s)
           (\<lambda>(ret, s'). Inr (ret, n1\<lparr>n_pdu_size := n_pdu_size n1 - 4\<rparr>, s')))"

definition get_fragmentID :: "CIRCULAR_QUEUE \<Rightarrow> int outcome" where
  "get_fragmentID q = (case GetElement q 0 of None \<Rightarrow> Inr (-1)
     | Some i \<Rightarrow> bind_ok (load_at (pQueueStart q) i) (\<lambda>v. Inr (sint v)))"

text \<open>Which fragment is next, and its size: \<open>None\<close> when more fragments were read than there are.\<close>

definition next_fragment :: "FRAGMENT_INFO \<Rightarrow> (u16 \<times> u8) option" where
  "next_fragment f =
     (if f_transfered_num f = 0 then Some (f_start_size f, FRAGMENT_TYPE_S)
      else if uint (f_transfered_num f) = uint (f_total_num f) - 1 then Some (f_end_size f, FRAGMENT_TYPE_E)
      else if uint (f_transfered_num f) < uint (f_total_num f) - 1 then Some (f_middle_size f, FRAGMENT_TYPE_M)
      else None)"

definition fragment_address :: "FRAGMENT_INFO \<Rightarrow> ptr \<Rightarrow> ptr" where
  "fragment_address f start =
     (if f_transfered_num f \<le> 1
      then start + of_nat (unat (f_start_size f) * unat (f_transfered_num f))
      else start + of_nat (unat (f_start_size f))
           + of_nat (unat (f_middle_size f) * (unat (f_transfered_num f) - 1)))"

definition fragment_node :: "FRAGMENT_BUFFER \<Rightarrow> int \<Rightarrow> u16 \<Rightarrow> u8 \<Rightarrow> EN_PDU_NODE \<Rightarrow> EN_PDU_NODE" where
  "fragment_node b ID sz ftype n =
     (let f = b_fragment_info b; p = b_pdu_node b in
      n\<lparr>n_fragment_type := ftype, n_pdu_size := sz, n_pPDU_start := fragment_address f (n_pPDU_start p),
        n_mac_length := n_mac_length p, n_MAC_address := n_MAC_address p, n_MODCOD := n_MODCOD p,
        n_vip_flag := n_vip_flag p, n_mobility := n_mobility p, n_priority := n_priority p,
        n_priority_group := n_priority_group p, n_pPDU_address := n_pPDU_start p,
        n_mbuf_address := n_mbuf_address p, n_enq_time := n_enq_time p,
        n_fragment_flag := 1, n_fragment_ID := word_of_int ID, n_fragment_seq := f_transfered_num f,
        n_pdu_total_length := n_pdu_total_length p, n_crc32 := f_CRC32 f\<rparr>)"

definition fetch_pdu_fragment ::
    "(int \<Rightarrow> bool) \<Rightarrow> FRAG_STATE \<Rightarrow> EN_PDU_NODE \<Rightarrow> (int \<times> FRAG_STATE \<times> EN_PDU_NODE) outcome" where
  "fetch_pdu_fragment invalid_id s n =
     bind_ok (get_fragmentID (fs_queue s)) (\<lambda>ID.
     if invalid_id ID then Inr (ERROR_FRAGMENT_ID_INVALID, s, n) else
     bind_ok (load_i (fs_buffer s) ID) (\<lambda>b.
     if b_used b = 0 then Inr (ERROR_FRAGMENT_ID_USED, s, n) else
     case next_fragment (b_fragment_info b) of
       None \<Rightarrow> Inr (ERROR_FRAGMENT_SIZE, s, n)
     | Some (sz, ftype) \<Rightarrow>
         let n' = fragment_node b ID sz ftype n;
             f = (b_fragment_info b)\<lparr>f_transfered_num := f_transfered_num (b_fragment_info b) + 1\<rparr> in
         if f_total_num f \<le> f_transfered_num f
         then bind_ok (store_i (fs_buffer s) ID (b\<lparr>b_fragment_info := f, b_used := 0\<rparr>)) (\<lambda>buf.
              bind_ok (SetElement (fs_queue s) 0 (-1)) (\<lambda>q.
                Inr (ID, s\<lparr>fs_buffer := buf, fs_queue := Pop q\<rparr>, n')))
         else bind_ok (store_i (fs_buffer s) ID (b\<lparr>b_fragment_info := f\<rparr>)) (\<lambda>buf.
                Inr (ID, s\<lparr>fs_buffer := buf\<rparr>, n'))))"

definition fetch_pdu_fragment_p ::
    "(int \<Rightarrow> bool) \<Rightarrow> FRAG_STATE \<Rightarrow> EN_PDU_NODE option \<Rightarrow> (int \<times> FRAG_STATE \<times> EN_PDU_NODE option) outcome" where
  "fetch_pdu_fragment_p invalid_id s n = (case n of
     None \<Rightarrow> Inr (POINT_ERROR, s, None)
   | Some n' \<Rightarrow> bind_ok (fetch_pdu_fragment invalid_id s n') (\<lambda>(ID, s', n''). Inr (ID, s', Some n'')))"

section \<open>Allocation of fragment IDs\<close>

lemma find_free_eq:
  "(\<forall>i \<in> set is. i < length buf) \<Longrightarrow> find_free buf is = Inr (List.find (\<lambda>i. b_used (buf ! i) = 0) is)"
  by (induction "is") auto

lemma find_upt_Some:
  "List.find P [a..<b] = Some i \<Longrightarrow> a \<le> i \<and> i < b \<and> P i"
  by (auto simp: find_Some_iff)

lemma allocate_eq:
  assumes "length buf = 256"
  shows "allocate_fragmentID lst buf = Inr (map_option of_nat
     (case List.find (\<lambda>i. b_used (buf ! i) = 0) [unat lst + 1..<256] of
        Some i \<Rightarrow> Some i | None \<Rightarrow> List.find (\<lambda>i. b_used (buf ! i) = 0) [0..<unat lst + 1]))"
  using assms unat_u8_lt [of lst]
  by (simp add: allocate_fragmentID_def find_free_eq FRAGMENT_MAX_NUM_def del: upt_Suc split: option.splits)

lemma allocate_None_iff:
  assumes "length buf = 256"
  shows "allocate_fragmentID lst buf = Inr None \<longleftrightarrow> (\<forall>i < 256. b_used (buf ! i) \<noteq> 0)"
proof -
  have "i \<in> set [unat lst + 1..<256] \<or> i \<in> set [0..<unat lst + 1]" if "i < 256" for i
    using that by (auto simp del: upt_Suc)
  moreover have "i < 256" if "i < unat lst + 1" for i using that unat_u8_lt [of lst] by simp
  ultimately show ?thesis
    by (auto simp: allocate_eq [OF assms] find_None_iff simp del: upt_Suc split: option.splits
        dest!: find_upt_Some)
qed

lemma allocate_Some:
  assumes "length buf = 256" "allocate_fragmentID lst buf = Inr (Some ID)"
  shows "b_used (buf ! unat ID) = 0"
    "ID = lst \<Longrightarrow> i < 256 \<Longrightarrow> i \<noteq> unat lst \<Longrightarrow> b_used (buf ! i) \<noteq> 0"
proof -
  let ?P = "\<lambda>i. b_used (buf ! i) = 0"
  consider (up) k where "List.find ?P [unat lst + 1..<256] = Some k" "ID = of_nat k"
    | (wrap) k where "List.find ?P [unat lst + 1..<256] = None" "List.find ?P [0..<unat lst + 1] = Some k" "ID = of_nat k"
    using assms by (auto simp: allocate_eq simp del: upt_Suc split: option.splits)
  then have "b_used (buf ! unat ID) = 0 \<and> (ID = lst \<longrightarrow> (\<forall>i < 256. i \<noteq> unat lst \<longrightarrow> b_used (buf ! i) \<noteq> 0))"
  proof cases
    case (up k)
    then have k: "unat lst + 1 \<le> k" "k < 256" "?P k" using find_upt_Some by blast+
    then have "unat ID = k" using up(2) by (simp add: unat_of_nat_lt)
    with k show ?thesis by auto
  next
    case (wrap k)
    then have k: "k < unat lst + 1" "?P k" using find_upt_Some by blast+
    then have u: "unat ID = k" using wrap(3) unat_u8_lt [of lst] by (simp add: unat_of_nat_lt)
    have hi: "\<not> ?P i" if "unat lst + 1 \<le> i" "i < 256" for i
      using wrap(1) that by (auto simp: find_None_iff)
    have lo: "\<not> ?P i" if "i < k" for i
    proof -
      obtain j where j: "j < length [0..<unat lst + 1]" "k = [0..<unat lst + 1] ! j"
        "\<forall>l < j. \<not> ?P ([0..<unat lst + 1] ! l)"
        using wrap(2) by (auto simp: find_Some_iff simp del: upt_Suc)
      then have "k = j" by (simp del: upt_Suc)
      with j that k show ?thesis by (auto simp del: upt_Suc)
    qed
    have "b_used (buf ! i) \<noteq> 0" if "ID = lst" "i < 256" "i \<noteq> unat lst" for i
      using hi [of i] lo [of i] that u by (cases "i < unat lst") auto
    with k u show ?thesis by blast
  qed
  then show "b_used (buf ! unat ID) = 0"
    "ID = lst \<Longrightarrow> i < 256 \<Longrightarrow> i \<noteq> unat lst \<Longrightarrow> b_used (buf ! i) \<noteq> 0" by blast+
qed

text \<open>The order of the search: from the ID behind the last one, upwards and around to the last one itself.\<close>

definition ids_from :: "u8 \<Rightarrow> nat list" where
  "ids_from lst = map (\<lambda>j. (unat lst + j) mod 256) [1..<257]"

lemma ids_from_eq: "ids_from lst = [unat lst + 1..<256] @ [0..<unat lst + 1]"
proof (rule nth_equalityI)
  have l: "unat lst < 256" by (rule unat_u8_lt)
  show "length (ids_from lst) = length ([unat lst + 1..<256] @ [0..<unat lst + 1])"
    using l by (simp add: ids_from_def del: upt_Suc)
  fix i assume "i < length (ids_from lst)"
  then have i: "i < 256" by (simp add: ids_from_def del: upt_Suc)
  show "ids_from lst ! i = ([unat lst + 1..<256] @ [0..<unat lst + 1]) ! i"
  proof (cases "unat lst + 1 + i < 256")
    case True
    then show ?thesis using i by (auto simp: ids_from_def nth_append simp del: upt_Suc)
  next
    case False
    then have "(unat lst + (1 + i)) mod 256 = unat lst + 1 + i - 256" using l i by (simp add: mod_if)
    then show ?thesis using False i l by (auto simp: ids_from_def nth_append simp del: upt_Suc)
  qed
qed

lemma find_append: "List.find P (xs @ ys) = (case List.find P xs of Some x \<Rightarrow> Some x | None \<Rightarrow> List.find P ys)"
  by (induction xs) auto

lemma allocate_ids_from:
  "length buf = 256 \<Longrightarrow>
   allocate_fragmentID lst buf = Inr (map_option of_nat (List.find (\<lambda>i. b_used (buf ! i) = 0) (ids_from lst)))"
  by (simp only: allocate_eq ids_from_eq find_append)

lemma find_ids_from:
  assumes "List.find P (ids_from lst) = Some k"
  obtains j where "j \<in> {1..256}" "k = (unat lst + j) mod 256" "P k"
    "\<forall>i \<in> {1..<j}. \<not> P ((unat lst + i) mod 256)"
proof -
  obtain n where n: "n < 256" "k = (unat lst + Suc n) mod 256" "P k"
    "\<forall>i < n. \<not> P ((unat lst + Suc i) mod 256)"
    using assms by (auto simp: find_Some_iff ids_from_def simp del: upt_Suc)
  have "\<not> P ((unat lst + i) mod 256)" if "i \<in> {1..<Suc n}" for i
    using n(4) that by (cases i) auto
  with n(1-3) that [of "Suc n"] show ?thesis by auto
qed

section \<open>The fragmenter's invariant\<close>

text \<open>
  The IDs in the FIFO are exactly the IDs in use, each once; so the FIFO of 256 places never
  overflows.
\<close>

definition frag_inv :: "FRAG_STATE \<Rightarrow> bool" where
  "frag_inv s \<longleftrightarrow> length (fs_buffer s) = 256 \<and> length (fs_last_ID s) = MAX_DEVICE_NUM
     \<and> cq_wf (fs_queue s) \<and> cq_cap (fs_queue s) = 256 \<and> distinct (cq_list (fs_queue s))
     \<and> (\<forall>x \<in> set (cq_list (fs_queue s)). unat x < 256)
     \<and> (\<forall>i < 256. b_used (fs_buffer s ! i) \<noteq> 0 \<longleftrightarrow> of_nat i \<in> set (cq_list (fs_queue s)))"

lemma frag_inv_room:
  assumes "frag_inv s" "b_used (fs_buffer s ! i) = 0" "i < 256"
  shows "length (cq_list (fs_queue s)) < cq_cap (fs_queue s)"
proof -
  let ?xs = "cq_list (fs_queue s)"
  have d: "distinct (map unat ?xs)"
    using assms(1) by (auto simp: frag_inv_def distinct_map inj_on_def word_unat_eq_iff)
  have "unat (of_nat i :: u16) = i" using assms(3) by (intro unat_of_nat_lt) simp
  then have "i \<notin> unat ` set ?xs"
    using assms by (auto simp: frag_inv_def word_unat_eq_iff)
  then have "set (map unat ?xs) \<subseteq> {..<256} - {i}" using assms(1) by (auto simp: frag_inv_def)
  then have "card (set (map unat ?xs)) \<le> card ({..<256} - {i})" by (intro card_mono) auto
  then have "length (map unat ?xs) \<le> card ({..<256 :: nat} - {i})" by (simp only: distinct_card [OF d])
  also have "\<dots> = 255" using assms(3) by (simp add: card_Diff_singleton)
  finally show ?thesis using assms(1) by (simp add: frag_inv_def)
qed

lemma get_fragmentID_head:
  assumes "frag_inv s" "cq_list (fs_queue s) = x # xs"
  shows "get_fragmentID (fs_queue s) = Inr (int (unat x))" "unat x < 256"
proof -
  have "front (fs_queue s) = Some x"
    using cq.head_law [of "fs_queue s"] assms by (simp add: frag_inv_def)
  then have "get_fragmentID (fs_queue s) = Inr (sint x)"
    by (auto simp: front_def get_fragmentID_def split: option.splits if_splits)
  moreover show "unat x < 256" using assms by (auto simp: frag_inv_def)
  then have "sint x = int (unat x)" by (intro sint_eq_int_unat) simp
  ultimately show "get_fragmentID (fs_queue s) = Inr (int (unat x))" by simp
qed

lemma run_fragment_inv:
  assumes inv: "frag_inv s" and run: "run_fragment b mx us n c m s = Inr (ret, s')"
  shows "frag_inv s'"
proof -
  let ?buf = "fs_buffer s" and ?q = "fs_queue s"
  have len: "length ?buf = 256" using inv by (simp add: frag_inv_def)
  show ?thesis
  proof (cases "s' = s")
    case True
    then show ?thesis using inv by simp
  next
    case False
    then obtain lst ID lasts p entry buf q where r:
      "allocate_fragmentID lst ?buf = Inr (Some ID)" "store_at (fs_last_ID s) (unat m) ID = Inr lasts"
      "store_at ?buf (unat ID) entry = Inr buf" "b_used entry = 1"
      "Push ?q (ucast ID) = Inr q" "s' = \<lparr>fs_buffer = buf, fs_queue = q, fs_last_ID = lasts\<rparr>"
      using run by (auto simp: run_fragment_def bind_ok_eq_Inr_iff Let_def split: option.splits if_splits)
    have ID: "unat ID < 256" "unat (ucast ID :: u16) = unat ID" by (simp_all add: unat_u8_lt unat_ucast_up)
    have free: "b_used (?buf ! unat ID) = 0" using allocate_Some(1) [OF len r(1)] .
    obtain q2 where "Push ?q (ucast ID) = Inr q2" "cq_wf q2" "cq_list q2 = cq_list ?q @ [ucast ID]" "cq_cap q2 = cq_cap ?q"
      using cq.push_law [of ?q "ucast ID"] frag_inv_room [OF inv free ID(1)] inv by (auto simp: frag_inv_def)
    then have q: "cq_wf q" "cq_list q = cq_list ?q @ [ucast ID]" "cq_cap q = cq_cap ?q" using r(5) by simp_all
    have ofn: "(of_nat (unat ID) :: u16) = ucast ID" using ID by (simp add: word_unat_eq_iff unat_of_nat_lt)
    then have new: "ucast ID \<notin> set (cq_list ?q)" using inv free ID(1) by (auto simp: frag_inv_def)
    have other: "(of_nat i :: u16) = ucast ID \<longleftrightarrow> i = unat ID" if "i < 256" for i
      using that ID by (auto simp: word_unat_eq_iff unat_of_nat_lt)
    have buf: "buf = ?buf[unat ID := entry]" "length lasts = MAX_DEVICE_NUM"
      using r(2,3) inv by (auto simp: store_at_def frag_inv_def split: if_splits)
    show ?thesis
      using inv q new other ID r(4) buf
      by (auto simp: frag_inv_def r(6) nth_list_update)
  qed
qed

lemma fetch_fragment_inv:
  assumes inv: "frag_inv s" and run: "fetch_pdu_fragment invalid_id s n = Inr (ret, s', n')"
  shows "frag_inv s'"
proof (cases "s' = s")
  case True
  then show ?thesis using inv by simp
next
  case False
  let ?q = "fs_queue s"
  obtain ID where r1: "get_fragmentID ?q = Inr ID"
    using run by (cases "get_fragmentID ?q") (auto simp: fetch_pdu_fragment_def)
  have valid: "\<not> invalid_id ID" using run r1 False by (auto simp: fetch_pdu_fragment_def)
  obtain b where r2: "load_i (fs_buffer s) ID = Inr b"
    using run r1 valid by (cases "load_i (fs_buffer s) ID") (auto simp: fetch_pdu_fragment_def)
  have r3: "b_used b \<noteq> 0" using run r1 r2 valid False by (auto simp: fetch_pdu_fragment_def)
  note r = r1 r2 r3
  define f where "f = (b_fragment_info b)\<lparr>f_transfered_num := f_transfered_num (b_fragment_info b) + 1\<rparr>"
  have s': "(\<exists>buf q. store_i (fs_buffer s) ID (b\<lparr>b_fragment_info := f, b_used := 0\<rparr>) = Inr buf
        \<and> SetElement ?q 0 (-1) = Inr q \<and> s' = s\<lparr>fs_buffer := buf, fs_queue := Pop q\<rparr>)
      \<or> (\<exists>buf. store_i (fs_buffer s) ID (b\<lparr>b_fragment_info := f\<rparr>) = Inr buf \<and> s' = s\<lparr>fs_buffer := buf\<rparr>)"
    using run r valid False
    by (cases "next_fragment (b_fragment_info b)")
      (auto simp: fetch_pdu_fragment_def bind_ok_eq_Inr_iff Let_def f_def [symmetric] split: if_splits prod.splits)
  have len: "length (fs_buffer s) = 256" using inv by (simp add: frag_inv_def)
  have b: "b = fs_buffer s ! nat ID" "0 \<le> ID" "nat ID < 256"
    using r(2) len by (auto simp: load_i_def load_at_def split: if_splits)
  have ne: "cq_list ?q \<noteq> []"
  proof
    assume "cq_list ?q = []"
    then have "b_used (fs_buffer s ! nat ID) = 0"
      using inv b by (auto simp: frag_inv_def simp del: cq_list_eq_Nil)
    with r(3) b(1) show False by simp
  qed
  then obtain x xs where q: "cq_list ?q = x # xs" by (cases "cq_list ?q") auto
  note h = get_fragmentID_head [OF inv q]
  then have ID: "ID = int (unat x)" using r(1) by simp
  have eq: "(of_nat i :: u16) = x \<longleftrightarrow> i = unat x" if "i < 256" for i
    using that h(2) by (auto simp: word_unat_eq_iff unat_of_nat_lt)
  from s' show ?thesis
  proof (elim disjE exE conjE)
    fix buf q' assume a: "store_i (fs_buffer s) ID (b\<lparr>b_fragment_info := f, b_used := 0\<rparr>) = Inr buf"
      "SetElement ?q 0 (-1) = Inr q'" "s' = s\<lparr>fs_buffer := buf, fs_queue := Pop q'\<rparr>"
    have q': "cq_wf q'" "cq_list q' = -1 # xs" "cq_cap q' = cq_cap ?q"
      using SetElement_head [of ?q "-1"] inv ne a(2) q by (auto simp: frag_inv_def)
    have p: "cq_wf (Pop q')" "cq_list (Pop q') = xs" "cq_cap (Pop q') = cq_cap ?q"
      using q' cq.pop_inv cq.pop_items cq.pop_cap by simp_all
    have "buf = (fs_buffer s)[unat x := b\<lparr>b_fragment_info := f, b_used := 0\<rparr>]"
      using a(1) len h(2) by (simp add: ID)
    then have buf: "length buf = 256" "b_used (buf ! unat x) = 0"
      "\<And>i. i \<noteq> unat x \<Longrightarrow> buf ! i = fs_buffer s ! i"
      using len h(2) by simp_all
    have x: "x \<notin> set xs" "distinct xs" "\<forall>y \<in> set xs. unat y < 256"
      using inv q by (simp_all add: frag_inv_def)
    have "b_used (buf ! i) \<noteq> 0 \<longleftrightarrow> of_nat i \<in> set xs" if i: "i < 256" for i
    proof (cases "i = unat x")
      case True
      then show ?thesis using buf(2) x(1) by simp
    next
      case False
      then have "(of_nat i :: u16) \<noteq> x" using eq [OF i] by simp
      then show ?thesis using inv i q buf(3) [OF False] by (auto simp: frag_inv_def)
    qed
    then show ?thesis using inv p x buf(1) a(3) by (simp add: frag_inv_def)
  next
    fix buf assume a: "store_i (fs_buffer s) ID (b\<lparr>b_fragment_info := f\<rparr>) = Inr buf" "s' = s\<lparr>fs_buffer := buf\<rparr>"
    have "buf = (fs_buffer s)[unat x := b\<lparr>b_fragment_info := f\<rparr>]"
      using a(1) len h(2) by (simp add: ID)
    then show ?thesis
      using inv h(2) len a(2) r(3) b(1) ID by (auto simp: frag_inv_def nth_list_update)
  qed
qed

section \<open>The sizes of a fragmentation\<close>

lemma plan_sizes:
  assumes plan: "fragment_plan b mx us h ps = Inr p" and le: "p_start_size p \<le> ps"
  defines "R \<equiv> unat ps - unat (p_start_size p)" and "M \<equiv> unat (p_middle_size p)"
  shows "0 < M" "unat (p_end_size p) = R mod M"
    "unat (p_total_num p) = R div M + (if R mod M = 0 then 0 else 1) + 1"
proof -
  define S where "S = p_start_size p"
  define m where "m = p_middle_size p"
  define r where "r = (ucast ps - ucast S :: u32)"
  have pl: "m \<noteq> 0" "p_end_size p = ucast (r mod ucast m)"
    "p_total_num p = (if 0 < p_end_size p then r div ucast m + 1 else r div ucast m) + 1"
    using plan by (auto simp: fragment_plan_def S_def m_def r_def Let_def split: if_splits)
  show M: "0 < M" using pl(1) by (simp add: M_def m_def unat_gt_0)
  have r: "unat r = R"
    using le unfolding r_def R_def S_def
    by (subst unat_sub_le) (simp_all add: word_le_nat_alt unat_ucast_up)
  have m: "unat (ucast m :: u32) = M" by (simp add: M_def m_def unat_ucast_up)
  have rm: "unat (r mod ucast m) = R mod M" by (simp only: unat_mod r m)
  have lt: "R mod M < 65536" using M unat_u16_lt [of m] by (simp add: M_def m_def order.strict_trans [OF mod_less_divisor])
  have "unat (p_end_size p) = take_bit 16 (unat (r mod ucast m))" by (simp add: pl(2) unsigned_ucast_eq)
  then show E: "unat (p_end_size p) = R mod M" using lt by (simp add: rm take_bit_nat_eq_self)
  have "R \<le> 65535" using unat_u16_lt [of ps] by (simp add: R_def)
  then have "R div M \<le> 65535" using div_le_dividend order_trans by blast
  moreover have "unat (r div ucast m) = R div M" by (simp only: unat_div r m)
  ultimately have "unat (r div ucast m + 1) = R div M + 1" "unat (r div ucast m + 1 + 1) = R div M + 2"
    by (simp_all add: unat_word_ariths)
  then show "unat (p_total_num p) = R div M + (if R mod M = 0 then 0 else 1) + 1"
    using E by (simp add: pl(3) word_less_nat_alt)
qed

section \<open>Reading the fragments of a PDU\<close>

primrec fetch_times ::
    "(int \<Rightarrow> bool) \<Rightarrow> EN_PDU_NODE \<Rightarrow> nat \<Rightarrow> FRAG_STATE \<Rightarrow> (EN_PDU_NODE list \<times> FRAG_STATE) outcome" where
  "fetch_times invalid_id n0 0 s = Inr ([], s)"
| "fetch_times invalid_id n0 (Suc k) s =
     bind_ok (fetch_pdu_fragment invalid_id s n0) (\<lambda>(_, s1, n).
     bind_ok (fetch_times invalid_id n0 k s1) (\<lambda>(ns, s2). Inr (n # ns, s2)))"

text \<open>An entry of which \<open>k\<close> fragments were read, and fragment \<open>k\<close> of it.\<close>

definition at_fragment :: "FRAGMENT_BUFFER \<Rightarrow> nat \<Rightarrow> FRAGMENT_BUFFER" where
  "at_fragment e k = e\<lparr>b_fragment_info := (b_fragment_info e)\<lparr>f_transfered_num := of_nat k\<rparr>\<rparr>"

definition frag_total :: "FRAGMENT_BUFFER \<Rightarrow> nat" where
  "frag_total e = unat (f_total_num (b_fragment_info e))"

definition frag_size :: "FRAGMENT_BUFFER \<Rightarrow> nat \<Rightarrow> u16" where
  "frag_size e k = (if k = 0 then f_start_size (b_fragment_info e)
     else if k = frag_total e - 1 then f_end_size (b_fragment_info e)
     else f_middle_size (b_fragment_info e))"

definition frag_kind :: "FRAGMENT_BUFFER \<Rightarrow> nat \<Rightarrow> u8" where
  "frag_kind e k = (if k = 0 then FRAGMENT_TYPE_S
     else if k = frag_total e - 1 then FRAGMENT_TYPE_E else FRAGMENT_TYPE_M)"

definition frag_nth :: "FRAGMENT_BUFFER \<Rightarrow> u16 \<Rightarrow> EN_PDU_NODE \<Rightarrow> nat \<Rightarrow> EN_PDU_NODE" where
  "frag_nth e x n0 k = fragment_node (at_fragment e k) (int (unat x)) (frag_size e k) (frag_kind e k) n0"

lemma next_fragment_at:
  assumes "k < frag_total e"
  shows "next_fragment (b_fragment_info (at_fragment e k)) = Some (frag_size e k, frag_kind e k)"
proof -
  have k: "unat (of_nat k :: u8) = k"
    using assms unat_u8_lt [of "f_total_num (b_fragment_info e)"] by (simp add: frag_total_def unat_of_nat_lt)
  have "uint (of_nat k :: u8) = int k" using k by (simp add: uint_eq_int_unat del: of_nat_unat)
  moreover have "uint (f_total_num (b_fragment_info e)) = int (frag_total e)" by (simp add: frag_total_def)
  moreover have "(of_nat k :: u8) = 0 \<longleftrightarrow> k = 0" using k by (simp add: word_unat_eq_iff)
  ultimately show ?thesis
    using assms by (auto simp: next_fragment_def at_fragment_def frag_size_def frag_kind_def)
qed

lemma fetch_step:
  assumes inv: "frag_inv s" and q: "cq_list (fs_queue s) = [x]"
    and e: "fs_buffer s ! unat x = at_fragment e k" and k: "k < frag_total e"
    and valid: "\<not> invalid_id (int (unat x))"
  shows "\<exists>s'. fetch_pdu_fragment invalid_id s n0 = Inr (int (unat x), s', frag_nth e x n0 k)
    \<and> frag_inv s'
    \<and> (Suc k < frag_total e \<longrightarrow> cq_list (fs_queue s') = [x] \<and> fs_buffer s' ! unat x = at_fragment e (Suc k))
    \<and> (Suc k = frag_total e \<longrightarrow> cq_list (fs_queue s') = [])"
proof -
  note h = get_fragmentID_head [OF inv q]
  have len: "length (fs_buffer s) = 256" using inv by (simp add: frag_inv_def)
  have "(of_nat (unat x) :: u16) = x" by simp
  then have used: "b_used (fs_buffer s ! unat x) \<noteq> 0" using inv q h(2) by (simp add: frag_inv_def)
  let ?e = "at_fragment e k" and ?e' = "at_fragment e (Suc k)"
  have ld: "load_i (fs_buffer s) (int (unat x)) = Inr ?e" using h(2) len e by simp
  have used': "b_used ?e \<noteq> 0" using used e by simp
  have inc: "(b_fragment_info ?e)\<lparr>f_transfered_num := f_transfered_num (b_fragment_info ?e) + 1\<rparr> = b_fragment_info ?e'"
    "?e\<lparr>b_fragment_info := b_fragment_info ?e'\<rparr> = ?e'"
    by (simp_all add: at_fragment_def add.commute)
  have lt: "Suc k < 256" using k unat_u8_lt [of "f_total_num (b_fragment_info e)"] by (simp add: frag_total_def)
  then have "unat (of_nat (Suc k) :: u8) = Suc k" by (intro unat_of_nat_lt) simp
  then have fin: "f_total_num (b_fragment_info ?e') \<le> f_transfered_num (b_fragment_info ?e') \<longleftrightarrow> frag_total e \<le> Suc k"
    by (simp add: at_fragment_def word_le_nat_alt frag_total_def del: of_nat_Suc)
  have st: "store_i (fs_buffer s) (int (unat x)) y = Inr ((fs_buffer s)[unat x := y])" for y
    using h(2) len by simp
  show ?thesis
  proof (cases "Suc k < frag_total e")
    case True
    let ?s = "s\<lparr>fs_buffer := (fs_buffer s)[unat x := ?e']\<rparr>"
    have r: "fetch_pdu_fragment invalid_id s n0 = Inr (int (unat x), ?s, frag_nth e x n0 k)"
      using True valid used' fin
      by (simp add: fetch_pdu_fragment_def h(1) ld next_fragment_at [OF k] st inc Let_def frag_nth_def del: of_nat_unat)
    from r fetch_fragment_inv [OF inv r] True q h(2) len show ?thesis by (intro exI [of _ ?s]) simp
  next
    case False
    obtain q1 where q1: "SetElement (fs_queue s) 0 (-1) = Inr q1" "cq_wf q1" "cq_list q1 = -1 # tl (cq_list (fs_queue s))"
      using SetElement_head [of "fs_queue s" "-1"] inv q by (auto simp: frag_inv_def simp del: cq_list_eq_Nil)
    let ?s = "s\<lparr>fs_buffer := (fs_buffer s)[unat x := ?e'\<lparr>b_used := 0\<rparr>], fs_queue := Pop q1\<rparr>"
    have r: "fetch_pdu_fragment invalid_id s n0 = Inr (int (unat x), ?s, frag_nth e x n0 k)"
      using False valid used' fin
      by (simp add: fetch_pdu_fragment_def h(1) ld next_fragment_at [OF k] st inc q1(1) Let_def frag_nth_def del: of_nat_unat)
    moreover have "cq_list (Pop q1) = []" using cq.pop_items [OF q1(2)] q1(3) q by (simp del: cq_list_eq_Nil)
    ultimately show ?thesis using fetch_fragment_inv [OF inv r] False by (intro exI [of _ ?s]) simp
  qed
qed

lemma fetch_rest:
  assumes "frag_inv s" "cq_list (fs_queue s) = [x]" "fs_buffer s ! unat x = at_fragment e k"
    "k < frag_total e" "\<not> invalid_id (int (unat x))"
  shows "\<exists>s'. fetch_times invalid_id n0 (frag_total e - k) s
      = Inr (map (frag_nth e x n0) [k..<frag_total e], s')
    \<and> frag_inv s' \<and> cq_list (fs_queue s') = []"
  using assms
proof (induction "frag_total e - k" arbitrary: k s)
  case 0
  then show ?case by simp
next
  case (Suc d)
  obtain s1 where s1: "fetch_pdu_fragment invalid_id s n0 = Inr (int (unat x), s1, frag_nth e x n0 k)"
    "frag_inv s1"
    "Suc k < frag_total e \<longrightarrow> cq_list (fs_queue s1) = [x] \<and> fs_buffer s1 ! unat x = at_fragment e (Suc k)"
    "Suc k = frag_total e \<longrightarrow> cq_list (fs_queue s1) = []"
    using fetch_step [of s x e k invalid_id n0] Suc.prems by blast
  have range: "[k..<frag_total e] = k # [Suc k..<frag_total e]" using Suc.prems(4) by (simp add: upt_conv_Cons)
  have n: "frag_total e - k = Suc (frag_total e - Suc k)" using Suc.prems(4) by simp
  show ?case
  proof (cases "Suc k < frag_total e")
    case True
    with Suc.hyps(1) [of "Suc k" s1] Suc.hyps(2) s1 Suc.prems(5) n show ?thesis
      by (auto simp: range n)
  next
    case False
    then have "frag_total e = Suc k" using Suc.prems(4) by simp
    with s1 show ?thesis by simp
  qed
qed

text \<open>Where fragment \<open>k\<close> starts inside the PDU.\<close>

definition frag_offset :: "FRAGMENT_BUFFER \<Rightarrow> nat \<Rightarrow> nat" where
  "frag_offset e k = (if k = 0 then 0
     else unat (f_start_size (b_fragment_info e)) + unat (f_middle_size (b_fragment_info e)) * (k - 1))"

definition frag_bytes :: "mem \<Rightarrow> EN_PDU_NODE \<Rightarrow> u8 list" where
  "frag_bytes m n = load_bytes m (n_pPDU_start n) (unat (n_pdu_size n))"

lemma frag_nth_fields:
  assumes "k < frag_total e"
  shows "n_pPDU_start (frag_nth e x n0 k) = n_pPDU_start (b_pdu_node e) + of_nat (frag_offset e k)"
    "n_pdu_size (frag_nth e x n0 k) = frag_size e k" "n_fragment_type (frag_nth e x n0 k) = frag_kind e k"
    "n_fragment_seq (frag_nth e x n0 k) = of_nat k" "n_fragment_ID (frag_nth e x n0 k) = ucast x"
    "n_fragment_flag (frag_nth e x n0 k) = 1"
    "n_pdu_total_length (frag_nth e x n0 k) = n_pdu_total_length (b_pdu_node e)"
    "n_crc32 (frag_nth e x n0 k) = f_CRC32 (b_fragment_info e)"
proof -
  have u: "unat (of_nat k :: u8) = k"
    using assms unat_u8_lt [of "f_total_num (b_fragment_info e)"] by (simp add: frag_total_def unat_of_nat_lt)
  then have "(of_nat k :: u8) \<le> 1 \<longleftrightarrow> k \<le> 1" by (simp add: word_le_nat_alt)
  moreover have "k \<le> 1 \<longleftrightarrow> k = 0 \<or> k = 1" by auto
  ultimately show "n_pPDU_start (frag_nth e x n0 k) = n_pPDU_start (b_pdu_node e) + of_nat (frag_offset e k)"
    using u by (auto simp: frag_nth_def fragment_node_def at_fragment_def fragment_address_def
        frag_offset_def Let_def)
qed (simp_all add: frag_nth_def fragment_node_def at_fragment_def Let_def)

lemma frag_bytes_prefix:
  "k < frag_total e \<Longrightarrow>
   concat (map (\<lambda>j. frag_bytes m (frag_nth e x n0 j)) [0..<k])
   = load_bytes m (n_pPDU_start (b_pdu_node e)) (frag_offset e k)"
proof (induction k)
  case 0
  then show ?case by (simp add: frag_offset_def)
next
  case (Suc k)
  have size: "frag_offset e (Suc k) = frag_offset e k + unat (frag_size e k)"
    using Suc.prems by (cases k) (auto simp: frag_offset_def frag_size_def)
  have "frag_bytes m (frag_nth e x n0 k)
      = load_bytes m (n_pPDU_start (b_pdu_node e) + of_nat (frag_offset e k)) (unat (frag_size e k))"
    using Suc.prems by (simp add: frag_bytes_def frag_nth_fields)
  with Suc show ?case by (simp add: size load_bytes_append)
qed

lemma frag_bytes_all:
  assumes "1 < frag_total e"
  shows "concat (map (\<lambda>j. frag_bytes m (frag_nth e x n0 j)) [0..<frag_total e])
   = load_bytes m (n_pPDU_start (b_pdu_node e))
       (frag_offset e (frag_total e - 1) + unat (f_end_size (b_fragment_info e)))"
proof -
  obtain k where k: "frag_total e = Suc k" "0 < k" using assms by (cases "frag_total e") auto
  have "frag_bytes m (frag_nth e x n0 k) = load_bytes m
      (n_pPDU_start (b_pdu_node e) + of_nat (frag_offset e k)) (unat (f_end_size (b_fragment_info e)))"
    using k by (simp add: frag_bytes_def frag_nth_fields frag_size_def)
  then show ?thesis using frag_bytes_prefix [of k e m x n0] k by (simp add: load_bytes_append)
qed

lemma frag_kinds:
  assumes "1 < frag_total e"
  shows "map (frag_kind e) [0..<frag_total e]
     = FRAGMENT_TYPE_S # replicate (frag_total e - 2) FRAGMENT_TYPE_M @ [FRAGMENT_TYPE_E]"
proof -
  obtain k where k: "frag_total e = Suc (Suc k)" using assms that [of "frag_total e - 2"] by simp
  have "map (frag_kind e) [0..<Suc (Suc k)]
      = frag_kind e 0 # map (frag_kind e) [Suc 0..<Suc k] @ [frag_kind e (Suc k)]"
  proof -
    have "[0..<Suc (Suc k)] = [0..<Suc k] @ [Suc k]" by simp
    moreover have "[0..<Suc k] = 0 # [Suc 0..<Suc k]" by (simp add: upt_conv_Cons del: upt_Suc)
    ultimately show ?thesis by (simp del: upt_Suc)
  qed
  moreover have "map (frag_kind e) [Suc 0..<Suc k] = replicate k FRAGMENT_TYPE_M"
    by (rule replicate_eqI) (auto simp: k frag_kind_def)
  ultimately show ?thesis by (simp add: k frag_kind_def)
qed

section \<open>Starting a fragmentation\<close>

lemma broadcast_from_ok:
  "(\<forall>i \<in> set is. i < length mac) \<Longrightarrow> broadcast_from mac is
   = Inr (if \<forall>i \<in> set is. mac ! i = BOARDCAST_ADDRESS ! i then BROADCAST_TYPE_YES else BROADCAST_TYPE_NO)"
  by (induction "is") auto

lemma get_broadcast_type_ok:
  assumes "length mac = 6"
  shows "get_broadcast_type mac = Inr (if mac = BOARDCAST_ADDRESS then BROADCAST_TYPE_YES else BROADCAST_TYPE_NO)"
proof -
  have "(\<forall>i \<in> set [0..<6]. mac ! i = BOARDCAST_ADDRESS ! i) \<longleftrightarrow> mac = BOARDCAST_ADDRESS"
    using assms by (auto simp: list_eq_iff_nth_eq BOARDCAST_ADDRESS_def)
  then show ?thesis using assms by (simp add: get_broadcast_type_def broadcast_from_ok)
qed

definition frag_header_length :: "EN_PDU_NODE \<Rightarrow> u16" where
  "frag_header_length n = start_header_length
     (if n_MAC_address n = BOARDCAST_ADDRESS then BROADCAST_TYPE_YES else BROADCAST_TYPE_NO) (n_mac_length n)"

lemma do_fragment_ok:
  fixes mm :: mem
  assumes inv: "frag_inv s" and empty: "cq_list (fs_queue s) = []" and m: "unat m < MAX_DEVICE_NUM"
    and mac: "length (n_MAC_address n) = 6" and sz: "n_pdu_size n + 4 \<noteq> 0"
    and plan: "fragment_plan b mx us (frag_header_length n) (n_pdu_size n + 4) = Inr p"
  defines "crc \<equiv> crc32_lookup_table (load_bytes mm (n_pPDU_start n) (unat (n_pdu_size n)))"
  shows "\<exists>ID s' e. do_fragment mm b mx us n m s = Inr (uint (ID :: u8), n, s') \<and> frag_inv s'
     \<and> cq_list (fs_queue s') = [ucast ID]
     \<and> fs_buffer s' ! unat ID = at_fragment e 0 \<and> e = at_fragment e 0
     \<and> b_pdu_node e = n\<lparr>n_pdu_size := n_pdu_size n + 4\<rparr>
     \<and> b_fragment_info e = \<lparr>f_FragmentID = ID, f_total_num = ucast (p_total_num p), f_transfered_num = 0,
          f_middle_size = p_middle_size p, f_start_size = p_start_size p,
          f_end_size = p_end_size p - 4, f_CRC32 = crc\<rparr>"
proof -
  let ?n = "n\<lparr>n_pdu_size := n_pdu_size n + 4\<rparr>" and ?buf = "fs_buffer s"
  have len: "length ?buf = 256" "length (fs_last_ID s) = MAX_DEVICE_NUM" using inv by (auto simp: frag_inv_def)
  have free: "b_used (?buf ! i) = 0" if "i < 256" for i
    using inv empty that by (auto simp: frag_inv_def simp del: cq_list_eq_Nil)
  define lst where "lst = fs_last_ID s ! unat m"
  obtain ID where ID: "allocate_fragmentID lst ?buf = Inr (Some ID)"
    using allocate_None_iff [OF len(1), of lst] free [of 0] allocate_eq [OF len(1), of lst]
    by (auto split: option.splits simp del: upt_Suc)
  obtain q where q: "Push (fs_queue s) (ucast ID) = Inr q" "cq_list q = [ucast ID]"
    using cq.push_law [of "fs_queue s" "ucast ID"] inv empty by (auto simp: frag_inv_def simp del: cq_list_eq_Nil)
  let ?e = "\<lparr>b_used = 1, b_fragment_info = \<lparr>f_FragmentID = ID, f_total_num = ucast (p_total_num p),
      f_transfered_num = 0, f_middle_size = p_middle_size p, f_start_size = p_start_size p,
      f_end_size = p_end_size p - 4, f_CRC32 = crc\<rparr>, b_pdu_node = ?n\<rparr>"
  let ?s = "\<lparr>fs_buffer = ?buf[unat ID := ?e], fs_queue = q, fs_last_ID = (fs_last_ID s)[unat m := ID]\<rparr>"
  have bt: "get_broadcast_type (n_MAC_address n)
      = Inr (if n_MAC_address n = BOARDCAST_ADDRESS then BROADCAST_TYPE_YES else BROADCAST_TYPE_NO)"
    by (rule get_broadcast_type_ok [OF mac])
  have r: "run_fragment b mx us ?n crc m s = Inr (uint ID, ?s)"
    using m len ID plan sz q(1) unat_u8_lt [of ID]
    by (simp add: run_fragment_def lst_def [symmetric] bt frag_header_length_def)
  have "do_fragment mm b mx us n m s = Inr (uint ID, n, ?s)"
    using r by (simp add: do_fragment_def crc_def)
  with run_fragment_inv [OF inv r] q(2) len unat_u8_lt [of ID] show ?thesis
    by (intro exI [of _ ID] exI [of _ ?s] exI [of _ ?e]) (simp add: at_fragment_def)
qed

section \<open>Properties\<close>

inductive frag_reach :: "(int \<Rightarrow> bool) \<Rightarrow> FRAG_STATE \<Rightarrow> bool" for invalid_id where
  start: "init_fragment_info True = Inr q \<Longrightarrow> length buf = 256 \<Longrightarrow> \<forall>b \<in> set buf. b_used b = 0 \<Longrightarrow>
     frag_reach invalid_id \<lparr>fs_buffer = buf, fs_queue = q, fs_last_ID = replicate 8 0\<rparr>"
| fragment: "frag_reach invalid_id s \<Longrightarrow> do_fragment mm b mx us n m s = Inr (ret, n', s') \<Longrightarrow>
     frag_reach invalid_id s'"
| fetch: "frag_reach invalid_id s \<Longrightarrow> fetch_pdu_fragment invalid_id s n = Inr (ret, s', n') \<Longrightarrow>
     frag_reach invalid_id s'"

lemma frag_inv_start:
  assumes "init_fragment_info True = Inr q" "length buf = 256" "\<forall>b \<in> set buf. b_used b = 0"
  shows "frag_inv \<lparr>fs_buffer = buf, fs_queue = q, fs_last_ID = replicate 8 0\<rparr>"
  using InitCircleQueue_ok [of 256 q] assms
  by (simp add: init_fragment_info_def frag_inv_def MAX_DEVICE_NUM_def del: cq_list_eq_Nil)

lemma frag_reach_inv: "frag_reach invalid_id s \<Longrightarrow> frag_inv s"
proof (induction rule: frag_reach.induct)
  case (fragment s mm b mx us n m ret n' s')
  then show ?case
    by (auto simp: do_fragment_def bind_ok_eq_Inr_iff Let_def dest: run_fragment_inv)
qed (auto intro: frag_inv_start fetch_fragment_inv)

text \<open>C13: in every reachable state the queue holds each fragment ID in use exactly once and nothing
  else, so it never holds more than its 256 places.\<close>

theorem fragment_ids_consistent:
  assumes "frag_reach invalid_id s"
  shows "distinct (cq_list (fs_queue s)) \<and> length (cq_list (fs_queue s)) \<le> 256
    \<and> unat ` set (cq_list (fs_queue s)) = {i. i < 256 \<and> b_used (fs_buffer s ! i) \<noteq> 0}"
proof -
  have inv: "frag_inv s" using assms by (rule frag_reach_inv)
  then have "length (cq_list (fs_queue s)) \<le> 256" by (simp add: frag_inv_def cq_wf_def cq_cap_def)
  moreover have "unat ` set (cq_list (fs_queue s)) = {i. i < 256 \<and> b_used (fs_buffer s ! i) \<noteq> 0}" (is "?L = ?R")
  proof
    show "?L \<subseteq> ?R" using inv by (auto simp: frag_inv_def)
    show "?R \<subseteq> ?L"
    proof
      fix i assume "i \<in> ?R"
      then have "(of_nat i :: u16) \<in> set (cq_list (fs_queue s))" "unat (of_nat i :: u16) = i"
        using inv by (auto simp: frag_inv_def unat_of_nat_lt)
      then show "i \<in> ?L" by (metis imageI)
    qed
  qed
  ultimately show ?thesis using inv by (simp add: frag_inv_def)
qed

definition idle_entry :: FRAGMENT_BUFFER where
  "idle_entry = \<lparr>b_used = 0, b_fragment_info = zero_fragment_info, b_pdu_node = zero_pdu_node\<rparr>"

definition idle_frag_state :: FRAG_STATE where
  "idle_frag_state = \<lparr>fs_buffer = replicate 256 idle_entry,
     fs_queue = \<lparr>QueueSize = 0, QueueMaxSize = 256, Head = -1, Tail = -1, pQueueStart = replicate 256 0\<rparr>,
     fs_last_ID = replicate 8 0\<rparr>"

lemma idle_reach: "frag_reach invalid_id idle_frag_state"
  unfolding idle_frag_state_def
  by (rule frag_reach.start) (simp_all add: init_fragment_info_def InitCircleQueue_def idle_entry_def)

lemma idle_inv: "frag_inv idle_frag_state" "cq_list (fs_queue idle_frag_state) = []"
  using frag_reach_inv [OF idle_reach] by (simp_all add: idle_frag_state_def)

text \<open>C34: the IDs are searched from the one behind the last ID used, upwards and around, the last ID being the
  last one looked at: the ID found is the first free one in that order, and none is found exactly when
  all 256 IDs are in use.\<close>

theorem allocate_fragmentID_finds_free:
  assumes "length buf = 256"
  shows "case allocate_fragmentID lst buf of
      Inr (Some ID) \<Rightarrow> \<exists>j \<in> {1..256}. unat ID = (unat lst + j) mod 256 \<and> b_used (buf ! unat ID) = 0
        \<and> (\<forall>i \<in> {1..<j}. b_used (buf ! ((unat lst + i) mod 256)) \<noteq> 0)
    | Inr None \<Rightarrow> \<forall>i < 256. b_used (buf ! i) \<noteq> 0
    | Inl _ \<Rightarrow> False"
proof (cases "List.find (\<lambda>i. b_used (buf ! i) = 0) (ids_from lst)")
  case None
  then have "allocate_fragmentID lst buf = Inr None" by (simp add: allocate_ids_from [OF assms])
  then show ?thesis using allocate_None_iff [OF assms, of lst] by simp
next
  case (Some k)
  then obtain j where j: "j \<in> {1..256}" "k = (unat lst + j) mod 256" "b_used (buf ! k) = 0"
    "\<forall>i \<in> {1..<j}. b_used (buf ! ((unat lst + i) mod 256)) \<noteq> 0"
    by (rule find_ids_from)
  have u: "unat (of_nat k :: u8) = k" using j(2) by (intro unat_of_nat_lt) simp
  have e: "allocate_fragmentID lst buf = Inr (Some (of_nat k))"
    by (simp only: allocate_ids_from [OF assms] Some option.map)
  show ?thesis unfolding e sum.case option.case u using j by blast
qed

theorem allocate_fragmentID_finds_free_witness:
  "\<exists>ID. allocate_fragmentID 254 ((replicate 256 (idle_entry\<lparr>b_used := 1\<rparr>)) [3 := idle_entry, 254 := idle_entry]) = Inr (Some ID)
    \<and> unat ID = 3"
proof -
  let ?buf = "(replicate 256 (idle_entry\<lparr>b_used := 1\<rparr>)) [3 := idle_entry, 254 := idle_entry]"
  have l: "length ?buf = 256" by simp
  have u: "b_used (?buf ! i) = 0 \<longleftrightarrow> i = 3 \<or> i = 254" if "i < 256" for i
    using that by (simp add: nth_list_update idle_entry_def)
  have l3: "b_used (?buf ! 3) = 0" using u [of 3] by simp
  note t = allocate_fragmentID_finds_free [OF l, of 254]
  have "\<not> (\<forall>i < 256. b_used (?buf ! i) \<noteq> 0)" using u [of 3] by (intro notI) (drule spec [of _ 3], simp only: l3, simp)
  then obtain ID where r: "allocate_fragmentID 254 ?buf = Inr (Some ID)"
    using t by (simp only: split: sum.splits option.splits)
  then obtain j where j: "j \<in> {1..256}" "unat ID = (254 + j) mod 256" "b_used (?buf ! unat ID) = 0"
    "\<forall>i \<in> {1..<j}. b_used (?buf ! ((254 + i) mod 256)) \<noteq> 0"
    using t r by auto
  have "unat ID = 3 \<or> unat ID = 254" using j(3) u unat_u8_lt [of ID] by blast
  moreover have "unat ID \<noteq> 254"
  proof
    assume e: "unat ID = 254"
    have "5 < j"
    proof (rule ccontr)
      assume "\<not> 5 < j"
      then have "j = 1 \<or> j = 2 \<or> j = 3 \<or> j = 4 \<or> j = 5" using j(1) by auto
      then show False using e j(2) by auto
    qed
    then have "b_used (?buf ! ((254 + 5) mod 256)) \<noteq> 0" using j(4) by (intro bspec [OF j(4)]) simp
    then show False using u [of 3] by simp
  qed
  ultimately show ?thesis using r by auto
qed

text \<open>C10: for a PDU of at most 65531 bytes whose plan has at most 255 pieces and a last piece of at least the four
  bytes of the CRC-32 (a shorter one makes the code underflow, a finding of the manifest), and with no fragment of another PDU waiting, the
  fragments read one after the other are the PDU cut into consecutive pieces: their bytes concatenate to the PDU, they are numbered from 0, the
  first is a start and the last an end fragment, all carry the fragment ID, the total length and the
  CRC-32 of the PDU, and the ID is free again after the last one.\<close>

theorem fragments_partition_pdu:
  assumes "frag_inv s" "cq_list (fs_queue s) = []" "unat m < MAX_DEVICE_NUM"
    "length (n_MAC_address n) = 6" "unat (n_pdu_size n) \<le> 65531"
    "fragment_plan b mx us (frag_header_length n) (n_pdu_size n + 4) = Inr p"
    "p_start_size p \<le> n_pdu_size n" "4 \<le> p_end_size p" "p_total_num p \<le> 255"
    "\<forall>i. 0 \<le> i \<and> i < 256 \<longrightarrow> \<not> invalid_id i"
  shows "\<exists>ID s1 fs s2. do_fragment mm b mx us n m s = Inr (uint (ID :: u8), n, s1)
    \<and> fetch_times invalid_id n0 (unat (p_total_num p)) s1 = Inr (fs, s2)
    \<and> concat (map (frag_bytes mm) fs) = load_bytes mm (n_pPDU_start n) (unat (n_pdu_size n))
    \<and> map n_fragment_seq fs = map of_nat [0..<unat (p_total_num p)]
    \<and> map n_fragment_type fs
      = FRAGMENT_TYPE_S # replicate (unat (p_total_num p) - 2) FRAGMENT_TYPE_M @ [FRAGMENT_TYPE_E]
    \<and> (\<forall>f \<in> set fs. n_fragment_ID f = ID \<and> n_fragment_flag f = 1
         \<and> n_pdu_total_length f = n_pdu_total_length n
         \<and> n_crc32 f = crc32_lookup_table (load_bytes mm (n_pPDU_start n) (unat (n_pdu_size n))))
    \<and> frag_inv s2 \<and> cq_list (fs_queue s2) = []"
proof -
  define P S M E where "P = unat (n_pdu_size n)" "S = unat (p_start_size p)"
    "M = unat (p_middle_size p)" "E = unat (p_end_size p)"
  note defs = P_S_M_E_def
  have "unat (n_pdu_size n + 4) = unat (n_pdu_size n) + unat (4 :: u16)"
    using assms(5) by (intro unat_add_lt) simp
  then have P4: "unat (n_pdu_size n + 4) = P + 4" by (simp add: defs)
  then have nz: "n_pdu_size n + 4 \<noteq> 0" by auto
  have "S \<le> P" using assms(7) by (simp add: defs word_le_nat_alt)
  moreover have "p_start_size p \<le> n_pdu_size n + 4" using \<open>S \<le> P\<close> P4 by (simp add: word_le_nat_alt defs)
  note sizes = plan_sizes [OF assms(6) this, unfolded P4]
  ultimately have R: "P + 4 - S = M * ((P + 4 - S) div M) + E" using sizes by (simp add: defs)
  have E4: "4 \<le> E" using assms(8) by (simp add: defs word_le_nat_alt)
  then have T: "unat (p_total_num p) = (P + 4 - S) div M + 2" using sizes by (simp add: defs)
  have T255: "unat (p_total_num p) \<le> 255" using assms(9) by (simp add: word_le_nat_alt)
  obtain ID s1 e where d: "do_fragment mm b mx us n m s = Inr (uint (ID :: u8), n, s1)" "frag_inv s1"
    "cq_list (fs_queue s1) = [ucast ID]" "fs_buffer s1 ! unat ID = at_fragment e 0"
    "b_pdu_node e = n\<lparr>n_pdu_size := n_pdu_size n + 4\<rparr>"
    "b_fragment_info e = \<lparr>f_FragmentID = ID, f_total_num = ucast (p_total_num p), f_transfered_num = 0,
          f_middle_size = p_middle_size p, f_start_size = p_start_size p, f_end_size = p_end_size p - 4,
          f_CRC32 = crc32_lookup_table (load_bytes mm (n_pPDU_start n) (unat (n_pdu_size n)))\<rparr>"
    using do_fragment_ok [OF assms(1-4) nz assms(6), of mm] by blast
  have tot: "frag_total e = unat (p_total_num p)"
    using T255 by (simp add: frag_total_def d(6) unsigned_ucast_eq take_bit_nat_eq_self)
  have x: "unat (ucast ID :: u16) = unat ID" by (simp add: unat_ucast_up)
  have valid: "\<not> invalid_id (int (unat (ucast ID :: u16)))"
    using assms(10) unat_u8_lt [of ID] x by (metis of_nat_0_le_iff of_nat_less_iff of_nat_numeral)
  have pos: "0 < frag_total e" "1 < frag_total e" using T tot by simp_all
  obtain s2 where s2: "fetch_times invalid_id n0 (frag_total e) s1
      = Inr (map (frag_nth e (ucast ID) n0) [0..<frag_total e], s2)" "frag_inv s2" "cq_list (fs_queue s2) = []"
    using fetch_rest [of s1 "ucast ID" e 0 invalid_id n0] d(2,3,4) pos(1) valid x by auto
  let ?fs = "map (frag_nth e (ucast ID) n0) [0..<frag_total e]"
  have "unat (f_end_size (b_fragment_info e)) = E - 4"
    using E4 by (simp add: d(6) unat_sub_le word_le_nat_alt defs)
  moreover have "frag_offset e (frag_total e - 1) = S + M * ((P + 4 - S) div M)"
    by (simp add: frag_offset_def tot T d(6) defs)
  ultimately have off: "frag_offset e (frag_total e - 1) + unat (f_end_size (b_fragment_info e)) = P"
    using R E4 \<open>S \<le> P\<close> by linarith
  have "concat (map (frag_bytes mm) ?fs) = load_bytes mm (n_pPDU_start n) (unat (n_pdu_size n))"
    using frag_bytes_all [OF pos(2), of mm "ucast ID" n0] off d(5) by (simp add: defs o_def)
  moreover have "map n_fragment_seq ?fs = map of_nat [0..<frag_total e]"
    by (simp add: frag_nth_fields)
  moreover have "map n_fragment_type ?fs
      = FRAGMENT_TYPE_S # replicate (frag_total e - 2) FRAGMENT_TYPE_M @ [FRAGMENT_TYPE_E]"
  proof -
    have "map n_fragment_type ?fs = map (frag_kind e) [0..<frag_total e]" by (simp add: frag_nth_fields)
    then show ?thesis using frag_kinds [OF pos(2)] by simp
  qed
  moreover have "\<forall>f \<in> set ?fs. n_fragment_ID f = ID \<and> n_fragment_flag f = 1
      \<and> n_pdu_total_length f = n_pdu_total_length n
      \<and> n_crc32 f = crc32_lookup_table (load_bytes mm (n_pPDU_start n) (unat (n_pdu_size n)))"
    by (auto simp: frag_nth_fields d(5,6))
  ultimately show ?thesis using d(1) s2
    by (intro exI [of _ ID] exI [of _ s1] exI [of _ ?fs] exI [of _ s2] conjI) (simp_all only: tot)
qed

definition sample_bcast_node :: EN_PDU_NODE where
  "sample_bcast_node = zero_pdu_node\<lparr>n_pdu_size := 1500, n_pdu_total_length := 1500,
     n_protocoltype := 0x0800, n_MAC_address := BOARDCAST_ADDRESS, n_pPDU_start := 0x1000\<rparr>"

definition valid_ids :: "int \<Rightarrow> bool" where
  "valid_ids i \<longleftrightarrow> i < 0 \<or> 255 < i"

lemma sample_fragmented:
  "fragment_plan False 7264 1000 (frag_header_length sample_bcast_node) (n_pdu_size sample_bcast_node + 4)
      = Inr \<lparr>p_start_size = 989, p_middle_size = 3617, p_end_size = 515, p_total_num = 2\<rparr>"
  "length (n_MAC_address sample_bcast_node) = 6" "unat (n_pdu_size sample_bcast_node) = 1500"
  "n_pPDU_start sample_bcast_node = 0x1000"
  by (code_simp, simp_all add: sample_bcast_node_def zero_pdu_node_def BOARDCAST_ADDRESS_def)

theorem fragment_ids_consistent_witness:
  "\<exists>ID s. do_fragment sample_mem False 7264 1000 sample_bcast_node 0 idle_frag_state
      = Inr (uint (ID :: u8), sample_bcast_node, s)
    \<and> cq_list (fs_queue s) = [ucast ID] \<and> {i. i < 256 \<and> b_used (fs_buffer s ! i) \<noteq> 0} = {unat ID}"
proof -
  have "n_pdu_size sample_bcast_node + 4 \<noteq> 0" by (simp add: sample_bcast_node_def)
  then obtain ID s where d: "do_fragment sample_mem False 7264 1000 sample_bcast_node 0 idle_frag_state
      = Inr (uint (ID :: u8), sample_bcast_node, s)" "cq_list (fs_queue s) = [ucast ID]"
    using do_fragment_ok [OF idle_inv, of 0 sample_bcast_node False 7264 1000 _ sample_mem] sample_fragmented
    by (auto simp: MAX_DEVICE_NUM_def)
  from fragment_ids_consistent [OF frag_reach.fragment [OF idle_reach d(1), of valid_ids]] d(2)
  have "{i. i < 256 \<and> b_used (fs_buffer s ! i) \<noteq> 0} = {unat ID}" by (simp add: unat_ucast_up)
  with d show ?thesis by blast
qed

theorem fragments_partition_pdu_witness:
  "\<exists>ID s1 fs s2. do_fragment sample_mem False 7264 1000 sample_bcast_node 0 idle_frag_state
      = Inr (uint (ID :: u8), sample_bcast_node, s1)
    \<and> fetch_times valid_ids zero_pdu_node 2 s1 = Inr (fs, s2)
    \<and> concat (map (frag_bytes sample_mem) fs) = load_bytes sample_mem 0x1000 1500
    \<and> map n_fragment_type fs = [FRAGMENT_TYPE_S, FRAGMENT_TYPE_E]"
proof -
  let ?p = "\<lparr>p_start_size = 989, p_middle_size = 3617, p_end_size = 515, p_total_num = 2\<rparr>"
  have "fragment_plan False 7264 1000 (frag_header_length sample_bcast_node) (n_pdu_size sample_bcast_node + 4)
      = Inr ?p"
    by code_simp
  moreover have "length (n_MAC_address sample_bcast_node) = 6" "unat (n_pdu_size sample_bcast_node) = 1500"
    "n_pPDU_start sample_bcast_node = 0x1000" "(989 :: u16) \<le> n_pdu_size sample_bcast_node"
    by (simp_all add: sample_bcast_node_def zero_pdu_node_def BOARDCAST_ADDRESS_def)
  ultimately show ?thesis
    using fragments_partition_pdu [OF idle_inv, of 0 sample_bcast_node False 7264 1000 ?p valid_ids sample_mem zero_pdu_node]
    by (auto simp: MAX_DEVICE_NUM_def valid_ids_def)
qed

text \<open>When the last piece is shorter than the CRC-32 (also when the PDU divides evenly), the size
  of the last fragment wraps around: it is read as a fragment of at least 65532 bytes.\<close>

theorem short_last_fragment_wraps:
  assumes "frag_inv s" "cq_list (fs_queue s) = []" "unat m < MAX_DEVICE_NUM"
    "length (n_MAC_address n) = 6" "n_pdu_size n + 4 \<noteq> 0"
    "fragment_plan b mx us (frag_header_length n) (n_pdu_size n + 4) = Inr p"
    "p_end_size p < 4" "1 < p_total_num p" "p_total_num p \<le> 255"
    "\<forall>i. 0 \<le> i \<and> i < 256 \<longrightarrow> \<not> invalid_id i"
  shows "\<exists>ID s1 fs s2. do_fragment mm b mx us n m s = Inr (uint (ID :: u8), n, s1)
    \<and> fetch_times invalid_id n0 (unat (p_total_num p)) s1 = Inr (fs, s2)
    \<and> fs \<noteq> [] \<and> 65532 \<le> unat (n_pdu_size (List.last fs))"
proof -
  obtain ID s1 e where d: "do_fragment mm b mx us n m s = Inr (uint (ID :: u8), n, s1)" "frag_inv s1"
    "cq_list (fs_queue s1) = [ucast ID]" "fs_buffer s1 ! unat ID = at_fragment e 0"
    "b_fragment_info e = \<lparr>f_FragmentID = ID, f_total_num = ucast (p_total_num p), f_transfered_num = 0,
          f_middle_size = p_middle_size p, f_start_size = p_start_size p, f_end_size = p_end_size p - 4,
          f_CRC32 = crc32_lookup_table (load_bytes mm (n_pPDU_start n) (unat (n_pdu_size n)))\<rparr>"
    using do_fragment_ok [OF assms(1-6), of mm] by blast
  have T: "unat (p_total_num p) \<le> 255" "1 < unat (p_total_num p)"
    using assms(8,9) by (simp_all add: word_le_nat_alt word_less_nat_alt)
  have tot: "frag_total e = unat (p_total_num p)"
    using T(1) by (simp add: frag_total_def d(5) unsigned_ucast_eq take_bit_nat_eq_self)
  have x: "unat (ucast ID :: u16) = unat ID" by (simp add: unat_ucast_up)
  have valid: "\<not> invalid_id (int (unat (ucast ID :: u16)))"
    using assms(10) unat_u8_lt [of ID] x by (metis of_nat_0_le_iff of_nat_less_iff of_nat_numeral)
  have pos: "0 < frag_total e" using T(2) tot by simp
  obtain s2 where s2: "fetch_times invalid_id n0 (frag_total e) s1
      = Inr (map (frag_nth e (ucast ID) n0) [0..<frag_total e], s2)"
    using fetch_rest [of s1 "ucast ID" e 0 invalid_id n0] d(2,3,4) pos valid x by auto
  have "p_end_size p = 0 \<or> p_end_size p = 1 \<or> p_end_size p = 2 \<or> p_end_size p = 3"
  proof -
    define k where "k = unat (p_end_size p)"
    have "p_end_size p = of_nat k" by (simp add: k_def)
    moreover have "k < 4" using assms(7) by (simp add: k_def word_less_nat_alt)
    then have "k = 0 \<or> k = 1 \<or> k = 2 \<or> k = 3" by arith
    ultimately show ?thesis by auto
  qed
  moreover have "65532 \<le> unat (0 - 4 :: u16)" "65532 \<le> unat (1 - 4 :: u16)"
    "65532 \<le> unat (2 - 4 :: u16)" "65532 \<le> unat (3 - 4 :: u16)" by (simp_all add: unsigned_minus_1_eq_mask mask_eq_exp_minus_1)
  ultimately have E: "65532 \<le> unat (p_end_size p - 4)" by (elim disjE) (simp_all only:)
  have "n_pdu_size (frag_nth e (ucast ID) n0 (frag_total e - 1)) = p_end_size p - 4"
    using T tot by (simp add: frag_nth_fields frag_size_def d(5))
  moreover have "List.last (map (frag_nth e (ucast ID) n0) [0..<frag_total e])
      = frag_nth e (ucast ID) n0 (frag_total e - 1)"
    using T tot by (simp add: last_map)
  ultimately have "65532 \<le> unat (n_pdu_size (List.last (map (frag_nth e (ucast ID) n0) [0..<frag_total e])))"
    using E by (simp only:)
  moreover have "map (frag_nth e (ucast ID) n0) [0..<frag_total e] \<noteq> []" using pos by simp
  ultimately show ?thesis using d(1) s2 unfolding tot by blast
qed

theorem short_last_fragment_wraps_witness:
  "\<exists>ID s1 fs s2. do_fragment sample_mem False 2000 1000 (sample_bcast_node\<lparr>n_pdu_size := 2972\<rparr>) 0 idle_frag_state
      = Inr (uint (ID :: u8), sample_bcast_node\<lparr>n_pdu_size := 2972\<rparr>, s1)
    \<and> fetch_times valid_ids zero_pdu_node 3 s1 = Inr (fs, s2)
    \<and> fs \<noteq> [] \<and> 65532 \<le> unat (n_pdu_size (List.last fs))"
proof -
  let ?n = "sample_bcast_node\<lparr>n_pdu_size := 2972\<rparr>"
  let ?p = "\<lparr>p_start_size = 989, p_middle_size = 1985, p_end_size = 2, p_total_num = 3\<rparr>"
  have "fragment_plan False 2000 1000 (frag_header_length ?n) (n_pdu_size ?n + 4) = Inr ?p"
    by code_simp
  moreover have "length (n_MAC_address ?n) = 6" "n_pdu_size ?n + 4 \<noteq> 0"
    by (simp_all add: sample_bcast_node_def zero_pdu_node_def BOARDCAST_ADDRESS_def)
  ultimately show ?thesis
    using short_last_fragment_wraps [OF idle_inv, of 0 ?n False 2000 1000 ?p valid_ids sample_mem zero_pdu_node]
    by (auto simp: MAX_DEVICE_NUM_def valid_ids_def)
qed

end
