(* ===== verification/EncapFrame.thy ===== *)
theory EncapFrame
  imports EncapGse Crc
begin

text \<open>
  Frames (\<open>src/encapsulate_frame.c\<close>): the BBFRAME and ISL headers, the header the satellite
  receiver's layer 1 gets, the inner message header, and \<open>write_codeblock\<close>, which lays the GSE
  packets of a frame out in the transmit buffer.  Structures are packed; they are records here and
  \<open>..._bytes\<close> is their memory image on the little-endian target.  The mbuf pool, the transmit ring
  and the configuration are not modelled: whether an mbuf could be allocated, the packet type of the
  port, its MAC address and \<open>sizeof(MAC_FRAME_HEADER)\<close> are arguments, and the result says which
  mbufs were freed and what was sent.
\<close>

section \<open>Headers\<close>

record BBHEADER =
  RO :: "2 word"
  NPD :: "1 word"
  ISSYI :: "1 word"
  CCM_ACM :: "1 word"
  SIS_MIS :: "1 word"
  TS_GS :: "2 word"
  Matype2 :: u8
  UPL :: u16
  bb_DFL :: u16
  SYNC :: u8
  SYNCD :: u16
  bb_CRC8 :: u8

definition BBHEADER_SIZE :: nat where "BBHEADER_SIZE = 10"
definition ISLHEADER_SIZE :: nat where "ISLHEADER_SIZE = 11"
definition L2L1_HEADER_SIZE :: nat where "L2L1_HEADER_SIZE = 32"
definition L2L1_MSG_HEADER_SIZE :: nat where "L2L1_MSG_HEADER_SIZE = 24"

lemmas header_size_defs =
  BBHEADER_SIZE_def ISLHEADER_SIZE_def L2L1_HEADER_SIZE_def L2L1_MSG_HEADER_SIZE_def

definition matype1 :: "BBHEADER \<Rightarrow> u8" where
  "matype1 h = ucast (RO h) OR push_bit 2 (ucast (NPD h)) OR push_bit 3 (ucast (ISSYI h))
     OR push_bit 4 (ucast (CCM_ACM h)) OR push_bit 5 (ucast (SIS_MIS h)) OR push_bit 6 (ucast (TS_GS h))"

text \<open>The nine bytes the CRC-8 covers, and the whole header.\<close>

definition BBHEADER_body :: "BBHEADER \<Rightarrow> u8 list" where
  "BBHEADER_body h = [matype1 h, Matype2 h] @ le16 (UPL h) @ le16 (bb_DFL h) @ [SYNC h] @ le16 (SYNCD h)"

definition BBHEADER_bytes :: "BBHEADER \<Rightarrow> u8 list" where
  "BBHEADER_bytes h = BBHEADER_body h @ [bb_CRC8 h]"

record ISLHEADER =
  SYN :: u8
  isl_D :: "1 word"
  isl_M :: "1 word"
  isl_E :: "1 word"
  isl_RE :: "5 word"
  Link_Control :: u8
  Frame_Sequence :: u16
  isl_DFL :: u16
  isl_CRC32 :: u32

definition ISLHEADER_body :: "ISLHEADER \<Rightarrow> u8 list" where
  "ISLHEADER_body h =
     [SYN h, ucast (isl_D h) OR push_bit 1 (ucast (isl_M h)) OR push_bit 2 (ucast (isl_E h))
        OR push_bit 3 (ucast (isl_RE h)), Link_Control h] @ le16 (Frame_Sequence h) @ le16 (isl_DFL h)"

definition ISLHEADER_bytes :: "ISLHEADER \<Rightarrow> u8 list" where
  "ISLHEADER_bytes h = ISLHEADER_body h @ le32 (isl_CRC32 h)"

record TX_FWD_DATA =
  tx_request_id :: u32
  tx_base_singal_version :: "4 word"
  tx_base_band_signal_type :: "4 word"
  tx_scramble_index :: u8
  tx_psl_code :: u8
  tx_vl_snr_set :: u8
  tx_reserve :: "4 word"
  tx_priority :: "4 word"
  tx_Reserve_bits :: u8
  tx_KBCH_Length :: u16
  tx_Super_Frame_Number :: u32
  tx_Timestamp_in_seconds :: u32
  tx_Timestamp_in_nanosecond :: u32
  tx_Reserve_bytes :: "u8 list"

definition zero_tx :: TX_FWD_DATA where
  "zero_tx = \<lparr>tx_request_id = 0, tx_base_singal_version = 0, tx_base_band_signal_type = 0,
     tx_scramble_index = 0, tx_psl_code = 0, tx_vl_snr_set = 0, tx_reserve = 0, tx_priority = 0,
     tx_Reserve_bits = 0, tx_KBCH_Length = 0, tx_Super_Frame_Number = 0, tx_Timestamp_in_seconds = 0,
     tx_Timestamp_in_nanosecond = 0, tx_Reserve_bytes = replicate 8 0\<rparr>"

definition TX_FWD_DATA_bytes :: "TX_FWD_DATA \<Rightarrow> u8 list" where
  "TX_FWD_DATA_bytes h =
     le32 (tx_request_id h)
     @ [ucast (tx_base_singal_version h) OR push_bit 4 (ucast (tx_base_band_signal_type h)),
        tx_scramble_index h, tx_psl_code h, tx_vl_snr_set h,
        ucast (tx_reserve h) OR push_bit 4 (ucast (tx_priority h)), tx_Reserve_bits h]
     @ le16 (tx_KBCH_Length h) @ le32 (tx_Super_Frame_Number h) @ le32 (tx_Timestamp_in_seconds h)
     @ le32 (tx_Timestamp_in_nanosecond h) @ tx_Reserve_bytes h"

record L2L1_MSG_HEADER =
  m_cDstMacAddress :: "u8 list"
  m_cSrcMacAddress :: "u8 list"
  m_cType :: u16
  mac_rev :: u16
  m_V :: "4 word"
  m_R :: "4 word"
  msg_type :: u8
  msg_len :: u16
  m_reserve :: u32

definition L2L1_MSG_HEADER_bytes :: "L2L1_MSG_HEADER \<Rightarrow> u8 list" where
  "L2L1_MSG_HEADER_bytes h =
     m_cDstMacAddress h @ m_cSrcMacAddress h @ le16 (m_cType h) @ le16 (mac_rev h)
     @ [ucast (m_V h) OR push_bit 4 (ucast (m_R h)), msg_type h] @ le16 (msg_len h) @ le32 (m_reserve h)"

section \<open>Initialising and packaging the frame headers\<close>

definition init_BBHeader :: "BBHEADER option \<Rightarrow> TX_FWD_DATA option \<Rightarrow> BBHEADER option \<times> TX_FWD_DATA option" where
  "init_BBHeader bb tx = (case (bb, tx) of
     (Some _, Some _) \<Rightarrow>
       (Some \<lparr>RO = 0, NPD = 0, ISSYI = 0, CCM_ACM = 0, SIS_MIS = 1, TS_GS = 1, Matype2 = 0, UPL = 0,
              bb_DFL = 0, SYNC = 0, SYNCD = 0, bb_CRC8 = 0\<rparr>, Some zero_tx)
   | _ \<Rightarrow> (bb, tx))"

definition package_BBHeader :: "BBHEADER \<Rightarrow> u16 \<Rightarrow> u16 \<Rightarrow> int \<times> BBHEADER" where
  "package_BBHeader initialBBHeader bbframe_size data_size =
     (if (ucast data_size :: u64) \<le> ucast bbframe_size - of_nat BBHEADER_SIZE
      then let h = initialBBHeader\<lparr>bb_DFL := bswap16 (data_size * 8)\<rparr>
           in (0, h\<lparr>bb_CRC8 := mcs_get_crc8 (BBHEADER_body h)\<rparr>)
      else (SIZE_ERROR, initialBBHeader))"

definition init_ISLHeader :: "ISLHEADER option \<Rightarrow> TX_FWD_DATA option \<Rightarrow> ISLHEADER option \<times> TX_FWD_DATA option" where
  "init_ISLHeader p tx = (case (p, tx) of
     (Some h, Some _) \<Rightarrow>
       (Some (h\<lparr>isl_D := 0, isl_M := 0, isl_E := 0, Link_Control := 0, Frame_Sequence := 0,
                isl_DFL := 0, isl_CRC32 := 0\<rparr>), Some zero_tx)
   | _ \<Rightarrow> (p, tx))"

definition package_ISLHeader :: "ISLHEADER \<Rightarrow> u16 \<Rightarrow> u16 \<Rightarrow> int \<times> ISLHEADER" where
  "package_ISLHeader initialISLHeader islframe_size data_size =
     (if (ucast data_size :: u64) \<le> ucast islframe_size - of_nat ISLHEADER_SIZE
      then let h = initialISLHeader\<lparr>isl_DFL := data_size * 8\<rparr>
           in (0, h\<lparr>isl_CRC32 := crc32_lookup_table (ISLHEADER_body h)\<rparr>)
      else (SIZE_ERROR, initialISLHeader))"

definition isl_padding :: "u16 \<Rightarrow> ISLHEADER \<Rightarrow> u16" where
  "isl_padding islframe_size h = islframe_size - of_nat ISLHEADER_SIZE - drop_bit 3 (isl_DFL h)"

definition padding :: "u16 \<Rightarrow> BBHEADER option \<Rightarrow> u16" where
  "padding bbframe_size p = (case p of None \<Rightarrow> 0
     | Some h \<Rightarrow> bbframe_size - of_nat BBHEADER_SIZE - drop_bit 3 (bswap16 (bb_DFL h)))"

definition pls_code_normal_cb_insert_pilot :: "u8 list" where
  "pls_code_normal_cb_insert_pilot =
     [2, 5, 9, 13, 17, 21, 25, 29, 33, 37, 41, 45, 49, 53, 57, 61, 65, 69,
      73, 77, 81, 85, 89, 93, 97, 101, 105, 109, 113]"

definition pls_code_short_cb_insert_pilot :: "u8 list" where
  "pls_code_short_cb_insert_pilot =
     [2, 7, 11, 15, 19, 23, 27, 31, 35, 39, 43, 0, 51, 55, 59, 63, 67, 0,
      75, 79, 83, 87, 91, 0, 99, 103, 107, 111, 0]"

definition mcs_get_pls_code :: "u8 \<Rightarrow> bool \<Rightarrow> u8 outcome" where
  "mcs_get_pls_code modcod normal_code_block_size =
     (if 28 < modcod then Inr 0
      else if normal_code_block_size
      then load_at pls_code_normal_cb_insert_pilot (unat modcod)
      else load_at pls_code_short_cb_insert_pilot (unat modcod))"

text \<open>\<open>map_PLScode\<close> is declared but not called; its table has four entries.\<close>

definition S2_map_table :: "u8 list" where "S2_map_table = [0, 1, 2, 3]"

definition map_PLScode :: "u8 \<Rightarrow> 2 word \<Rightarrow> 1 word \<Rightarrow> u8 outcome" where
  "map_PLScode modcod code_type pilot_insertion =
     (if modcod \<le> 31
      then bind_ok (load_at S2_map_table (2 * unat code_type + unat pilot_insertion))
             (\<lambda>x. Inr (4 * modcod + x))
      else if 64 \<le> modcod \<and> modcod \<le> 127
      then bind_ok (load_at S2_map_table (unat pilot_insertion)) (\<lambda>x. Inr (2 * modcod + x))
      else Inr 255)"

definition package_L2L1_Header :: "u16 \<Rightarrow> u8 \<Rightarrow> TX_FWD_DATA outcome" where
  "package_L2L1_Header frame_size modcod =
     bind_ok (mcs_get_pls_code modcod True) (\<lambda>pls.
       Inr (zero_tx\<lparr>tx_base_band_signal_type := 1, tx_base_singal_version := 1, tx_scramble_index := 1,
         tx_psl_code := pls, tx_vl_snr_set := 1, tx_priority := 2, tx_KBCH_Length := bswap16 frame_size,
         tx_Super_Frame_Number := 0, tx_Timestamp_in_seconds := 0, tx_Timestamp_in_nanosecond := 0\<rparr>))"

section \<open>The inner message header\<close>

definition ISL_PACK :: u8 where "ISL_PACK = 3"
definition BBFRAME_PACK :: u8 where "BBFRAME_PACK = 4"
definition ENUM_FWD_Tx_FWD_Data :: u8 where "ENUM_FWD_Tx_FWD_Data = 6"

definition is_bb_type :: "u8 \<Rightarrow> bool" where
  "is_bb_type ty \<longleftrightarrow> ty = BBFRAME_PACK \<or> ty = ENUM_FWD_Tx_FWD_Data"

text \<open>\<open>h\<close> is the caller's uninitialised local; its field \<open>mac_rev\<close> stays as it was.\<close>

definition encode_inner_header :: "u16 \<Rightarrow> u8 \<Rightarrow> u8 list \<Rightarrow> L2L1_MSG_HEADER \<Rightarrow> u16 \<Rightarrow> L2L1_MSG_HEADER" where
  "encode_inner_header mac_header_size pkt_type local_mac h frame_size =
     h\<lparr>m_cDstMacAddress := [0x10, 0, 0, 0, 0, 0x50], m_cSrcMacAddress := local_mac, m_V := 1,
       m_cType := bswap16 0x9101, m_R := 0,
       msg_len := bswap16 (if is_bb_type pkt_type
         then of_nat L2L1_MSG_HEADER_SIZE - mac_header_size + of_nat L2L1_HEADER_SIZE + frame_size
         else of_nat L2L1_MSG_HEADER_SIZE - mac_header_size + frame_size),
       msg_type := pkt_type, m_reserve := 0\<rparr>"

section \<open>\<open>write_codeblock\<close>\<close>

text \<open>
  The state of the copy is the part of the local buffer written so far, whose length is \<open>offset\<close>,
  and the mbufs freed.  \<open>emit\<close> is one \<open>memcpy\<close> to \<open>buffer + offset\<close>.  The code tests the array
  \<open>value_address\<close> for NULL, which it never is, and both branches copy the same bytes; the flag
  \<open>bPDUConcat\<close> is never set, so no length precedes a PDU.
\<close>

type_synonym code_block = "u8 list \<times> ptr list"

definition emit :: "u8 list \<Rightarrow> code_block \<Rightarrow> code_block outcome" where
  "emit bs st =
     (if length (fst st) + length bs \<le> FIFO_ITEM_SIZE then Inr (fst st @ bs, snd st) else Inl OutOfBounds)"

definition write_opt_header :: "OPT_EXT_HEADER_INFO \<Rightarrow> int \<Rightarrow> code_block \<Rightarrow> code_block outcome" where
  "write_opt_header h j st =
     bind_ok (load_i (opt_header_value h) j) (\<lambda>v.
     bind_ok (load_i (opt_header_size h) j) (\<lambda>sz.
     if unat sz < 2 then Inl OutOfBounds else
     bind_ok (get_bytes v 0 (unat sz - 2)) (\<lambda>bs.
     bind_ok (emit bs st) (\<lambda>st1.
     bind_ok (load_i (opt_next_type h) j) (\<lambda>nx. emit (le16 nx) st1)))))"

definition write_man_header :: "MAN_EXT_HEADER_INFO \<Rightarrow> int \<Rightarrow> code_block \<Rightarrow> code_block outcome" where
  "write_man_header h j st =
     bind_ok (load_i (man_next_type h) j) (\<lambda>nx.
     bind_ok (load_i (man_header_size h) j) (\<lambda>sz.
     if unat sz < 2 then Inl OutOfBounds else
     bind_ok (get_bytes (concat (map le16 (drop (nat j) (man_next_type h)))) 0 (unat sz - 2)) (\<lambda>bs.
     bind_ok (emit bs st) (\<lambda>st1. emit (le16 nx) st1))))"

definition free_mbuf_of :: "ONE_PDU \<Rightarrow> code_block \<Rightarrow> code_block" where
  "free_mbuf_of p st = (fst st, snd st @ [o_mbuf_address p])"

definition write_pdu :: "mem \<Rightarrow> ONE_GSE \<Rightarrow> int \<Rightarrow> code_block \<Rightarrow> code_block outcome" where
  "write_pdu m e j st =
     bind_ok (load_i (e_one_PDU e) j) (\<lambda>p.
     bind_ok (emit (load_bytes m (o_pStart p) (unat (o_pdu_size p))) st) (\<lambda>st1.
     if e_fragment_flag e = 0 then Inr (free_mbuf_of p st1)
     else if e_fragment_type e = FRAGMENT_TYPE_E
     then bind_ok (emit (le32 (e_crc32 e)) st1) (\<lambda>st2. Inr (free_mbuf_of p st2))
     else Inr st1))"

definition write_gse :: "mem \<Rightarrow> ONE_GSE \<Rightarrow> code_block \<Rightarrow> code_block outcome" where
  "write_gse m e st =
     bind_ok (get_bytes (e_GSE_header e) 0 (unat (e_GSE_header_size e))) (\<lambda>hd.
     bind_ok (emit hd st) (\<lambda>st1.
     bind_ok (for_each [0..opt_header_num (e_opt e) - 1] (write_opt_header (e_opt e)) st1) (\<lambda>st2.
     bind_ok (for_each [0..man_header_num (e_man e) - 1] (write_man_header (e_man e)) st2) (\<lambda>st3.
     for_each [0..uint (e_pdu_num e) - 1] (write_pdu m e) st3))))"

text \<open>The result is the return value, the frame that was enqueued, and the mbufs that were freed.\<close>

definition write_codeblock ::
    "mem \<Rightarrow> bool \<Rightarrow> u8 list option \<Rightarrow> u8 list option \<Rightarrow> u8 list \<Rightarrow> GSE_GROUP option \<Rightarrow> u16
     \<Rightarrow> (u32 \<times> u8 list option \<times> ptr list) outcome" where
  "write_codeblock m mbuf_ok inner_msg_header pL2L1_header frame_header grp padding_bytes =
     (case (inner_msg_header, grp) of
        (Some inner, Some g) \<Rightarrow>
          bind_ok (emit inner ([], [])) (\<lambda>st1.
          bind_ok (case pL2L1_header of Some h \<Rightarrow> emit h st1 | None \<Rightarrow> Inr st1) (\<lambda>st2.
          bind_ok (emit frame_header st2) (\<lambda>st3.
          bind_ok (for_each [0..<unat (s_gse_num g)]
                     (\<lambda>i st. bind_ok (load_at (s_pOneGSE g) i) (\<lambda>e. write_gse m e st)) st3) (\<lambda>st4.
          bind_ok (if 0 < padding_bytes then emit (replicate (unat padding_bytes) 0) st4 else Inr st4) (\<lambda>st5.
          if \<not> mbuf_ok then Inr (0, None, snd st5)
          else Inr (of_nat (length (fst st5))
                    - (case pL2L1_header of Some _ \<Rightarrow> of_nat L2L1_HEADER_SIZE | None \<Rightarrow> 0)
                    - of_nat L2L1_MSG_HEADER_SIZE, Some (fst st5), snd st5))))))
      | _ \<Rightarrow> Inr (0, None, []))"

section \<open>\<open>encapsulate_frame\<close>\<close>

record FRAME_PARAM =
  initialBBHeader :: BBHEADER
  initialISLHeader :: ISLHEADER
  L2L1_header :: TX_FWD_DATA
  fp_padding_bytes :: u32
  fp_pack_type :: u8
  fp_gse_offset :: u16
  fp_header_size :: u16
  fp_frame_size :: u16
  fp_frame_count :: u64

text \<open>
  The configuration of the port: its packet type, its MAC address and \<open>sizeof(MAC_FRAME_HEADER)\<close>;
  \<open>inner\<close> is the uninitialised local header and \<open>frame_size0\<close> the uninitialised \<open>frame_size\<close>.
\<close>

record PORT_CONF =
  port_to_pkt_type :: u8
  local_mac :: "u8 list"
  mac_frame_header_size :: u16

definition frame_result :: "u32 \<Rightarrow> u16 \<Rightarrow> int" where
  "frame_result ret2 frame_size =
     (if ret2 = 0 then POINT_ERROR else if sint ret2 = uint frame_size then 0 else SIZE_ERROR)"

definition encapsulate_isl_frame ::
    "mem \<Rightarrow> bool \<Rightarrow> PORT_CONF \<Rightarrow> L2L1_MSG_HEADER \<Rightarrow> GSE_GROUP \<Rightarrow> u16 \<Rightarrow> u16 \<Rightarrow> FRAME_PARAM
     \<Rightarrow> (int \<times> FRAME_PARAM \<times> u8 list option \<times> ptr list) outcome" where
  "encapsulate_isl_frame m mbuf_ok c inner g frame_max_payload data_size fp =
     (let frame_size = of_nat ISLHEADER_SIZE + frame_max_payload;
          (ret1, h) = package_ISLHeader (initialISLHeader fp) frame_size data_size
      in if ret1 < 0 then Inr (ret1, fp, None, [])
         else let pad = isl_padding frame_size h;
                  h' = h\<lparr>isl_DFL := bswap16 (isl_DFL h)\<rparr>;
                  ih = encode_inner_header (mac_frame_header_size c) (port_to_pkt_type c) (local_mac c) inner frame_size;
                  fp' = fp\<lparr>fp_frame_count := fp_frame_count fp + 1\<rparr>
              in bind_ok (write_codeblock m mbuf_ok (Some (L2L1_MSG_HEADER_bytes ih)) None
                            (ISLHEADER_bytes h') (Some g) pad)
                   (\<lambda>(ret2, out, freed). Inr (frame_result ret2 frame_size, fp', out, freed)))"

definition encapsulate_bb_frame ::
    "mem \<Rightarrow> bool \<Rightarrow> PORT_CONF \<Rightarrow> L2L1_MSG_HEADER \<Rightarrow> GSE_GROUP \<Rightarrow> u16 \<Rightarrow> u16 \<Rightarrow> u8 \<Rightarrow> FRAME_PARAM
     \<Rightarrow> (int \<times> FRAME_PARAM \<times> u8 list option \<times> ptr list) outcome" where
  "encapsulate_bb_frame m mbuf_ok c inner g frame_max_payload data_size modcod fp =
     (let frame_size = of_nat BBHEADER_SIZE + frame_max_payload;
          (ret1, h) = package_BBHeader (initialBBHeader fp) frame_size data_size
      in if ret1 < 0 then Inr (ret1, fp, None, [])
         else let pad = padding frame_size (Some h);
                  ih = encode_inner_header (mac_frame_header_size c) (port_to_pkt_type c) (local_mac c) inner frame_size
              in bind_ok (package_L2L1_Header frame_size modcod) (\<lambda>tx.
                   let fp' = fp\<lparr>fp_frame_count := fp_frame_count fp + 1, L2L1_header := tx\<rparr>
                   in bind_ok (write_codeblock m mbuf_ok (Some (L2L1_MSG_HEADER_bytes ih))
                                 (Some (TX_FWD_DATA_bytes tx)) (BBHEADER_bytes h) (Some g) pad)
                        (\<lambda>(ret2, out, freed). Inr (frame_result ret2 frame_size, fp', out, freed))))"

definition encapsulate_frame ::
    "mem \<Rightarrow> bool \<Rightarrow> PORT_CONF \<Rightarrow> L2L1_MSG_HEADER \<Rightarrow> GSE_GROUP \<Rightarrow> u16 \<Rightarrow> u16 \<Rightarrow> u8 \<Rightarrow> FRAME_PARAM option
     \<Rightarrow> (int \<times> FRAME_PARAM option \<times> u8 list option \<times> ptr list) outcome" where
  "encapsulate_frame m mbuf_ok c inner g frame_max_payload data_size modcod pFrame_param =
     (case pFrame_param of
        None \<Rightarrow> Inr (POINT_ERROR, None, None, [])
      | Some fp \<Rightarrow>
          if s_gse_num g = 0 then Inr (SIZE_ERROR, Some fp, None, [])
          else if port_to_pkt_type c = ISL_PACK
          then bind_ok (encapsulate_isl_frame m mbuf_ok c inner g frame_max_payload data_size fp)
                 (\<lambda>(r, fp', out, freed). Inr (r, Some fp', out, freed))
          else if is_bb_type (port_to_pkt_type c)
          then bind_ok (encapsulate_bb_frame m mbuf_ok c inner g frame_max_payload data_size modcod fp)
                 (\<lambda>(r, fp', out, freed). Inr (r, Some fp', out, freed))
          else Inl UninitRead)"

section \<open>What the copying operations write\<close>

text \<open>\<open>writes f w fr\<close>: as long as there is room, \<open>f\<close> appends \<open>w\<close> to the buffer and frees \<open>fr\<close>.\<close>

definition writes :: "(code_block \<Rightarrow> code_block outcome) \<Rightarrow> u8 list \<Rightarrow> ptr list \<Rightarrow> bool" where
  "writes f w fr \<longleftrightarrow> (\<forall>st. length (fst st) + length w \<le> FIFO_ITEM_SIZE
     \<longrightarrow> f st = Inr (fst st @ w, snd st @ fr))"

named_theorems writes_intros \<open>composition of copying operations\<close>

lemma writes_emit [writes_intros]: "writes (emit bs) bs []"
  by (simp add: writes_def emit_def)

lemma writes_seq [writes_intros]:
  "writes f w1 fr1 \<Longrightarrow> writes g w2 fr2 \<Longrightarrow> writes (\<lambda>st. bind_ok (f st) g) (w1 @ w2) (fr1 @ fr2)"
  by (simp add: writes_def)

lemma writes_id [writes_intros]: "writes Inr [] []"
  by (simp add: writes_def)

lemma writes_free [writes_intros]: "writes (\<lambda>st. Inr (free_mbuf_of p st)) [] [o_mbuf_address p]"
  by (simp add: writes_def free_mbuf_of_def)

lemma writes_each [writes_intros]:
  "(\<And>i. i \<in> set is \<Longrightarrow> writes (f i) (w i) (fr i)) \<Longrightarrow>
   writes (for_each is f) (concat (map w is)) (concat (map fr is))"
  by (induction "is") (auto simp: writes_def)

lemma concat_map_Nil [simp]: "concat (map (\<lambda>i. []) is) = []"
  by simp

lemma writes_cong: "(\<And>st. f st = g st) \<Longrightarrow> writes g w fr \<Longrightarrow> writes f w fr"
  by (simp add: writes_def)

text \<open>The bytes of the extension headers and of a GSE packet.\<close>

definition opt_wire :: "OPT_EXT_HEADER_INFO \<Rightarrow> int \<Rightarrow> u8 list" where
  "opt_wire h j = take (unat (opt_header_size h ! nat j) - 2) (opt_header_value h ! nat j)
     @ le16 (opt_next_type h ! nat j)"

definition man_wire :: "MAN_EXT_HEADER_INFO \<Rightarrow> int \<Rightarrow> u8 list" where
  "man_wire h j = take (unat (man_header_size h ! nat j) - 2) (concat (map le16 (drop (nat j) (man_next_type h))))
     @ le16 (man_next_type h ! nat j)"

definition pdu_wire :: "mem \<Rightarrow> ONE_GSE \<Rightarrow> int \<Rightarrow> u8 list" where
  "pdu_wire m e j = (let p = e_one_PDU e ! nat j in
     load_bytes m (o_pStart p) (unat (o_pdu_size p))
     @ (if e_fragment_flag e \<noteq> 0 \<and> e_fragment_type e = FRAGMENT_TYPE_E then le32 (e_crc32 e) else []))"

definition pdu_freed :: "ONE_GSE \<Rightarrow> int \<Rightarrow> ptr list" where
  "pdu_freed e j = (if e_fragment_flag e = 0 \<or> e_fragment_type e = FRAGMENT_TYPE_E
     then [o_mbuf_address (e_one_PDU e ! nat j)] else [])"

definition gse_wire :: "mem \<Rightarrow> ONE_GSE \<Rightarrow> u8 list" where
  "gse_wire m e =
     take (unat (e_GSE_header_size e)) (e_GSE_header e)
     @ concat (map (opt_wire (e_opt e)) [0..opt_header_num (e_opt e) - 1])
     @ concat (map (man_wire (e_man e)) [0..man_header_num (e_man e) - 1])
     @ concat (map (pdu_wire m e) [0..uint (e_pdu_num e) - 1])"

definition gse_freed :: "ONE_GSE \<Rightarrow> ptr list" where
  "gse_freed e = concat (map (pdu_freed e) [0..uint (e_pdu_num e) - 1])"

definition gse_ok :: "ONE_GSE \<Rightarrow> bool" where
  "gse_ok e \<longleftrightarrow> unat (e_GSE_header_size e) \<le> length (e_GSE_header e)
     \<and> opt_wf (e_opt e) \<and> man_wf (e_man e)
     \<and> (\<forall>j \<in> {0..<opt_header_num (e_opt e)}.
          2 \<le> unat (opt_header_size (e_opt e) ! nat j) \<and> unat (opt_header_size (e_opt e) ! nat j) \<le> 22)
     \<and> (\<forall>j \<in> {0..<man_header_num (e_man e)}. unat (man_header_size (e_man e) ! nat j) = 2)
     \<and> length (e_one_PDU e) = PDU_MAX_NUM \<and> unat (e_pdu_num e) \<le> PDU_MAX_NUM"

lemma writes_opt_header:
  assumes "gse_ok e" "j \<in> set [0..opt_header_num (e_opt e) - 1]"
  shows "writes (write_opt_header (e_opt e) j) (opt_wire (e_opt e) j) []"
proof -
  let ?h = "e_opt e" and ?j = "nat j"
  have j: "0 \<le> j" "j < opt_header_num ?h" using assms(2) by auto
  have h: "?j < 10" "length (opt_header_value ?h) = 10" "length (opt_header_size ?h) = 10"
    "length (opt_next_type ?h) = 10" "\<forall>v \<in> set (opt_header_value ?h). length v = 20"
    using assms(1) j by (auto simp: gse_ok_def opt_wf_def)
  have sz: "2 \<le> unat (opt_header_size ?h ! ?j)" "unat (opt_header_size ?h ! ?j) \<le> 22"
    using assms(1) j by (auto simp: gse_ok_def)
  have "length (opt_header_value ?h ! ?j) = 20" using h by simp
  then have "write_opt_header ?h j = (\<lambda>st. bind_ok
      (emit (take (unat (opt_header_size ?h ! ?j) - 2) (opt_header_value ?h ! ?j)) st)
      (emit (le16 (opt_next_type ?h ! ?j))))"
    using h j sz by (simp add: write_opt_header_def fun_eq_iff)
  then show ?thesis
    using writes_seq [OF writes_emit writes_emit] by (simp add: opt_wire_def)
qed

lemma writes_man_header:
  assumes "gse_ok e" "j \<in> set [0..man_header_num (e_man e) - 1]"
  shows "writes (write_man_header (e_man e) j) (man_wire (e_man e) j) []"
proof -
  let ?h = "e_man e" and ?j = "nat j"
  have j: "0 \<le> j" "j < man_header_num ?h" using assms(2) by auto
  have h: "?j < 10" "length (man_header_size ?h) = 10" "length (man_next_type ?h) = 10"
    using assms(1) j by (auto simp: gse_ok_def man_wf_def)
  have sz: "unat (man_header_size ?h ! ?j) = 2" using assms(1) j by (auto simp: gse_ok_def)
  have "write_man_header ?h j = (\<lambda>st. bind_ok (emit [] st) (emit (le16 (man_next_type ?h ! ?j))))"
    using h j sz by (simp add: write_man_header_def fun_eq_iff)
  then show ?thesis
    using writes_seq [OF writes_emit writes_emit] sz by (simp add: man_wire_def) (metis append_Nil)
qed

lemma writes_pdu:
  assumes "gse_ok e" "j \<in> set [0..uint (e_pdu_num e) - 1]"
  shows "writes (write_pdu m e j) (pdu_wire m e j) (pdu_freed e j)"
proof -
  have j: "0 \<le> j" "j < uint (e_pdu_num e)" using assms(2) by auto
  moreover have "uint (e_pdu_num e) = int (unat (e_pdu_num e))" by simp
  ultimately have "nat j < unat (e_pdu_num e)" by linarith
  then have "nat j < length (e_one_PDU e)" using assms(1) by (simp add: gse_ok_def)
  then show ?thesis
    using j by (auto simp: writes_def write_pdu_def emit_def pdu_wire_def pdu_freed_def free_mbuf_of_def Let_def)
qed

lemma writes_gse:
  assumes "gse_ok e"
  shows "writes (write_gse m e) (gse_wire m e) (gse_freed e)"
proof -
  let ?o = "for_each [0..opt_header_num (e_opt e) - 1] (write_opt_header (e_opt e))"
  let ?m = "for_each [0..man_header_num (e_man e) - 1] (write_man_header (e_man e))"
  let ?p = "for_each [0..uint (e_pdu_num e) - 1] (write_pdu m e)"
  let ?hd = "take (unat (e_GSE_header_size e)) (e_GSE_header e)"
  have "writes ?o (concat (map (opt_wire (e_opt e)) [0..opt_header_num (e_opt e) - 1])) []"
    using writes_each [of "[0..opt_header_num (e_opt e) - 1]" "write_opt_header (e_opt e)" "opt_wire (e_opt e)" "\<lambda>_. []", OF writes_opt_header [OF assms]]
    by simp
  moreover have "writes ?m (concat (map (man_wire (e_man e)) [0..man_header_num (e_man e) - 1])) []"
    using writes_each [of "[0..man_header_num (e_man e) - 1]" "write_man_header (e_man e)" "man_wire (e_man e)" "\<lambda>_. []", OF writes_man_header [OF assms]]
    by simp
  moreover have "writes ?p (concat (map (pdu_wire m e) [0..uint (e_pdu_num e) - 1])) (gse_freed e)"
    unfolding gse_freed_def by (intro writes_each writes_pdu assms)
  ultimately have "writes (\<lambda>st. bind_ok (emit ?hd st) (\<lambda>st1. bind_ok (?o st1) (\<lambda>st2. bind_ok (?m st2) ?p)))
      (gse_wire m e) ([] @ [] @ [] @ gse_freed e)"
    unfolding gse_wire_def by (intro writes_seq writes_emit)
  then show ?thesis
    using assms by (auto simp: write_gse_def gse_ok_def intro: writes_cong)
qed

section \<open>The layout of a frame\<close>

definition group_gses :: "GSE_GROUP \<Rightarrow> ONE_GSE list" where
  "group_gses g = take (unat (s_gse_num g)) (s_pOneGSE g)"

definition frame_gses_ok :: "GSE_GROUP \<Rightarrow> bool" where
  "frame_gses_ok g \<longleftrightarrow> unat (s_gse_num g) \<le> length (s_pOneGSE g) \<and> (\<forall>e \<in> set (group_gses g). gse_ok e)"

definition group_wire :: "mem \<Rightarrow> GSE_GROUP \<Rightarrow> u8 list" where
  "group_wire m g = concat (map (gse_wire m) (group_gses g))"

definition group_freed :: "GSE_GROUP \<Rightarrow> ptr list" where
  "group_freed g = concat (map gse_freed (group_gses g))"

lemma writes_group:
  assumes "frame_gses_ok g"
  shows "writes (for_each [0..<unat (s_gse_num g)]
      (\<lambda>i st. bind_ok (load_at (s_pOneGSE g) i) (\<lambda>e. write_gse m e st))) (group_wire m g) (group_freed g)"
proof -
  let ?n = "unat (s_gse_num g)"
  have n: "?n \<le> length (s_pOneGSE g)" using assms by (simp add: frame_gses_ok_def)
  have "writes (\<lambda>st. bind_ok (load_at (s_pOneGSE g) i) (\<lambda>e. write_gse m e st))
      (gse_wire m (s_pOneGSE g ! i)) (gse_freed (s_pOneGSE g ! i))" if "i \<in> set [0..<?n]" for i
  proof -
    have i: "i < ?n" "i < length (s_pOneGSE g)" using that n by auto
    then have "s_pOneGSE g ! i \<in> set (group_gses g)"
      unfolding group_gses_def by (metis in_set_conv_nth length_take min_less_iff_conj nth_take)
    then have "gse_ok (s_pOneGSE g ! i)" using assms by (simp add: frame_gses_ok_def)
    from writes_gse [OF this, of m] show ?thesis using i by simp
  qed
  from writes_each [OF this] have "writes (for_each [0..<?n]
      (\<lambda>i st. bind_ok (load_at (s_pOneGSE g) i) (\<lambda>e. write_gse m e st)))
      (concat (map (\<lambda>i. gse_wire m (s_pOneGSE g ! i)) [0..<?n]))
      (concat (map (\<lambda>i. gse_freed (s_pOneGSE g ! i)) [0..<?n]))" .
  moreover have "group_gses g = map (\<lambda>i. s_pOneGSE g ! i) [0..<?n]"
    using n by (intro nth_equalityI) (simp_all add: group_gses_def)
  ultimately show ?thesis by (simp add: group_wire_def group_freed_def o_def)
qed

lemma write_codeblock_layout:
  assumes g: "frame_gses_ok g" and inner: "length inner = L2L1_MSG_HEADER_SIZE"
    and tx: "case tx of Some t \<Rightarrow> length t = L2L1_HEADER_SIZE | None \<Rightarrow> True"
    and room: "length frame \<le> FIFO_ITEM_SIZE"
    and frame: "frame = inner @ (case tx of Some t \<Rightarrow> t | None \<Rightarrow> []) @ hdr @ group_wire m g
                 @ replicate (unat pad) 0"
  shows "write_codeblock m True (Some inner) tx hdr (Some g) pad
     = Inr (of_nat (length hdr + length (group_wire m g) + unat pad), Some frame, group_freed g)"
proof -
  have opt: "writes (\<lambda>st. case tx of Some h \<Rightarrow> emit h st | None \<Rightarrow> Inr st)
      (case tx of Some t \<Rightarrow> t | None \<Rightarrow> []) []"
    using writes_emit writes_id by (cases tx) auto
  have pad: "writes (\<lambda>st. if 0 < pad then emit (replicate (unat pad) 0) st else Inr st) (replicate (unat pad) 0) []"
    using writes_emit writes_id by (cases "pad = 0") (auto simp: word_neq_0_conv)
  let ?f = "\<lambda>st. bind_ok (emit inner st) (\<lambda>st1.
      bind_ok (case tx of Some h \<Rightarrow> emit h st1 | None \<Rightarrow> Inr st1) (\<lambda>st2.
      bind_ok (emit hdr st2) (\<lambda>st3.
      bind_ok (for_each [0..<unat (s_gse_num g)]
                 (\<lambda>i st. bind_ok (load_at (s_pOneGSE g) i) (\<lambda>e. write_gse m e st)) st3) (\<lambda>st4.
      if 0 < pad then emit (replicate (unat pad) 0) st4 else Inr st4))))"
  have "writes ?f frame ([] @ [] @ [] @ group_freed g @ [])"
    unfolding frame by (intro writes_seq writes_emit opt writes_group [OF g] pad)
  then have run: "?f ([], []) = Inr (frame, group_freed g)" using room by (simp add: writes_def)
  have assoc: "write_codeblock m True (Some inner) tx hdr (Some g) pad
     = bind_ok (?f ([], [])) (\<lambda>st5. Inr (of_nat (length (fst st5))
         - (case tx of Some _ \<Rightarrow> of_nat L2L1_HEADER_SIZE | None \<Rightarrow> 0) - of_nat L2L1_MSG_HEADER_SIZE,
         Some (fst st5), snd st5))"
    by (simp add: write_codeblock_def bind_ok_assoc)
  have "length frame = length inner + length (case tx of Some t \<Rightarrow> t | None \<Rightarrow> []) + length hdr
      + length (group_wire m g) + unat pad"
    by (simp add: frame)
  then show ?thesis
    using inner tx by (simp only: assoc run bind_ok.simps fst_conv snd_conv) (auto split: option.splits)
qed

lemma frame_size_room:
  assumes "data_size \<le> mx" "unat mx \<le> 7264" "k \<le> 11"
  shows "(ucast data_size :: u64) \<le> ucast (of_nat k + mx :: u16) - of_nat k"
    "unat (of_nat k + mx :: u16) = k + unat mx" "drop_bit 3 (data_size * 8) = data_size"
    "of_nat k + mx - of_nat k - data_size = mx - data_size"
proof -
  have k: "unat (of_nat k :: u16) = k" "unat (of_nat k :: u64) = k"
    using assms(3) by (simp_all add: unat_of_nat_lt)
  show s: "unat (of_nat k + mx :: u16) = k + unat mx"
    using k(1) assms by (subst unat_add_lt) simp_all
  have "unat (ucast (of_nat k + mx :: u16) :: u64) = k + unat mx" using s by (simp add: unat_ucast_up)
  then have "unat (ucast (of_nat k + mx :: u16) - of_nat k :: u64) = unat mx"
    using k(2) by (subst unat_sub_le) (simp_all add: word_le_nat_alt)
  moreover have "unat (ucast data_size :: u64) = unat data_size" by (simp add: unat_ucast_up)
  ultimately show "(ucast data_size :: u64) \<le> ucast (of_nat k + mx :: u16) - of_nat k"
    using assms(1) by (simp add: word_le_nat_alt)
  have "unat data_size \<le> 7264" using assms(1,2) by (simp add: word_le_nat_alt)
  then have "unat (data_size * 8) = unat data_size * 8" by (simp add: unat_word_ariths)
  moreover have "unat (drop_bit 3 w) = unat w div 8" for w :: u16 by (simp add: drop_bit_eq_div unat_div)
  ultimately have "unat (drop_bit 3 (data_size * 8)) = unat data_size" by simp
  then show "drop_bit 3 (data_size * 8) = data_size" by (simp only: word_unat_eq_iff)
qed simp

definition bb_header_of :: "FRAME_PARAM \<Rightarrow> u16 \<Rightarrow> BBHEADER" where
  "bb_header_of fp data_size =
     (let h = (initialBBHeader fp)\<lparr>bb_DFL := bswap16 (data_size * 8)\<rparr>
      in h\<lparr>bb_CRC8 := mcs_get_crc8 (BBHEADER_body h)\<rparr>)"

lemma package_BBHeader_ok:
  assumes "data_size \<le> mx" "unat mx \<le> 7264"
  shows "package_BBHeader (initialBBHeader fp) (of_nat BBHEADER_SIZE + mx) data_size = (0, bb_header_of fp data_size)"
    "padding (of_nat BBHEADER_SIZE + mx) (Some (bb_header_of fp data_size)) = mx - data_size"
proof -
  have k: "BBHEADER_SIZE \<le> 11" by (simp add: header_size_defs)
  note r = frame_size_room [OF assms k]
  show "package_BBHeader (initialBBHeader fp) (of_nat BBHEADER_SIZE + mx) data_size = (0, bb_header_of fp data_size)"
    using r(1) by (simp only: package_BBHeader_def bb_header_of_def if_True Let_def)
  have "bb_DFL (bb_header_of fp data_size) = bswap16 (data_size * 8)" by (simp add: bb_header_of_def Let_def)
  then show "padding (of_nat BBHEADER_SIZE + mx) (Some (bb_header_of fp data_size)) = mx - data_size"
    using r(3,4) by (simp only: padding_def option.case bswap16_bswap16)
qed

lemma length_BBHEADER_bytes [simp]: "length (BBHEADER_bytes h) = BBHEADER_SIZE"
  by (simp add: BBHEADER_bytes_def BBHEADER_body_def header_size_defs)

lemma length_ISLHEADER_bytes [simp]: "length (ISLHEADER_bytes h) = ISLHEADER_SIZE"
  by (simp add: ISLHEADER_bytes_def ISLHEADER_body_def header_size_defs)

lemma length_TX_FWD_DATA_bytes: "length (tx_Reserve_bytes h) = 8 \<Longrightarrow> length (TX_FWD_DATA_bytes h) = L2L1_HEADER_SIZE"
  by (simp add: TX_FWD_DATA_bytes_def header_size_defs)

lemma length_inner_header:
  "length mac = 6 \<Longrightarrow> length (L2L1_MSG_HEADER_bytes (encode_inner_header sz ty mac h fs)) = L2L1_MSG_HEADER_SIZE"
  by (simp add: L2L1_MSG_HEADER_bytes_def encode_inner_header_def header_size_defs)

lemma inner_header_type:
  assumes "length mac = 6"
  shows "take 2 (drop 12 (L2L1_MSG_HEADER_bytes (encode_inner_header sz ty mac h fs))) = le16 (bswap16 0x9101)"
    "L2L1_MSG_HEADER_bytes (encode_inner_header sz ty mac h fs) ! 17 = ty"
proof -
  obtain a b c d e f where "mac = [a, b, c, d, e, f]"
    using assms by (auto simp: eval_nat_numeral length_Suc_conv)
  then show "take 2 (drop 12 (L2L1_MSG_HEADER_bytes (encode_inner_header sz ty mac h fs))) = le16 (bswap16 0x9101)"
    "L2L1_MSG_HEADER_bytes (encode_inner_header sz ty mac h fs) ! 17 = ty"
    by (simp_all add: L2L1_MSG_HEADER_bytes_def encode_inner_header_def le16_def)
qed

lemma mcs_get_pls_code_ok: "\<exists>x. mcs_get_pls_code modcod b = Inr x"
  by (auto simp: mcs_get_pls_code_def load_at_def pls_code_normal_cb_insert_pilot_def
      pls_code_short_cb_insert_pilot_def word_less_nat_alt)

lemma package_L2L1_Header_ok:
  "\<exists>tx. package_L2L1_Header fs modcod = Inr tx \<and> length (TX_FWD_DATA_bytes tx) = L2L1_HEADER_SIZE
     \<and> tx_KBCH_Length tx = bswap16 fs"
proof -
  obtain x where "mcs_get_pls_code modcod True = Inr x" using mcs_get_pls_code_ok by blast
  then show ?thesis by (simp add: package_L2L1_Header_def length_TX_FWD_DATA_bytes zero_tx_def)
qed

lemma frame_result_ok:
  "0 < unat fs \<Longrightarrow> frame_result (of_nat (unat (fs :: u16))) fs = 0"
proof -
  assume pos: "0 < unat fs"
  have "unat fs < 65536" using unat_u16_lt .
  then have u: "unat (of_nat (unat fs) :: u32) = unat fs" by (intro unat_of_nat_lt) simp
  then have "sint (of_nat (unat fs) :: u32) = int (unat fs)"
    using \<open>unat fs < 65536\<close> by (subst sint_eq_int_unat) simp_all
  moreover have "(of_nat (unat fs) :: u32) \<noteq> 0" using u pos by (metis less_irrefl unat_0)
  moreover have "uint fs = int (unat fs)" by simp
  ultimately show ?thesis by (simp only: frame_result_def if_False if_True simp_thms)
qed

definition isl_header_of :: "FRAME_PARAM \<Rightarrow> u16 \<Rightarrow> ISLHEADER" where
  "isl_header_of fp data_size =
     (let h = (initialISLHeader fp)\<lparr>isl_DFL := data_size * 8\<rparr>
      in h\<lparr>isl_CRC32 := crc32_lookup_table (ISLHEADER_body h)\<rparr>)"

lemma package_ISLHeader_ok:
  assumes "data_size \<le> mx" "unat mx \<le> 7264"
  shows "package_ISLHeader (initialISLHeader fp) (of_nat ISLHEADER_SIZE + mx) data_size = (0, isl_header_of fp data_size)"
    "isl_padding (of_nat ISLHEADER_SIZE + mx) (isl_header_of fp data_size) = mx - data_size"
proof -
  have k: "ISLHEADER_SIZE \<le> 11" by (simp add: header_size_defs)
  note r = frame_size_room [OF assms k]
  show "package_ISLHeader (initialISLHeader fp) (of_nat ISLHEADER_SIZE + mx) data_size = (0, isl_header_of fp data_size)"
    using r(1) by (simp only: package_ISLHeader_def isl_header_of_def if_True Let_def)
  have "isl_DFL (isl_header_of fp data_size) = data_size * 8" by (simp add: isl_header_of_def Let_def)
  then show "isl_padding (of_nat ISLHEADER_SIZE + mx) (isl_header_of fp data_size) = mx - data_size"
    using r(3,4) by (simp only: isl_padding_def)
qed

text \<open>A group whose GSE packets have \<open>data_size\<close> bytes altogether.\<close>

definition group_fills :: "mem \<Rightarrow> GSE_GROUP \<Rightarrow> u16 \<Rightarrow> bool" where
  "group_fills m g data_size \<longleftrightarrow> frame_gses_ok g \<and> s_gse_num g \<noteq> 0
     \<and> length (group_wire m g) = unat data_size"

lemma fill_sum: "data_size \<le> mx \<Longrightarrow> unat data_size + unat (mx - data_size :: u16) = unat mx"
  by (simp add: unat_sub_le word_le_nat_alt)

lemma encapsulate_bb_frame_ok:
  assumes g: "group_fills m g data_size" and sz: "data_size \<le> mx" "unat mx \<le> 7264"
    and mac: "length (local_mac c) = 6"
  shows "\<exists>fp' inner tx. encapsulate_bb_frame m True c h0 g mx data_size modcod fp
     = Inr (0, fp', Some (inner @ tx @ BBHEADER_bytes (bb_header_of fp data_size) @ group_wire m g
                          @ replicate (unat (mx - data_size)) 0), group_freed g)
     \<and> length inner = L2L1_MSG_HEADER_SIZE \<and> length tx = L2L1_HEADER_SIZE
     \<and> take 2 (drop 10 tx) = le16 (bswap16 (of_nat BBHEADER_SIZE + mx))
     \<and> take 2 (drop 12 inner) = le16 (bswap16 0x9101) \<and> inner ! 17 = port_to_pkt_type c
     \<and> initialBBHeader fp' = initialBBHeader fp"
proof -
  let ?fs = "of_nat BBHEADER_SIZE + mx :: u16" and ?pad = "mx - data_size"
  have k: "BBHEADER_SIZE \<le> 11" by (simp add: header_size_defs)
  note r = frame_size_room [OF sz k] and p = package_BBHeader_ok [OF sz, of fp]
  obtain tx where tx: "package_L2L1_Header ?fs modcod = Inr tx" "length (TX_FWD_DATA_bytes tx) = L2L1_HEADER_SIZE"
    "tx_KBCH_Length tx = bswap16 ?fs"
    using package_L2L1_Header_ok by blast
  let ?ih = "encode_inner_header (mac_frame_header_size c) (port_to_pkt_type c) (local_mac c) h0 ?fs"
  let ?hdr = "BBHEADER_bytes (bb_header_of fp data_size)"
  have in24: "length (L2L1_MSG_HEADER_bytes ?ih) = L2L1_MSG_HEADER_SIZE" by (rule length_inner_header [OF mac])
  have fills: "frame_gses_ok g" "length (group_wire m g) = unat data_size" using g by (auto simp: group_fills_def)
  let ?frame = "L2L1_MSG_HEADER_bytes ?ih @ TX_FWD_DATA_bytes tx @ ?hdr @ group_wire m g @ replicate (unat ?pad) 0"
  have "length ?frame = 24 + 32 + 10 + unat mx"
    using in24 tx(2) fills(2) fill_sum [OF sz(1)] by (simp add: header_size_defs)
  then have room: "length ?frame \<le> FIFO_ITEM_SIZE" using sz(2) by (simp add: FIFO_ITEM_SIZE_def)
  have "length ?hdr + length (group_wire m g) + unat ?pad = unat ?fs"
    using fills(2) fill_sum [OF sz(1)] r(2) by simp
  then have w: "write_codeblock m True (Some (L2L1_MSG_HEADER_bytes ?ih)) (Some (TX_FWD_DATA_bytes tx)) ?hdr (Some g) ?pad
      = Inr (of_nat (unat ?fs), Some ?frame, group_freed g)"
    using write_codeblock_layout [OF fills(1) in24 _ room, of "Some (TX_FWD_DATA_bytes tx)" ?hdr m ?pad] tx(2)
    by (simp del: of_nat_unat)
  have "frame_result (of_nat (unat ?fs)) ?fs = 0" using r(2) by (intro frame_result_ok) (simp add: header_size_defs)
  moreover have "take 2 (drop 10 (TX_FWD_DATA_bytes tx)) = le16 (bswap16 ?fs)"
    by (simp add: TX_FWD_DATA_bytes_def tx(3) drop_Cons' le16_def)
  ultimately show ?thesis
    using in24 tx(2) inner_header_type [OF mac]
    by (intro exI [of _ "fp\<lparr>fp_frame_count := fp_frame_count fp + 1, L2L1_header := tx\<rparr>"]
        exI [of _ "L2L1_MSG_HEADER_bytes ?ih"] exI [of _ "TX_FWD_DATA_bytes tx"])
      (simp add: encapsulate_bb_frame_def p tx(1) w Let_def del: of_nat_unat)
qed

lemma encapsulate_isl_frame_ok:
  fixes fp :: FRAME_PARAM
  assumes g: "group_fills m g data_size" and sz: "data_size \<le> mx" "unat mx \<le> 7264"
    and mac: "length (local_mac c) = 6"
  defines "h \<equiv> isl_header_of fp data_size"
  shows "\<exists>fp' inner. encapsulate_isl_frame m True c h0 g mx data_size fp
     = Inr (0, fp', Some (inner @ ISLHEADER_bytes (h\<lparr>isl_DFL := bswap16 (isl_DFL h)\<rparr>) @ group_wire m g
                          @ replicate (unat (mx - data_size)) 0), group_freed g)
     \<and> length inner = L2L1_MSG_HEADER_SIZE"
proof -
  let ?fs = "of_nat ISLHEADER_SIZE + mx :: u16" and ?pad = "mx - data_size"
  have k: "ISLHEADER_SIZE \<le> 11" by (simp add: header_size_defs)
  note r = frame_size_room [OF sz k] and p = package_ISLHeader_ok [OF sz, of fp]
  let ?ih = "encode_inner_header (mac_frame_header_size c) (port_to_pkt_type c) (local_mac c) h0 ?fs"
  let ?hdr = "ISLHEADER_bytes (h\<lparr>isl_DFL := bswap16 (isl_DFL h)\<rparr>)"
  have in24: "length (L2L1_MSG_HEADER_bytes ?ih) = L2L1_MSG_HEADER_SIZE" by (rule length_inner_header [OF mac])
  have fills: "frame_gses_ok g" "length (group_wire m g) = unat data_size" using g by (auto simp: group_fills_def)
  let ?frame = "L2L1_MSG_HEADER_bytes ?ih @ ?hdr @ group_wire m g @ replicate (unat ?pad) 0"
  have "length ?frame = 24 + 11 + unat mx"
    using in24 fills(2) fill_sum [OF sz(1)] by (simp add: header_size_defs)
  then have room: "length ?frame \<le> FIFO_ITEM_SIZE" using sz(2) by (simp add: FIFO_ITEM_SIZE_def)
  have "length ?hdr + length (group_wire m g) + unat ?pad = unat ?fs"
    using fills(2) fill_sum [OF sz(1)] r(2) by simp
  then have w: "write_codeblock m True (Some (L2L1_MSG_HEADER_bytes ?ih)) None ?hdr (Some g) ?pad
      = Inr (of_nat (unat ?fs), Some ?frame, group_freed g)"
    using write_codeblock_layout [OF fills(1) in24 _ room, of None ?hdr m ?pad] by (simp del: of_nat_unat)
  have "frame_result (of_nat (unat ?fs)) ?fs = 0" using r(2) by (intro frame_result_ok) (simp add: header_size_defs)
  then show ?thesis
    using in24 by (simp add: encapsulate_isl_frame_def p [folded h_def] w Let_def del: of_nat_unat)
qed

section \<open>The bytes of a single PDU or fragment\<close>

lemma build_one_gse_ok:
  assumes "single_group n lt opt g" "fits_gse g" "stack_ok field stack" "opt_wf opt"
    and sz: "\<forall>j \<in> {0..<opt_header_num opt}. 2 \<le> unat (opt_header_size opt ! nat j) \<and> unat (opt_header_size opt ! nat j) \<le> 22"
  shows "\<exists>e. build_one_gse field stack g = Inr e \<and> gse_ok e \<and> e_opt e = opt \<and> e_man e = zero_man
     \<and> e_pdu_num e = 1 \<and> e_one_PDU e ! 0 = node_to_one_pdu n zero_one_pdu
     \<and> e_fragment_flag e = n_fragment_flag n \<and> e_fragment_type e = n_fragment_type n
     \<and> e_crc32 e = bswap32 (n_crc32 n)
     \<and> unat (e_GSE_header_size e) = 2 + length (group_var_header g)
     \<and> take (unat (e_GSE_header_size e)) (e_GSE_header e)
       = le16 (bswap16 (fixed_header_bits (group_fixed_header g))) @ group_var_header g"
proof -
  have g: "group_ok g" "g_pdu_num g = 1" "g_opt g = opt" "g_man g = zero_man"
    "g_one_PDU g ! 0 = node_to_one_pdu n zero_one_pdu" "g_fragment_flag g = n_fragment_flag n"
    "g_fragment_type g = n_fragment_type n" "g_crc32 g = n_crc32 n"
    using assms(1) by (simp_all add: single_group_def)
  obtain e where e: "build_one_gse field stack g = Inr e"
     "unat (e_GSE_header_size e) = 2 + length (group_var_header g)" "length (e_GSE_header e) = 13"
     "take (unat (e_GSE_header_size e)) (e_GSE_header e)
       = le16 (bswap16 (fixed_header_bits (group_fixed_header g))) @ group_var_header g"
     "take 1 (e_one_PDU e) = take 1 (g_one_PDU g)" "length (e_one_PDU e) = PDU_MAX_NUM"
     "e_pdu_num e = 1" "e_fragment_flag e = n_fragment_flag n" "e_fragment_type e = n_fragment_type n"
     "e_crc32 e = bswap32 (n_crc32 n)" "e_man e = zero_man" "e_opt e = opt"
    using build_one_gse_fits [OF g(1) assms(3,2)] g by (auto simp: zero_man_def)
  have "e_one_PDU e ! 0 = take 1 (e_one_PDU e) ! 0" by simp
  also have "\<dots> = take 1 (g_one_PDU g) ! 0" by (simp only: e(5))
  finally have p0: "e_one_PDU e ! 0 = node_to_one_pdu n zero_one_pdu" using g(5) by simp
  have "length (group_var_header g) \<le> 11" by (rule group_var_header_le [OF g(1)])
  then have "gse_ok e"
    using e sz assms(4) by (simp add: gse_ok_def zero_man_def [THEN arg_cong, of man_header_num] PDU_MAX_NUM_def)
  then show ?thesis using e p0 by blast
qed

lemma pdu_wire_single:
  assumes "e_one_PDU e ! 0 = node_to_one_pdu n zero_one_pdu" "e_pdu_num e = 1"
  shows "concat (map (pdu_wire m e) [0..uint (e_pdu_num e) - 1])
     = load_bytes m (n_pPDU_start n) (unat (n_pdu_size n))
       @ (if e_fragment_flag e \<noteq> 0 \<and> e_fragment_type e = FRAGMENT_TYPE_E then le32 (e_crc32 e) else [])"
  using assms by (simp add: pdu_wire_def node_to_one_pdu_def unat_ucast_up Let_def)

lemma gse_freed_single:
  assumes "e_one_PDU e ! 0 = node_to_one_pdu n zero_one_pdu" "e_pdu_num e = 1"
  shows "gse_freed e = (if e_fragment_flag e = 0 \<or> e_fragment_type e = FRAGMENT_TYPE_E
     then [n_mbuf_address n] else [])"
  using assms by (simp add: gse_freed_def pdu_freed_def node_to_one_pdu_def)

lemma frag_opt_sizes:
  "\<forall>j \<in> {0..<opt_header_num (frag_opt ts pt)}. 2 \<le> unat (opt_header_size (frag_opt ts pt) ! nat j)
     \<and> unat (opt_header_size (frag_opt ts pt) ! nat j) \<le> 22"
proof
  fix j assume "j \<in> {0..<opt_header_num (frag_opt ts pt)}"
  then have "j = 0" by (simp add: frag_opt_def)
  then show "2 \<le> unat (opt_header_size (frag_opt ts pt) ! nat j)
     \<and> unat (opt_header_size (frag_opt ts pt) ! nat j) \<le> 22" by (simp add: frag_opt_def)
qed

lemma opt_wire_frag:
  "concat (map (opt_wire (frag_opt ts pt)) [0..opt_header_num (frag_opt ts pt) - 1])
   = le16 (bswap16 ts) @ le16 (bswap16 pt)"
  by (simp add: frag_opt_def opt_wire_def)

lemma man_wire_zero: "concat (map (man_wire zero_man) [0..man_header_num zero_man - 1]) = []"
  by (simp add: zero_man_def)

lemma opt_wire_zero: "concat (map (opt_wire zero_opt) [0..opt_header_num zero_opt - 1]) = []"
  by (simp add: zero_opt_def)

text \<open>The GSE packet of a whole PDU and of a fragment, whatever the locals of \<open>encapsulate_gse\<close> held.\<close>

definition whole_pdu_bytes :: "mem \<Rightarrow> u8 \<Rightarrow> EN_PDU_NODE \<Rightarrow> u8 list" where
  "whole_pdu_bytes m lt n =
     gse_wire_header 1 1 (ucast lt) (2 + length (label_bytes (ucast lt) (n_MAC_address n)) + unat (n_pdu_size n))
     @ le16 (bswap16 (n_protocoltype n)) @ label_bytes (ucast lt) (n_MAC_address n)
     @ load_bytes m (n_pPDU_start n) (unat (n_pdu_size n))"

lemma whole_gse_wire:
  assumes g: "single_group n lt zero_opt g" "n_fragment_flag n = 0" "lt < 4"
      "g_gse_total_length g = 2 + of_nat (length (group_var_header g)) + data_bytes g"
    and st: "stack_ok field stack" and sz: "unat (n_pdu_size n) \<le> 4087"
  shows "\<exists>e. build_one_gse field stack g = Inr e \<and> gse_ok e \<and> gse_freed e = [n_mbuf_address n]
    \<and> gse_wire m e = whole_pdu_bytes m lt n \<and> length (whole_pdu_bytes m lt n) = unat (g_gse_total_length g)"
proof -
  note h = single_whole_headers [OF g(1-3)]
  have ok: "group_ok g" and d: "data_bytes g = n_pdu_size n" using g(1,2) by (simp_all add: single_group_def)
  have "length (group_var_header g) \<le> 8" by (simp add: h(1) label_bytes_def min.coboundedI2)
  then have fits: "fits_gse g" using sz d by (simp add: fits_gse_def GSE_MAX_SIZE_def)
  have "\<forall>j \<in> {0..<opt_header_num zero_opt}. 2 \<le> unat (opt_header_size zero_opt ! nat j)
      \<and> unat (opt_header_size zero_opt ! nat j) \<le> 22" by (simp add: zero_opt_def)
  from build_one_gse_ok [OF g(1) fits st wf_zero(1) this] obtain e where
    e: "build_one_gse field stack g = Inr e" "e_opt e = zero_opt" "e_man e = zero_man" "e_pdu_num e = 1"
      "e_one_PDU e ! 0 = node_to_one_pdu n zero_one_pdu" "e_fragment_flag e = n_fragment_flag n"
      "take (unat (e_GSE_header_size e)) (e_GSE_header e)
       = le16 (bswap16 (fixed_header_bits (group_fixed_header g))) @ group_var_header g"
      "unat (e_GSE_header_size e) = 2 + length (group_var_header g)" "gse_ok e"
    by blast
  have w: "gse_wire m e = (le16 (bswap16 (fixed_header_bits (group_fixed_header g))) @ group_var_header g)
      @ load_bytes m (n_pPDU_start n) (unat (n_pdu_size n))"
    unfolding gse_wire_def pdu_wire_single [OF e(5,4)]
    by (simp add: e(1-7) opt_wire_zero man_wire_zero g(2))
  then have "length (gse_wire m e) = 2 + length (group_var_header g) + unat (n_pdu_size n)" by simp
  moreover have "unat (g_gse_total_length g) = 2 + length (group_var_header g) + unat (n_pdu_size n)"
    using single_group_total [OF ok fits e(1) st g(4)] e(8) d by simp
  moreover have "gse_wire m e = whole_pdu_bytes m lt n" using w h by (simp add: whole_pdu_bytes_def)
  moreover have "gse_freed e = [n_mbuf_address n]" using gse_freed_single [OF e(5,4)] e(6) g(2) by simp
  ultimately show ?thesis using e(1,9) by (intro exI [of _ e]) simp
qed

definition frag_var_header :: "u8 \<Rightarrow> EN_PDU_NODE \<Rightarrow> u8 list" where
  "frag_var_header lt n = [n_fragment_ID n]
     @ (if n_fragment_type n = FRAGMENT_TYPE_S
        then le16 (bswap16 (6 + of_nat (length (label_bytes (ucast lt) (n_MAC_address n))) + n_pdu_total_length n)) else [])
     @ le16 (bswap16 FRAG_SEQUENCE) @ label_bytes (ucast lt) (n_MAC_address n)"

definition fragment_data :: "mem \<Rightarrow> EN_PDU_NODE \<Rightarrow> u8 list" where
  "fragment_data m n = load_bytes m (n_pPDU_start n) (unat (n_pdu_size n))
     @ (if n_fragment_type n = FRAGMENT_TYPE_E then le32 (bswap32 (n_crc32 n)) else [])"

definition fragment_bytes :: "mem \<Rightarrow> u8 \<Rightarrow> u16 \<Rightarrow> EN_PDU_NODE \<Rightarrow> u8 list" where
  "fragment_bytes m lt ts n =
     gse_wire_header (fst (frag_indicators (n_fragment_type n))) (snd (frag_indicators (n_fragment_type n)))
       (ucast lt) (length (frag_var_header lt n) + 4 + length (fragment_data m n))
     @ frag_var_header lt n @ le16 (bswap16 ts) @ le16 (bswap16 (n_protocoltype n)) @ fragment_data m n"

lemma fragment_gse_wire:
  assumes g: "single_group n lt (frag_opt ts (n_protocoltype n)) g" "n_fragment_flag n = 1" "lt < 4"
      "g_gse_total_length g = 2 + of_nat (length (group_var_header g)) + data_bytes g"
    and st: "stack_ok field stack" and sz: "unat (n_pdu_size n) + (if n_fragment_type n = FRAGMENT_TYPE_E then 4 else 0) \<le> 4080"
  shows "\<exists>e. build_one_gse field stack g = Inr e \<and> gse_ok e
    \<and> gse_freed e = (if n_fragment_type n = FRAGMENT_TYPE_E then [n_mbuf_address n] else [])
    \<and> gse_wire m e = fragment_bytes m lt ts n \<and> length (fragment_bytes m lt ts n) = unat (g_gse_total_length g)"
proof -
  let ?o = "frag_opt ts (n_protocoltype n)"
  note h = single_fragment_headers [OF g(1-3)]
  have ok: "group_ok g" and d: "data_bytes g = node_data_bytes n" using g(1) by (simp_all add: single_group_def)
  have nd: "unat (node_data_bytes n) = 4 + length (fragment_data m n)"
    using sz g(2) by (auto simp: node_data_bytes_def fragment_data_def unat_add_lt split: if_splits)
  have fits: "fits_gse g"
    using sz nd d group_var_header_le [OF ok]
    by (auto simp: fits_gse_def GSE_MAX_SIZE_def fragment_data_def split: if_splits)
  from build_one_gse_ok [OF g(1) fits st wf_frag_opt frag_opt_sizes] obtain e where
    e: "build_one_gse field stack g = Inr e" "e_opt e = ?o" "e_man e = zero_man" "e_pdu_num e = 1"
      "e_one_PDU e ! 0 = node_to_one_pdu n zero_one_pdu" "e_fragment_flag e = 1"
      "e_fragment_type e = n_fragment_type n" "e_crc32 e = bswap32 (n_crc32 n)" "gse_ok e"
      "take (unat (e_GSE_header_size e)) (e_GSE_header e)
       = le16 (bswap16 (fixed_header_bits (group_fixed_header g))) @ group_var_header g"
      "unat (e_GSE_header_size e) = 2 + length (group_var_header g)"
    using g(2) by auto
  have v: "group_var_header g = frag_var_header lt n" using h(1) by (simp add: frag_var_header_def)
  have w: "gse_wire m e = fragment_bytes m lt ts n"
    unfolding gse_wire_def pdu_wire_single [OF e(5,4)] e(10) h(2) v nd
    by (simp add: e(2-8) opt_wire_frag man_wire_zero fragment_bytes_def fragment_data_def add.assoc)
  have "length (fragment_bytes m lt ts n) = 2 + length (frag_var_header lt n) + 4 + length (fragment_data m n)"
    by (simp add: fragment_bytes_def gse_wire_header_def)
  then have "length (fragment_bytes m lt ts n) = unat (g_gse_total_length g)"
    using single_group_total [OF ok fits e(1) st g(4)] e(11) d nd v by simp
  then show ?thesis using e(1,9) w gse_freed_single [OF e(5,4)] e(6,7) by (intro exI [of _ e]) simp
qed

section \<open>Properties\<close>

text \<open>C20: what \<open>write_codeblock\<close> copies for a whole PDU is its GSE header followed by the PDU, exactly
  as many bytes as \<open>update_pdu_group\<close> charged to the frame.\<close>

theorem whole_pdu_on_the_wire:
  assumes "node_ok n" "n_fragment_flag n = 0" "lt < 4" "stack_ok field stack" "unat (n_pdu_size n) \<le> 4087"
  shows "\<exists>g e. update_pdu_group n zero_pdu_group lt ls mid st = Inr (g, st)
    \<and> build_one_gse field stack g = Inr e
    \<and> writes (write_gse m e) (gse_wire m e) [n_mbuf_address n]
    \<and> gse_wire m e
      = gse_wire_header 1 1 (ucast lt)
          (2 + length (label_bytes (ucast lt) (n_MAC_address n)) + unat (n_pdu_size n))
        @ le16 (bswap16 (n_protocoltype n)) @ label_bytes (ucast lt) (n_MAC_address n)
        @ load_bytes m (n_pPDU_start n) (unat (n_pdu_size n))
    \<and> length (gse_wire m e) = unat (g_gse_total_length g)"
proof -
  obtain g where g: "update_pdu_group n zero_pdu_group lt ls mid st = Inr (g, st)"
    "single_group n lt zero_opt g"
    "g_gse_total_length g = 2 + of_nat (length (group_var_header g)) + data_bytes g"
    using update_pdu_group_whole [OF assms(1-3)] by blast
  from whole_gse_wire [OF g(2) assms(2,3) g(3) assms(4,5)] obtain e where
    "build_one_gse field stack g = Inr e" "gse_ok e" "gse_freed e = [n_mbuf_address n]"
    "gse_wire m e = whole_pdu_bytes m lt n" "length (whole_pdu_bytes m lt n) = unat (g_gse_total_length g)" by blast
  with g(1) writes_gse [of e m] show ?thesis
    by (intro exI [of _ g] exI [of _ e]) (simp add: whole_pdu_bytes_def)
qed

theorem whole_pdu_on_the_wire_witness:
  "\<exists>g e. update_pdu_group sample_node zero_pdu_group 2 0 0 sample_statics = Inr (g, sample_statics)
    \<and> build_one_gse (replicate 11 0xAA) sample_stack g = Inr e
    \<and> writes (write_gse sample_mem e) (gse_wire sample_mem e) [NULL]
    \<and> gse_wire sample_mem e = [0xE5, 0xDE, 8, 0] @ load_bytes sample_mem NULL 1500"
proof -
  have "gse_wire_header 1 1 (ucast (2 :: u8))
          (2 + length (label_bytes (ucast (2 :: u8)) (n_MAC_address sample_node)) + unat (n_pdu_size sample_node))
        @ le16 (bswap16 (n_protocoltype sample_node)) @ label_bytes (ucast (2 :: u8)) (n_MAC_address sample_node)
      = [0xE5, 0xDE, 8, 0]"
    by code_simp
  moreover have "n_fragment_flag sample_node = 0" "unat (n_pdu_size sample_node) = 1500"
    "n_mbuf_address sample_node = NULL" "n_pPDU_start sample_node = NULL"
    by (simp_all add: sample_node_def zero_pdu_node_def)
  ultimately show ?thesis
    using whole_pdu_on_the_wire [OF sample_ok(1) _ _ sample_ok(2), of 2 0 0 sample_statics sample_mem]
    by (simp flip: append_assoc) blast
qed

text \<open>C21: what \<open>write_codeblock\<close> copies for a fragment is its GSE header, the time stamp and the
  protocol type of the sequence header, the bytes of the fragment and, after the last fragment, the
  CRC-32 in network order.\<close>

theorem fragment_on_the_wire:
  assumes "node_ok n" "n_fragment_flag n = 1" "lt < 4" "stack_ok field stack"
    "unat (node_data_bytes n) \<le> 4084" "frag_time_seq n mid st = Inr (ts, st')"
  shows "\<exists>g e. update_pdu_group n zero_pdu_group lt ls mid st = Inr (g, st')
    \<and> build_one_gse field stack g = Inr e
    \<and> writes (write_gse m e) (take (unat (e_GSE_header_size e)) (e_GSE_header e)
        @ le16 (bswap16 ts) @ le16 (bswap16 (n_protocoltype n))
        @ load_bytes m (n_pPDU_start n) (unat (n_pdu_size n))
        @ (if n_fragment_type n = FRAGMENT_TYPE_E then le32 (bswap32 (n_crc32 n)) else []))
        (if n_fragment_type n = FRAGMENT_TYPE_E then [n_mbuf_address n] else [])"
proof -
  let ?o = "frag_opt ts (n_protocoltype n)"
  obtain g where g: "update_pdu_group n zero_pdu_group lt ls mid st = Inr (g, st')" "single_group n lt ?o g"
    using update_pdu_group_fragment [OF assms(1-3,6)] by blast
  have ok: "group_ok g" and d: "data_bytes g = node_data_bytes n" using g(2) by (simp_all add: single_group_def)
  have fits: "fits_gse g"
    using assms(5) d group_var_header_le [OF ok] by (simp add: fits_gse_def GSE_MAX_SIZE_def)
  from build_one_gse_ok [OF g(2) fits assms(4) wf_frag_opt frag_opt_sizes] obtain e where
    e: "build_one_gse field stack g = Inr e" "e_opt e = ?o" "e_man e = zero_man" "e_pdu_num e = 1"
      "e_one_PDU e ! 0 = node_to_one_pdu n zero_one_pdu" "e_fragment_flag e = 1"
      "e_fragment_type e = n_fragment_type n" "e_crc32 e = bswap32 (n_crc32 n)" "gse_ok e"
    using assms(2) by auto
  have fr: "gse_freed e = (if n_fragment_type n = FRAGMENT_TYPE_E then [n_mbuf_address n] else [])"
    using gse_freed_single [OF e(5,4)] e(6,7) by simp
  have "gse_wire m e = take (unat (e_GSE_header_size e)) (e_GSE_header e)
      @ le16 (bswap16 ts) @ le16 (bswap16 (n_protocoltype n))
      @ load_bytes m (n_pPDU_start n) (unat (n_pdu_size n))
      @ (if n_fragment_type n = FRAGMENT_TYPE_E then le32 (bswap32 (n_crc32 n)) else [])"
    unfolding gse_wire_def pdu_wire_single [OF e(5,4)]
    by (simp add: e opt_wire_frag man_wire_zero)
  then show ?thesis using g(1) e(1) writes_gse [OF e(9), of m] fr by (intro exI [of _ g] exI [of _ e]) simp
qed

theorem fragment_on_the_wire_witness:
  "\<exists>ts g e st'. update_pdu_group (sample_node\<lparr>n_fragment_flag := 1, n_pdu_size := 1000\<rparr>) zero_pdu_group 2 0 0
        sample_statics = Inr (g, st')
    \<and> build_one_gse (replicate 11 0xAA) sample_stack g = Inr e
    \<and> writes (write_gse sample_mem e) (take (unat (e_GSE_header_size e)) (e_GSE_header e)
        @ le16 (bswap16 ts) @ le16 (bswap16 0x0800) @ load_bytes sample_mem NULL 1000) []"
proof -
  let ?n = "sample_node\<lparr>n_fragment_flag := 1, n_pdu_size := 1000\<rparr>"
  have m0: "unat (0 :: u16) < MAX_DEVICE_NUM" by (simp add: MAX_DEVICE_NUM_def)
  obtain ts st' where "frag_time_seq ?n 0 sample_statics = Inr (ts, st')"
    using frag_time_seq_step [OF sample_ok(3) m0, of ?n] by blast
  moreover have "node_ok ?n" "unat (node_data_bytes ?n) = 1004"
    by (simp_all add: node_ok_def node_data_bytes_def sample_node_def zero_pdu_node_def fragment_type_defs)
  moreover have "n_fragment_type ?n \<noteq> FRAGMENT_TYPE_E" "n_protocoltype ?n = 0x0800" "n_pPDU_start ?n = NULL"
    by (simp_all add: sample_node_def zero_pdu_node_def fragment_type_defs)
  ultimately show ?thesis
    using fragment_on_the_wire [OF _ _ _ sample_ok(2), of ?n 2 0 sample_statics ts st' 0 sample_mem] by auto
qed

text \<open>C19: a group of GSE packets with \<open>data_size\<close> bytes becomes a frame of the full size: the two
  layer headers, the BBHEADER, the packets in their order and zero padding up to the payload of the
  frame; the buffer is never exceeded and the frame is reported as complete.\<close>

theorem bb_frame_layout:
  assumes "group_fills m g data_size" "data_size \<le> mx" "unat mx \<le> 7264" "length (local_mac c) = 6"
    "is_bb_type (port_to_pkt_type c)"
  shows "\<exists>fp' inner tx frame. encapsulate_frame m True c h0 g mx data_size modcod (Some fp)
      = Inr (0, Some fp', Some frame, group_freed g)
    \<and> frame = inner @ tx @ BBHEADER_bytes (bb_header_of fp data_size) @ group_wire m g
              @ replicate (unat (mx - data_size)) 0
    \<and> length inner = L2L1_MSG_HEADER_SIZE \<and> length tx = L2L1_HEADER_SIZE
    \<and> length frame = 66 + unat mx"
proof -
  have "port_to_pkt_type c \<noteq> ISL_PACK" using assms(5) by (auto simp: is_bb_type_def ISL_PACK_def BBFRAME_PACK_def ENUM_FWD_Tx_FWD_Data_def)
  moreover obtain fp' inner tx where r: "encapsulate_bb_frame m True c h0 g mx data_size modcod fp
     = Inr (0, fp', Some (inner @ tx @ BBHEADER_bytes (bb_header_of fp data_size) @ group_wire m g
                          @ replicate (unat (mx - data_size)) 0), group_freed g)"
    "length inner = L2L1_MSG_HEADER_SIZE" "length tx = L2L1_HEADER_SIZE"
    using encapsulate_bb_frame_ok [OF assms(1-4), of h0 modcod fp] by blast
  let ?frame = "inner @ tx @ BBHEADER_bytes (bb_header_of fp data_size) @ group_wire m g
              @ replicate (unat (mx - data_size)) 0"
  have "length ?frame = 66 + unat mx"
    using r(2,3) assms(1) fill_sum [OF assms(2)] by (simp add: group_fills_def header_size_defs)
  ultimately show ?thesis
    using r assms(1,5)
    by (intro exI [of _ fp'] exI [of _ inner] exI [of _ tx] exI [of _ ?frame])
      (simp add: encapsulate_frame_def group_fills_def)
qed

definition tiny_gse :: ONE_GSE where
  "tiny_gse = sample_stack\<lparr>e_GSE_header := [0xE0, 2, 8, 0, 0, 0, 0, 0, 0, 0, 0, 0, 0], e_GSE_header_size := 4\<rparr>"

definition tiny_group :: GSE_GROUP where
  "tiny_group = \<lparr>s_modcod = 28, s_frame_create_time = 0, s_priority_group = 0, s_total_length = 4,
     s_gse_num = 1, s_pOneGSE = [tiny_gse]\<rparr>"

lemma tiny_group_fills: "group_fills m tiny_group 4"
  by (simp add: group_fills_def frame_gses_ok_def group_gses_def tiny_group_def gse_ok_def tiny_gse_def
      sample_stack_def group_wire_def gse_wire_def zero_opt_def zero_man_def opt_wf_def man_wf_def PDU_MAX_NUM_def)

definition sample_port :: "u8 \<Rightarrow> PORT_CONF" where
  "sample_port ty = \<lparr>port_to_pkt_type = ty, local_mac = [0, 1, 2, 3, 4, 5], mac_frame_header_size = 16\<rparr>"

theorem bb_frame_layout_witness:
  "\<forall>h0 fp. \<exists>fp' frame. encapsulate_frame sample_mem True (sample_port 6) h0 tiny_group 100 4 28 (Some fp)
      = Inr (0, Some fp', Some frame, group_freed tiny_group) \<and> length frame = 166"
proof (intro allI)
  fix h0 fp
  have "is_bb_type (port_to_pkt_type (sample_port 6))" "length (local_mac (sample_port 6)) = 6"
    by (simp_all add: sample_port_def is_bb_type_def ENUM_FWD_Tx_FWD_Data_def)
  with bb_frame_layout [OF tiny_group_fills, of 100 "sample_port 6" sample_mem h0 28 fp]
  obtain fp' frame where "encapsulate_frame sample_mem True (sample_port 6) h0 tiny_group 100 4 28 (Some fp)
      = Inr (0, Some fp', Some frame, group_freed tiny_group)" "length frame = 66 + unat (100 :: u16)"
    by auto
  then show "\<exists>fp' frame. encapsulate_frame sample_mem True (sample_port 6) h0 tiny_group 100 4 28 (Some fp)
      = Inr (0, Some fp', Some frame, group_freed tiny_group) \<and> length frame = 166"
    by (intro exI [of _ fp'] exI [of _ frame]) simp
qed

end
