(* ===== verification/DecapHeader.thy ===== *)
theory DecapHeader
  imports EncapFrame
begin

text \<open>
  Reading headers (\<open>src/decapsulate.c\<close>, \<open>identify_gs\<close> to \<open>filter_address\<close>, and
  \<open>decapsulate_gse_header\<close> to \<open>regular_ext_header_type\<close>): the checks of the frame headers, the fixed
  and the variable header of a GSE packet, the extension headers and the address filter.  A packet
  is the list of bytes from the pointer \<open>pGSE\<close> to the end of the mbuf; reading behind it is a fault.
  The target is little-endian (\<open>little_endian = 1\<close>).
\<close>

section \<open>The fixed and the variable header\<close>

record GSE_VARIABLE_HEADER_VALUE =
  v_fragment_ID :: u8
  v_total_length :: u16
  v_protocol_type :: u16
  v_label :: "u8 list"

record GSE_VARIABLE_HEADER =
  variable_header_size :: GSE_VARIABLE_HEADER_SIZE
  variable_header_value :: GSE_VARIABLE_HEADER_VALUE

definition received_header_size :: "GSE_FIXED_HEADER \<Rightarrow> GSE_VARIABLE_HEADER_SIZE" where
  "received_header_size h =
     \<lparr>fragment_ID_size = (if Start_Indicator h = 1 then if End_Indicator h = 1 then 0 else 1 else 1),
      total_length_size = (if Start_Indicator h = 1 then if End_Indicator h = 1 then 0 else 2 else 0),
      protocol_type_size = 2,
      label_size = (if ucast (Label_Type h) = LABEL_TYPE_6B then 6
                    else if ucast (Label_Type h) = LABEL_TYPE_REUSE then 0
                    else if ucast (Label_Type h) = LABEL_TYPE_BROADCAST then 0
                    else if ucast (Label_Type h) = LABEL_TYPE_3B then 3 else 0)\<rparr>"

text \<open>
  \<open>junk\<close> is the uninitialised local \<open>var_header_value\<close>; its fields stay where the header has none
  (the total length is swapped in any case).  The result is the offset behind the header, the
  protocol type and both headers.
\<close>

definition decapsulate_gse_header ::
    "u8 list \<Rightarrow> GSE_VARIABLE_HEADER_VALUE
     \<Rightarrow> (int \<times> u16 \<times> GSE_FIXED_HEADER \<times> GSE_VARIABLE_HEADER) outcome" where
  "decapsulate_gse_header gse junk =
     bind_ok (load16 gse 0) (\<lambda>w.
     let fixed = bits_fixed_header (bswap16 w);
         v = received_header_size fixed;
         off1 = 2 in
     bind_ok (if fragment_ID_size v = 1 then load_at gse off1 else Inr (v_fragment_ID junk)) (\<lambda>ID.
     let off2 = off1 + (if fragment_ID_size v = 1 then 1 else 0) in
     bind_ok (if total_length_size v = 2 then load16 gse off2 else Inr (v_total_length junk)) (\<lambda>total.
     let off3 = off2 + (if total_length_size v = 2 then 2 else 0) in
     bind_ok (if protocol_type_size v = 2 then load16 gse off3 else Inr (v_protocol_type junk)) (\<lambda>ptype.
     let off4 = off3 + (if protocol_type_size v = 2 then 2 else 0) in
     bind_ok (get_bytes gse off4 (unat (label_size v))) (\<lambda>lab.
     bind_ok (put_bytes (v_label junk) 0 lab) (\<lambda>label'.
     let off5 = off4 + unat (label_size v) in
       Inr (int off5, bswap16 ptype, fixed,
            \<lparr>variable_header_size = v,
             variable_header_value = \<lparr>v_fragment_ID = ID, v_total_length = bswap16 total,
                v_protocol_type = bswap16 ptype, v_label = label'\<rparr>\<rparr>)))))))"

definition decapsulate_gse_header_p ::
    "u8 list option \<Rightarrow> GSE_VARIABLE_HEADER_VALUE
     \<Rightarrow> (int \<times> (u16 \<times> GSE_FIXED_HEADER \<times> GSE_VARIABLE_HEADER) option) outcome" where
  "decapsulate_gse_header_p pGSE junk = (case pGSE of
     None \<Rightarrow> Inr (POINT_ERROR, None)
   | Some gse \<Rightarrow> bind_ok (decapsulate_gse_header gse junk) (\<lambda>(off, r). Inr (off, Some r)))"

definition start_end_indicator :: "GSE_FIXED_HEADER \<Rightarrow> u8" where
  "start_end_indicator h = push_bit 1 (ucast (Start_Indicator h)) + ucast (End_Indicator h)"

definition WHOLE_PDU :: u8 where "WHOLE_PDU = 3"
definition FRAG_START :: u8 where "FRAG_START = 2"
definition FRAG_MIDDLE :: u8 where "FRAG_MIDDLE = 0"
definition FRAG_END :: u8 where "FRAG_END = 1"

lemmas frag_position_defs = WHOLE_PDU_def FRAG_START_def FRAG_MIDDLE_def FRAG_END_def

section \<open>Extension headers\<close>

definition MANDATORY_EXT_HEADER :: u8 where "MANDATORY_EXT_HEADER = 0"
definition OPTIONAL_EXT_HEADER :: u8 where "OPTIONAL_EXT_HEADER = 1"

definition get_pdu_concat_info :: "u8 list \<Rightarrow> (int \<times> u16) outcome" where
  "get_pdu_concat_info header = bind_ok (load16 header 0) (\<lambda>w. Inr (2, w))"

text \<open>The result is the size of the header (a 16-bit number) and \<open>*next_type\<close>.\<close>

definition get_extension_header_info :: "u8 list \<Rightarrow> u16 \<Rightarrow> u16 \<Rightarrow> (int \<times> u16) outcome" where
  "get_extension_header_info ext_header cur_header_type next_type =
     (let H_LEN = drop_bit 8 (cur_header_type AND 0xFF00);
          H_TYPE = cur_header_type AND 0x00FF in
      if H_LEN = 0
      then if H_TYPE = PDU_CONCAT then get_pdu_concat_info ext_header else Inr (0, next_type)
      else
        let header_data_size = 2 * (H_LEN - 1) in
        bind_ok (load16 ext_header (unat header_data_size)) (\<lambda>w.
          Inr (uint (header_data_size + 2), bswap16 w)))"

definition get_extension_header_type :: "u16 \<Rightarrow> u8" where
  "get_extension_header_type header_type =
     (let H_LEN = drop_bit 8 (header_type AND 0xFF00) in
      if H_LEN = 0 then MANDATORY_EXT_HEADER else OPTIONAL_EXT_HEADER)"

definition regular_ext_header_type :: "u16 \<Rightarrow> bool" where
  "regular_ext_header_type header_type \<longleftrightarrow>
     header_type = PDU_CONCAT \<or> header_type = TIME_STEMP \<or> header_type = FRAG_SEQUENCE"

section \<open>Frame headers\<close>

definition get_BBHeader :: "BBHEADER option \<Rightarrow> BBHEADER option \<Rightarrow> BBHEADER option" where
  "get_BBHeader pBBFrame pBBHeader =
     (case (pBBFrame, pBBHeader) of (Some f, Some _) \<Rightarrow> Some f | _ \<Rightarrow> pBBHeader)"

definition identify_gs :: "BBHEADER option \<Rightarrow> int" where
  "identify_gs p = (case p of
     None \<Rightarrow> -1
   | Some h \<Rightarrow>
       if mcs_get_crc8 (BBHEADER_body h) \<noteq> bb_CRC8 h then -1
       else if TS_GS h = 0 \<or> TS_GS h = 1 then 0 else -1)"

definition identify_isl :: "ISLHEADER option \<Rightarrow> int" where
  "identify_isl p = (case p of
     None \<Rightarrow> -1
   | Some h \<Rightarrow> if crc32_lookup_table (ISLHEADER_body h) \<noteq> isl_CRC32 h then -1 else 0)"

section \<open>The address filter\<close>

record PREVIOUS_MAC_INFO =
  pm_label_type :: u8
  pm_mac_length :: u8
  pm_mac_address :: "u8 list"

text \<open>\<open>None\<close> for \<open>ptr_previous_mac_info\<close> is the NULL pointer.\<close>

definition filter_address ::
    "GSE_FIXED_HEADER \<Rightarrow> GSE_VARIABLE_HEADER \<Rightarrow> u8 list \<Rightarrow> bool \<Rightarrow> PREVIOUS_MAC_INFO option
     \<Rightarrow> (int \<times> PREVIOUS_MAC_INFO option) outcome" where
  "filter_address fixed var local_air_mac bfirst_gse prev =
     (let lt = ucast (Label_Type fixed) :: u8;
          lab = v_label (variable_header_value var) in
      if bfirst_gse \<and> lt = LABEL_TYPE_REUSE then Inr (-1, prev)
      else case prev of
        None \<Rightarrow> Inr (POINT_ERROR, None)
      | Some p \<Rightarrow>
          if lt = LABEL_TYPE_BROADCAST then Inr (1, Some (p\<lparr>pm_label_type := lt\<rparr>))
          else if lt = LABEL_TYPE_6B \<or> lt = LABEL_TYPE_3B
          then let address_size = (if lt = LABEL_TYPE_6B then 6 else 3) in
            bind_ok (equal_mac lab local_air_mac address_size) (\<lambda>same.
            bind_ok (get_bytes lab 0 address_size) (\<lambda>bs.
            bind_ok (put_bytes (pm_mac_address p) 0 bs) (\<lambda>mac.
              Inr (uint same, Some (p\<lparr>pm_label_type := lt, pm_mac_length := of_nat address_size,
                                      pm_mac_address := mac\<rparr>)))))
          else if lt = LABEL_TYPE_REUSE
          then if pm_label_type p = LABEL_TYPE_BROADCAST then Inr (1, Some p)
               else bind_ok (equal_mac local_air_mac (pm_mac_address p) (unat (pm_mac_length p)))
                      (\<lambda>same. Inr (uint same, Some p))
          else Inr (1, Some p))"

section \<open>Reading back what was written\<close>

lemma bits_fixed_header_bits: "bits_fixed_header (fixed_header_bits h) = h"
proof -
  have "ucast (fixed_header_bits h) = GSE_Length h" "ucast (drop_bit 12 (fixed_header_bits h)) = Label_Type h"
    "ucast (drop_bit 14 (fixed_header_bits h)) = End_Indicator h"
    "ucast (drop_bit 15 (fixed_header_bits h)) = Start_Indicator h"
    by (rule bit_word_eqI; auto simp: fixed_header_bits_def bit_simps dest: bit_imp_le_length)+
  then show ?thesis by (simp add: bits_fixed_header_def)
qed

lemma load16_wire_header:
  "load16 (gse_wire_header S E lt len @ rest) 0
   = Inr (bswap16 (fixed_header_bits \<lparr>GSE_Length = of_nat len, Label_Type = lt, End_Indicator = E,
       Start_Indicator = S\<rparr>))"
  by (simp add: gse_wire_header_def)

text \<open>The label a packet of label type \<open>lt\<close> carries.\<close>

definition label_length :: "2 word \<Rightarrow> nat" where
  "label_length lt = (if lt = 0 then 6 else if lt = 1 then 3 else 0)"

lemma two_bit_cases: "lt = 0 \<or> lt = 1 \<or> lt = 2 \<or> lt = (3 :: 2 word)"
proof -
  have "unat lt < 4" using unsigned_less [of lt] by simp
  then have "unat lt = 0 \<or> unat lt = 1 \<or> unat lt = 2 \<or> unat lt = 3" by arith
  then show ?thesis by (auto simp: word_unat_eq_iff)
qed

lemma received_label_size:
  "unat (label_size (received_header_size h)) = label_length (Label_Type h)"
  using two_bit_cases [of "Label_Type h"]
  by (auto simp: received_header_size_def label_type_defs label_length_def)

lemma one_bit_cases: "b = 0 \<or> b = (1 :: 1 word)"
proof -
  have "unat b < 2" using unsigned_less [of b] by simp
  then have "unat b = 0 \<or> unat b = 1" by arith
  then show ?thesis by (auto simp: word_unat_eq_iff)
qed

definition wire_frag_fields :: "1 word \<Rightarrow> 1 word \<Rightarrow> u8 \<Rightarrow> u16 \<Rightarrow> u8 list" where
  "wire_frag_fields S E ID tot =
     (if S = 1 \<and> E = 1 then [] else [ID]) @ (if S = 1 \<and> E = 0 then le16 (bswap16 tot) else [])"

definition wire_gse_header ::
    "1 word \<Rightarrow> 1 word \<Rightarrow> 2 word \<Rightarrow> nat \<Rightarrow> u8 \<Rightarrow> u16 \<Rightarrow> u16 \<Rightarrow> u8 list \<Rightarrow> u8 list" where
  "wire_gse_header S E lt len ID tot ptype lab =
     gse_wire_header S E lt len @ wire_frag_fields S E ID tot @ le16 (bswap16 ptype) @ lab"

lemma length_wire_frag_fields:
  "length (wire_frag_fields S E ID tot) = (if S = 1 \<and> E = 1 then 0 else 1) + (if S = 1 \<and> E = 0 then 2 else 0)"
  by (simp add: wire_frag_fields_def)

lemma decapsulate_gse_header_reads:
  assumes lab: "length lab = label_length lt" and room: "length (v_label junk) = 6"
  shows "\<exists>var. decapsulate_gse_header (wire_gse_header S E lt len ID tot ptype lab @ rest) junk
     = Inr (int (length (wire_gse_header S E lt len ID tot ptype lab)), ptype,
         \<lparr>GSE_Length = of_nat len, Label_Type = lt, End_Indicator = E, Start_Indicator = S\<rparr>, var)
    \<and> variable_header_size var = received_header_size
         \<lparr>GSE_Length = of_nat len, Label_Type = lt, End_Indicator = E, Start_Indicator = S\<rparr>
    \<and> (\<not> (S = 1 \<and> E = 1) \<longrightarrow> v_fragment_ID (variable_header_value var) = ID)
    \<and> (S = 1 \<and> E = 0 \<longrightarrow> v_total_length (variable_header_value var) = tot)
    \<and> length (v_label (variable_header_value var)) = 6
    \<and> take (length lab) (v_label (variable_header_value var)) = lab"
proof -
  define h where "h = \<lparr>GSE_Length = of_nat len, Label_Type = lt, End_Indicator = E, Start_Indicator = S\<rparr>"
  define x where "x = bswap16 (fixed_header_bits h)"
  let ?f = "wire_frag_fields S E ID tot"
  have w: "bits_fixed_header (bswap16 x) = h" by (simp add: x_def bits_fixed_header_bits)
  have lsz: "unat (label_size (received_header_size h)) = length lab"
    using received_label_size [of h] lab by (simp add: h_def)
  have six: "length lab \<le> 6" using lab by (simp add: label_length_def)
  have sz: "fragment_ID_size (received_header_size h) = (if S = 1 \<and> E = 1 then 0 else 1)"
    "total_length_size (received_header_size h) = (if S = 1 \<and> E = 0 then 2 else 0)"
    "protocol_type_size (received_header_size h) = 2"
    using one_bit_cases [of E] by (auto simp: received_header_size_def h_def)
  have p: "load16 (le16 x @ ?f @ le16 (bswap16 ptype) @ lab @ rest) (2 + length ?f) = Inr (bswap16 ptype)"
    using load16_at [of "le16 x @ ?f" "bswap16 ptype" "lab @ rest"] by simp
  have l: "get_bytes (le16 x @ ?f @ le16 (bswap16 ptype) @ lab @ rest) (2 + length ?f + 2) (length lab) = Inr lab"
    by simp
  have pl: "put_bytes (v_label junk) 0 lab = Inr (lab @ drop (length lab) (v_label junk))"
    using room six by simp
  have t: "load16 (le16 x @ ID # le16 (bswap16 tot) @ le16 (bswap16 ptype) @ lab @ rest) 3 = Inr (bswap16 tot)"
    using load16_at [of "le16 x @ [ID]" "bswap16 tot" "le16 (bswap16 ptype) @ lab @ rest"] by (simp add: numeral_eq_Suc)
  have i: "load_at (le16 x @ ID # xs) 2 = Inr ID" for xs by (simp add: load_at_def nth_append)
  have wire: "wire_gse_header S E lt len ID tot ptype lab = le16 x @ ?f @ le16 (bswap16 ptype) @ lab"
    by (simp add: wire_gse_header_def gse_wire_header_def x_def h_def)
  note d = decapsulate_gse_header_def wire append_assoc load16_0 bind_ok.simps w Let_def sz lsz
  consider "S = 1" "E = 1" | "S = 1" "E = 0" | "S = 0"
    using one_bit_cases [of S] one_bit_cases [of E] by blast
  then have "\<exists>var. decapsulate_gse_header (wire_gse_header S E lt len ID tot ptype lab @ rest) junk
     = Inr (int (length (wire_gse_header S E lt len ID tot ptype lab)), ptype, h, var)
    \<and> variable_header_size var = received_header_size h
    \<and> (\<not> (S = 1 \<and> E = 1) \<longrightarrow> v_fragment_ID (variable_header_value var) = ID)
    \<and> (S = 1 \<and> E = 0 \<longrightarrow> v_total_length (variable_header_value var) = tot)
    \<and> length (v_label (variable_header_value var)) = 6
    \<and> take (length lab) (v_label (variable_header_value var)) = lab"
  proof cases
    case 1
    show ?thesis using p l pl room six unfolding d by (simp add: 1 wire_frag_fields_def eval_nat_numeral)
  next
    case 2
    show ?thesis using p l pl room six t i unfolding d by (simp add: 2 wire_frag_fields_def eval_nat_numeral)
  next
    case 3
    show ?thesis using p l pl room six i unfolding d by (simp add: 3 wire_frag_fields_def eval_nat_numeral)
  qed
  then show ?thesis by (simp only: h_def)
qed

lemma frag_sequence_header_reads:
  "get_extension_header_info (le16 (bswap16 ts) @ le16 (bswap16 ptype) @ rest) FRAG_SEQUENCE nx = Inr (4, ptype)"
  "get_extension_header_type FRAG_SEQUENCE = OPTIONAL_EXT_HEADER" "regular_ext_header_type FRAG_SEQUENCE"
proof -
  have "load16 (le16 (bswap16 ts) @ le16 (bswap16 ptype) @ rest) 2 = Inr (bswap16 ptype)"
    using load16_at [of "le16 (bswap16 ts)" "bswap16 ptype" rest] by simp
  moreover have "drop_bit 8 (FRAG_SEQUENCE AND 0xFF00) = (2 :: u16)" "(2 :: u16) * (2 - 1) = 2"
    by (simp_all add: FRAG_SEQUENCE_def)
  ultimately show "get_extension_header_info (le16 (bswap16 ts) @ le16 (bswap16 ptype) @ rest) FRAG_SEQUENCE nx
      = Inr (4, ptype)"
    by (simp add: get_extension_header_info_def)
qed (simp_all add: get_extension_header_type_def FRAG_SEQUENCE_def OPTIONAL_EXT_HEADER_def
    regular_ext_header_type_def)

section \<open>What the address filter accepts\<close>

text \<open>
  The filter of \<open>decapsulate_gse\<close> over the packets of a frame: \<open>bfirst_gse\<close> is cleared by the first
  packet that passes.
\<close>

primrec filter_all ::
    "u8 list \<Rightarrow> (GSE_FIXED_HEADER \<times> GSE_VARIABLE_HEADER) list \<Rightarrow> bool \<Rightarrow> PREVIOUS_MAC_INFO
     \<Rightarrow> (bool list \<times> PREVIOUS_MAC_INFO) outcome" where
  "filter_all mac [] bfirst p = Inr ([], p)"
| "filter_all mac (h # hs) bfirst p =
     bind_ok (filter_address (fst h) (snd h) mac bfirst (Some p)) (\<lambda>(r, p').
     bind_ok (filter_all mac hs (if r = 1 then False else bfirst) (case p' of Some q \<Rightarrow> q | None \<Rightarrow> p)) (\<lambda>(rs, q).
       Inr ((r = 1) # rs, q)))"

text \<open>The specification: a packet that re-uses the label has the label of its predecessor.\<close>

datatype gse_label = Broadcast | Mac "u8 list"

definition effective_label ::
    "gse_label option \<Rightarrow> GSE_FIXED_HEADER \<times> GSE_VARIABLE_HEADER \<Rightarrow> gse_label option" where
  "effective_label cur h =
     (let lt = Label_Type (fst h) in
      if lt = 3 then cur else if lt = 2 then Some Broadcast
      else Some (Mac (take (label_length lt) (v_label (variable_header_value (snd h))))))"

definition label_for_us :: "u8 list \<Rightarrow> gse_label option \<Rightarrow> bool" where
  "label_for_us mac cur = (case cur of None \<Rightarrow> False | Some Broadcast \<Rightarrow> True
     | Some (Mac l) \<Rightarrow> take (length l) mac = l)"

primrec accepted :: "u8 list \<Rightarrow> gse_label option \<Rightarrow> (GSE_FIXED_HEADER \<times> GSE_VARIABLE_HEADER) list \<Rightarrow> bool list" where
  "accepted mac cur [] = []"
| "accepted mac cur (h # hs) =
     label_for_us mac (effective_label cur h) # accepted mac (effective_label cur h) hs"

definition mac_info_rel :: "gse_label option \<Rightarrow> PREVIOUS_MAC_INFO \<Rightarrow> bool" where
  "mac_info_rel cur p \<longleftrightarrow> length (pm_mac_address p) = 6 \<and> (case cur of
     None \<Rightarrow> True
   | Some Broadcast \<Rightarrow> pm_label_type p = LABEL_TYPE_BROADCAST
   | Some (Mac l) \<Rightarrow> pm_label_type p \<noteq> LABEL_TYPE_BROADCAST \<and> unat (pm_mac_length p) = length l
       \<and> length l \<le> 6 \<and> take (length l) (pm_mac_address p) = l)"

definition first_rel :: "u8 list \<Rightarrow> gse_label option \<Rightarrow> bool \<Rightarrow> bool" where
  "first_rel mac cur bfirst \<longleftrightarrow> (if bfirst then \<not> label_for_us mac cur else cur \<noteq> None)"

lemma filter_address_step:
  assumes "length mac = 6" "length (v_label (variable_header_value (snd h))) = 6"
    "mac_info_rel cur p" "first_rel mac cur bfirst"
  shows "\<exists>r p'. filter_address (fst h) (snd h) mac bfirst (Some p) = Inr (r, Some p')
    \<and> (r = 1 \<longleftrightarrow> label_for_us mac (effective_label cur h)) \<and> mac_info_rel (effective_label cur h) p'
    \<and> first_rel mac (effective_label cur h) (if r = 1 then False else bfirst)"
proof -
  let ?lt = "Label_Type (fst h)" and ?lab = "v_label (variable_header_value (snd h))"
  have own: "\<exists>r p'. filter_address (fst h) (snd h) mac bfirst (Some p) = Inr (r, Some p')
      \<and> (r = 1 \<longleftrightarrow> label_for_us mac (effective_label cur h)) \<and> mac_info_rel (effective_label cur h) p'
      \<and> first_rel mac (effective_label cur h) (if r = 1 then False else bfirst)"
    if lt: "?lt = 0 \<or> ?lt = 1"
  proof -
    define k where "k = label_length ?lt"
    have k: "k \<le> 6" "unat (of_nat k :: u8) = k" "k = (if (ucast ?lt :: u8) = LABEL_TYPE_6B then 6 else 3)"
      "(ucast ?lt :: u8) = LABEL_TYPE_6B \<or> (ucast ?lt :: u8) = LABEL_TYPE_3B"
      "(ucast ?lt :: u8) \<noteq> LABEL_TYPE_REUSE" "(ucast ?lt :: u8) \<noteq> LABEL_TYPE_BROADCAST"
      using lt by (auto simp: k_def label_length_def label_type_defs unat_of_nat_lt)
    have eff: "effective_label cur h = Some (Mac (take k ?lab))"
      using lt by (auto simp: effective_label_def k_def)
    have us: "label_for_us mac (effective_label cur h) \<longleftrightarrow> take k ?lab = take k mac"
      using k(1) assms(2) by (auto simp: label_for_us_def eff min_absorb2)
    have pm: "length (pm_mac_address p) = 6" using assms(3) by (simp add: mac_info_rel_def)
    let ?p = "p\<lparr>pm_label_type := ucast ?lt, pm_mac_length := of_nat k,
        pm_mac_address := take k ?lab @ drop k (pm_mac_address p)\<rparr>"
    have run: "filter_address (fst h) (snd h) mac bfirst (Some p)
        = Inr (uint (if take k ?lab = take k mac then MAC_SAME else MAC_DIFFERENCE), Some ?p)"
      using k(1,4-6) assms(1,2) pm
      by (simp add: filter_address_def Let_def k(3) [symmetric] equal_mac_eq min_absorb2)
    have "mac_info_rel (effective_label cur h) ?p"
      using k assms(2) pm by (simp add: mac_info_rel_def eff min_absorb2)
    then show ?thesis
      using run us eff by (auto simp: first_rel_def MAC_SAME_def MAC_DIFFERENCE_def)
  qed
  consider "?lt = 0 \<or> ?lt = 1" | "?lt = 2" | "?lt = 3" using two_bit_cases [of ?lt] by blast
  then show ?thesis
  proof cases
    case 1 then show ?thesis by (rule own)
  next
    case 2
    then show ?thesis
      using assms(3) by (auto simp: filter_address_def label_type_defs effective_label_def label_for_us_def
          mac_info_rel_def first_rel_def)
  next
    case 3
    have eff: "effective_label cur h = cur" using 3 by (simp add: effective_label_def)
    have lt: "(ucast ?lt :: u8) = LABEL_TYPE_REUSE" "LABEL_TYPE_REUSE \<noteq> LABEL_TYPE_BROADCAST"
      "LABEL_TYPE_REUSE \<noteq> LABEL_TYPE_6B" "LABEL_TYPE_REUSE \<noteq> LABEL_TYPE_3B"
      using 3 by (simp_all add: label_type_defs)
    show ?thesis
    proof (cases bfirst)
      case True
      then show ?thesis using assms(3,4) lt eff by (simp add: filter_address_def first_rel_def)
    next
      case False
      then obtain l where l: "cur = Some l" using assms(4) by (auto simp: first_rel_def)
      show ?thesis
      proof (cases l)
        case Broadcast
        then show ?thesis using False l assms(3) lt eff
          by (auto simp: filter_address_def mac_info_rel_def label_for_us_def first_rel_def)
      next
        case (Mac m)
        then have "equal_mac mac (pm_mac_address p) (unat (pm_mac_length p))
            = Inr (if take (length m) mac = m then MAC_SAME else MAC_DIFFERENCE)"
          using l assms(1,3) by (simp add: mac_info_rel_def equal_mac_eq)
        then show ?thesis using Mac False l assms(3) lt eff
          by (auto simp: filter_address_def mac_info_rel_def label_for_us_def first_rel_def
              MAC_SAME_def MAC_DIFFERENCE_def)
      qed
    qed
  qed
qed

lemma filter_all_accepted:
  assumes "length mac = 6" "\<forall>h \<in> set hs. length (v_label (variable_header_value (snd h))) = 6"
    "mac_info_rel cur p" "first_rel mac cur bfirst"
  shows "\<exists>q. filter_all mac hs bfirst p = Inr (accepted mac cur hs, q)"
  using assms
proof (induction hs arbitrary: cur p bfirst)
  case (Cons h hs)
  have six: "length (v_label (variable_header_value (snd h))) = 6" using Cons.prems(2) by simp
  obtain r p' where s: "filter_address (fst h) (snd h) mac bfirst (Some p) = Inr (r, Some p')"
    "r = 1 \<longleftrightarrow> label_for_us mac (effective_label cur h)" "mac_info_rel (effective_label cur h) p'"
    "first_rel mac (effective_label cur h) (if r = 1 then False else bfirst)"
    using filter_address_step [OF Cons.prems(1) six Cons.prems(3,4)] by blast
  obtain q where "filter_all mac hs (if r = 1 then False else bfirst) p' = Inr (accepted mac (effective_label cur h) hs, q)"
    using Cons.IH [OF Cons.prems(1) _ s(3,4)] Cons.prems(2) by auto
  then show ?case using s(1,2) by simp
qed simp

lemma header_byte_crc:
  assumes "mcs_get_crc8 (BBHEADER_body h) = bb_CRC8 h" "BBHEADER_bytes h = xs @ a # ys" "BBHEADER_bytes h' = xs @ b # ys" "a \<noteq> b"
  shows "identify_gs (Some h') = -1"
proof -
  have "mcs_get_crc8 (BBHEADER_body h') \<noteq> bb_CRC8 h'"
  proof (cases ys rule: rev_cases)
    case Nil
    then show ?thesis using assms by (simp add: BBHEADER_bytes_def)
  next
    case (snoc zs c)
    then have "BBHEADER_body h = xs @ a # zs" "BBHEADER_body h' = xs @ b # zs" "bb_CRC8 h' = bb_CRC8 h"
      using assms(2,3) by (simp_all add: BBHEADER_bytes_def flip: append_assoc append_Cons)
    then show ?thesis using assms(1) crc8_byte_differs [OF assms(4), of xs zs] by simp
  qed
  then show ?thesis by (simp add: identify_gs_def)
qed

lemma header_byte_rejected:
  assumes "identify_gs (Some h) = 0" "BBHEADER_bytes h = xs @ a # ys" "BBHEADER_bytes h' = xs @ b # ys" "a \<noteq> b"
  shows "identify_gs (Some h') = -1"
  using assms(1) by (intro header_byte_crc [OF _ assms(2-4)]) (auto simp: identify_gs_def split: if_splits)

text \<open>The headers the sender builds.\<close>

lemma package_BBHeader_crc:
  assumes "package_BBHeader init sz data_size = (0, h)"
  shows "mcs_get_crc8 (BBHEADER_body h) = bb_CRC8 h" "TS_GS h = TS_GS init" "bb_DFL h = bswap16 (data_size * 8)"
proof -
  have "BBHEADER_body (g\<lparr>bb_CRC8 := c\<rparr>) = BBHEADER_body g" for g c by (simp add: BBHEADER_body_def matype1_def)
  then show "mcs_get_crc8 (BBHEADER_body h) = bb_CRC8 h" "TS_GS h = TS_GS init" "bb_DFL h = bswap16 (data_size * 8)"
    using assms by (auto simp: package_BBHeader_def Let_def SIZE_ERROR_def split: if_splits)
qed

lemma package_ISLHeader_crc:
  assumes "package_ISLHeader init sz data_size = (0, h)"
  shows "crc32_lookup_table (ISLHEADER_body h) = isl_CRC32 h" "isl_DFL h = data_size * 8"
proof -
  have "ISLHEADER_body (g\<lparr>isl_CRC32 := c\<rparr>) = ISLHEADER_body g" for g c by (simp add: ISLHEADER_body_def)
  then show "crc32_lookup_table (ISLHEADER_body h) = isl_CRC32 h" "isl_DFL h = data_size * 8"
    using assms by (auto simp: package_ISLHeader_def Let_def SIZE_ERROR_def split: if_splits)
qed

text \<open>A burst may lie in the checked bytes, in the CRC-32, or in both: all accepted headers have the
  same remainder over all their bytes.\<close>

lemma identify_isl_residue:
  "crc32_lookup_table (ISLHEADER_body h) = isl_CRC32 h \<Longrightarrow>
   crc32_lookup_table (ISLHEADER_bytes h) = (refl_step (bit_rev poly_32 32) ^^ 32) 0xFFFFFFFF XOR 0xFFFFFFFF"
  using crc32_residue [of "ISLHEADER_body h"] by (simp add: ISLHEADER_bytes_def)

lemma isl_burst_rejected:
  assumes "crc32_lookup_table (ISLHEADER_body h) = isl_CRC32 h" "ISLHEADER_bytes h = xs @ v @ ys"
    "ISLHEADER_bytes h' = xs @ w @ ys" "length v = length w" "length w \<le> 4" "v \<noteq> w"
  shows "identify_isl (Some h') = -1"
proof -
  have "crc32_lookup_table (ISLHEADER_body h') \<noteq> isl_CRC32 h'"
    using identify_isl_residue [OF assms(1)] identify_isl_residue [of h'] crc32_burst_differs [OF assms(4-6), of xs ys]
    unfolding assms(2,3) by auto
  then show ?thesis by (simp add: identify_isl_def)
qed

section \<open>Properties\<close>

text \<open>C35: \<open>identify_gs\<close> accepts the header \<open>package_BBHeader\<close> builds exactly when its initial header is of one
  of the generic stream types, and rejects every header that differs from it in one byte, the CRC-8 included.\<close>

theorem identify_gs_detects_byte:
  assumes "package_BBHeader init bbframe_size data_size = (0, h)"
  shows "identify_gs (Some h) = (if TS_GS init \<in> {0, 1} then 0 else -1)
    \<and> (\<forall>h' xs a b ys. BBHEADER_bytes h = xs @ a # ys \<and> BBHEADER_bytes h' = xs @ b # ys \<and> a \<noteq> b
         \<longrightarrow> identify_gs (Some h') = -1)"
  using package_BBHeader_crc [OF assms] header_byte_crc [of h] by (auto simp: identify_gs_def)

definition plain_bbheader :: BBHEADER where
  "plain_bbheader = \<lparr>RO = 0, NPD = 0, ISSYI = 0, CCM_ACM = 0, SIS_MIS = 1, TS_GS = 1, Matype2 = 0, UPL = 0,
     bb_DFL = 0, SYNC = 0, SYNCD = 0, bb_CRC8 = 0\<rparr>"

theorem identify_gs_detects_byte_witness:
  "\<exists>h. package_BBHeader plain_bbheader 2001 1991 = (0, h) \<and> identify_gs (Some h) = 0
    \<and> identify_gs (Some (h\<lparr>Matype2 := 9\<rparr>)) = -1 \<and> identify_gs (Some (h\<lparr>bb_CRC8 := bb_CRC8 h + 1\<rparr>)) = -1"
proof -
  obtain h where h: "package_BBHeader plain_bbheader 2001 1991 = (0, h)"
    by (simp add: package_BBHeader_def Let_def BBHEADER_SIZE_def)
  then have m: "Matype2 h = 0"
    by (auto simp: package_BBHeader_def Let_def BBHEADER_SIZE_def plain_bbheader_def)
  note t = identify_gs_detects_byte [OF h]
  have m1: "matype1 (h\<lparr>Matype2 := 9\<rparr>) = matype1 h" "matype1 (h\<lparr>bb_CRC8 := bb_CRC8 h + 1\<rparr>) = matype1 h"
    by (simp_all add: matype1_def)
  let ?r = "le16 (UPL h) @ le16 (bb_DFL h) @ [SYNC h] @ le16 (SYNCD h)"
  have "BBHEADER_bytes h = [matype1 h] @ 0 # ?r @ [bb_CRC8 h]"
    "BBHEADER_bytes (h\<lparr>Matype2 := 9\<rparr>) = [matype1 h] @ 9 # ?r @ [bb_CRC8 h]"
    "BBHEADER_bytes h = BBHEADER_body h @ bb_CRC8 h # []"
    "BBHEADER_bytes (h\<lparr>bb_CRC8 := bb_CRC8 h + 1\<rparr>) = BBHEADER_body h @ (bb_CRC8 h + 1) # []"
    using m m1 by (simp_all add: BBHEADER_bytes_def BBHEADER_body_def)
  moreover have "(0 :: u8) \<noteq> 9" "bb_CRC8 h \<noteq> bb_CRC8 h + 1" by simp_all
  ultimately have "identify_gs (Some (h\<lparr>Matype2 := 9\<rparr>)) = -1" "identify_gs (Some (h\<lparr>bb_CRC8 := bb_CRC8 h + 1\<rparr>)) = -1"
    using t by blast+
  moreover have "identify_gs (Some h) = 0" using t by (simp add: plain_bbheader_def)
  ultimately show ?thesis using h by blast
qed

text \<open>C36: \<open>identify_isl\<close> accepts the header \<open>package_ISLHeader\<close> builds, and rejects every header that differs from
  it inside a window of at most four bytes, wherever the window lies: before the CRC-32, in it, or across
  its first byte.  The header is the one that is checked, with its length in host byte order: the sender swaps the length after
  the CRC-32 is computed, and the \<open>TAG_ROUTE\<close> variant, the only caller, swaps it back before the check.\<close>

theorem identify_isl_detects_burst:
  assumes "package_ISLHeader init islframe_size data_size = (0, h)"
  shows "identify_isl (Some h) = 0
    \<and> (\<forall>h' xs v w ys. ISLHEADER_bytes h = xs @ v @ ys \<and> ISLHEADER_bytes h' = xs @ w @ ys \<and> length v = length w
         \<and> length w \<le> 4 \<and> v \<noteq> w \<longrightarrow> identify_isl (Some h') = -1)"
  using package_ISLHeader_crc(1) [OF assms] isl_burst_rejected [of h] by (auto simp: identify_isl_def)

definition plain_islheader :: ISLHEADER where
  "plain_islheader = \<lparr>SYN = 0x47, isl_D = 0, isl_M = 0, isl_E = 0, isl_RE = 0, Link_Control = 0,
     Frame_Sequence = 0, isl_DFL = 0, isl_CRC32 = 0\<rparr>"

theorem identify_isl_detects_burst_witness:
  "\<exists>h. package_ISLHeader plain_islheader 2002 1991 = (0, h) \<and> identify_isl (Some h) = 0
    \<and> identify_isl (Some (h\<lparr>isl_DFL := isl_DFL h + 1, isl_CRC32 := isl_CRC32 h XOR 0x101\<rparr>)) = -1"
proof -
  obtain h where h: "package_ISLHeader plain_islheader 2002 1991 = (0, h)"
    by (simp add: package_ISLHeader_def Let_def ISLHEADER_SIZE_def)
  note t = identify_isl_detects_burst [OF h]
  let ?h = "h\<lparr>isl_DFL := isl_DFL h + 1, isl_CRC32 := isl_CRC32 h XOR 0x101\<rparr>"
  let ?p = "\<lambda>g. take 5 (ISLHEADER_body g)"
  let ?v = "\<lambda>g. le16 (isl_DFL g) @ [ucast (isl_CRC32 g), ucast (drop_bit 8 (isl_CRC32 g))]"
  let ?s = "\<lambda>g. [ucast (drop_bit 16 (isl_CRC32 g)), ucast (drop_bit 24 (isl_CRC32 g))] :: u8 list"
  have d: "drop_bit n (0x101 :: u32) = 0" if "n = 16 \<or> n = 24" for n using that by auto
  have s: "?s ?h = ?s h" "?p ?h = ?p h"
    by (auto simp: drop_bit_xor d ISLHEADER_body_def le16_def)
  have e: "ISLHEADER_bytes g = ?p g @ ?v g @ ?s g" for g
    by (simp add: ISLHEADER_bytes_def ISLHEADER_body_def le32_def le16_def)
  have "?v h \<noteq> ?v ?h"
  proof
    assume "?v h = ?v ?h"
    then have "le16 (isl_DFL h) = le16 (isl_DFL h + 1)" by (simp add: le16_def)
    then have "isl_DFL h = isl_DFL h + 1" by (metis load16_0 append_Nil2 sum.inject(2))
    then show False by simp
  qed
  moreover have "ISLHEADER_bytes ?h = ?p h @ ?v ?h @ ?s h" using e [of ?h] s by simp
  ultimately have c: "ISLHEADER_bytes h = ?p h @ ?v h @ ?s h \<and> ISLHEADER_bytes ?h = ?p h @ ?v ?h @ ?s h
      \<and> length (?v h) = length (?v ?h) \<and> length (?v ?h) \<le> 4 \<and> ?v h \<noteq> ?v ?h"
    using e [of h] by (intro conjI) simp_all
  have "identify_isl (Some ?h) = -1"
    by (rule conjunct2 [OF t, rule_format, where h' = ?h and xs = "?p h" and v = "?v h" and w = "?v ?h" and ys = "?s h"])
      (rule c)
  then show ?thesis using h t by blast
qed

text \<open>C14: over the packets of a frame the address filter passes exactly those whose effective label,
  the label of the packet or, for a re-used one, that of the packet before it, is the
  broadcast label or the local address; a re-used label at the start of a frame never passes,
  whatever the previous frame left behind.  A label re-used behind a broadcast packet passes like the broadcast
  one, although the comment on \<open>Label_Type\<close> in \<open>include/define_struct.h\<close> says that type 11 must not follow
  type 10 (a finding of the manifest).\<close>

theorem filter_accepts_effective_label:
  assumes "length mac = 6" "length (pm_mac_address p) = 6"
    "list_all (\<lambda>h. length (v_label (variable_header_value (snd h))) = 6) hs"
  shows "\<exists>q. filter_all mac hs True p = Inr (accepted mac None hs, q)"
  using assms by (intro filter_all_accepted)
    (simp_all add: list_all_iff mac_info_rel_def first_rel_def label_for_us_def)

definition sample_header :: "2 word \<Rightarrow> u8 list \<Rightarrow> GSE_FIXED_HEADER \<times> GSE_VARIABLE_HEADER" where
  "sample_header lt lab = (let f = \<lparr>GSE_Length = 100, Label_Type = lt, End_Indicator = 1, Start_Indicator = 1\<rparr> in
     (f, \<lparr>variable_header_size = received_header_size f,
       variable_header_value = \<lparr>v_fragment_ID = 0, v_total_length = 0, v_protocol_type = 0x0800, v_label = lab\<rparr>\<rparr>))"

theorem filter_accepts_effective_label_witness:
  "\<exists>q. filter_all [2, 0, 0, 0, 0, 1] [sample_header 3 [2, 0, 0, 0, 0, 1], sample_header 0 [2, 0, 0, 0, 0, 1],
      sample_header 3 [0, 0, 0, 0, 0, 0], sample_header 1 [9, 9, 9, 0, 0, 0], sample_header 3 [0, 0, 0, 0, 0, 0],
      sample_header 2 [0, 0, 0, 0, 0, 0]] True \<lparr>pm_label_type = 2, pm_mac_length = 6, pm_mac_address = [0, 0, 0, 0, 0, 0]\<rparr>
    = Inr ([False, True, True, False, False, True], q)"
  using filter_accepts_effective_label [of "[2, 0, 0, 0, 0, 1]" "\<lparr>pm_label_type = 2, pm_mac_length = 6, pm_mac_address = [0, 0, 0, 0, 0, 0]\<rparr>"
      "[sample_header 3 [2, 0, 0, 0, 0, 1], sample_header 0 [2, 0, 0, 0, 0, 1],
      sample_header 3 [0, 0, 0, 0, 0, 0], sample_header 1 [9, 9, 9, 0, 0, 0], sample_header 3 [0, 0, 0, 0, 0, 0],
      sample_header 2 [0, 0, 0, 0, 0, 0]]"]
  by (simp add: sample_header_def Let_def effective_label_def label_for_us_def label_length_def)

end
