(* ===== verification/Reassembly.thy ===== *)
theory Reassembly
  imports DecapHeader
begin

text \<open>
  Reassembly of fragmented PDUs (\<open>src/decapsulate.c\<close>): for every device and fragment ID there are two
  buffers \<open>FRAG_INFO\<close> and a list of their indices whose head is the buffer to be used next
  (\<open>frag_buffer_index_list\<close>; \<open>Get_Header_Data\<close>, \<open>Remove_Node_point\<close> and \<open>Push_List\<close> rotate it).
  An mbuf is the list of its data bytes, the bytes of its tail room and the fields of its private
  header; the pool, the ring and the clock are arguments (\<open>RX_ENV\<close>).  Statistics counters and log
  output are not modelled.
\<close>

section \<open>Mbufs and buffers\<close>

record MBUF =
  mb_data :: "u8 list"
  mb_tail :: "u8 list"
  mb_protocol_type :: u32
  mb_delay_time_mark_flag :: u8
  mb_inrouter_time :: u64

definition rte_pktmbuf_append :: "MBUF \<Rightarrow> nat \<Rightarrow> MBUF" where
  "rte_pktmbuf_append b n =
     (if n \<le> length (mb_tail b)
      then b\<lparr>mb_data := mb_data b @ take n (mb_tail b), mb_tail := drop n (mb_tail b)\<rparr> else b)"

text \<open>The pool's answer to \<open>rte_pktmbuf_alloc\<close>, the ring's answer to an enqueue, and the clock.\<close>

record RX_ENV =
  rx_alloc :: "MBUF option"
  rx_ring_ok :: bool
  rx_now :: u64

definition FRAG_MAX_NUM :: nat where "FRAG_MAX_NUM = 6"
definition FRAG_MAX_LENGTH :: nat where "FRAG_MAX_LENGTH = 1518"
definition FRAG_BUFFER_NUM :: nat where "FRAG_BUFFER_NUM = 2"
definition MAX_FRAG_ID :: nat where "MAX_FRAG_ID = 256"
definition IP_PACKET :: u16 where "IP_PACKET = 0"
definition CTRLMSG_FWD :: u16 where "CTRLMSG_FWD = 1"
definition CTRLMSG_RTN :: u16 where "CTRLMSG_RTN = 2"

text \<open>\<open>fi_ptr_pdu\<close> is the mbuf the PDU is assembled in (\<open>pdu_node.ptr_pdu\<close>), \<open>fi_pdu_length\<close> is
  \<open>pdu_node.pdu_length\<close>, and \<open>None\<close> in \<open>fi_data_addr\<close> is a NULL pointer.\<close>

record FRAG_INFO =
  fi_time_stamp :: u16
  fi_pdu_type :: u16
  fi_max_frag_seq :: u16
  fi_pdu_recv_len :: u16
  fi_frag_recv_num :: u16
  fi_recv_end :: u8
  fi_t0_us :: u64
  fi_t1_us :: u64
  fi_timeout_flag :: int
  fi_frag_len :: "u16 list"
  fi_data_addr :: "u8 list option list"
  fi_protocol_type :: u16
  fi_pdu_length :: u16
  fi_ptr_pdu :: "MBUF option"
  fi_crc :: u32

text \<open>\<open>chunk\<close> is the content of the memory \<open>malloc\<close> returns.\<close>

definition init_frag_entry :: "u8 list \<Rightarrow> FRAG_INFO \<Rightarrow> FRAG_INFO" where
  "init_frag_entry chunk fi = fi\<lparr>fi_max_frag_seq := 0, fi_pdu_recv_len := 0, fi_frag_recv_num := 0,
     fi_frag_len := replicate FRAG_MAX_NUM 0, fi_data_addr := replicate FRAG_MAX_NUM (Some chunk),
     fi_pdu_length := 0, fi_ptr_pdu := None, fi_recv_end := 0, fi_crc := 0\<rparr>"

definition reset_frag_info :: "FRAG_INFO \<Rightarrow> FRAG_INFO" where
  "reset_frag_info fi = fi\<lparr>fi_max_frag_seq := 0, fi_pdu_recv_len := 0, fi_frag_recv_num := 0,
     fi_frag_len := replicate FRAG_MAX_NUM 0, fi_recv_end := 0, fi_t0_us := 0, fi_t1_us := 0,
     fi_timeout_flag := 0, fi_ptr_pdu := None, fi_pdu_length := 0, fi_time_stamp := 0, fi_crc := 0\<rparr>"

record DECAP_STATE =
  ds_frag_info :: "FRAG_INFO list list list"
  ds_index_list :: "int list list list"
  ds_previous_mac :: PREVIOUS_MAC_INFO
  ds_encap_ring :: "MBUF list"
  ds_freed :: "MBUF list"

definition load_fi :: "DECAP_STATE \<Rightarrow> nat \<Rightarrow> nat \<Rightarrow> int \<Rightarrow> FRAG_INFO outcome" where
  "load_fi s port ID index =
     bind_ok (load_at (ds_frag_info s) port) (\<lambda>dev. bind_ok (load_at dev ID) (\<lambda>row. load_i row index))"

definition store_fi :: "DECAP_STATE \<Rightarrow> nat \<Rightarrow> nat \<Rightarrow> int \<Rightarrow> FRAG_INFO \<Rightarrow> DECAP_STATE outcome" where
  "store_fi s port ID index fi =
     bind_ok (load_at (ds_frag_info s) port) (\<lambda>dev.
     bind_ok (load_at dev ID) (\<lambda>row.
     bind_ok (store_i row index fi) (\<lambda>row'.
     bind_ok (store_at dev ID row') (\<lambda>dev'.
     bind_ok (store_at (ds_frag_info s) port dev') (\<lambda>all.
       Inr (s\<lparr>ds_frag_info := all\<rparr>))))))"

definition free_pdu :: "MBUF option \<Rightarrow> DECAP_STATE \<Rightarrow> DECAP_STATE" where
  "free_pdu p s = (case p of None \<Rightarrow> s | Some b \<Rightarrow> s\<lparr>ds_freed := ds_freed s @ [b]\<rparr>)"

text \<open>\<open>init_frag_info\<close> over all devices, IDs and buffers; \<open>init_decap_mem\<close> fills the index lists.\<close>

definition init_frag_info :: "u8 list \<Rightarrow> FRAG_INFO list list list \<Rightarrow> FRAG_INFO list list list" where
  "init_frag_info chunk = map (map (map (init_frag_entry chunk)))"

definition init_decap_mem :: "u8 list \<Rightarrow> DECAP_STATE \<Rightarrow> DECAP_STATE" where
  "init_decap_mem chunk s = s\<lparr>
     ds_index_list := replicate MAX_DEVICE_NUM (replicate MAX_FRAG_ID (map int [0..<FRAG_BUFFER_NUM])),
     ds_frag_info := init_frag_info chunk (ds_frag_info s)\<rparr>"

section \<open>The choice of the buffer\<close>

text \<open>The first buffer of the fragment ID with the time stamp, otherwise the head of the index list,
  which is moved to the end; \<open>-1\<close> when the list is empty.\<close>

primrec find_time_stamp :: "FRAG_INFO list \<Rightarrow> u16 \<Rightarrow> nat list \<Rightarrow> int outcome" where
  "find_time_stamp row ts [] = Inr (-1)"
| "find_time_stamp row ts (i # is) =
     bind_ok (load_at row i) (\<lambda>fi. if ts = fi_time_stamp fi then Inr (int i) else find_time_stamp row ts is)"

definition next_buffer :: "DECAP_STATE \<Rightarrow> nat \<Rightarrow> nat \<Rightarrow> (int \<times> DECAP_STATE) outcome" where
  "next_buffer s port ID =
     bind_ok (load_at (ds_index_list s) port) (\<lambda>dev.
     bind_ok (load_at dev ID) (\<lambda>l. case l of
       [] \<Rightarrow> Inr (-1, s)
     | k # ks \<Rightarrow>
         bind_ok (store_at dev ID (ks @ [k])) (\<lambda>dev'.
         bind_ok (store_at (ds_index_list s) port dev') (\<lambda>all. Inr (k, s\<lparr>ds_index_list := all\<rparr>)))))"

definition select_buffer :: "DECAP_STATE \<Rightarrow> nat \<Rightarrow> nat \<Rightarrow> u16 \<Rightarrow> (int \<times> DECAP_STATE) outcome" where
  "select_buffer s port ID time_stamp =
     bind_ok (load_at (ds_frag_info s) port) (\<lambda>dev.
     bind_ok (load_at dev ID) (\<lambda>row.
     bind_ok (find_time_stamp row time_stamp [0..<FRAG_BUFFER_NUM]) (\<lambda>index.
       if index < 0 then next_buffer s port ID else Inr (index, s))))"

section \<open>The first fragment\<close>

definition resolve_conflict :: "u16 \<Rightarrow> FRAG_INFO \<Rightarrow> FRAG_INFO \<times> MBUF option" where
  "resolve_conflict time_stamp fi =
     (if 0 < fi_frag_recv_num fi
      then if time_stamp \<noteq> fi_time_stamp fi then (reset_frag_info fi, fi_ptr_pdu fi)
           else if 0 < fi_frag_len fi ! 0
           then (let r = reset_frag_info fi in
                 (r\<lparr>fi_frag_recv_num := fi_frag_recv_num r - 1,
                    fi_pdu_recv_len := fi_pdu_recv_len r - fi_frag_len r ! 0\<rparr>, fi_ptr_pdu fi))
           else (fi, None)
      else (fi, None))"

definition store_fragment :: "nat \<Rightarrow> u8 list \<Rightarrow> u16 \<Rightarrow> FRAG_INFO \<Rightarrow> FRAG_INFO outcome" where
  "store_fragment seq datafield len fi =
     bind_ok (store_at (fi_frag_len fi) seq len) (\<lambda>lens.
     bind_ok (load_at (fi_data_addr fi) seq) (\<lambda>addr. case addr of
       None \<Rightarrow> Inl NullDeref
     | Some buf \<Rightarrow>
         bind_ok (get_bytes datafield 0 (unat len)) (\<lambda>bs.
         bind_ok (put_bytes buf 0 bs) (\<lambda>buf'.
         bind_ok (store_at (fi_data_addr fi) seq (Some buf')) (\<lambda>addrs.
           Inr (fi\<lparr>fi_frag_len := lens, fi_data_addr := addrs\<rparr>))))))"

definition pdu_type_of :: "u16 \<Rightarrow> u8 list \<Rightarrow> u16 \<Rightarrow> u16 outcome" where
  "pdu_type_of protocol_type datafield old =
     (if protocol_type = PROTOCOL_IPV4 \<or> protocol_type = PROTOCOL_IPV6 then Inr IP_PACKET
      else if protocol_type = PROTOCOL_CTRL
      then bind_ok (load_at datafield 1) (\<lambda>b. Inr (if b AND 0x40 = 0 then CTRLMSG_FWD else CTRLMSG_RTN))
      else Inr old)"

definition pdu_complete :: "FRAG_INFO \<Rightarrow> bool" where
  "pdu_complete fi \<longleftrightarrow> fi_recv_end fi = 1 \<and> uint (fi_frag_recv_num fi) = uint (fi_max_frag_seq fi) + 1"

definition mark_arrival :: "u64 \<Rightarrow> FRAG_INFO \<Rightarrow> FRAG_INFO" where
  "mark_arrival now fi = (if fi_frag_recv_num fi = 1 then fi\<lparr>fi_t0_us := now\<rparr> else fi)"

text \<open>\<open>None\<close> for \<open>ptr_datafield\<close> is the NULL pointer.  The result is the return value, \<open>*buffer_index\<close>
  and the new state.\<close>

definition start_reassemble_pdu ::
    "RX_ENV \<Rightarrow> u8 list option \<Rightarrow> GSE_VARIABLE_HEADER \<Rightarrow> u16 \<Rightarrow> u16 \<Rightarrow> u16 \<Rightarrow> u16 \<Rightarrow> int \<Rightarrow> nat
     \<Rightarrow> DECAP_STATE \<Rightarrow> (int \<times> int \<times> DECAP_STATE) outcome" where
  "start_reassemble_pdu env ptr_datafield var_header timestamp_seq header_length frag_len protocol_type
      buffer_index port_id s =
     (let ID = unat (v_fragment_ID (variable_header_value var_header));
          frag_seq = timestamp_seq AND 7; time_stamp = drop_bit 3 timestamp_seq in
      case ptr_datafield of
        None \<Rightarrow> Inr (POINT_ERROR, buffer_index, s)
      | Some datafield \<Rightarrow>
        if 0 < frag_seq then Inr (-1, buffer_index, s) else
        bind_ok (select_buffer s port_id ID time_stamp) (\<lambda>(index, s1).
        bind_ok (load_fi s1 port_id ID index) (\<lambda>fi0.
        let (fi1, freed) = resolve_conflict time_stamp fi0;
            s2 = free_pdu freed s1 in
        bind_ok (store_fragment (unat frag_seq) datafield frag_len
                   (fi1\<lparr>fi_max_frag_seq := max (fi_max_frag_seq fi1) frag_seq,
                        fi_pdu_recv_len := fi_pdu_recv_len fi1 + frag_len,
                        fi_frag_recv_num := fi_frag_recv_num fi1 + 1\<rparr>)) (\<lambda>fi2.
        bind_ok (pdu_type_of protocol_type datafield (fi_pdu_type fi2)) (\<lambda>pdu_type.
        let fi3 = fi2\<lparr>fi_pdu_length := v_total_length (variable_header_value var_header) - header_length,
                      fi_time_stamp := time_stamp, fi_protocol_type := protocol_type,
                      fi_pdu_type := pdu_type\<rparr> in
        case rx_alloc env of
          None \<Rightarrow> bind_ok (store_fi s2 port_id ID index fi3) (\<lambda>s3. Inr (-1, buffer_index, s3))
        | Some mbuf \<Rightarrow>
          let mbuf1 = mbuf\<lparr>mb_protocol_type := ucast protocol_type\<rparr> in
          if length (mb_tail mbuf1) < unat (fi_pdu_length fi3) + 4
          then bind_ok (store_fi s2 port_id ID index (reset_frag_info fi3)) (\<lambda>s3.
                 Inr (-1, buffer_index, free_pdu (Some mbuf1) s3))
          else
            let mbuf2 = rte_pktmbuf_append mbuf1 (unat (fi_pdu_length fi3));
                fi4 = fi3\<lparr>fi_ptr_pdu := Some mbuf2\<rparr> in
            if pdu_complete fi4
            then bind_ok (store_fi s2 port_id ID index fi4) (\<lambda>s3. Inr (1, index, s3))
            else bind_ok (store_fi s2 port_id ID index (mark_arrival (rx_now env) fi4)) (\<lambda>s3.
                   Inr (0, index, s3)))))))"

section \<open>The other fragments\<close>

definition drop_duplicate :: "nat \<Rightarrow> FRAG_INFO \<Rightarrow> FRAG_INFO outcome" where
  "drop_duplicate seq fi =
     bind_ok (load_at (fi_frag_len fi) seq) (\<lambda>len.
       Inr (if 0 < len \<and> 0 < fi_frag_recv_num fi
            then fi\<lparr>fi_frag_recv_num := fi_frag_recv_num fi - 1, fi_pdu_recv_len := fi_pdu_recv_len fi - len\<rparr>
            else fi))"

definition keep_reassemble_pdu ::
    "RX_ENV \<Rightarrow> u8 \<Rightarrow> u8 list option \<Rightarrow> u8 \<Rightarrow> u16 \<Rightarrow> u16 \<Rightarrow> int \<Rightarrow> nat \<Rightarrow> DECAP_STATE
     \<Rightarrow> (int \<times> int \<times> DECAP_STATE) outcome" where
  "keep_reassemble_pdu env pdu_frag_type ptr_datafield frag_ID timestamp_seq frag_len buffer_index port_id s =
     (let ID = unat frag_ID; frag_seq = timestamp_seq AND 7; time_stamp = drop_bit 3 timestamp_seq in
      case ptr_datafield of
        None \<Rightarrow> Inr (POINT_ERROR, buffer_index, s)
      | Some datafield \<Rightarrow>
        bind_ok (select_buffer s port_id ID time_stamp) (\<lambda>(index, s1).
        bind_ok (load_fi s1 port_id ID index) (\<lambda>fi0.
        bind_ok (drop_duplicate (unat frag_seq) fi0) (\<lambda>fi1.
        let fi2 = (if pdu_frag_type = FRAG_END
                   then fi1\<lparr>fi_pdu_recv_len := fi_pdu_recv_len fi1 + (frag_len - 4), fi_recv_end := 1\<rparr>
                   else fi1\<lparr>fi_pdu_recv_len := fi_pdu_recv_len fi1 + frag_len\<rparr>) in
        if 0 < fi_pdu_length fi2 \<and> fi_pdu_length fi2 < fi_pdu_recv_len fi2
        then bind_ok (store_fi (free_pdu (fi_ptr_pdu fi2) s1) port_id ID index (reset_frag_info fi2)) (\<lambda>s2.
               Inr (-1, buffer_index, s2))
        else
          bind_ok (store_fragment (unat frag_seq) datafield frag_len
                     (fi2\<lparr>fi_max_frag_seq := max (fi_max_frag_seq fi2) frag_seq,
                          fi_frag_recv_num := fi_frag_recv_num fi2 + 1\<rparr>)) (\<lambda>fi3.
          let fi4 = fi3\<lparr>fi_time_stamp := time_stamp\<rparr> in
          if pdu_complete fi4
          then bind_ok (store_fi s1 port_id ID index fi4) (\<lambda>s2. Inr (1, index, s2))
          else bind_ok (store_fi s1 port_id ID index (mark_arrival (rx_now env) fi4)) (\<lambda>s2.
                 Inr (0, index, s2)))))))"

section \<open>Delivery\<close>

text \<open>
  The copying loop of \<open>finish_reassemble_pdu\<close> over \<open>is\<close>: the state is the memory of the mbuf from
  \<open>data_start\<close> on, the offset and the CRC-32 read from the last fragment.  \<open>None\<close> is the early return
  for a fragment buffer that is missing.
\<close>

primrec collect_fragments ::
    "FRAG_INFO \<Rightarrow> nat list \<Rightarrow> u8 list \<Rightarrow> u32 \<Rightarrow> u32 \<Rightarrow> (u8 list \<times> u32 \<times> u32) option outcome" where
  "collect_fragments fi [] room offset crc = Inr (Some (room, offset, crc))"
| "collect_fragments fi (i # is) room offset crc =
     bind_ok (load_at (fi_data_addr fi) i) (\<lambda>addr. case addr of
       None \<Rightarrow> Inr None
     | Some buf \<Rightarrow>
         bind_ok (load_at (fi_frag_len fi) i) (\<lambda>len.
         if i < unat (fi_frag_recv_num fi) - 1
         then bind_ok (get_bytes buf 0 (unat len)) (\<lambda>bs.
              bind_ok (put_bytes room (unat offset) bs) (\<lambda>room'.
                collect_fragments fi is room' (offset + ucast len) crc))
         else if unat len < 4 then Inl OutOfBounds
         else bind_ok (get_bytes buf 0 (unat len - 4)) (\<lambda>bs.
              bind_ok (put_bytes room (unat offset) bs) (\<lambda>room'.
              bind_ok (load32 buf (unat len - 4)) (\<lambda>c.
                collect_fragments fi is room' (offset + (ucast len - 4)) (bswap32 c))))))"

text \<open>The result is the return value, the reset buffer, the mbuf put on the ring and the mbuf freed.\<close>

definition finish_reassemble_pdu ::
    "RX_ENV \<Rightarrow> FRAG_INFO \<Rightarrow> (int \<times> FRAG_INFO \<times> MBUF option \<times> MBUF option) outcome" where
  "finish_reassemble_pdu env fi = (case fi_ptr_pdu fi of
     None \<Rightarrow> Inr (POINT_ERROR, reset_frag_info fi, None, None)
   | Some mbuf \<Rightarrow>
     if length (mb_data mbuf) < unat (fi_pdu_recv_len fi)
     then Inr (SIZE_ERROR, reset_frag_info fi, None, Some mbuf)
     else if fi_pdu_type fi \<noteq> IP_PACKET \<and> fi_pdu_type fi \<noteq> CTRLMSG_FWD \<and> fi_pdu_type fi \<noteq> CTRLMSG_RTN
     then Inr (-1, reset_frag_info fi, None, Some mbuf)
     else
       bind_ok (collect_fragments fi [0..<unat (fi_frag_recv_num fi)] (mb_data mbuf @ mb_tail mbuf) 0 (fi_crc fi))
       (\<lambda>r. case r of
          None \<Rightarrow> Inr (POINT_ERROR, reset_frag_info fi, None, Some mbuf)
        | Some (room, offset, crc) \<Rightarrow>
            let mbuf' = mbuf\<lparr>mb_data := take (length (mb_data mbuf)) room,
                             mb_tail := drop (length (mb_data mbuf)) room\<rparr> in
            if uint offset = uint (fi_pdu_length fi)
            then if crc32_lookup_table (take (unat (fi_pdu_length fi)) room) \<noteq> crc
                 then Inr (-2, reset_frag_info fi, None, Some mbuf')
                 else if rx_ring_ok env then Inr (0, reset_frag_info fi, Some mbuf', None)
                 else Inr (0, reset_frag_info fi, None, Some mbuf')
            else Inr (-3, reset_frag_info fi, None, Some mbuf')))"

definition finish_reassemble_pdu_p ::
    "RX_ENV \<Rightarrow> FRAG_INFO option \<Rightarrow> (int \<times> FRAG_INFO option \<times> MBUF option \<times> MBUF option) outcome" where
  "finish_reassemble_pdu_p env p = (case p of
     None \<Rightarrow> Inr (POINT_ERROR, None, None, None)
   | Some fi \<Rightarrow> bind_ok (finish_reassemble_pdu env fi) (\<lambda>(r, fi', e, f). Inr (r, Some fi', e, f)))"

text \<open>The call on the buffer \<open>g_frag_info[port][ID][index]\<close>, with its effects on the state.\<close>

definition finish_at :: "RX_ENV \<Rightarrow> nat \<Rightarrow> nat \<Rightarrow> int \<Rightarrow> DECAP_STATE \<Rightarrow> (int \<times> DECAP_STATE) outcome" where
  "finish_at env port_id ID index s =
     bind_ok (load_fi s port_id ID index) (\<lambda>fi.
     bind_ok (finish_reassemble_pdu env fi) (\<lambda>(ret, fi', enq, freed).
     bind_ok (store_fi s port_id ID index fi') (\<lambda>s1.
       Inr (ret, free_pdu freed (s1\<lparr>ds_encap_ring := ds_encap_ring s1
                                      @ (case enq of None \<Rightarrow> [] | Some b \<Rightarrow> [b])\<rparr>)))))"

section \<open>Timeouts\<close>

text \<open>\<open>timeout_one\<close> is the body of the loop for one device and fragment ID; only the buffer at the
  head of the index list is looked at.\<close>

definition timeout_one :: "u64 \<Rightarrow> nat \<Rightarrow> nat \<Rightarrow> DECAP_STATE \<Rightarrow> DECAP_STATE outcome" where
  "timeout_one t_us i k s =
     bind_ok (load_at (ds_index_list s) i) (\<lambda>dev.
     bind_ok (load_at dev k) (\<lambda>l. case l of
       [] \<Rightarrow> Inr s
     | index # rest \<Rightarrow>
       bind_ok (load_fi s i k index) (\<lambda>fi.
       let flag = (if 0 < fi_t0_us fi then if 5 \<le> t_us - fi_t0_us fi then 1 else 0 else 0) in
       if flag \<noteq> 0
       then bind_ok (next_buffer s i k) (\<lambda>(_, s1).
            bind_ok (store_fi (free_pdu (fi_ptr_pdu fi) s1) i k index
                       ((reset_frag_info fi)\<lparr>fi_timeout_flag := 0\<rparr>)) Inr)
       else store_fi s i k index (fi\<lparr>fi_timeout_flag := flag\<rparr>))))"

definition fragment_timeout :: "u64 \<Rightarrow> DECAP_STATE \<Rightarrow> DECAP_STATE outcome" where
  "fragment_timeout t_us s =
     for_each [0..<MAX_DEVICE_NUM] (\<lambda>i. for_each [0..<MAX_FRAG_ID] (timeout_one t_us i)) s"

section \<open>One fragment of a PDU\<close>

text \<open>The cases \<open>FRAG_START\<close>, \<open>FRAG_MIDDLE\<close> and \<open>FRAG_END\<close> of \<open>decapsulate_gse\<close>; the first component is
  the value assigned to \<open>pdu_type\<close>, if any.\<close>

definition reassemble_fragment ::
    "RX_ENV \<Rightarrow> u8 \<Rightarrow> u8 list \<Rightarrow> GSE_VARIABLE_HEADER \<Rightarrow> u16 \<Rightarrow> u16 \<Rightarrow> u16 \<Rightarrow> u16 \<Rightarrow> int \<Rightarrow> nat
     \<Rightarrow> DECAP_STATE \<Rightarrow> (int option \<times> int \<times> DECAP_STATE) outcome" where
  "reassemble_fragment env pdu_frag_type datafield var timestamp_seq header_length frag_len next_type
      buffer_index queue_id s =
     bind_ok (if pdu_frag_type = FRAG_START
              then start_reassemble_pdu env (Some datafield) var timestamp_seq header_length frag_len next_type
                     buffer_index queue_id s
              else keep_reassemble_pdu env pdu_frag_type (Some datafield)
                     (v_fragment_ID (variable_header_value var)) timestamp_seq frag_len buffer_index queue_id s)
     (\<lambda>(func_ret, index, s1).
       if func_ret = 1
       then bind_ok (finish_at env queue_id (unat (v_fragment_ID (variable_header_value var))) index s1) (\<lambda>(r, s2).
              Inr (Some r, index, s2))
       else Inr (None, index, s1))"

section \<open>Access to the buffers\<close>

definition put_fi :: "DECAP_STATE \<Rightarrow> nat \<Rightarrow> nat \<Rightarrow> nat \<Rightarrow> FRAG_INFO \<Rightarrow> DECAP_STATE" where
  "put_fi s port ID k fi = s\<lparr>ds_frag_info :=
     (ds_frag_info s)[port := (ds_frag_info s ! port)[ID := (ds_frag_info s ! port ! ID)[k := fi]]]\<rparr>"

definition row_of :: "DECAP_STATE \<Rightarrow> nat \<Rightarrow> nat \<Rightarrow> FRAG_INFO list" where
  "row_of s port ID = ds_frag_info s ! port ! ID"

definition in_range :: "DECAP_STATE \<Rightarrow> nat \<Rightarrow> nat \<Rightarrow> bool" where
  "in_range s port ID \<longleftrightarrow> port < length (ds_frag_info s) \<and> ID < length (ds_frag_info s ! port)
     \<and> length (row_of s port ID) = FRAG_BUFFER_NUM
     \<and> port < length (ds_index_list s) \<and> ID < length (ds_index_list s ! port)"

lemma load_fi_ok:
  "in_range s port ID \<Longrightarrow> k < FRAG_BUFFER_NUM \<Longrightarrow> load_fi s port ID (int k) = Inr (row_of s port ID ! k)"
  by (simp add: load_fi_def in_range_def row_of_def)

lemma store_fi_ok:
  "in_range s port ID \<Longrightarrow> k < FRAG_BUFFER_NUM \<Longrightarrow> store_fi s port ID (int k) fi = Inr (put_fi s port ID k fi)"
  by (simp add: store_fi_def in_range_def row_of_def put_fi_def)

lemma row_of_put_fi:
  "in_range s port ID \<Longrightarrow> row_of (put_fi s port ID k fi) port ID = (row_of s port ID)[k := fi]"
  by (simp add: row_of_def put_fi_def in_range_def)

lemma in_range_put_fi: "in_range s port ID \<Longrightarrow> in_range (put_fi s port ID k fi) port ID"
  by (simp add: row_of_def put_fi_def in_range_def)

lemma put_fi_fields [simp]:
  "ds_index_list (put_fi s port ID k fi) = ds_index_list s" "ds_encap_ring (put_fi s port ID k fi) = ds_encap_ring s"
  "ds_freed (put_fi s port ID k fi) = ds_freed s" "ds_previous_mac (put_fi s port ID k fi) = ds_previous_mac s"
  by (simp_all add: put_fi_def)

lemma upt_2: "[0..<FRAG_BUFFER_NUM] = [0, 1]"
  by (simp add: FRAG_BUFFER_NUM_def upt_rec)

lemma find_time_stamp_ok:
  "length row = FRAG_BUFFER_NUM \<Longrightarrow> find_time_stamp row ts [0..<FRAG_BUFFER_NUM]
   = Inr (if fi_time_stamp (row ! 0) = ts then 0 else if fi_time_stamp (row ! 1) = ts then 1 else -1)"
  unfolding upt_2 by (simp add: FRAG_BUFFER_NUM_def)

lemma select_known_buffer:
  assumes "in_range s port ID" "k < FRAG_BUFFER_NUM" "fi_time_stamp (row_of s port ID ! k) = ts"
    "k = 1 \<Longrightarrow> fi_time_stamp (row_of s port ID ! 0) \<noteq> ts"
  shows "select_buffer s port ID ts = Inr (int k, s)"
proof -
  have "k = 0 \<or> k = 1" using assms(2) by (auto simp: FRAG_BUFFER_NUM_def)
  then show ?thesis
    using assms by (auto simp: select_buffer_def in_range_def find_time_stamp_ok row_of_def)
qed

text \<open>The index list of a fragment ID is rotated when a new PDU takes its head.\<close>

definition rotate_index :: "DECAP_STATE \<Rightarrow> nat \<Rightarrow> nat \<Rightarrow> DECAP_STATE" where
  "rotate_index s port ID = s\<lparr>ds_index_list := (ds_index_list s)[port := (ds_index_list s ! port)
     [ID := rotate1 (ds_index_list s ! port ! ID)]]\<rparr>"

lemma select_new_buffer:
  assumes "in_range s port ID" "fi_time_stamp (row_of s port ID ! 0) \<noteq> ts"
    "fi_time_stamp (row_of s port ID ! 1) \<noteq> ts" "ds_index_list s ! port ! ID = k # ks"
  shows "select_buffer s port ID ts = Inr (k, rotate_index s port ID)"
  using assms by (simp add: select_buffer_def in_range_def find_time_stamp_ok row_of_def next_buffer_def rotate_index_def)

lemma rotate_index_fields [simp]:
  "ds_frag_info (rotate_index s port ID) = ds_frag_info s" "row_of (rotate_index s port ID) p i = row_of s p i"
  "ds_encap_ring (rotate_index s port ID) = ds_encap_ring s" "ds_freed (rotate_index s port ID) = ds_freed s"
  "in_range (rotate_index s port ID) port ID = in_range s port ID"
  by (auto simp: rotate_index_def row_of_def in_range_def)

section \<open>Fragments in any order\<close>

text \<open>
  A PDU cut into the pieces \<open>xs\<close>; the fragment that carries the last piece has the CRC-32 of the PDU
  behind it.  \<open>asm_inv\<close> describes a buffer that has received exactly the fragments with the sequence
  numbers in \<open>R\<close>.
\<close>

definition pdu_crc :: "u8 list list \<Rightarrow> u32" where
  "pdu_crc xs = crc32_lookup_table (concat xs)"

definition frag_data :: "u8 list list \<Rightarrow> nat \<Rightarrow> u8 list" where
  "frag_data xs i = xs ! i @ (if Suc i = length xs then le32 (bswap32 (pdu_crc xs)) else [])"

definition pieces_ok :: "u8 list list \<Rightarrow> bool" where
  "pieces_ok xs \<longleftrightarrow> 2 \<le> length xs \<and> length xs \<le> FRAG_MAX_NUM
     \<and> (\<forall>i < length xs. length (frag_data xs i) \<le> FRAG_MAX_LENGTH)"

definition asm_inv :: "u16 \<Rightarrow> u16 \<Rightarrow> u8 list list \<Rightarrow> nat set \<Rightarrow> FRAG_INFO \<Rightarrow> bool" where
  "asm_inv T ptype xs R fi \<longleftrightarrow> R \<subseteq> {..<length xs}
     \<and> fi_max_frag_seq fi = of_nat (Max (insert 0 R)) \<and> fi_frag_recv_num fi = of_nat (card R)
     \<and> fi_pdu_recv_len fi = of_nat (\<Sum>i\<in>R. length (xs ! i))
     \<and> fi_recv_end fi = (if length xs - 1 \<in> R then 1 else 0)
     \<and> length (fi_frag_len fi) = FRAG_MAX_NUM
     \<and> (\<forall>i < FRAG_MAX_NUM. fi_frag_len fi ! i = (if i \<in> R then of_nat (length (frag_data xs i)) else 0))
     \<and> length (fi_data_addr fi) = FRAG_MAX_NUM
     \<and> (\<forall>i < FRAG_MAX_NUM. \<exists>buf. fi_data_addr fi ! i = Some buf \<and> length buf = FRAG_MAX_LENGTH
          \<and> (i \<in> R \<longrightarrow> take (length (frag_data xs i)) buf = frag_data xs i))
     \<and> (if 0 \<in> R
        then \<exists>b. fi_ptr_pdu fi = Some b \<and> length (mb_data b) = length (concat xs) \<and> 4 \<le> length (mb_tail b)
               \<and> mb_protocol_type b = ucast ptype \<and> fi_pdu_length fi = of_nat (length (concat xs))
               \<and> fi_pdu_type fi = IP_PACKET
        else fi_pdu_length fi = 0 \<and> fi_ptr_pdu fi = None)
     \<and> (R \<noteq> {} \<longrightarrow> fi_time_stamp fi = T)"

lemma length_concat_sum: "length (concat xs) = (\<Sum>i<length xs. length (xs ! i))"
  by (simp add: length_concat sum_list_sum_nth atLeast0LessThan)

lemma pieces_total:
  assumes "pieces_ok xs" "R \<subseteq> {..<length xs}"
  shows "(\<Sum>i\<in>R. length (xs ! i)) \<le> length (concat xs)" "length (concat xs) \<le> 9108"
proof -
  show "(\<Sum>i\<in>R. length (xs ! i)) \<le> length (concat xs)"
    unfolding length_concat_sum by (rule sum_mono2) (use assms(2) in auto)
  have "length (xs ! i) \<le> 1518" if "i < length xs" for i
    using assms(1) that by (auto simp: pieces_ok_def frag_data_def FRAG_MAX_LENGTH_def dest!: spec [of _ i])
  then have "(\<Sum>i<length xs. length (xs ! i)) \<le> (\<Sum>i<length xs. 1518)" by (intro sum_mono) simp
  also have "\<dots> \<le> 9108" using assms(1) by (simp add: pieces_ok_def FRAG_MAX_NUM_def)
  finally show "length (concat xs) \<le> 9108" by (simp only: length_concat_sum)
qed

lemma asm_finite: "asm_inv T ptype xs R fi \<Longrightarrow> finite R"
  by (auto simp: asm_inv_def intro: finite_subset)

lemma asm_bounds:
  assumes "asm_inv T ptype xs R fi" "pieces_ok xs"
  shows "unat (of_nat (card R) :: u16) = card R" "unat (of_nat (Max (insert 0 R)) :: u16) = Max (insert 0 R)"
    "card R \<le> 6" "Max (insert 0 R) < length xs"
proof -
  have R: "R \<subseteq> {..<length xs}" using assms(1) by (simp add: asm_inv_def)
  have n: "2 \<le> length xs" "length xs \<le> 6" using assms(2) by (simp_all add: pieces_ok_def FRAG_MAX_NUM_def)
  show c: "card R \<le> 6" using card_mono [OF _ R] n(2) by simp
  have "insert 0 R \<subseteq> {..<length xs}" using R n(1) by auto
  then show m: "Max (insert 0 R) < length xs" using asm_finite [OF assms(1)] by auto
  show "unat (of_nat (card R) :: u16) = card R" "unat (of_nat (Max (insert 0 R)) :: u16) = Max (insert 0 R)"
    using c m n(2) by (simp_all add: unat_of_nat_lt)
qed

lemma pdu_complete_iff:
  assumes "asm_inv T ptype xs R fi" "pieces_ok xs"
  shows "pdu_complete fi \<longleftrightarrow> R = {..<length xs}"
proof -
  note b = asm_bounds [OF assms] and fin = asm_finite [OF assms(1)]
  have R: "R \<subseteq> {..<length xs}" "fi_frag_recv_num fi = of_nat (card R)"
    "fi_max_frag_seq fi = of_nat (Max (insert 0 R))" "fi_recv_end fi = (if length xs - 1 \<in> R then 1 else 0)"
    using assms(1) by (simp_all add: asm_inv_def)
  have n: "2 \<le> length xs" using assms(2) by (simp add: pieces_ok_def)
  have num: "uint (fi_frag_recv_num fi) = int (card R)" "uint (fi_max_frag_seq fi) = int (Max (insert 0 R))"
    using b(1,2) R(2,3) by (simp_all add: uint_eq_int_unat del: of_nat_unat)
  then have c: "pdu_complete fi \<longleftrightarrow> length xs - 1 \<in> R \<and> card R = Max (insert 0 R) + 1"
    using R(4) by (simp add: pdu_complete_def) linarith
  show ?thesis
  proof
    assume "pdu_complete fi"
    then have d: "length xs - 1 \<in> R" "card R = Max (insert 0 R) + 1" using c by auto
    then have "length xs - 1 \<le> Max (insert 0 R)" using fin by simp
    then have "card R = card {..<length xs}" using d(2) b(4) by simp
    then show "R = {..<length xs}" by (intro card_subset_eq R) simp
  next
    assume full: "R = {..<length xs}"
    have "Max (insert 0 {..<length xs}) = length xs - 1"
      by (rule Max_eqI) (use n in auto)
    then show "pdu_complete fi" using n by (simp add: c full) arith
  qed
qed

lemma store_fragment_ok:
  assumes fi: "asm_inv T ptype xs R fi" "pieces_ok xs" and i: "i < length xs"
    and d: "take (length (frag_data xs i)) datafield = frag_data xs i"
    and fi': "fi_frag_len fi' = fi_frag_len fi" "fi_data_addr fi' = fi_data_addr fi"
  shows "\<exists>lens addrs. store_fragment i datafield (of_nat (length (frag_data xs i))) fi'
      = Inr (fi'\<lparr>fi_frag_len := lens, fi_data_addr := addrs\<rparr>)
    \<and> length lens = FRAG_MAX_NUM
    \<and> (\<forall>j < FRAG_MAX_NUM. lens ! j = (if j \<in> insert i R then of_nat (length (frag_data xs j)) else 0))
    \<and> length addrs = FRAG_MAX_NUM
    \<and> (\<forall>j < FRAG_MAX_NUM. \<exists>buf. addrs ! j = Some buf \<and> length buf = FRAG_MAX_LENGTH
          \<and> (j \<in> insert i R \<longrightarrow> take (length (frag_data xs j)) buf = frag_data xs j))"
proof -
  let ?n = "length (frag_data xs i)"
  have n: "?n \<le> FRAG_MAX_LENGTH" "i < FRAG_MAX_NUM" using fi(2) i by (auto simp: pieces_ok_def)
  then have u: "unat (of_nat ?n :: u16) = ?n" by (intro unat_of_nat_lt) (simp add: FRAG_MAX_LENGTH_def)
  have df: "?n \<le> length datafield" using arg_cong [OF d, of length] by simp
  have A: "length (fi_frag_len fi) = FRAG_MAX_NUM" "length (fi_data_addr fi) = FRAG_MAX_NUM"
    using fi(1) by (simp_all add: asm_inv_def)
  obtain buf where buf: "fi_data_addr fi ! i = Some buf" "length buf = FRAG_MAX_LENGTH"
    using fi(1) n(2) by (auto simp: asm_inv_def)
  let ?lens = "(fi_frag_len fi)[i := of_nat ?n]" and ?addrs = "(fi_data_addr fi)[i := Some (frag_data xs i @ drop ?n buf)]"
  have "store_fragment i datafield (of_nat ?n) fi' = Inr (fi'\<lparr>fi_frag_len := ?lens, fi_data_addr := ?addrs\<rparr>)"
    using A buf n df by (simp add: store_fragment_def fi' u d)
  moreover have "\<forall>j < FRAG_MAX_NUM. ?lens ! j = (if j \<in> insert i R then of_nat (length (frag_data xs j)) else 0)"
    using fi(1) A n(2) by (simp add: asm_inv_def nth_list_update)
  moreover have "\<forall>j < FRAG_MAX_NUM. \<exists>b. ?addrs ! j = Some b \<and> length b = FRAG_MAX_LENGTH
      \<and> (j \<in> insert i R \<longrightarrow> take (length (frag_data xs j)) b = frag_data xs j)"
    using fi(1) A buf(2) n by (simp add: asm_inv_def nth_list_update)
  ultimately show ?thesis using A
    by (intro exI [of _ ?lens] exI [of _ ?addrs] conjI) (simp_all only: length_list_update)
qed

text \<open>The arithmetic of one more fragment.\<close>

lemma asm_insert:
  assumes fi: "asm_inv T ptype xs R fi" "pieces_ok xs" and i: "i < length xs" "i \<notin> R"
  shows "max (fi_max_frag_seq fi) (of_nat i) = of_nat (Max (insert 0 (insert i R)))"
    "fi_frag_recv_num fi + 1 = of_nat (card (insert i R))"
    "fi_pdu_recv_len fi + of_nat (length (xs ! i)) = of_nat (\<Sum>j\<in>insert i R. length (xs ! j))"
proof -
  note b = asm_bounds [OF fi] and fin = asm_finite [OF fi(1)]
  have n: "length xs \<le> 6" using fi(2) by (simp add: pieces_ok_def FRAG_MAX_NUM_def)
  have "unat (of_nat i :: u16) = i" using i(1) n by (intro unat_of_nat_lt) simp
  then have "max (of_nat (Max (insert 0 R))) (of_nat i :: u16) = of_nat (max (Max (insert 0 R)) i)"
    using b(2) by (auto simp: max_def word_le_nat_alt)
  moreover have "Max (insert 0 (insert i R)) = max i (Max (insert 0 R))"
    using fin by (simp add: insert_commute [of 0 i])
  ultimately show "max (fi_max_frag_seq fi) (of_nat i) = of_nat (Max (insert 0 (insert i R)))"
    using fi(1) by (simp add: asm_inv_def max.commute)
  show "fi_frag_recv_num fi + 1 = of_nat (card (insert i R))"
    "fi_pdu_recv_len fi + of_nat (length (xs ! i)) = of_nat (\<Sum>j\<in>insert i R. length (xs ! j))"
    using fi(1) i(2) fin by (simp_all add: asm_inv_def add.commute)
qed

definition pdu_part :: "u16 \<Rightarrow> u8 list list \<Rightarrow> nat set \<Rightarrow> FRAG_INFO \<Rightarrow> bool" where
  "pdu_part ptype xs R fi \<longleftrightarrow> (if 0 \<in> R
     then \<exists>b. fi_ptr_pdu fi = Some b \<and> length (mb_data b) = length (concat xs) \<and> 4 \<le> length (mb_tail b)
            \<and> mb_protocol_type b = ucast ptype \<and> fi_pdu_length fi = of_nat (length (concat xs))
            \<and> fi_pdu_type fi = IP_PACKET
     else fi_pdu_length fi = 0 \<and> fi_ptr_pdu fi = None)"

lemma asm_inv_insert:
  assumes fi: "asm_inv T ptype xs R fi" "pieces_ok xs" and i: "i < length xs" "i \<notin> R"
    and num: "fi_max_frag_seq fi' = max (fi_max_frag_seq fi) (of_nat i)"
      "fi_frag_recv_num fi' = fi_frag_recv_num fi + 1"
      "fi_pdu_recv_len fi' = fi_pdu_recv_len fi + of_nat (length (xs ! i))"
      "fi_recv_end fi' = (if Suc i = length xs then 1 else fi_recv_end fi)" "fi_time_stamp fi' = T"
    and lens: "length (fi_frag_len fi') = FRAG_MAX_NUM"
      "\<forall>j < FRAG_MAX_NUM. fi_frag_len fi' ! j = (if j \<in> insert i R then of_nat (length (frag_data xs j)) else 0)"
    and addrs: "length (fi_data_addr fi') = FRAG_MAX_NUM"
      "\<forall>j < FRAG_MAX_NUM. \<exists>buf. fi_data_addr fi' ! j = Some buf \<and> length buf = FRAG_MAX_LENGTH
          \<and> (j \<in> insert i R \<longrightarrow> take (length (frag_data xs j)) buf = frag_data xs j)"
    and part: "pdu_part ptype xs (insert i R) fi'"
  shows "asm_inv T ptype xs (insert i R) fi'"
proof -
  have R: "insert i R \<subseteq> {..<length xs}" using fi(1) i(1) by (simp add: asm_inv_def)
  have e: "fi_recv_end fi' = (if length xs - 1 \<in> insert i R then 1 else 0)"
    using fi(1) num(4) i(1) by (auto simp: asm_inv_def)
  show ?thesis
    unfolding asm_inv_def num(1-3) asm_insert [OF fi i]
    using R e lens addrs part num(5) by (simp only: pdu_part_def) simp
qed

definition fresh_mbuf :: "RX_ENV \<Rightarrow> u8 list list \<Rightarrow> bool" where
  "fresh_mbuf env xs \<longleftrightarrow> (\<exists>b. rx_alloc env = Some b \<and> mb_data b = [] \<and> length (concat xs) + 4 \<le> length (mb_tail b))"

text \<open>A buffer that takes the next fragment of the PDU: it has the PDU's time stamp, or is unused.\<close>

lemma resolve_no_conflict:
  assumes "asm_inv T ptype xs R fi" "pieces_ok xs" "0 \<notin> R"
  shows "resolve_conflict T fi = (fi, None)"
proof (cases "R = {}")
  case True
  then show ?thesis using assms(1) by (simp add: resolve_conflict_def asm_inv_def)
next
  case False
  then have "fi_time_stamp fi = T" "fi_frag_len fi ! 0 = 0"
    using assms(1,3) by (auto simp: asm_inv_def FRAG_MAX_NUM_def)
  then show ?thesis by (simp add: resolve_conflict_def)
qed

lemma seq_fields:
  assumes "T < 8192" "i < 8"
  shows "(push_bit 3 T OR of_nat i) AND 7 = (of_nat i :: u16)" "drop_bit 3 (push_bit 3 T OR of_nat i :: u16) = T"
    "unat (of_nat i :: u16) = i"
proof -
  show i: "unat (of_nat i :: u16) = i" using assms(2) by (intro unat_of_nat_lt) simp
  have q: "\<not> bit (of_nat i :: u16) k" if "3 \<le> k" for k
    using bits_below [of "of_nat i :: u16" 3 k] i assms(2) that by auto
  have c: "\<not> bit T k" if "13 \<le> k" for k
    using bits_below [of T 13 k] assms(1) that by (auto simp: word_less_nat_alt)
  have "(push_bit 3 T OR of_nat i) AND 7 = take_bit 3 (push_bit 3 T OR of_nat i :: u16)"
    by (simp add: take_bit_eq_mask mask_eq_exp_minus_1)
  also have "\<dots> = of_nat i"
  proof (rule bit_word_eqI)
    fix k assume "k < LENGTH(16)"
    show "bit (take_bit 3 (push_bit 3 T OR of_nat i :: u16)) k = bit (of_nat i :: u16) k"
      using q [of k] by (cases "k < 3") (auto simp: bit_take_bit_iff bit_or_iff bit_push_bit_iff)
  qed
  finally show "(push_bit 3 T OR of_nat i) AND 7 = (of_nat i :: u16)" .
  show "drop_bit 3 (push_bit 3 T OR of_nat i :: u16) = T"
  proof (rule bit_word_eqI)
    fix k assume "k < LENGTH(16)"
    then show "bit (drop_bit 3 (push_bit 3 T OR of_nat i :: u16)) k = bit T k"
      using q [of "3 + k"] c [of k]
      by (cases "13 \<le> k") (auto simp: bit_drop_bit_eq bit_or_iff bit_push_bit_iff add.commute)
  qed
qed

lemma frag_data_0: "pieces_ok xs \<Longrightarrow> frag_data xs 0 = xs ! 0"
  by (simp add: frag_data_def pieces_ok_def)

text \<open>
  The job: the buffer \<open>k\<close> of device \<open>port\<close> and fragment ID \<open>ID\<close> collects the pieces \<open>xs\<close>.  The search for the
  time stamp must come to it: no earlier buffer has the time stamp, and when nothing was received yet,
  either the buffer already shows it (an unused buffer has 0), or it is the next one to be taken.
\<close>

definition job_inv ::
    "nat \<Rightarrow> nat \<Rightarrow> nat \<Rightarrow> u16 \<Rightarrow> u16 \<Rightarrow> u8 list list \<Rightarrow> nat set \<Rightarrow> DECAP_STATE \<Rightarrow> bool" where
  "job_inv port ID k T ptype xs R s \<longleftrightarrow> in_range s port ID \<and> k < FRAG_BUFFER_NUM
     \<and> asm_inv T ptype xs R (row_of s port ID ! k) \<and> (k = 1 \<longrightarrow> fi_time_stamp (row_of s port ID ! 0) \<noteq> T)
     \<and> (R = {} \<longrightarrow> fi_time_stamp (row_of s port ID ! k) = T
          \<or> fi_time_stamp (row_of s port ID ! 0) \<noteq> T \<and> fi_time_stamp (row_of s port ID ! 1) \<noteq> T
            \<and> (\<exists>ks. ds_index_list s ! port ! ID = int k # ks))"

lemma job_buffer:
  assumes "job_inv port ID k T ptype xs R s"
  shows "\<exists>s1. select_buffer s port ID T = Inr (int k, s1) \<and> in_range s1 port ID
     \<and> row_of s1 port ID = row_of s port ID \<and> load_fi s1 port ID (int k) = Inr (row_of s port ID ! k)
     \<and> ds_encap_ring s1 = ds_encap_ring s \<and> ds_freed s1 = ds_freed s"
proof (cases "fi_time_stamp (row_of s port ID ! k) = T")
  case True
  have "select_buffer s port ID T = Inr (int k, s)"
    using assms True by (intro select_known_buffer) (auto simp: job_inv_def)
  then show ?thesis using assms by (auto simp: job_inv_def load_fi_ok)
next
  case False
  then have "R = {}" using assms by (auto simp: job_inv_def asm_inv_def)
  then have n: "in_range s port ID" "fi_time_stamp (row_of s port ID ! 0) \<noteq> T" "fi_time_stamp (row_of s port ID ! 1) \<noteq> T"
    and "\<exists>ks. ds_index_list s ! port ! ID = int k # ks" using assms False by (auto simp: job_inv_def)
  then obtain ks where "ds_index_list s ! port ! ID = int k # ks" by blast
  from select_new_buffer [OF n this] show ?thesis using assms by (auto simp: job_inv_def load_fi_ok)
qed

lemma job_put:
  assumes "job_inv port ID k T ptype xs R s" "in_range s1 port ID" "row_of s1 port ID = row_of s port ID"
    "asm_inv T ptype xs R' fi" "R' \<noteq> {}"
  shows "job_inv port ID k T ptype xs R' (put_fi s1 port ID k fi)"
    "row_of (put_fi s1 port ID k fi) port ID ! (1 - k) = row_of s port ID ! (1 - k)"
proof -
  have k: "k < 2" using assms(1) by (simp add: job_inv_def FRAG_BUFFER_NUM_def)
  then have "k = 0 \<or> k = 1" by arith
  then have k': "k \<noteq> 1 - k" by auto
  have len: "length (row_of s port ID) = 2" using assms(1) by (simp add: job_inv_def in_range_def FRAG_BUFFER_NUM_def)
  have "row_of (put_fi s1 port ID k fi) port ID = (row_of s port ID)[k := fi]"
    using assms(2,3) by (simp add: row_of_put_fi)
  then show "job_inv port ID k T ptype xs R' (put_fi s1 port ID k fi)"
    "row_of (put_fi s1 port ID k fi) port ID ! (1 - k) = row_of s port ID ! (1 - k)"
    using assms k k' len in_range_put_fi [OF assms(2), of k fi] by (auto simp: job_inv_def)
qed

lemma mark_arrival_inv: "asm_inv T ptype xs R (mark_arrival now fi) = asm_inv T ptype xs R fi"
  by (simp add: mark_arrival_def asm_inv_def)


lemma start_piece:
  assumes j: "job_inv port (unat (v_fragment_ID (variable_header_value var))) k T ptype xs R s"
    and xs: "pieces_ok xs" and T: "T < 8192" and R: "0 \<notin> R" and env: "fresh_mbuf env xs"
    and ptype: "ptype = PROTOCOL_IPV4 \<or> ptype = PROTOCOL_IPV6"
    and len: "v_total_length (variable_header_value var) - hl = of_nat (length (concat xs))"
    and d: "take (length (frag_data xs 0)) datafield = frag_data xs 0"
  shows "\<exists>s'. start_reassemble_pdu env (Some datafield) var (push_bit 3 T OR of_nat 0) hl
      (of_nat (length (frag_data xs 0))) ptype bi port s
     = Inr (if insert 0 R = {..<length xs} then 1 else 0, int k, s')
    \<and> job_inv port (unat (v_fragment_ID (variable_header_value var))) k T ptype xs (insert 0 R) s'
    \<and> row_of s' port (unat (v_fragment_ID (variable_header_value var))) ! (1 - k)
        = row_of s port (unat (v_fragment_ID (variable_header_value var))) ! (1 - k)
    \<and> ds_encap_ring s' = ds_encap_ring s \<and> ds_freed s' = ds_freed s"
proof -
  let ?ID = "unat (v_fragment_ID (variable_header_value var))" and ?n = "length (frag_data xs 0)"
  define fi where "fi = row_of s port ?ID ! k"
  have fi: "asm_inv T ptype xs R fi" and k: "k < FRAG_BUFFER_NUM"
    using j by (simp_all add: job_inv_def fi_def)
  obtain s1 where s1: "select_buffer s port ?ID T = Inr (int k, s1)" "in_range s1 port ?ID"
    "row_of s1 port ?ID = row_of s port ?ID" "load_fi s1 port ?ID (int k) = Inr fi"
    "ds_encap_ring s1 = ds_encap_ring s" "ds_freed s1 = ds_freed s"
    using job_buffer [OF j] unfolding fi_def by blast
  have seq: "(push_bit 3 T OR of_nat 0) AND 7 = (0 :: u16)" "drop_bit 3 (push_bit 3 T OR of_nat 0 :: u16) = T"
    using seq_fields [OF T, of 0] by simp_all
  have pos: "0 < length xs" using xs by (auto simp: pieces_ok_def)
  let ?fi1 = "fi\<lparr>fi_max_frag_seq := max (fi_max_frag_seq fi) 0, fi_pdu_recv_len := fi_pdu_recv_len fi + of_nat ?n,
      fi_frag_recv_num := fi_frag_recv_num fi + 1\<rparr>"
  obtain lens addrs where st: "store_fragment 0 datafield (of_nat ?n) ?fi1
      = Inr (?fi1\<lparr>fi_frag_len := lens, fi_data_addr := addrs\<rparr>)"
    and lens: "length lens = FRAG_MAX_NUM" "\<forall>j < FRAG_MAX_NUM. lens ! j = (if j \<in> insert 0 R then of_nat (length (frag_data xs j)) else 0)"
    and addrs: "length addrs = FRAG_MAX_NUM" "\<forall>j < FRAG_MAX_NUM. \<exists>buf. addrs ! j = Some buf \<and> length buf = FRAG_MAX_LENGTH
          \<and> (j \<in> insert 0 R \<longrightarrow> take (length (frag_data xs j)) buf = frag_data xs j)"
    using store_fragment_ok [OF fi xs pos d, of ?fi1] by auto
  obtain b where b: "rx_alloc env = Some b" "mb_data b = []" "length (concat xs) + 4 \<le> length (mb_tail b)"
    using env by (auto simp: fresh_mbuf_def)
  have L: "unat (of_nat (length (concat xs)) :: u16) = length (concat xs)"
    using pieces_total(2) [OF xs subset_refl] by (intro unat_of_nat_lt) simp
  let ?b = "rte_pktmbuf_append (b\<lparr>mb_protocol_type := ucast ptype\<rparr>) (length (concat xs))"
  let ?fi = "?fi1\<lparr>fi_frag_len := lens, fi_data_addr := addrs, fi_pdu_length := of_nat (length (concat xs)),
      fi_time_stamp := T, fi_protocol_type := ptype, fi_pdu_type := IP_PACKET, fi_ptr_pdu := Some ?b\<rparr>"
  have "pdu_part ptype xs (insert 0 R) ?fi"
    using b(2,3) by (simp add: pdu_part_def rte_pktmbuf_append_def)
  moreover have "Suc 0 \<noteq> length xs" using xs by (simp add: pieces_ok_def)
  ultimately have "asm_inv T ptype xs (insert 0 R) ?fi"
    using lens addrs frag_data_0 [OF xs]
    by (intro asm_inv_insert [OF fi xs pos R]) simp_all
  then have inv: "asm_inv T ptype xs (insert 0 R) ?fi" "asm_inv T ptype xs (insert 0 R) (mark_arrival (rx_now env) ?fi)"
    by (simp_all add: mark_arrival_inv)
  have pt: "pdu_type_of ptype datafield x = Inr IP_PACKET" for x using ptype by (simp add: pdu_type_of_def)
  have sel: "mb_tail (b\<lparr>mb_protocol_type := ucast ptype\<rparr>) = mb_tail b"
    "fi_pdu_length (?fi1\<lparr>fi_frag_len := lens, fi_data_addr := addrs, fi_pdu_length := of_nat (length (concat xs)),
      fi_time_stamp := T, fi_protocol_type := ptype, fi_pdu_type := IP_PACKET\<rparr>) = of_nat (length (concat xs))"
    by simp_all
  have room: "(length (mb_tail b) < length (concat xs) + 4) = False" "((0 :: u16) < 0) = False"
    using b(3) by simp_all
  have run: "start_reassemble_pdu env (Some datafield) var (push_bit 3 T OR of_nat 0) hl (of_nat ?n) ptype bi port s
     = (if pdu_complete ?fi then bind_ok (store_fi s1 port ?ID (int k) ?fi) (\<lambda>s3. Inr (1, int k, s3))
        else bind_ok (store_fi s1 port ?ID (int k) (mark_arrival (rx_now env) ?fi)) (\<lambda>s3. Inr (0, int k, s3)))"
    unfolding start_reassemble_pdu_def Let_def option.case seq s1(1) bind_ok.simps prod.case s1(4)
      resolve_no_conflict [OF fi xs R] unat_0 free_pdu_def st pt b(1) len sel L room if_False
    by (rule refl)
  have ne: "insert 0 R \<noteq> {}" by simp
  define fi' where "fi' = (if insert 0 R = {..<length xs} then ?fi else mark_arrival (rx_now env) ?fi)"
  have "start_reassemble_pdu env (Some datafield) var (push_bit 3 T OR of_nat 0) hl (of_nat ?n) ptype bi port s
     = Inr (if insert 0 R = {..<length xs} then 1 else 0, int k, put_fi s1 port ?ID k fi')"
    unfolding run store_fi_ok [OF s1(2) k] bind_ok.simps pdu_complete_iff [OF inv(1) xs] fi'_def
    by (simp only: if_True if_False split: if_split) blast
  moreover have "asm_inv T ptype xs (insert 0 R) fi'" using inv by (simp only: fi'_def split: if_split) blast
  ultimately show ?thesis
    using job_put [OF j s1(2,3) _ ne, of fi'] s1(5,6) by (intro exI [of _ "put_fi s1 port ?ID k fi'"]) simp
qed

definition piece_position :: "u8 list list \<Rightarrow> nat \<Rightarrow> u8" where
  "piece_position xs i = (if i = 0 then FRAG_START else if Suc i = length xs then FRAG_END else FRAG_MIDDLE)"

lemma keep_piece:
  assumes j: "job_inv port (unat ID) k T ptype xs R s" and xs: "pieces_ok xs" and T: "T < 8192"
    and i: "0 < i" "i < length xs" "i \<notin> R"
    and d: "take (length (frag_data xs i)) datafield = frag_data xs i"
  shows "\<exists>s'. keep_reassemble_pdu env (piece_position xs i) (Some datafield) ID (push_bit 3 T OR of_nat i)
      (of_nat (length (frag_data xs i))) bi port s
     = Inr (if insert i R = {..<length xs} then 1 else 0, int k, s')
    \<and> job_inv port (unat ID) k T ptype xs (insert i R) s'
    \<and> row_of s' port (unat ID) ! (1 - k) = row_of s port (unat ID) ! (1 - k)
    \<and> ds_encap_ring s' = ds_encap_ring s \<and> ds_freed s' = ds_freed s"
proof -
  let ?n = "length (frag_data xs i)"
  define fi where "fi = row_of s port (unat ID) ! k"
  have fi: "asm_inv T ptype xs R fi" and k: "k < FRAG_BUFFER_NUM"
    using j by (simp_all add: job_inv_def fi_def)
  obtain s1 where s1: "select_buffer s port (unat ID) T = Inr (int k, s1)" "in_range s1 port (unat ID)"
    "row_of s1 port (unat ID) = row_of s port (unat ID)" "load_fi s1 port (unat ID) (int k) = Inr fi"
    "ds_encap_ring s1 = ds_encap_ring s" "ds_freed s1 = ds_freed s"
    using job_buffer [OF j] unfolding fi_def by blast
  have i6: "i < 6" using i(2) xs by (simp add: pieces_ok_def FRAG_MAX_NUM_def)
  then have i8: "i < 8" by simp
  note seq = seq_fields [OF T i8]
  have dup: "drop_duplicate i fi = Inr fi"
    using fi i(3) i6 by (simp add: drop_duplicate_def asm_inv_def FRAG_MAX_NUM_def)
  define e where "e = (if Suc i = length xs then 1 else fi_recv_end fi)"
  let ?fi2 = "fi\<lparr>fi_pdu_recv_len := fi_pdu_recv_len fi + of_nat (length (xs ! i)), fi_recv_end := e\<rparr>"
  have two: "(if piece_position xs i = FRAG_END
      then fi\<lparr>fi_pdu_recv_len := fi_pdu_recv_len fi + (of_nat ?n - 4), fi_recv_end := 1\<rparr>
      else fi\<lparr>fi_pdu_recv_len := fi_pdu_recv_len fi + of_nat ?n\<rparr>) = ?fi2"
    using i(1) by (auto simp: piece_position_def frag_position_defs frag_data_def e_def)
  note ins = asm_insert [OF fi xs i(2,3)]
  have "\<not> (0 < fi_pdu_length fi \<and> fi_pdu_length fi < fi_pdu_recv_len fi + of_nat (length (xs ! i)))"
  proof (cases "0 \<in> R")
    case True
    have sub: "insert i R \<subseteq> {..<length xs}" using fi i(2) by (simp add: asm_inv_def)
    note t = pieces_total [OF xs sub]
    have "unat (of_nat (length (concat xs)) :: u16) = length (concat xs)"
      "unat (of_nat (\<Sum>j\<in>insert i R. length (xs ! j)) :: u16) = (\<Sum>j\<in>insert i R. length (xs ! j))"
      using t by (simp_all add: unat_of_nat_lt del: of_nat_sum)
    moreover have "fi_pdu_length fi = of_nat (length (concat xs))"
      using fi True by (auto simp: asm_inv_def)
    ultimately show ?thesis
      using t(1) unfolding ins(3) by (simp add: word_less_nat_alt del: of_nat_sum)
  next
    case False
    then show ?thesis using fi by (simp add: asm_inv_def)
  qed
  then have fits: "(0 < fi_pdu_length ?fi2 \<and> fi_pdu_length ?fi2 < fi_pdu_recv_len ?fi2) = False" by simp
  let ?fi3 = "?fi2\<lparr>fi_max_frag_seq := max (fi_max_frag_seq ?fi2) (of_nat i),
      fi_frag_recv_num := fi_frag_recv_num ?fi2 + 1\<rparr>"
  obtain lens addrs where st: "store_fragment i datafield (of_nat ?n) ?fi3
      = Inr (?fi3\<lparr>fi_frag_len := lens, fi_data_addr := addrs\<rparr>)"
    and lens: "length lens = FRAG_MAX_NUM" "\<forall>j < FRAG_MAX_NUM. lens ! j = (if j \<in> insert i R then of_nat (length (frag_data xs j)) else 0)"
    and addrs: "length addrs = FRAG_MAX_NUM" "\<forall>j < FRAG_MAX_NUM. \<exists>buf. addrs ! j = Some buf \<and> length buf = FRAG_MAX_LENGTH
          \<and> (j \<in> insert i R \<longrightarrow> take (length (frag_data xs j)) buf = frag_data xs j)"
    using store_fragment_ok [OF fi xs i(2) d, of ?fi3] by auto
  let ?fi = "?fi3\<lparr>fi_frag_len := lens, fi_data_addr := addrs, fi_time_stamp := T\<rparr>"
  have "pdu_part ptype xs R fi" using fi by (simp add: asm_inv_def pdu_part_def)
  then have "pdu_part ptype xs (insert i R) ?fi" using i(1) by (simp add: pdu_part_def)
  then have "asm_inv T ptype xs (insert i R) ?fi"
    using lens addrs by (intro asm_inv_insert [OF fi xs i(2,3)]) (simp_all add: e_def)
  then have inv: "asm_inv T ptype xs (insert i R) ?fi" "asm_inv T ptype xs (insert i R) (mark_arrival (rx_now env) ?fi)"
    by (simp_all add: mark_arrival_inv)
  define fi' where "fi' = (if insert i R = {..<length xs} then ?fi else mark_arrival (rx_now env) ?fi)"
  have "keep_reassemble_pdu env (piece_position xs i) (Some datafield) ID (push_bit 3 T OR of_nat i)
      (of_nat ?n) bi port s
     = Inr (if insert i R = {..<length xs} then 1 else 0, int k, put_fi s1 port (unat ID) k fi')"
    unfolding keep_reassemble_pdu_def Let_def option.case seq s1(1) bind_ok.simps prod.case s1(4) dup two
      fits if_False st store_fi_ok [OF s1(2) k] pdu_complete_iff [OF inv(1) xs] fi'_def
    by (simp only: if_True if_False split: if_split) blast
  moreover have "asm_inv T ptype xs (insert i R) fi'" using inv by (simp only: fi'_def split: if_split) blast
  moreover have "insert i R \<noteq> {}" by simp
  ultimately show ?thesis
    using job_put [OF j s1(2,3), of "insert i R" fi'] s1(5,6)
    by (intro exI [of _ "put_fi s1 port (unat ID) k fi'"]) simp
qed

section \<open>Delivery of a complete PDU\<close>

lemma collect_suffix:
  assumes fi: "asm_inv T ptype xs {..<length xs} fi" "pieces_ok xs"
    and room: "room = concat (take i xs) @ rest" "length (concat (drop i xs)) \<le> length rest" and i: "i < length xs"
  shows "collect_fragments fi [i..<length xs] room (of_nat (length (concat (take i xs)))) c
    = Inr (Some (concat xs @ drop (length (concat (drop i xs))) rest, of_nat (length (concat xs)), pdu_crc xs))"
  using room i
proof (induction "length xs - i" arbitrary: i room rest c)
  case 0
  then show ?case by simp
next
  case (Suc m)
  note room = Suc.prems(1,2) and i = Suc.prems(3)
  have n: "length xs \<le> 6" "i < FRAG_MAX_NUM" using fi(2) i by (auto simp: pieces_ok_def FRAG_MAX_NUM_def)
  obtain buf where buf: "fi_data_addr fi ! i = Some buf" "length buf = FRAG_MAX_LENGTH"
    "take (length (frag_data xs i)) buf = frag_data xs i" and A: "length (fi_data_addr fi) = FRAG_MAX_NUM"
    "length (fi_frag_len fi) = FRAG_MAX_NUM" "fi_frag_len fi ! i = of_nat (length (frag_data xs i))"
    "unat (fi_frag_recv_num fi) = length xs"
    using fi(1) n(2) i asm_bounds(1) [OF fi] by (auto simp: asm_inv_def)
  have fl: "length (frag_data xs i) \<le> FRAG_MAX_LENGTH" using fi(2) i by (simp add: pieces_ok_def)
  then have ul: "unat (of_nat (length (frag_data xs i)) :: u16) = length (frag_data xs i)"
    by (intro unat_of_nat_lt) (simp add: FRAG_MAX_LENGTH_def)
  have split: "concat (drop i xs) = xs ! i @ concat (drop (Suc i) xs)" "concat (take (Suc i) xs) = concat (take i xs) @ xs ! i"
    using i by (simp_all add: Cons_nth_drop_Suc [symmetric] take_Suc_conv_app_nth)
  have "concat (take i xs) @ concat (drop i xs) = concat xs" by (simp flip: concat_append)
  then have whole: "length (concat (take i xs)) + length (concat (drop i xs)) = length (concat xs)"
    by (metis length_append)
  then have uo: "unat (of_nat (length (concat (take i xs))) :: u32) = length (concat (take i xs))"
    using pieces_total(2) [OF fi(2) subset_refl] by (intro unat_of_nat_lt) simp
  have up: "[i..<length xs] = i # [Suc i..<length xs]" using i by (simp add: upt_conv_Cons)
  have put: "put_bytes room (length (concat (take i xs))) (xs ! i)
      = Inr (concat (take (Suc i) xs) @ drop (length (xs ! i)) rest)"
    using put_bytes_at_end [of "concat (take i xs)" _ "xs ! i" rest] room split by simp
  show ?case
  proof (cases "Suc i = length xs")
    case False
    then have fd: "frag_data xs i = xs ! i" and lt: "Suc i < length xs" "i < length xs - 1"
      using i by (auto simp: frag_data_def)
    have ux: "unat (of_nat (length (xs ! i)) :: u16) = length (xs ! i)" using ul by (simp only: fd)
    then have off: "of_nat (length (concat (take i xs))) + ucast (of_nat (length (xs ! i)) :: u16)
        = (of_nat (length (concat (take (Suc i) xs))) :: u32)"
      unfolding split(2) length_append of_nat_add by (metis of_nat_unat)
    have g: "get_bytes buf 0 (length (xs ! i)) = Inr (xs ! i)" using buf(2,3) fl by (simp add: fd)
    have "collect_fragments fi [i..<length xs] room (of_nat (length (concat (take i xs)))) c
        = collect_fragments fi [Suc i..<length xs] (concat (take (Suc i) xs) @ drop (length (xs ! i)) rest)
            (of_nat (length (concat (take (Suc i) xs)))) c"
      unfolding up collect_fragments.simps A(4) uo
      using A n(2) buf(1) lt(2) by (simp only: load_at_ok bind_ok.simps option.case fd ux g put off if_True)
    also have "\<dots> = Inr (Some (concat xs @ drop (length (concat (drop (Suc i) xs))) (drop (length (xs ! i)) rest),
        of_nat (length (concat xs)), pdu_crc xs))"
      using Suc.hyps(2) room(2) split(1) lt(1) by (intro Suc.hyps(1)) auto
    finally show ?thesis by (simp add: split(1) add.commute)
  next
    case True
    then have fd: "frag_data xs i = xs ! i @ le32 (bswap32 (pdu_crc xs))" by (simp add: frag_data_def)
    have ln: "length (frag_data xs i) = length (xs ! i) + 4" by (simp add: fd)
    have u4: "unat (of_nat (length (frag_data xs i)) :: u16) = length (xs ! i) + 4" using ul by (simp only: ln)
    have bufe: "buf = xs ! i @ le32 (bswap32 (pdu_crc xs)) @ drop (length (frag_data xs i)) buf"
      using buf(3) by (metis append.assoc append_take_drop_id fd)
    have g: "get_bytes buf 0 (length (xs ! i)) = Inr (xs ! i)" "load32 buf (length (xs ! i)) = Inr (bswap32 (pdu_crc xs))"
      using load32_at [of "xs ! i" "bswap32 (pdu_crc xs)" "drop (length (frag_data xs i)) buf"]
      by (subst bufe; simp)+
    have dr: "drop (Suc i) xs = []" "take (Suc i) xs = xs" using True by simp_all
    have "ucast (of_nat (length (frag_data xs i)) :: u16) = (of_nat (length (xs ! i) + 4) :: u32)"
      using u4 by (metis of_nat_unat)
    then have off: "of_nat (length (concat (take i xs))) + (ucast (of_nat (length (frag_data xs i)) :: u16) - 4)
        = (of_nat (length (concat xs)) :: u32)"
      using split(2) dr(2) by simp
    have no: "(i < length xs - 1) = False" "(length (xs ! i) + 4 < 4) = False" "length (xs ! i) + 4 - 4 = length (xs ! i)"
      using True by simp_all
    have "collect_fragments fi [i..<length xs] room (of_nat (length (concat (take i xs)))) c
        = collect_fragments fi [Suc i..<length xs] (concat (take (Suc i) xs) @ drop (length (xs ! i)) rest)
            (of_nat (length (concat xs))) (bswap32 (bswap32 (pdu_crc xs)))"
      unfolding up collect_fragments.simps A(4) uo
      using A n(2) buf(1) by (simp only: load_at_ok bind_ok.simps option.case u4 g put off if_False no)
    then show ?thesis using split(1) dr True by simp
  qed
qed

lemma reset_idle:
  assumes "asm_inv T ptype xs R fi"
  shows "asm_inv T' ptype' xs' {} (reset_frag_info fi)"
proof -
  have "\<exists>buf. fi_data_addr fi ! i = Some buf \<and> length buf = FRAG_MAX_LENGTH" if "i < FRAG_MAX_NUM" for i
    using assms that by (auto simp: asm_inv_def)
  then show ?thesis using assms by (simp add: asm_inv_def reset_frag_info_def)
qed

lemma finish_complete:
  assumes fi: "asm_inv T ptype xs {..<length xs} fi" "pieces_ok xs"
  shows "\<exists>b. finish_reassemble_pdu env fi
      = Inr (0, reset_frag_info fi, if rx_ring_ok env then Some b else None, if rx_ring_ok env then None else Some b)
    \<and> mb_data b = concat xs \<and> mb_protocol_type b = ucast ptype"
proof -
  have pos: "0 < length xs" using fi(2) by (auto simp: pieces_ok_def)
  let ?L = "length (concat xs)"
  have L: "unat (of_nat ?L :: u16) = ?L" "unat (of_nat ?L :: u32) = ?L"
    using pieces_total(2) [OF fi(2) subset_refl] by (simp_all add: unat_of_nat_lt)
  obtain b where b: "fi_ptr_pdu fi = Some b" "length (mb_data b) = ?L" "4 \<le> length (mb_tail b)"
    "mb_protocol_type b = ucast ptype" "fi_pdu_length fi = of_nat ?L" "fi_pdu_type fi = IP_PACKET"
    using fi(1) pos by (auto simp: asm_inv_def)
  have num: "unat (fi_frag_recv_num fi) = length xs"
    using fi(1) asm_bounds(1) [OF fi] by (simp add: asm_inv_def)
  have recv: "(length (mb_data b) < unat (fi_pdu_recv_len fi)) = False"
    using fi(1) L(1) b(2) by (simp add: asm_inv_def length_concat_sum del: of_nat_sum)
  have "collect_fragments fi [0..<length xs] (mb_data b @ mb_tail b) (of_nat (length (concat (take 0 xs)))) (fi_crc fi)
      = Inr (Some (concat xs @ drop (length (concat (drop 0 xs))) (mb_data b @ mb_tail b), of_nat ?L, pdu_crc xs))"
    using b(2) pos by (intro collect_suffix [OF fi]) simp_all
  then have c: "collect_fragments fi [0..<length xs] (mb_data b @ mb_tail b) 0 (fi_crc fi)
      = Inr (Some (concat xs @ mb_tail b, of_nat ?L, pdu_crc xs))"
    using b(2) by simp
  have off: "(uint (of_nat ?L :: u32) = uint (fi_pdu_length fi)) = True"
    using L b(5) by (simp add: uint_eq_int_unat del: of_nat_unat)
  have tk: "take (unat (fi_pdu_length fi)) (concat xs @ mb_tail b) = concat xs"
    "take (length (mb_data b)) (concat xs @ mb_tail b) = concat xs"
    using L b(2,5) by simp_all
  let ?b = "b\<lparr>mb_data := concat xs, mb_tail := drop (length (mb_data b)) (concat xs @ mb_tail b)\<rparr>"
  have "finish_reassemble_pdu env fi
      = Inr (0, reset_frag_info fi, if rx_ring_ok env then Some ?b else None, if rx_ring_ok env then None else Some ?b)"
    unfolding finish_reassemble_pdu_def b(1) option.case recv num c bind_ok.simps prod.case Let_def off tk
    by (simp add: b(6) pdu_crc_def)
  then show ?thesis using b(4) by (intro exI [of _ ?b]) simp
qed

lemma finish_job:
  assumes j: "job_inv port ID k T ptype xs {..<length xs} s" and xs: "pieces_ok xs" and ring: "rx_ring_ok env"
  shows "\<exists>b s'. finish_at env port ID (int k) s = Inr (0, s')
    \<and> mb_data b = concat xs \<and> mb_protocol_type b = ucast ptype
    \<and> ds_encap_ring s' = ds_encap_ring s @ [b] \<and> ds_freed s' = ds_freed s \<and> in_range s' port ID
    \<and> (\<forall>T' p' xs'. asm_inv T' p' xs' {} (row_of s' port ID ! k)) \<and> fi_time_stamp (row_of s' port ID ! k) = 0
    \<and> row_of s' port ID ! (1 - k) = row_of s port ID ! (1 - k)"
proof -
  define fi where "fi = row_of s port ID ! k"
  have r: "in_range s port ID" "k < FRAG_BUFFER_NUM" "asm_inv T ptype xs {..<length xs} fi"
    using j by (simp_all add: job_inv_def fi_def)
  obtain b where b: "finish_reassemble_pdu env fi = Inr (0, reset_frag_info fi, Some b, None)"
    "mb_data b = concat xs" "mb_protocol_type b = ucast ptype"
    using finish_complete [OF r(3) xs, of env] ring by auto
  let ?s1 = "put_fi s port ID k (reset_frag_info fi)"
  let ?s = "?s1\<lparr>ds_encap_ring := ds_encap_ring ?s1 @ [b]\<rparr>"
  have run: "finish_at env port ID (int k) s = Inr (0, ?s)"
    using r(1,2) b(1) by (simp add: finish_at_def load_fi_ok store_fi_ok fi_def [symmetric] free_pdu_def)
  have "k = 0 \<or> k = 1" using r(2) by (auto simp: FRAG_BUFFER_NUM_def)
  then have ne: "k \<noteq> 1 - k" by auto
  have len: "k < length (row_of s port ID)" using r(1,2) by (simp add: in_range_def)
  have row: "row_of ?s port ID = (row_of s port ID)[k := reset_frag_info fi]"
    using row_of_put_fi [OF r(1)] by (simp add: row_of_def)
  have "in_range ?s port ID" using in_range_put_fi [OF r(1), of k "reset_frag_info fi"]
    by (simp add: in_range_def row_of_def)
  moreover have "fi_time_stamp (reset_frag_info fi) = 0" by (simp add: reset_frag_info_def)
  ultimately show ?thesis using run b(2,3) row ne len
    by (intro exI [of _ b] exI [of _ ?s]) (simp add: reset_idle [OF r(3)])
qed

text \<open>One fragment: it is collected, and the last one to arrive delivers the PDU.\<close>

definition fits_start :: "GSE_VARIABLE_HEADER \<Rightarrow> u16 \<Rightarrow> u8 list list \<Rightarrow> bool" where
  "fits_start var header_length xs \<longleftrightarrow>
     v_total_length (variable_header_value var) - header_length = of_nat (length (concat xs))"

lemma receive_piece:
  fixes var :: GSE_VARIABLE_HEADER
  defines "ID \<equiv> unat (v_fragment_ID (variable_header_value var))"
  assumes j: "job_inv port ID k T ptype xs R s" and xs: "pieces_ok xs" and T: "T < 8192"
    and i: "i < length xs" "i \<notin> R" and env: "fresh_mbuf env xs" "rx_ring_ok env"
    and ptype: "ptype = PROTOCOL_IPV4 \<or> ptype = PROTOCOL_IPV6"
    and len: "i = 0 \<Longrightarrow> fits_start var hl xs \<and> nt = ptype"
    and d: "take (length (frag_data xs i)) datafield = frag_data xs i"
  shows "\<exists>r s'. reassemble_fragment env (piece_position xs i) datafield var (push_bit 3 T OR of_nat i) hl
      (of_nat (length (frag_data xs i))) nt bi port s = Inr (r, int k, s')
    \<and> ds_freed s' = ds_freed s \<and> row_of s' port ID ! (1 - k) = row_of s port ID ! (1 - k)
    \<and> (if insert i R = {..<length xs}
       then r = Some 0 \<and> in_range s' port ID
          \<and> (\<exists>b. ds_encap_ring s' = ds_encap_ring s @ [b] \<and> mb_data b = concat xs \<and> mb_protocol_type b = ucast ptype)
          \<and> (\<forall>T' p' xs'. asm_inv T' p' xs' {} (row_of s' port ID ! k)) \<and> fi_time_stamp (row_of s' port ID ! k) = 0
       else r = None \<and> ds_encap_ring s' = ds_encap_ring s \<and> job_inv port ID k T ptype xs (insert i R) s')"
proof -
  have "\<exists>s1. (if piece_position xs i = FRAG_START
        then start_reassemble_pdu env (Some datafield) var (push_bit 3 T OR of_nat i) hl
               (of_nat (length (frag_data xs i))) nt bi port s
        else keep_reassemble_pdu env (piece_position xs i) (Some datafield)
               (v_fragment_ID (variable_header_value var)) (push_bit 3 T OR of_nat i)
               (of_nat (length (frag_data xs i))) bi port s)
      = Inr (if insert i R = {..<length xs} then 1 else 0, int k, s1)
    \<and> job_inv port ID k T ptype xs (insert i R) s1 \<and> row_of s1 port ID ! (1 - k) = row_of s port ID ! (1 - k)
    \<and> ds_encap_ring s1 = ds_encap_ring s \<and> ds_freed s1 = ds_freed s"
  proof (cases "i = 0")
    case True
    then have p: "piece_position xs i = FRAG_START" and l: "fits_start var hl xs" "nt = ptype"
      using len by (simp_all add: piece_position_def)
    show ?thesis
      using start_piece [OF j [unfolded ID_def] xs T, of env hl datafield bi] i(2) env(1) ptype l d True
      unfolding p by (simp add: fits_start_def ID_def)
  next
    case False
    then have p: "piece_position xs i \<noteq> FRAG_START" by (simp add: piece_position_def frag_position_defs)
    show ?thesis
      using keep_piece [OF j [unfolded ID_def] xs T _ i d, of env bi] False p by (simp add: ID_def)
  qed
  then obtain s1 where s1: "(if piece_position xs i = FRAG_START
        then start_reassemble_pdu env (Some datafield) var (push_bit 3 T OR of_nat i) hl
               (of_nat (length (frag_data xs i))) nt bi port s
        else keep_reassemble_pdu env (piece_position xs i) (Some datafield)
               (v_fragment_ID (variable_header_value var)) (push_bit 3 T OR of_nat i)
               (of_nat (length (frag_data xs i))) bi port s)
      = Inr (if insert i R = {..<length xs} then 1 else 0, int k, s1)"
    "job_inv port ID k T ptype xs (insert i R) s1" "ds_encap_ring s1 = ds_encap_ring s" "ds_freed s1 = ds_freed s"
    "row_of s1 port ID ! (1 - k) = row_of s port ID ! (1 - k)"
    by blast
  show ?thesis
  proof (cases "insert i R = {..<length xs}")
    case True
    obtain b s' where f: "finish_at env port ID (int k) s1 = Inr (0, s')"
      "mb_data b = concat xs" "mb_protocol_type b = ucast ptype"
      "ds_encap_ring s' = ds_encap_ring s1 @ [b]" "ds_freed s' = ds_freed s1" "in_range s' port ID"
      "\<forall>T' p' xs'. asm_inv T' p' xs' {} (row_of s' port ID ! k)" "fi_time_stamp (row_of s' port ID ! k) = 0"
      "row_of s' port ID ! (1 - k) = row_of s1 port ID ! (1 - k)"
      using finish_job [OF s1(2) [unfolded True] xs env(2)] by blast
    show ?thesis
      unfolding reassemble_fragment_def s1(1) bind_ok.simps prod.case
      using f s1(3-5) True by (simp add: ID_def [symmetric])
  next
    case False
    then show ?thesis
      unfolding reassemble_fragment_def s1(1) bind_ok.simps prod.case using s1(2-5) by simp
  qed
qed

definition receive_pieces ::
    "RX_ENV \<Rightarrow> GSE_VARIABLE_HEADER \<Rightarrow> u16 \<Rightarrow> u16 \<Rightarrow> u16 \<Rightarrow> u8 list list \<Rightarrow> nat \<Rightarrow> nat list \<Rightarrow> DECAP_STATE
     \<Rightarrow> DECAP_STATE outcome" where
  "receive_pieces env var hl T ptype xs port =
     (\<lambda>order s. for_each order (\<lambda>i st. bind_ok
        (reassemble_fragment env (piece_position xs i) (frag_data xs i) var (push_bit 3 T OR of_nat i) hl
           (of_nat (length (frag_data xs i))) ptype (-1) port st)
        (\<lambda>(_, _, st'). Inr st')) s)"

lemma receive_rest:
  fixes var :: GSE_VARIABLE_HEADER
  defines "ID \<equiv> unat (v_fragment_ID (variable_header_value var))"
  assumes xs: "pieces_ok xs" and T: "T < 8192" and env: "fresh_mbuf env xs" "rx_ring_ok env"
    and ptype: "ptype = PROTOCOL_IPV4 \<or> ptype = PROTOCOL_IPV6" and hl: "fits_start var hl xs"
  shows "job_inv port ID k T ptype xs R s \<Longrightarrow> distinct order \<Longrightarrow> set order \<inter> R = {} \<Longrightarrow>
    set order \<union> R = {..<length xs} \<Longrightarrow> order \<noteq> [] \<Longrightarrow>
    \<exists>b s'. receive_pieces env var hl T ptype xs port order s = Inr s' \<and> mb_data b = concat xs
      \<and> mb_protocol_type b = ucast ptype
      \<and> ds_encap_ring s' = ds_encap_ring s @ [b] \<and> ds_freed s' = ds_freed s
      \<and> (\<forall>T' p' xs'. asm_inv T' p' xs' {} (row_of s' port ID ! k))"
proof (induction order arbitrary: R s)
  case (Cons i order)
  have i: "i < length xs" "i \<notin> R" using Cons.prems(3,4) by auto
  note step = receive_piece [OF Cons.prems(1) [unfolded ID_def] xs T i env ptype, of hl ptype "frag_data xs i" "-1"]
  obtain r s1 where r: "reassemble_fragment env (piece_position xs i) (frag_data xs i) var (push_bit 3 T OR of_nat i) hl
      (of_nat (length (frag_data xs i))) ptype (-1) port s = Inr (r, int k, s1)" "ds_freed s1 = ds_freed s"
    "if insert i R = {..<length xs}
       then r = Some 0 \<and> in_range s1 port ID
          \<and> (\<exists>b. ds_encap_ring s1 = ds_encap_ring s @ [b] \<and> mb_data b = concat xs \<and> mb_protocol_type b = ucast ptype)
          \<and> (\<forall>T' p' xs'. asm_inv T' p' xs' {} (row_of s1 port ID ! k)) \<and> fi_time_stamp (row_of s1 port ID ! k) = 0
       else r = None \<and> ds_encap_ring s1 = ds_encap_ring s \<and> job_inv port ID k T ptype xs (insert i R) s1"
    using step [OF _ ] hl unfolding ID_def by (simp del: of_nat_unat) blast
  have un: "receive_pieces env var hl T ptype xs port (i # order) s = receive_pieces env var hl T ptype xs port order s1"
    by (simp add: receive_pieces_def r(1))
  show ?case
  proof (cases "order = []")
    case True
    then have "insert i R = {..<length xs}" using Cons.prems(4) by simp
    then show ?thesis using r(2,3) unfolding un by (simp add: True receive_pieces_def) blast
  next
    case False
    then obtain y where "y \<in> set order" using last_in_set by blast
    then have "y \<in> {..<length xs}" "y \<notin> insert i R" using Cons.prems(2-4) by auto
    then have "insert i R \<noteq> {..<length xs}" by blast
    then have m: "job_inv port ID k T ptype xs (insert i R) s1" "ds_encap_ring s1 = ds_encap_ring s"
      using r(3) by simp_all
    show ?thesis
      using Cons.IH [OF m(1)] Cons.prems(2-4) False m(2) r(2) unfolding un by auto
  qed
qed simp

section \<open>Faults and checks\<close>

text \<open>The shape every buffer has after \<open>init_frag_info\<close>.\<close>

definition fi_shape :: "FRAG_INFO \<Rightarrow> bool" where
  "fi_shape fi \<longleftrightarrow> length (fi_frag_len fi) = FRAG_MAX_NUM \<and> length (fi_data_addr fi) = FRAG_MAX_NUM
     \<and> list_all (\<lambda>a. case a of None \<Rightarrow> True | Some buf \<Rightarrow> length buf = FRAG_MAX_LENGTH) (fi_data_addr fi)"

definition row_shape :: "DECAP_STATE \<Rightarrow> nat \<Rightarrow> nat \<Rightarrow> bool" where
  "row_shape s port ID \<longleftrightarrow> in_range s port ID \<and> fi_shape (row_of s port ID ! 0) \<and> fi_shape (row_of s port ID ! 1)
     \<and> ds_index_list s ! port ! ID \<noteq> [] \<and> set (ds_index_list s ! port ! ID) \<subseteq> {0, 1}"

lemma select_in_shape:
  assumes "row_shape s port ID"
  shows "\<exists>k s1. select_buffer s port ID ts = Inr (int k, s1) \<and> k < FRAG_BUFFER_NUM
    \<and> load_fi s1 port ID (int k) = Inr (row_of s port ID ! k) \<and> fi_shape (row_of s port ID ! k)"
proof -
  have r: "in_range s port ID" and sh: "fi_shape (row_of s port ID ! 0)" "fi_shape (row_of s port ID ! 1)"
    using assms by (simp_all add: row_shape_def)
  have len: "length (row_of s port ID) = FRAG_BUFFER_NUM" using r by (simp add: in_range_def)
  have two: "0 < FRAG_BUFFER_NUM" "1 < FRAG_BUFFER_NUM" by (simp_all add: FRAG_BUFFER_NUM_def)
  note load = load_fi_ok [OF r two(1)] load_fi_ok [OF r two(2)]
  consider "fi_time_stamp (row_of s port ID ! 0) = ts" | "fi_time_stamp (row_of s port ID ! 0) \<noteq> ts"
      "fi_time_stamp (row_of s port ID ! 1) = ts"
    | "fi_time_stamp (row_of s port ID ! 0) \<noteq> ts" "fi_time_stamp (row_of s port ID ! 1) \<noteq> ts" by blast
  then show ?thesis
  proof cases
    case 1
    then have "select_buffer s port ID ts = Inr (int 0, s)"
      using r len by (simp add: select_buffer_def in_range_def row_of_def find_time_stamp_ok)
    then show ?thesis using load(1) sh(1) two by blast
  next
    case 2
    then have "select_buffer s port ID ts = Inr (int 1, s)"
      using r len by (simp add: select_buffer_def in_range_def row_of_def find_time_stamp_ok)
    then show ?thesis using load(2) sh(2) two by blast
  next
    case 3
    obtain x ks where x: "ds_index_list s ! port ! ID = x # ks" "x = 0 \<or> x = 1"
      using assms by (cases "ds_index_list s ! port ! ID") (auto simp: row_shape_def)
    define k where "k = nat x"
    have k: "x = int k" "k = 0 \<or> k = 1" using x(2) by (auto simp: k_def)
    have "select_buffer s port ID ts = Inr (int k, rotate_index s port ID)"
      using select_new_buffer [OF r 3 x(1)] k(1) by simp
    moreover have "load_fi (rotate_index s port ID) port ID (int k) = Inr (row_of s port ID ! k)"
      using load_fi_ok [of "rotate_index s port ID" port ID k] r k(2) two by auto
    ultimately show ?thesis using k(2) sh two by blast
  qed
qed

lemma keep_seq_fault:
  assumes "row_shape s port (unat ID)" "5 < unat (ts AND 7)"
  shows "keep_reassemble_pdu env ft (Some datafield) ID ts len bi port s = Inl OutOfBounds"
proof -
  obtain k s1 where "select_buffer s port (unat ID) (drop_bit 3 ts) = Inr (int k, s1)"
    "load_fi s1 port (unat ID) (int k) = Inr (row_of s port (unat ID) ! k)" "fi_shape (row_of s port (unat ID) ! k)"
    using select_in_shape [OF assms(1)] by blast
  moreover from this(3) have "drop_duplicate (unat (ts AND 7)) (row_of s port (unat ID) ! k) = Inl OutOfBounds"
    using assms(2) by (simp add: drop_duplicate_def fi_shape_def load_at_def FRAG_MAX_NUM_def)
  ultimately show ?thesis by (simp add: keep_reassemble_pdu_def Let_def)
qed

lemma collect_room:
  "collect_fragments fi is room off c = Inr (Some (room', off', c')) \<Longrightarrow> length room' = length room"
proof (induction "is" arbitrary: room off c)
  case (Cons i "is")
  then obtain room1 off1 c1 where "collect_fragments fi is room1 off1 c1 = Inr (Some (room', off', c'))"
    "length room1 = length room"
    by (auto simp: bind_ok_eq_Inr_iff split: if_splits option.splits dest!: put_bytes_length)
  then show ?case using Cons.IH by simp
qed simp

lemma collect_crc:
  "collect_fragments fi is room off c = Inr (Some (room', off', c')) \<Longrightarrow> is \<noteq> [] \<Longrightarrow>
   unat (fi_frag_recv_num fi) - 1 \<le> List.last is \<Longrightarrow>
   \<exists>buf w. fi_data_addr fi ! List.last is = Some buf
     \<and> load32 buf (unat (fi_frag_len fi ! List.last is) - 4) = Inr w \<and> c' = bswap32 w"
proof (induction "is" arbitrary: room off c)
  case (Cons i "is")
  obtain buf where buf: "fi_data_addr fi ! i = Some buf" "i < length (fi_data_addr fi)"
    using Cons.prems(1) by (auto simp: bind_ok_eq_Inr_iff load_at_def split: if_splits option.splits)
  have i: "i < length (fi_frag_len fi)" "load_at (fi_frag_len fi) i = Inr (fi_frag_len fi ! i)"
    using Cons.prems(1) buf by (auto simp: bind_ok_eq_Inr_iff load_at_def split: if_splits)
  show ?case
  proof (cases "is = []")
    case True
    then have n: "\<not> i < unat (fi_frag_recv_num fi) - 1" using Cons.prems(3) by simp
    then obtain w where "load32 buf (unat (fi_frag_len fi ! i) - 4) = Inr w" "c' = bswap32 w"
      using Cons.prems(1) buf i True by (auto simp: bind_ok_eq_Inr_iff split: if_splits)
    then show ?thesis using buf True by simp
  next
    case False
    obtain room1 off1 c1 where "collect_fragments fi is room1 off1 c1 = Inr (Some (room', off', c'))"
      using Cons.prems(1) buf i by (auto simp: bind_ok_eq_Inr_iff split: if_splits)
    then show ?thesis using Cons.IH False Cons.prems(3) by simp
  qed
qed simp

section \<open>The search for timeouts\<close>

text \<open>What it does to one device and fragment ID (a cell), and that it leaves the other ones alone.\<close>

definition expired :: "u64 \<Rightarrow> FRAG_INFO \<Rightarrow> bool" where
  "expired t fi \<longleftrightarrow> 0 < fi_t0_us fi \<and> 5 \<le> t - fi_t0_us fi"

definition head_index :: "DECAP_STATE \<Rightarrow> nat \<Rightarrow> nat \<Rightarrow> nat" where
  "head_index s i k = nat (hd (ds_index_list s ! i ! k))"

definition head_buffer :: "DECAP_STATE \<Rightarrow> nat \<Rightarrow> nat \<Rightarrow> FRAG_INFO" where
  "head_buffer s i k = row_of s i k ! head_index s i k"

definition timeout_ready :: "DECAP_STATE \<Rightarrow> nat \<times> nat \<Rightarrow> bool" where
  "timeout_ready s = (\<lambda>(i, k). in_range s i k \<and> (\<exists>h < FRAG_BUFFER_NUM. \<exists>js. ds_index_list s ! i ! k = int h # js))"

definition timed :: "u64 \<Rightarrow> DECAP_STATE \<Rightarrow> DECAP_STATE \<Rightarrow> nat \<times> nat \<Rightarrow> bool" where
  "timed t s s' = (\<lambda>(i, k).
     row_of s' i k = (row_of s i k)[head_index s i k := (if expired t (head_buffer s i k)
       then reset_frag_info (head_buffer s i k) else (head_buffer s i k)\<lparr>fi_timeout_flag := 0\<rparr>)]
   \<and> ds_index_list s' ! i ! k = (if expired t (head_buffer s i k)
       then rotate1 (ds_index_list s ! i ! k) else ds_index_list s ! i ! k))"

definition timeout_frees :: "u64 \<Rightarrow> DECAP_STATE \<Rightarrow> nat \<times> nat \<Rightarrow> MBUF list" where
  "timeout_frees t s = (\<lambda>(i, k). if expired t (head_buffer s i k)
     then (case fi_ptr_pdu (head_buffer s i k) of None \<Rightarrow> [] | Some b \<Rightarrow> [b]) else [])"

definition same_cell :: "DECAP_STATE \<Rightarrow> DECAP_STATE \<Rightarrow> nat \<times> nat \<Rightarrow> bool" where
  "same_cell s s' = (\<lambda>(i, k). in_range s' i k = in_range s i k \<and> row_of s' i k = row_of s i k
     \<and> ds_index_list s' ! i ! k = ds_index_list s ! i ! k)"

lemma same_cell_transfer:
  "same_cell s s' c \<Longrightarrow> timeout_ready s' c = timeout_ready s c"
  "same_cell s s' c \<Longrightarrow> timed t s' s'' c = timed t s s'' c"
  "same_cell s s' c \<Longrightarrow> timeout_frees t s' c = timeout_frees t s c"
  "same_cell s s' c \<Longrightarrow> same_cell s' s'' c \<Longrightarrow> same_cell s s'' c"
  "same_cell s' s'' c \<Longrightarrow> timed t s s' c = timed t s s'' c"
  by (cases c; simp add: same_cell_def timeout_ready_def timed_def timeout_frees_def head_buffer_def head_index_def)+

lemma in_range_put_fi_other: "in_range s port ID \<Longrightarrow> in_range (put_fi s port ID k fi) p i = in_range s p i"
  by (cases "p = port"; cases "i = ID")
    (auto simp: in_range_def put_fi_def row_of_def)

lemma row_of_put_fi_other: "in_range s port ID \<Longrightarrow> (p, i) \<noteq> (port, ID) \<Longrightarrow> row_of (put_fi s port ID k fi) p i = row_of s p i"
  by (cases "p = port") (auto simp: in_range_def put_fi_def row_of_def)

lemma rotate_index_other:
  "in_range s port ID \<Longrightarrow> (p, i) \<noteq> (port, ID) \<Longrightarrow> ds_index_list (rotate_index s port ID) ! p ! i = ds_index_list s ! p ! i"
  by (cases "p = port") (auto simp: in_range_def rotate_index_def)

lemma rotate_index_range: "in_range (rotate_index s port ID) p i = in_range s p i"
  by (cases "p = port"; cases "port < length (ds_index_list s)") (auto simp: in_range_def rotate_index_def row_of_def)

lemma timeout_cell:
  assumes "timeout_ready s (port, ID)"
  shows "\<exists>s'. timeout_one t port ID s = Inr s' \<and> timed t s s' (port, ID)
    \<and> ds_freed s' = ds_freed s @ timeout_frees t s (port, ID)
    \<and> ds_encap_ring s' = ds_encap_ring s \<and> ds_previous_mac s' = ds_previous_mac s
    \<and> (\<forall>c. c \<noteq> (port, ID) \<longrightarrow> same_cell s s' c)"
proof -
  obtain k ks where rng: "in_range s port ID" and lst: "ds_index_list s ! port ! ID = int k # ks" and k: "k < FRAG_BUFFER_NUM"
    using assms by (auto simp: timeout_ready_def)
  define fi where "fi = row_of s port ID ! k"
  have hd: "head_index s port ID = k" "head_buffer s port ID = fi"
    using lst by (simp_all add: head_index_def head_buffer_def fi_def)
  note load = load_fi_ok [OF rng k, folded fi_def]
  have ix: "load_at (ds_index_list s) port = Inr (ds_index_list s ! port)"
    "load_at (ds_index_list s ! port) ID = Inr (int k # ks)"
    using rng lst by (simp_all add: in_range_def)
  show ?thesis
  proof (cases "expired t fi")
    case True
    then have c: "(if 0 < fi_t0_us fi then if 5 \<le> t - fi_t0_us fi then 1 else 0 else 0) = (1 :: int)"
      by (simp add: expired_def)
    have nx: "next_buffer s port ID = Inr (int k, rotate_index s port ID)"
      using rng lst by (simp add: next_buffer_def rotate_index_def in_range_def)
    let ?s1 = "free_pdu (fi_ptr_pdu fi) (rotate_index s port ID)"
    let ?s' = "put_fi ?s1 port ID k (reset_frag_info fi)"
    have in1: "in_range ?s1 p i = in_range s p i" "row_of ?s1 p i = row_of s p i" for p i
      using rotate_index_range [of s port ID p i]
      by (auto simp: free_pdu_def in_range_def row_of_def split: option.split)
    have rng1: "in_range ?s1 port ID" using rng in1 by simp
    have z: "(reset_frag_info fi)\<lparr>fi_timeout_flag := 0\<rparr> = reset_frag_info fi" by (simp add: reset_frag_info_def)
    have run: "timeout_one t port ID s = Inr ?s'"
      unfolding timeout_one_def ix bind_ok.simps list.case load Let_def c nx prod.case
      using store_fi_ok [OF rng1 k] by (simp add: z)
    have l: "ds_index_list (rotate_index s port ID) ! port ! ID = ks @ [int k]"
      using rng lst by (simp add: rotate_index_def in_range_def)
    have f: "ds_index_list ?s1 = ds_index_list (rotate_index s port ID)" "ds_encap_ring ?s1 = ds_encap_ring s"
      "ds_previous_mac ?s1 = ds_previous_mac s"
      "ds_freed ?s1 = ds_freed s @ (case fi_ptr_pdu fi of None \<Rightarrow> [] | Some b \<Rightarrow> [b])"
      by (simp_all add: free_pdu_def rotate_index_def split: option.split)
    have "same_cell s ?s' c" if "c \<noteq> (port, ID)" for c
      using that rng1 rng by (cases c) (simp add: same_cell_def in_range_put_fi_other row_of_put_fi_other in1 f rotate_index_other)
    moreover have "timed t s ?s' (port, ID)"
      using True l lst hd in1 f row_of_put_fi [OF rng1] by (simp add: timed_def)
    ultimately show ?thesis using run True hd f by (simp add: timeout_frees_def)
  next
    case False
    then have c: "(if 0 < fi_t0_us fi then if 5 \<le> t - fi_t0_us fi then 1 else 0 else 0) = (0 :: int)"
      by (auto simp: expired_def)
    let ?s' = "put_fi s port ID k (fi\<lparr>fi_timeout_flag := 0\<rparr>)"
    have run: "timeout_one t port ID s = Inr ?s'"
      unfolding timeout_one_def ix bind_ok.simps list.case load Let_def c
      using store_fi_ok [OF rng k] by simp
    have "same_cell s ?s' c" if "c \<noteq> (port, ID)" for c
      using that rng by (cases c) (simp add: same_cell_def in_range_put_fi_other row_of_put_fi_other)
    moreover have "timed t s ?s' (port, ID)" using False hd row_of_put_fi [OF rng] by (simp add: timed_def)
    ultimately show ?thesis using run False hd by (simp add: timeout_frees_def)
  qed
qed

lemma timeout_cells:
  assumes "distinct cs" "\<forall>c \<in> set cs. timeout_ready s c"
  shows "\<exists>s'. for_each cs (\<lambda>c. timeout_one t (fst c) (snd c)) s = Inr s' \<and> (\<forall>c \<in> set cs. timed t s s' c)
    \<and> (\<forall>c. c \<notin> set cs \<longrightarrow> same_cell s s' c) \<and> ds_freed s' = ds_freed s @ concat (map (timeout_frees t s) cs)
    \<and> ds_encap_ring s' = ds_encap_ring s \<and> ds_previous_mac s' = ds_previous_mac s"
  using assms
proof (induction cs arbitrary: s)
  case Nil
  then show ?case by (auto simp: same_cell_def)
next
  case (Cons c cs)
  obtain s1 where s1: "timeout_one t (fst c) (snd c) s = Inr s1" "timed t s s1 c"
    "ds_freed s1 = ds_freed s @ timeout_frees t s c" "ds_encap_ring s1 = ds_encap_ring s"
    "ds_previous_mac s1 = ds_previous_mac s" "\<forall>d. d \<noteq> c \<longrightarrow> same_cell s s1 d"
    using timeout_cell [of s "fst c" "snd c" t] Cons.prems(2) by auto
  have same: "same_cell s s1 d" if "d \<in> set cs" for d
    using s1(6) Cons.prems(1) that by (metis distinct.simps(2))
  have "\<forall>d \<in> set cs. timeout_ready s1 d" using same Cons.prems(2) same_cell_transfer(1) by (metis list.set_intros(2))
  with Cons.IH [of s1] Cons.prems(1) obtain s2 where
    s2: "for_each cs (\<lambda>c. timeout_one t (fst c) (snd c)) s1 = Inr s2" "\<forall>d \<in> set cs. timed t s1 s2 d"
      "\<forall>d. d \<notin> set cs \<longrightarrow> same_cell s1 s2 d" "ds_freed s2 = ds_freed s1 @ concat (map (timeout_frees t s1) cs)"
      "ds_encap_ring s2 = ds_encap_ring s1" "ds_previous_mac s2 = ds_previous_mac s1" by auto
  have "concat (map (timeout_frees t s1) cs) = concat (map (timeout_frees t s) cs)"
    using same same_cell_transfer(3) by (intro arg_cong [where f = concat] map_cong refl) blast
  moreover have "timed t s s2 d" if "d \<in> set cs" for d
    using s2(2) same that same_cell_transfer(2) by blast
  moreover have "timed t s s2 c" using s1(2) s2(3) Cons.prems(1) same_cell_transfer(5) by (metis distinct.simps(2))
  moreover have "same_cell s s2 d" if "d \<notin> set (c # cs)" for d
    using s1(6) s2(3) that same_cell_transfer(4) by (metis list.set_intros)
  ultimately show ?case using s1 s2 by auto
qed

lemma for_each_product:
  "for_each xs (\<lambda>i. for_each ys (f i)) s = for_each (List.product xs ys) (\<lambda>c. f (fst c) (snd c)) s"
proof (induction xs arbitrary: s)
  case (Cons x xs)
  have "for_each (map (Pair x) ys) (\<lambda>c. f (fst c) (snd c)) s = for_each ys (f x) s" for s
    by (induction ys arbitrary: s) (simp_all cong: bind_ok_cong)
  then show ?case using Cons by (simp add: for_each_append cong: bind_ok_cong)
qed simp

lemma concat_product:
  "(\<And>i k. g (i, k) = h i k) \<Longrightarrow> concat (map g (List.product xs ys)) = concat (map (\<lambda>i. concat (map (h i) ys)) xs)"
proof (induction xs)
  case (Cons x xs)
  then have "map g (map (Pair x) ys) = map (h x) ys" by simp
  then show ?case using Cons by (simp del: map_map)
qed simp

lemma in_concat_product:
  "i \<in> set xs \<Longrightarrow> k \<in> set ys \<Longrightarrow> b \<in> set (h i k) \<Longrightarrow> b \<in> set (concat (map (\<lambda>i. concat (map (h i) ys)) xs))"
  by auto

section \<open>Properties\<close>

text \<open>C5: the fragments of a PDU may arrive in any order: once all of them have been received, exactly
  one mbuf with exactly the PDU and its protocol type is put on the ring, nothing is freed, and the
  buffer is unused again.\<close>

theorem reassembly_in_any_order:
  assumes "job_inv port (unat (v_fragment_ID (variable_header_value var))) k T ptype xs {} s"
    "pieces_ok xs" "T < 8192" "fresh_mbuf env xs" "rx_ring_ok env"
    "ptype \<in> {PROTOCOL_IPV4, PROTOCOL_IPV6}" "fits_start var hl xs"
    "distinct order" "set order = {0..<length xs}"
  shows "\<exists>b s'. receive_pieces env var hl T ptype xs port order s = Inr s' \<and> mb_data b = concat xs
    \<and> mb_protocol_type b = ucast ptype \<and> ds_encap_ring s' = ds_encap_ring s @ [b] \<and> ds_freed s' = ds_freed s
    \<and> asm_inv T ptype xs {} (row_of s' port (unat (v_fragment_ID (variable_header_value var))) ! k)"
proof -
  have p: "ptype = PROTOCOL_IPV4 \<or> ptype = PROTOCOL_IPV6" using assms(6) by simp
  have "order \<noteq> []" using assms(2,9) by (auto simp: pieces_ok_def)
  then show ?thesis
    using receive_rest [OF assms(2-5) p assms(7,1,8)] assms(9) by (auto simp: atLeast0LessThan)
qed

definition zero_frag_info :: FRAG_INFO where
  "zero_frag_info = \<lparr>fi_time_stamp = 0, fi_pdu_type = 0, fi_max_frag_seq = 0, fi_pdu_recv_len = 0,
     fi_frag_recv_num = 0, fi_recv_end = 0, fi_t0_us = 0, fi_t1_us = 0, fi_timeout_flag = 0,
     fi_frag_len = replicate FRAG_MAX_NUM 0, fi_data_addr = replicate FRAG_MAX_NUM None, fi_protocol_type = 0,
     fi_pdu_length = 0, fi_ptr_pdu = None, fi_crc = 0\<rparr>"

text \<open>The globals of the program at its start, and after \<open>init_decap_mem\<close>.\<close>

definition boot_decap_state :: DECAP_STATE where
  "boot_decap_state = \<lparr>
     ds_frag_info = replicate MAX_DEVICE_NUM (replicate MAX_FRAG_ID (replicate FRAG_BUFFER_NUM zero_frag_info)),
     ds_index_list = [], ds_previous_mac = \<lparr>pm_label_type = 0, pm_mac_length = 0, pm_mac_address = [0, 0, 0, 0, 0, 0]\<rparr>,
     ds_encap_ring = [], ds_freed = []\<rparr>"

definition start_decap_state :: DECAP_STATE where
  "start_decap_state = init_decap_mem (replicate FRAG_MAX_LENGTH 0xAA) boot_decap_state"

lemma start_row:
  assumes "port < MAX_DEVICE_NUM" "ID < MAX_FRAG_ID"
  shows "in_range start_decap_state port ID"
    "row_of start_decap_state port ID = replicate FRAG_BUFFER_NUM (init_frag_entry (replicate FRAG_MAX_LENGTH 0xAA) zero_frag_info)"
    "ds_index_list start_decap_state ! port ! ID = [0, 1]"
  using assms upt_2 by (simp_all add: start_decap_state_def init_decap_mem_def boot_decap_state_def in_range_def
      row_of_def init_frag_info_def)

lemma start_job:
  assumes "port < MAX_DEVICE_NUM" "ID < MAX_FRAG_ID"
  shows "job_inv port ID 0 T ptype xs {} start_decap_state"
  using assms start_row [OF assms(1,2)]
  by (auto simp: job_inv_def FRAG_BUFFER_NUM_def asm_inv_def init_frag_entry_def zero_frag_info_def)

definition sample_rx_env :: RX_ENV where
  "sample_rx_env = \<lparr>rx_alloc = Some \<lparr>mb_data = [], mb_tail = replicate 2000 0xAA, mb_protocol_type = 0,
     mb_delay_time_mark_flag = 0, mb_inrouter_time = 0\<rparr>, rx_ring_ok = True, rx_now = 1000\<rparr>"

definition sample_var :: "u8 \<Rightarrow> u16 \<Rightarrow> GSE_VARIABLE_HEADER" where
  "sample_var ID total_length = \<lparr>variable_header_size = \<lparr>fragment_ID_size = 1, total_length_size = 2,
       protocol_type_size = 2, label_size = 0\<rparr>,
     variable_header_value = \<lparr>v_fragment_ID = ID, v_total_length = total_length, v_protocol_type = FRAG_SEQUENCE,
       v_label = [0, 0, 0, 0, 0, 0]\<rparr>\<rparr>"

lemma sample_pieces_ok:
  "pieces_ok [[0x45, 1, 2], [3, 4], [5]]" "fresh_mbuf sample_rx_env [[0x45, 1, 2], [3, 4], [5]]"
  "rx_ring_ok sample_rx_env" "fits_start (sample_var 5 12) 6 [[0x45, 1, 2], [3, 4], [5]]"
proof -
  have "length (frag_data [[0x45, 1, 2], [3, 4], [5]] i) \<le> 1518" if "i < 3" for i
  proof -
    have "i = 0 \<or> i = 1 \<or> i = 2" using that by arith
    then show ?thesis by (elim disjE) (simp_all add: frag_data_def)
  qed
  then show "pieces_ok [[0x45, 1, 2], [3, 4], [5]]"
    by (simp add: pieces_ok_def FRAG_MAX_NUM_def FRAG_MAX_LENGTH_def)
qed (simp_all add: fresh_mbuf_def sample_rx_env_def fits_start_def sample_var_def)

theorem reassembly_in_any_order_witness:
  "\<exists>b s'. receive_pieces sample_rx_env (sample_var 5 12) 6 9 PROTOCOL_IPV4 [[0x45, 1, 2], [3, 4], [5]] 0 [2, 0, 1]
      start_decap_state = Inr s'
    \<and> mb_data b = [0x45, 1, 2, 3, 4, 5] \<and> ds_encap_ring s' = [b] \<and> ds_freed s' = []"
proof -
  let ?xs = "[[0x45, 1, 2], [3, 4], [5]] :: u8 list list"
  have ID: "unat (v_fragment_ID (variable_header_value (sample_var 5 12))) = 5" by (simp add: sample_var_def)
  have j: "job_inv 0 (unat (v_fragment_ID (variable_header_value (sample_var 5 12)))) 0 9 PROTOCOL_IPV4 ?xs {} start_decap_state"
    unfolding ID by (rule start_job) (simp_all add: MAX_DEVICE_NUM_def MAX_FRAG_ID_def)
  have "set [2, 0, 1] = {0..<length ?xs}" by auto
  then show ?thesis
    using reassembly_in_any_order [OF j sample_pieces_ok(1) _ sample_pieces_ok(2,3) _ sample_pieces_ok(4), of "[2, 0, 1]"]
    by (auto simp: start_decap_state_def boot_decap_state_def init_decap_mem_def)
qed

text \<open>C11: whatever fragments were collected, a PDU is put on the ring only when the CRC-32 of its
  \<open>pdu_length\<close> bytes is the one carried by the last fragment; in every case the buffer is reset and
  the mbuf is either put on the ring or freed, never both and never lost.\<close>

theorem delivered_pdu_has_crc:
  assumes "finish_reassemble_pdu env fi = Inr (ret, fi', enq, freed)"
    "fi_ptr_pdu fi = Some mbuf" "length (mb_data mbuf) = unat (fi_pdu_length fi)" "0 < fi_frag_recv_num fi"
  shows "fi' = reset_frag_info fi \<and> (enq = None) \<noteq> (freed = None)
    \<and> (case enq of None \<Rightarrow> True | Some b \<Rightarrow> ret = 0 \<and> rx_ring_ok env
         \<and> length (mb_data b) = unat (fi_pdu_length fi)
         \<and> (\<exists>buf w. fi_data_addr fi ! (unat (fi_frag_recv_num fi) - 1) = Some buf
              \<and> load32 buf (unat (fi_frag_len fi ! (unat (fi_frag_recv_num fi) - 1)) - 4) = Inr w
              \<and> crc32_lookup_table (mb_data b) = bswap32 w))"
proof -
  let ?n = "unat (fi_frag_recv_num fi)" and ?L = "unat (fi_pdu_length fi)"
  have pos: "0 < ?n" using assms(4) by (simp add: word_less_nat_alt)
  show ?thesis
  proof (cases "length (mb_data mbuf) < unat (fi_pdu_recv_len fi)
      \<or> (fi_pdu_type fi \<noteq> IP_PACKET \<and> fi_pdu_type fi \<noteq> CTRLMSG_FWD \<and> fi_pdu_type fi \<noteq> CTRLMSG_RTN)")
    case True
    then have "enq = None" "freed = Some mbuf" "fi' = reset_frag_info fi"
      using assms(1,2) by (auto simp: finish_reassemble_pdu_def split: if_splits)
    then show ?thesis by simp
  next
    case False
    then obtain r where r: "collect_fragments fi [0..<?n] (mb_data mbuf @ mb_tail mbuf) 0 (fi_crc fi) = Inr r"
      using assms(1,2) by (auto simp: finish_reassemble_pdu_def bind_ok_eq_Inr_iff split: if_splits)
    show ?thesis
    proof (cases r)
      case None
      then have "enq = None" "freed = Some mbuf" "fi' = reset_frag_info fi"
        using assms(1,2) False r by (auto simp: finish_reassemble_pdu_def split: if_splits)
      then show ?thesis by simp
    next
      case (Some x)
      then obtain room off c where x: "r = Some (room, off, c)" by (cases x) auto
      have "[0..<?n] \<noteq> []" "List.last [0..<?n] = ?n - 1" using pos by simp_all
      then obtain buf w where w: "fi_data_addr fi ! (?n - 1) = Some buf"
        "load32 buf (unat (fi_frag_len fi ! (?n - 1)) - 4) = Inr w" "c = bswap32 w"
        using collect_crc [OF r [unfolded x]] by auto
      have len: "length room = length (mb_data mbuf @ mb_tail mbuf)"
        using collect_room [OF r [unfolded x]] .
      then have "length (take (length (mb_data mbuf)) room) = ?L" using assms(3) by simp
      then show ?thesis
        using assms(1,2,3) False r x w
        by (auto simp: finish_reassemble_pdu_def Let_def split: if_splits)
    qed
  qed
qed

definition sample_complete :: FRAG_INFO where
  "sample_complete = zero_frag_info\<lparr>fi_pdu_type := IP_PACKET, fi_frag_recv_num := 1, fi_pdu_recv_len := 2, fi_pdu_length := 2,
     fi_frag_len := [6, 0, 0, 0, 0, 0],
     fi_data_addr := [Some ([7, 8] @ le32 (bswap32 (crc32_lookup_table [7, 8]))), None, None, None, None, None],
     fi_ptr_pdu := Some \<lparr>mb_data = [0, 0], mb_tail = [0, 0, 0, 0], mb_protocol_type = 0x800,
       mb_delay_time_mark_flag = 0, mb_inrouter_time = 0\<rparr>\<rparr>"

lemma sample_complete_delivered:
  "finish_reassemble_pdu sample_rx_env sample_complete = Inr (0, reset_frag_info sample_complete,
     Some \<lparr>mb_data = [7, 8], mb_tail = [0, 0, 0, 0], mb_protocol_type = 0x800,
       mb_delay_time_mark_flag = 0, mb_inrouter_time = 0\<rparr>, None)"
proof -
  let ?buf = "[7, 8] @ le32 (bswap32 (crc32_lookup_table [7, 8]))"
  have f: "fi_data_addr sample_complete ! 0 = Some ?buf" "fi_frag_len sample_complete ! 0 = 6"
    "length (fi_data_addr sample_complete) = 6" "length (fi_frag_len sample_complete) = 6"
    "fi_frag_recv_num sample_complete = 1" "fi_pdu_length sample_complete = 2" "fi_pdu_recv_len sample_complete = 2"
    "fi_pdu_type sample_complete = IP_PACKET" "fi_crc sample_complete = 0"
    "fi_ptr_pdu sample_complete = Some \<lparr>mb_data = [0, 0], mb_tail = [0, 0, 0, 0], mb_protocol_type = 0x800,
           mb_delay_time_mark_flag = 0, mb_inrouter_time = 0\<rparr>"
    by (simp_all add: sample_complete_def zero_frag_info_def)
  have g: "get_bytes ?buf 0 2 = Inr [7, 8]" "put_bytes [0, 0, 0, 0, 0, 0] 0 [7, 8] = Inr [7, 8, 0, 0, 0, 0 :: u8]"
    by (simp_all add: get_bytes_def put_bytes_def)
  have l: "load32 ?buf 2 = Inr (bswap32 (crc32_lookup_table [7, 8]))"
    using load32_at [of "[7, 8]" "bswap32 (crc32_lookup_table [7, 8])" "[]"] by (simp add: numeral_2_eq_2)
  have "collect_fragments sample_complete [0] [0, 0, 0, 0, 0, 0] 0 0
      = Inr (Some ([7, 8, 0, 0, 0, 0], 2, crc32_lookup_table [7, 8]))"
    using f g l by simp
  then show ?thesis
    using f by (simp add: finish_reassemble_pdu_def sample_rx_env_def)
qed

theorem delivered_pdu_has_crc_witness:
  "\<exists>buf w. fi_data_addr sample_complete ! 0 = Some buf \<and> load32 buf 2 = Inr w
     \<and> crc32_lookup_table [7, 8] = bswap32 w"
proof -
  let ?m = "\<lparr>mb_data = [0, 0], mb_tail = [0, 0, 0, 0], mb_protocol_type = 0x800,
       mb_delay_time_mark_flag = 0, mb_inrouter_time = 0\<rparr> :: MBUF"
  have "fi_ptr_pdu sample_complete = Some ?m" "length (mb_data ?m) = unat (fi_pdu_length sample_complete)"
    "0 < fi_frag_recv_num sample_complete"
    by (simp_all add: sample_complete_def)
  from delivered_pdu_has_crc [OF sample_complete_delivered this] show ?thesis
    by (simp add: sample_complete_def)
qed

text \<open>C37: a sequence number has three bits but a buffer has six fragments: every middle or end fragment
  with sequence number 6 or 7 makes \<open>keep_reassemble_pdu\<close> access \<open>frag_len\<close> behind its end, whatever
  was received before.\<close>

theorem fragment_seq_out_of_bounds:
  assumes "row_shape s port (unat ID)" "unat (timestamp_seq AND 7) \<in> {6, 7}"
  shows "keep_reassemble_pdu env ft (Some datafield) ID timestamp_seq len bi port s = Inl OutOfBounds"
  using assms by (intro keep_seq_fault) auto

lemma start_row_shape:
  assumes "port < MAX_DEVICE_NUM" "ID < MAX_FRAG_ID"
  shows "row_shape start_decap_state port ID"
  using start_row [OF assms]
  by (simp add: row_shape_def fi_shape_def list_all_iff init_frag_entry_def FRAG_BUFFER_NUM_def FRAG_MAX_NUM_def FRAG_MAX_LENGTH_def)

theorem fragment_seq_out_of_bounds_witness:
  "keep_reassemble_pdu sample_rx_env FRAG_MIDDLE (Some [1, 2, 3]) 5 0x4E 3 (-1) 0 start_decap_state = Inl OutOfBounds"
proof -
  have "row_shape start_decap_state 0 (unat (5 :: u8))"
    by (rule start_row_shape) (simp_all add: MAX_DEVICE_NUM_def MAX_FRAG_ID_def)
  then show ?thesis by (intro fragment_seq_out_of_bounds) simp_all
qed

text \<open>C38: the search for timeouts goes over all devices and fragment IDs and examines, of each, the buffer at
  the head of the index list and no other: if its first fragment is at least five units old, its mbuf is freed, the buffer is reset and goes
  to the end of the list; otherwise only its timeout flag is cleared.  No other buffer, list, mbuf or
  ring is touched, however old the fragments of the other buffers are.\<close>

theorem timeout_examines_head:
  assumes "\<forall>i < MAX_DEVICE_NUM. \<forall>k < MAX_FRAG_ID. in_range s i k
      \<and> (\<exists>h < FRAG_BUFFER_NUM. \<exists>js. ds_index_list s ! i ! k = int h # js)"
  shows "\<exists>s'. fragment_timeout t s = Inr s'
    \<and> (\<forall>i < MAX_DEVICE_NUM. \<forall>k < MAX_FRAG_ID.
         row_of s' i k = (row_of s i k)[head_index s i k := (if expired t (head_buffer s i k)
           then reset_frag_info (head_buffer s i k) else (head_buffer s i k)\<lparr>fi_timeout_flag := 0\<rparr>)]
       \<and> ds_index_list s' ! i ! k = (if expired t (head_buffer s i k)
           then rotate1 (ds_index_list s ! i ! k) else ds_index_list s ! i ! k))
    \<and> ds_freed s' = ds_freed s @ [b. i \<leftarrow> [0..<MAX_DEVICE_NUM], k \<leftarrow> [0..<MAX_FRAG_ID],
         expired t (head_buffer s i k), b \<leftarrow> (case fi_ptr_pdu (head_buffer s i k) of None \<Rightarrow> [] | Some b \<Rightarrow> [b])]
    \<and> ds_encap_ring s' = ds_encap_ring s \<and> ds_previous_mac s' = ds_previous_mac s"
proof -
  let ?cs = "List.product [0..<MAX_DEVICE_NUM] [0..<MAX_FRAG_ID]"
  have d: "distinct ?cs" "\<forall>c \<in> set ?cs. timeout_ready s c"
    using assms by (auto simp: distinct_product timeout_ready_def)
  obtain s' where s': "for_each ?cs (\<lambda>c. timeout_one t (fst c) (snd c)) s = Inr s'"
    "\<forall>c \<in> set ?cs. timed t s s' c" "ds_freed s' = ds_freed s @ concat (map (timeout_frees t s) ?cs)"
    "ds_encap_ring s' = ds_encap_ring s" "ds_previous_mac s' = ds_previous_mac s"
    using timeout_cells [OF d] by blast
  have "fragment_timeout t s = Inr s'"
    using s'(1) by (simp only: fragment_timeout_def for_each_product fst_conv snd_conv)
  moreover have "concat (map (timeout_frees t s) ?cs) = [b. i \<leftarrow> [0..<MAX_DEVICE_NUM], k \<leftarrow> [0..<MAX_FRAG_ID],
         expired t (head_buffer s i k), b \<leftarrow> (case fi_ptr_pdu (head_buffer s i k) of None \<Rightarrow> [] | Some b \<Rightarrow> [b])]"
    by (rule concat_product) (simp add: timeout_frees_def)
  moreover have "timed t s s' (i, k)" if "i < MAX_DEVICE_NUM" "k < MAX_FRAG_ID" for i k
    using s'(2) that by simp
  ultimately show ?thesis using s'(3-5) by (intro exI [of _ s']) (simp add: timed_def)
qed

text \<open>Both buffers of an ID are old, but only the one at the head times out.\<close>

theorem timeout_examines_head_witness:
  "\<exists>s' b fi s. s = put_fi (put_fi start_decap_state 3 7 0 fi) 3 7 1 fi \<and> fi_t0_us fi = 90 \<and> fi_ptr_pdu fi = Some b
    \<and> fragment_timeout 100 s = Inr s' \<and> row_of s' 3 7 ! 0 = reset_frag_info fi \<and> row_of s' 3 7 ! 1 = fi
    \<and> ds_index_list s' ! 3 ! 7 = [1, 0] \<and> b \<in> set (ds_freed s') \<and> ds_encap_ring s' = []"
proof -
  define b where "b = the (rx_alloc sample_rx_env)"
  define fi where "fi = zero_frag_info\<lparr>fi_t0_us := 90, fi_ptr_pdu := Some b\<rparr>"
  define s where "s = put_fi (put_fi start_decap_state 3 7 0 fi) 3 7 1 fi"
  have fi: "fi_t0_us fi = 90" "fi_ptr_pdu fi = Some b" by (simp_all add: fi_def)
  have lt: "3 < MAX_DEVICE_NUM" "7 < MAX_FRAG_ID" by (simp_all add: MAX_DEVICE_NUM_def MAX_FRAG_ID_def)
  have l: "ds_index_list s ! i ! k = [0, 1]" if "i < MAX_DEVICE_NUM" "k < MAX_FRAG_ID" for i k
    using start_row(3) [OF that] by (simp add: s_def)
  have r: "in_range s i k" if "i < MAX_DEVICE_NUM" "k < MAX_FRAG_ID" for i k
    using start_row(1) [OF that] start_row(1) [OF lt] by (simp add: s_def in_range_put_fi_other in_range_put_fi)
  have row: "row_of s 3 7 = [fi, fi]"
    using start_row(1,2) [OF lt] by (simp add: s_def row_of_put_fi in_range_put_fi FRAG_BUFFER_NUM_def numeral_2_eq_2)
  have hb: "head_index s 3 7 = 0" "head_buffer s 3 7 = fi" "expired 100 fi"
    using l [OF lt] row fi by (simp_all add: head_index_def head_buffer_def expired_def)
  have h: "\<exists>h < FRAG_BUFFER_NUM. \<exists>js. ds_index_list s ! i ! k = int h # js"
    if "i < MAX_DEVICE_NUM" "k < MAX_FRAG_ID" for i k
    using l [OF that] by (intro exI [of _ 0]) (simp add: FRAG_BUFFER_NUM_def)
  have e: "ds_encap_ring s = []" by (simp add: s_def start_decap_state_def init_decap_mem_def boot_decap_state_def)
  have "\<forall>i < MAX_DEVICE_NUM. \<forall>k < MAX_FRAG_ID. in_range s i k
      \<and> (\<exists>h < FRAG_BUFFER_NUM. \<exists>js. ds_index_list s ! i ! k = int h # js)"
    using r h by blast
  from timeout_examines_head [OF this, of 100] obtain s' where s': "fragment_timeout 100 s = Inr s'"
    "\<forall>i < MAX_DEVICE_NUM. \<forall>k < MAX_FRAG_ID.
         row_of s' i k = (row_of s i k)[head_index s i k := (if expired 100 (head_buffer s i k)
           then reset_frag_info (head_buffer s i k) else (head_buffer s i k)\<lparr>fi_timeout_flag := 0\<rparr>)]
       \<and> ds_index_list s' ! i ! k = (if expired 100 (head_buffer s i k)
           then rotate1 (ds_index_list s ! i ! k) else ds_index_list s ! i ! k)"
    "ds_freed s' = ds_freed s @ [b. i \<leftarrow> [0..<MAX_DEVICE_NUM], k \<leftarrow> [0..<MAX_FRAG_ID],
         expired 100 (head_buffer s i k), b \<leftarrow> (case fi_ptr_pdu (head_buffer s i k) of None \<Rightarrow> [] | Some b \<Rightarrow> [b])]"
    "ds_encap_ring s' = ds_encap_ring s" by blast
  have "row_of s' 3 7 = [reset_frag_info fi, fi]" "ds_index_list s' ! 3 ! 7 = [1, 0]"
    using s'(2) [rule_format, OF lt] hb row l [OF lt] by simp_all
  moreover have "b \<in> set (ds_freed s')"
    unfolding s'(3) set_append using lt hb fi(2) by (intro UnI2 in_concat_product [where i = 3 and k = 7]) simp_all
  ultimately show ?thesis using s'(1,4) e fi s_def
    by (intro exI [of _ s'] exI [of _ b] exI [of _ fi] exI [of _ s]) simp
qed

end
