(* ===== verification/LinkedList.thy ===== *)
theory LinkedList
  imports Reassembly
begin

text \<open>
  The doubly linked lists of \<open>src/list_template.c\<close> on an explicit heap.  A node is a record, a pointer an
  address, the heap maps the addresses of the allocated nodes to their content, and reading or writing
  an address that is not allocated (\<open>NULL\<close>, a freed node) is a fault.  A list has a dummy head node.
  The header \<open>list_template.h\<close> is not part of the repository; the fields are those the code uses, with
  32 bits for the size and 64 for the number of data bytes.  \<open>malloc\<close> returns an address that is an
  argument, with an uninitialised node (\<open>junk\<close>).  At the end the rotation of the list of buffer indices
  in the reassembly (\<open>next_buffer\<close>) is derived from the list operations.
\<close>

section \<open>Nodes, lists and the heap\<close>

record LINKNODE =
  ln_pre :: ptr
  ln_next :: ptr
  ln_data :: ptr
  ln_data_bytes :: u64

record LINKLIST =
  ll_head :: ptr
  ll_tail :: ptr
  ll_size :: u32
  ll_data_bytes :: u64

type_synonym heap = "ptr \<Rightarrow> LINKNODE option"

definition get_node :: "heap \<Rightarrow> ptr \<Rightarrow> LINKNODE outcome" where
  "get_node h p = (case h p of None \<Rightarrow> Inl NullDeref | Some n \<Rightarrow> Inr n)"

definition upd_node :: "heap \<Rightarrow> ptr \<Rightarrow> (LINKNODE \<Rightarrow> LINKNODE) \<Rightarrow> heap outcome" where
  "upd_node h p f = bind_ok (get_node h p) (\<lambda>n. Inr (h(p \<mapsto> f n)))"

definition set_next :: "ptr \<Rightarrow> LINKNODE \<Rightarrow> LINKNODE" where "set_next q n = n\<lparr>ln_next := q\<rparr>"
definition set_pre :: "ptr \<Rightarrow> LINKNODE \<Rightarrow> LINKNODE" where "set_pre q n = n\<lparr>ln_pre := q\<rparr>"

text \<open>Following \<open>next\<close> a number of times.\<close>

primrec walk :: "heap \<Rightarrow> ptr \<Rightarrow> nat \<Rightarrow> ptr outcome" where
  "walk h p 0 = Inr p"
| "walk h p (Suc n) = bind_ok (get_node h p) (\<lambda>nd. walk h (ln_next nd) n)"

section \<open>The operations\<close>

text \<open>\<open>None\<close> is the NULL list.  The results are the return value, the list and the heap.\<close>

definition Init_List :: "ptr \<Rightarrow> LINKNODE \<Rightarrow> heap \<Rightarrow> LINKLIST \<times> heap" where
  "Init_List new_head junk h =
     (\<lparr>ll_head = new_head, ll_tail = NULL, ll_size = 0, ll_data_bytes = 0\<rparr>,
      h(new_head \<mapsto> junk\<lparr>ln_pre := NULL, ln_next := NULL\<rparr>))"

definition Insert_Node :: "LINKLIST option \<Rightarrow> u32 \<Rightarrow> ptr \<Rightarrow> ptr \<Rightarrow> LINKNODE \<Rightarrow> heap
    \<Rightarrow> (int \<times> LINKLIST option \<times> heap) outcome" where
  "Insert_Node pList pos data pNewNode junk h = (case pList of
     None \<Rightarrow> Inr (-1, None, h)
   | Some L \<Rightarrow>
     if data = NULL then Inr (-1, Some L, h)
     else
       let pos' = (if ll_size L < pos then ll_size L else pos);
           h1 = h(pNewNode \<mapsto> junk\<lparr>ln_data := data, ln_pre := NULL, ln_next := NULL\<rparr>) in
       bind_ok (walk h1 (ll_head L) (unat pos')) (\<lambda>pCurrent.
       bind_ok (get_node h1 pCurrent) (\<lambda>cur.
       bind_ok (upd_node h1 pNewNode (set_next (ln_next cur))) (\<lambda>h2.
       bind_ok (upd_node h2 (ln_next cur) (set_pre pNewNode)) (\<lambda>h3.
       bind_ok (upd_node h3 pNewNode (set_pre pCurrent)) (\<lambda>h4.
       bind_ok (upd_node h4 pCurrent (set_next pNewNode)) (\<lambda>h5.
       let L1 = L\<lparr>ll_size := ll_size L + 1\<rparr> in
         Inr (0, Some (if pos' = ll_size L1 then L1\<lparr>ll_tail := pNewNode\<rparr> else L1), h5))))))))"

definition Insert_Exist_Node :: "LINKLIST option \<Rightarrow> u32 \<Rightarrow> ptr \<Rightarrow> heap \<Rightarrow> (int \<times> LINKLIST option \<times> heap) outcome" where
  "Insert_Exist_Node pList pos node h = (case pList of
     None \<Rightarrow> Inr (-1, None, h)
   | Some L \<Rightarrow>
     if node = NULL then Inr (-1, Some L, h)
     else
       let pos' = (if ll_size L < pos then ll_size L else pos) in
       bind_ok (walk h (ll_head L) (unat pos')) (\<lambda>pCurrent.
       bind_ok (get_node h pCurrent) (\<lambda>cur.
       bind_ok (upd_node h node (set_next (ln_next cur))) (\<lambda>h2.
       bind_ok (if pos' < ll_size L then upd_node h2 (ln_next cur) (set_pre node) else Inr h2) (\<lambda>h3.
       bind_ok (upd_node h3 node (set_pre pCurrent)) (\<lambda>h4.
       bind_ok (upd_node h4 pCurrent (set_next node)) (\<lambda>h5.
       let L1 = L\<lparr>ll_size := ll_size L + 1\<rparr> in
         Inr (0, Some (if pos' = ll_size L1 then L1\<lparr>ll_tail := node\<rparr> else L1), h5))))))))"

text \<open>The result is the removed node, or \<open>NULL\<close>.\<close>

definition Remove_Node_pos :: "LINKLIST option \<Rightarrow> u32 \<Rightarrow> heap \<Rightarrow> (ptr \<times> LINKLIST option \<times> heap) outcome" where
  "Remove_Node_pos pList pos h = (case pList of
     None \<Rightarrow> Inr (NULL, None, h)
   | Some L \<Rightarrow>
     if pos < 1 \<or> ll_size L < pos then Inr (NULL, Some L, h)
     else
       bind_ok (walk h (ll_head L) (unat pos - 1)) (\<lambda>pPrevious.
       bind_ok (walk h (ll_head L) (unat pos)) (\<lambda>pCurrent.
       bind_ok (get_node h pCurrent) (\<lambda>cur.
       bind_ok (upd_node h pPrevious (set_next (ln_next cur))) (\<lambda>h1.
       bind_ok (if ln_next cur \<noteq> NULL then upd_node h1 (ln_next cur) (set_pre pPrevious) else Inr h1) (\<lambda>h2.
       let L1 = (if ln_next cur \<noteq> NULL then L
                 else L\<lparr>ll_tail := (if pPrevious = ll_head L then NULL else pPrevious)\<rparr>) in
         Inr (pCurrent, Some (L1\<lparr>ll_size := ll_size L1 - 1, ll_data_bytes := ll_data_bytes L1 - ln_data_bytes cur\<rparr>), h2)))))))"

definition Remove_Node_point :: "LINKLIST option \<Rightarrow> ptr \<Rightarrow> heap \<Rightarrow> (int \<times> LINKLIST option \<times> heap) outcome" where
  "Remove_Node_point pList pNode h = (case pList of
     None \<Rightarrow> Inr (-1, None, h)
   | Some L \<Rightarrow>
     if pNode = NULL then Inr (-1, Some L, h)
     else
       bind_ok (get_node h pNode) (\<lambda>nd. let pNext = ln_next nd; pPre = ln_pre nd in
       bind_ok (if pNext \<noteq> NULL then upd_node h pNext (set_pre pPre) else upd_node h pPre (set_next NULL)) (\<lambda>h1.
       let L1 = (if pNext \<noteq> NULL then L else L\<lparr>ll_tail := pPre\<rparr>) in
       bind_ok (if pNode \<noteq> ll_head L1 then upd_node h1 pPre (set_next pNext) else Inr h1) (\<lambda>h2.
       let L2 = (if pNode \<noteq> ll_head L1 then L1 else L1\<lparr>ll_head := pNext\<rparr>) in
       bind_ok (upd_node h2 pNode (set_next NULL)) (\<lambda>h3.
         Inr (0, Some (L2\<lparr>ll_size := ll_size L2 - 1, ll_data_bytes := ll_data_bytes L2 - ln_data_bytes nd\<rparr>), h3))))))"

text \<open>The last component is the data that were freed.\<close>

definition Delete_Node_pos :: "LINKLIST option \<Rightarrow> u32 \<Rightarrow> bool \<Rightarrow> heap
    \<Rightarrow> (int \<times> LINKLIST option \<times> heap \<times> ptr list) outcome" where
  "Delete_Node_pos pList pos del_data h =
     bind_ok (Remove_Node_pos pList pos h) (\<lambda>(pDel, L, h1).
       if pDel = NULL then Inr (-1, L, h1, [])
       else bind_ok (get_node h1 pDel) (\<lambda>nd.
              Inr (0, L, h1(pDel := None), if del_data then [ln_data nd] else [])))"

definition Delete_Node_point :: "LINKLIST option \<Rightarrow> ptr \<Rightarrow> heap \<Rightarrow> (int \<times> LINKLIST option \<times> heap) outcome" where
  "Delete_Node_point pList pNode h =
     bind_ok (Remove_Node_point pList pNode h) (\<lambda>(ret, L, h1).
       Inr (ret, L, if ret = 0 then h1(pNode := None) else h1))"

definition Get_List_Byte :: "LINKLIST option \<Rightarrow> int" where
  "Get_List_Byte pList = (case pList of None \<Rightarrow> -1 | Some L \<Rightarrow> sint (ll_data_bytes L))"

definition Get_List_Size :: "LINKLIST option \<Rightarrow> int" where
  "Get_List_Size pList = (case pList of None \<Rightarrow> -1 | Some L \<Rightarrow> sint (ll_size L))"

primrec get_from :: "heap \<Rightarrow> ptr \<Rightarrow> nat \<Rightarrow> ptr outcome" where
  "get_from h p 0 = Inr p"
| "get_from h p (Suc n) = (if p = NULL then Inr NULL else bind_ok (get_node h p) (\<lambda>nd. get_from h (ln_next nd) n))"

definition Get_Node :: "LINKLIST option \<Rightarrow> u32 \<Rightarrow> heap \<Rightarrow> ptr outcome" where
  "Get_Node pList pos h = (case pList of None \<Rightarrow> Inr NULL | Some L \<Rightarrow> get_from h (ll_head L) (unat pos))"

text \<open>The result is the data and \<open>*pNode\<close>, which is not set for the NULL list.\<close>

definition Get_Header_Data :: "LINKLIST option \<Rightarrow> ptr \<Rightarrow> heap \<Rightarrow> (ptr \<times> ptr) outcome" where
  "Get_Header_Data pList pNode h = (case pList of
     None \<Rightarrow> Inr (NULL, pNode)
   | Some L \<Rightarrow> bind_ok (get_node h (ll_head L)) (\<lambda>hd.
       if ln_next hd = NULL then Inr (NULL, NULL)
       else bind_ok (get_node h (ln_next hd)) (\<lambda>nd. Inr (ln_data nd, ln_next hd))))"

definition Push_List :: "LINKLIST option \<Rightarrow> ptr \<Rightarrow> heap \<Rightarrow> (int \<times> LINKLIST option \<times> heap) outcome" where
  "Push_List pList pNode h = (case pList of
     None \<Rightarrow> Inr (-1, None, h)
   | Some L \<Rightarrow>
     bind_ok (if ll_tail L = NULL
              then bind_ok (upd_node h (ll_head L) (set_next pNode)) (\<lambda>h1. upd_node h1 pNode (set_pre (ll_head L)))
              else bind_ok (upd_node h pNode (set_pre (ll_tail L))) (\<lambda>h1. upd_node h1 (ll_tail L) (set_next pNode))) (\<lambda>h2.
     bind_ok (upd_node h2 pNode (set_next NULL)) (\<lambda>h3.
     bind_ok (get_node h3 pNode) (\<lambda>nd.
       Inr (0, Some (L\<lparr>ll_tail := pNode, ll_size := ll_size L + 1,
                       ll_data_bytes := ll_data_bytes L + ln_data_bytes nd\<rparr>), h3)))))"

definition Pop_List :: "LINKLIST option \<Rightarrow> heap \<Rightarrow> (ptr \<times> LINKLIST option \<times> heap) outcome" where
  "Pop_List pList h = (case pList of
     None \<Rightarrow> Inr (NULL, None, h)
   | Some L \<Rightarrow>
     if 1 < ll_size L
     then bind_ok (get_node h (ll_head L)) (\<lambda>hd.
          bind_ok (get_node h (ln_next hd)) (\<lambda>first.
          bind_ok (upd_node h (ll_head L) (set_next (ln_next first))) (\<lambda>h1.
          bind_ok (upd_node h1 (ln_next first) (set_pre (ll_head L))) (\<lambda>h2.
            Inr (ln_next hd, Some (L\<lparr>ll_size := ll_size L - 1\<rparr>), h2)))))
     else if ll_size L = 1
     then bind_ok (get_node h (ll_head L)) (\<lambda>hd.
          bind_ok (upd_node h (ll_head L) (set_next NULL)) (\<lambda>h1.
          bind_ok (upd_node h1 (ll_tail L) (set_pre NULL)) (\<lambda>h2.
          bind_ok (upd_node h2 (ll_tail L) (set_next NULL)) (\<lambda>h3.
            Inr (ln_next hd, Some (L\<lparr>ll_tail := NULL, ll_size := ll_size L - 1\<rparr>), h3)))))
     else Inr (NULL, Some L, h))"

definition Linked_List :: "LINKLIST option \<Rightarrow> LINKLIST option \<Rightarrow> heap
    \<Rightarrow> (int \<times> LINKLIST option \<times> LINKLIST option \<times> heap) outcome" where
  "Linked_List pDestList pSrcList h = (case (pDestList, pSrcList) of
     (Some D, Some S) \<Rightarrow>
       if Get_List_Size (Some S) = 0 then Inr (SIZE_ERROR, Some D, Some S, h)
       else
         let D1 = (if ll_tail D = NULL then D\<lparr>ll_size := 0, ll_data_bytes := 0\<rparr> else D);
             at = (if ll_tail D = NULL then ll_head D else ll_tail D) in
         bind_ok (get_node h (ll_head S)) (\<lambda>sh.
         bind_ok (upd_node h (ln_next sh) (set_pre at)) (\<lambda>h1.
         bind_ok (upd_node h1 at (set_next (ln_next sh))) (\<lambda>h2.
         let D2 = D1\<lparr>ll_tail := ll_tail S, ll_size := ll_size D1 + ll_size S,
                    ll_data_bytes := ll_data_bytes D1 + ll_data_bytes S\<rparr> in
         bind_ok (upd_node h2 (ll_tail S) (set_next NULL)) (\<lambda>h3.
         bind_ok (upd_node h3 (ll_head S) (set_next NULL)) (\<lambda>h4.
           Inr (0, Some D2, Some (S\<lparr>ll_size := 0, ll_data_bytes := 0, ll_tail := NULL\<rparr>), h4))))))
   | _ \<Rightarrow> Inr (POINT_ERROR, pDestList, pSrcList, h))"

section \<open>The loops over a whole list\<close>

text \<open>
  These loops end only when the list does; \<open>fuel\<close> bounds the number of nodes and \<open>None\<close> means that it
  was used up.  The freed data are the last component.
\<close>

primrec free_nodes :: "nat \<Rightarrow> bool \<Rightarrow> ptr \<Rightarrow> heap \<Rightarrow> (heap \<times> ptr list) outcome option" where
  "free_nodes 0 del_data cur h = None"
| "free_nodes (Suc fuel) del_data cur h =
     (if cur = NULL then Some (Inr (h, []))
      else case h cur of
        None \<Rightarrow> Some (Inl NullDeref)
      | Some nd \<Rightarrow>
          map_option (\<lambda>r. bind_ok r (\<lambda>(h', fs).
              Inr (h', if del_data \<and> ln_data nd \<noteq> NULL then ln_data nd # fs else fs)))
            (free_nodes fuel del_data (ln_next nd) (h(cur := None))))"

definition Free_List :: "nat \<Rightarrow> LINKLIST option \<Rightarrow> bool \<Rightarrow> heap \<Rightarrow> (heap \<times> ptr list) outcome option" where
  "Free_List fuel pList del_data h = (case pList of
     None \<Rightarrow> Some (Inr (h, []))
   | Some L \<Rightarrow>
     if ll_head L = NULL then Some (Inr (h, []))
     else case h (ll_head L) of
       None \<Rightarrow> Some (Inl NullDeref)
     | Some hn \<Rightarrow>
         map_option (\<lambda>r. bind_ok r (\<lambda>(h', fs). Inr (h'(ll_head L := None), fs)))
           (free_nodes fuel del_data (ln_next hn) h))"

definition Clear_List :: "nat \<Rightarrow> LINKLIST option \<Rightarrow> heap \<Rightarrow> (LINKLIST option \<times> heap) outcome option" where
  "Clear_List fuel pList h = (case pList of
     None \<Rightarrow> Some (Inr (None, h))
   | Some L \<Rightarrow>
     if ll_head L = NULL then Some (Inr (Some L, h))
     else case h (ll_head L) of
       None \<Rightarrow> Some (Inl NullDeref)
     | Some hn \<Rightarrow>
         map_option (\<lambda>r. bind_ok r (\<lambda>(h', _).
             bind_ok (upd_node h' (ll_head L) (set_next NULL)) (\<lambda>h1.
             bind_ok (upd_node h1 (ll_head L) (set_pre NULL)) (\<lambda>h2.
               Inr (Some (L\<lparr>ll_data_bytes := 0, ll_size := 0, ll_tail := NULL\<rparr>), h2)))))
           (free_nodes fuel False (ln_next hn) h))"

primrec find_from :: "nat \<Rightarrow> ptr \<Rightarrow> ptr \<Rightarrow> heap \<Rightarrow> int \<Rightarrow> int outcome option" where
  "find_from 0 data cur h i = None"
| "find_from (Suc fuel) data cur h i =
     (if cur = NULL then Some (Inr 0)
      else case h cur of
        None \<Rightarrow> Some (Inl NullDeref)
      | Some nd \<Rightarrow> if ln_data nd = data then Some (Inr (i + 1)) else find_from fuel data (ln_next nd) h (i + 1))"

definition Find_List :: "nat \<Rightarrow> LINKLIST option \<Rightarrow> ptr \<Rightarrow> heap \<Rightarrow> int outcome option" where
  "Find_List fuel pList data h = (case pList of
     None \<Rightarrow> Some (Inr (-1))
   | Some L \<Rightarrow> if data = NULL then Some (Inr (-1)) else find_from fuel data (ll_head L) h 0)"

primrec count_from :: "nat \<Rightarrow> ptr \<Rightarrow> heap \<Rightarrow> int \<Rightarrow> int outcome option" where
  "count_from 0 cur h n = None"
| "count_from (Suc fuel) cur h n =
     (if cur = NULL then Some (Inr n)
      else case h cur of None \<Rightarrow> Some (Inl NullDeref) | Some nd \<Rightarrow> count_from fuel (ln_next nd) h (n + 1))"

text \<open>The head is read before the test for the NULL list; \<open>*data\<close> is printed.\<close>

definition Traversal_List :: "nat \<Rightarrow> LINKLIST option \<Rightarrow> heap \<Rightarrow> int outcome option" where
  "Traversal_List fuel pList h = (case pList of
     None \<Rightarrow> Some (Inl NullDeref)
   | Some L \<Rightarrow>
     if ll_head L = NULL then Some (Inr POINT_ERROR)
     else case h (ll_head L) of
       None \<Rightarrow> Some (Inl NullDeref)
     | Some hn \<Rightarrow> map_option (\<lambda>r. bind_ok r (\<lambda>n. Inr (n - 1))) (count_from fuel (ln_next hn) h 0))"

text \<open>\<open>init_queue\<close> of the reassembly.\<close>

definition init_queue :: "nat \<Rightarrow> LINKLIST option \<Rightarrow> ptr \<Rightarrow> LINKNODE \<Rightarrow> heap \<Rightarrow> (LINKLIST \<times> heap) outcome option" where
  "init_queue fuel pQueue new_head junk h =
     map_option (\<lambda>r. bind_ok r (\<lambda>(h1, _). Inr (Init_List new_head junk h1))) (Free_List fuel pQueue False h)"

section \<open>The sequence of nodes of a list\<close>

text \<open>The links of a heap as functions, and when a sequence of nodes is linked both ways.\<close>

definition nx :: "heap \<Rightarrow> ptr \<Rightarrow> ptr" where "nx h p = ln_next (the (h p))"
definition pv :: "heap \<Rightarrow> ptr \<Rightarrow> ptr" where "pv h p = ln_pre (the (h p))"
definition node_data :: "heap \<Rightarrow> ptr \<Rightarrow> ptr" where "node_data h p = ln_data (the (h p))"
definition node_bytes :: "heap \<Rightarrow> ptr \<Rightarrow> u64" where "node_bytes h p = ln_data_bytes (the (h p))"

fun linked :: "(ptr \<Rightarrow> ptr) \<Rightarrow> (ptr \<Rightarrow> ptr) \<Rightarrow> ptr list \<Rightarrow> bool" where
  "linked n p (x # y # ys) \<longleftrightarrow> n x = y \<and> p y = x \<and> linked n p (y # ys)"
| "linked n p _ \<longleftrightarrow> True"

lemma linked_append:
  "linked n p (xs @ x # y # ys) \<longleftrightarrow> linked n p (xs @ [x]) \<and> n x = y \<and> p y = x \<and> linked n p (y # ys)"
proof (induction xs)
  case (Cons a xs)
  then show ?case by (cases xs) auto
qed simp

lemma linked_frame:
  "(\<And>x. x \<in> set (butlast xs) \<Longrightarrow> n x = n' x) \<Longrightarrow> (\<And>x. x \<in> set (tl xs) \<Longrightarrow> p x = p' x) \<Longrightarrow>
   linked n p xs = linked n' p' xs"
proof (induction n p xs rule: linked.induct)
  case (1 n p x y ys)
  have "linked n p (y # ys) = linked n' p' (y # ys)"
    by (rule 1(1)) (use 1(2,3) in auto)
  then show ?case using 1(2) [of x] 1(3) [of y] by simp
qed auto

lemma linked_nth:
  "linked n p xs \<Longrightarrow> Suc i < length xs \<Longrightarrow> n (xs ! i) = xs ! Suc i \<and> p (xs ! Suc i) = xs ! i"
proof (induction n p xs arbitrary: i rule: linked.induct)
  case (1 n p x y ys)
  then show ?case by (cases i) auto
qed auto

text \<open>\<open>list_rep h L ps\<close>: the nodes of the list \<open>L\<close> behind the dummy head are \<open>ps\<close>.  The tail of an empty
  list is \<open>NULL\<close>, or the dummy head after \<open>Remove_Node_point\<close>.\<close>

definition list_rep :: "heap \<Rightarrow> LINKLIST \<Rightarrow> ptr list \<Rightarrow> bool" where
  "list_rep h L ps \<longleftrightarrow> h NULL = None \<and> set (ll_head L # ps) \<subseteq> dom h \<and> distinct (ll_head L # ps)
     \<and> linked (nx h) (pv h) (ll_head L # ps) \<and> nx h (List.last (ll_head L # ps)) = NULL
     \<and> ll_size L = of_nat (length ps) \<and> length ps < 2 ^ 32
     \<and> (if ps = [] then ll_tail L = NULL \<or> ll_tail L = ll_head L else ll_tail L = List.last ps)"

lemma list_rep_not_null: "list_rep h L ps \<Longrightarrow> p \<in> set (ll_head L # ps) \<Longrightarrow> p \<noteq> NULL"
  by (auto simp: list_rep_def)

lemma get_node_ok: "p \<in> dom h \<Longrightarrow> get_node h p = Inr (the (h p))"
  by (auto simp: get_node_def)

lemma upd_node_ok: "p \<in> dom h \<Longrightarrow> upd_node h p f = Inr (h(p \<mapsto> f (the (h p))))"
  by (auto simp: upd_node_def get_node_def)

text \<open>What an update does to the links; the data are never touched.\<close>

lemma nx_upd:
  "nx (h(p \<mapsto> set_next q x)) = (nx h)(p := q)" "nx (h(p \<mapsto> set_pre q (the (h p)))) = nx h"
  by (auto simp: nx_def set_next_def set_pre_def)

lemma pv_upd:
  "pv (h(p \<mapsto> set_pre q x)) = (pv h)(p := q)" "pv (h(p \<mapsto> set_next q (the (h p)))) = pv h"
  by (auto simp: pv_def set_next_def set_pre_def)

lemma data_upd:
  "node_data (h(p \<mapsto> set_pre q (the (h p)))) = node_data h" "node_data (h(p \<mapsto> set_next q (the (h p)))) = node_data h"
  "node_bytes (h(p \<mapsto> set_pre q (the (h p)))) = node_bytes h" "node_bytes (h(p \<mapsto> set_next q (the (h p)))) = node_bytes h"
  by (auto simp: node_data_def node_bytes_def set_next_def set_pre_def)

lemmas link_upd = nx_upd pv_upd data_upd

definition same_data :: "heap \<Rightarrow> heap \<Rightarrow> bool" where
  "same_data h h' \<longleftrightarrow> dom h' = dom h \<and> node_data h' = node_data h \<and> node_bytes h' = node_bytes h"

lemma same_data_trans: "same_data h h1 \<Longrightarrow> same_data h1 h2 \<Longrightarrow> same_data h h2"
  by (simp add: same_data_def)

text \<open>An update of a node, seen through the links.\<close>

lemma upd_next:
  assumes "p \<in> dom h"
  shows "\<exists>h'. upd_node h p (set_next q) = Inr h' \<and> nx h' = (nx h)(p := q) \<and> pv h' = pv h \<and> same_data h h'"
  using assms by (auto simp: upd_node_ok link_upd same_data_def)

lemma upd_pre:
  assumes "p \<in> dom h"
  shows "\<exists>h'. upd_node h p (set_pre q) = Inr h' \<and> nx h' = nx h \<and> pv h' = (pv h)(p := q) \<and> same_data h h'"
  using assms by (auto simp: upd_node_ok link_upd same_data_def)

section \<open>Push and removal\<close>

lemma get_node_next: "p \<in> dom h \<Longrightarrow> \<exists>nd. get_node h p = Inr nd \<and> ln_next nd = nx h p \<and> ln_pre nd = pv h p
    \<and> ln_data nd = node_data h p \<and> ln_data_bytes nd = node_bytes h p"
  by (simp add: get_node_ok nx_def pv_def node_data_def node_bytes_def)

lemma dom_same: "same_data h h' \<Longrightarrow> p \<in> dom h \<Longrightarrow> p \<in> dom h'"
  by (simp add: same_data_def)

lemma list_tail_last: "list_rep h L ps \<Longrightarrow> ll_tail L \<noteq> NULL \<Longrightarrow> ll_tail L = List.last (ll_head L # ps)"
  by (auto simp: list_rep_def split: if_splits)

lemma size_suc: "ll_size L = of_nat n \<Longrightarrow> ll_size L + 1 = of_nat (Suc n)"
  by simp

lemma same_data_null: "same_data h h' \<Longrightarrow> h' NULL = None \<longleftrightarrow> h NULL = None"
  by (metis domIff same_data_def)

lemma set_tlD: "x \<in> set (tl xs) \<Longrightarrow> x \<in> set xs"
  by (cases xs) auto

text \<open>Appending a node to a linked sequence.\<close>

lemma linked_snoc:
  assumes "linked n p xs" "xs \<noteq> []" "distinct xs" "y \<notin> set xs" "n (List.last xs) = n0"
    "\<And>x. x \<in> set xs \<Longrightarrow> p' x = p x" "p' y = List.last xs"
  shows "linked (n(List.last xs := y, y := NULL)) p' (xs @ [y])"
proof -
  obtain zs z where xs: "xs = zs @ [z]" using assms(2) by (cases xs rule: rev_cases) auto
  have "linked (n(z := y, y := NULL)) p' (zs @ [z]) = linked n p (zs @ [z])"
    by (rule linked_frame) (use assms(3,4,6) xs in \<open>auto dest: in_set_butlastD set_tlD\<close>)
  then show ?thesis using assms(1,4,7) xs linked_append [of "n(z := y, y := NULL)" p' zs z y "[]"] by auto
qed

lemma Push_List_appends:
  assumes L: "list_rep h L ps" and p: "p \<in> dom h" "p \<notin> set (ll_head L # ps)" and size: "Suc (length ps) < 2 ^ 32"
  shows "\<exists>h' L'. Push_List (Some L) p h = Inr (0, Some L', h') \<and> list_rep h' L' (ps @ [p]) \<and> same_data h h'
    \<and> ll_head L' = ll_head L \<and> ll_data_bytes L' = ll_data_bytes L + node_bytes h p"
proof -
  let ?ns = "ll_head L # ps" and ?t = "List.last (ll_head L # ps)"
  have "set ?ns \<subseteq> dom h" using L by (simp add: list_rep_def)
  then have d: "ll_head L \<in> dom h" "?t \<in> dom h" using last_in_set [of ?ns] by auto
  have pn: "p \<noteq> NULL" using L p(1) by (auto simp: list_rep_def)
  have t: "ll_tail L = NULL \<Longrightarrow> ps = []" using L list_rep_not_null [OF L] by (auto simp: list_rep_def split: if_splits)
  have tt: "?t = (if ll_tail L = NULL then ll_head L else ll_tail L)"
    using t list_tail_last [OF L] by auto
  have tp: "?t \<noteq> p" using p(2) last_in_set [of ?ns] by auto
  obtain h2 where h2: "(if ll_tail L = NULL
        then bind_ok (upd_node h (ll_head L) (set_next p)) (\<lambda>h1. upd_node h1 p (set_pre (ll_head L)))
        else bind_ok (upd_node h p (set_pre (ll_tail L))) (\<lambda>h1. upd_node h1 (ll_tail L) (set_next p))) = Inr h2"
    "nx h2 = (nx h)(?t := p)" "pv h2 = (pv h)(p := ?t)" "same_data h h2"
  proof (cases "ll_tail L = NULL")
    case True
    obtain h1 where h1: "upd_node h (ll_head L) (set_next p) = Inr h1" "nx h1 = (nx h)(ll_head L := p)" "pv h1 = pv h" "same_data h h1"
      using upd_next [OF d(1)] by blast
    obtain h2 where "upd_node h1 p (set_pre (ll_head L)) = Inr h2" "nx h2 = nx h1" "pv h2 = (pv h1)(p := ll_head L)" "same_data h1 h2"
      using upd_pre [OF dom_same [OF h1(4) p(1)]] by blast
    with h1 True tt that [of h2] show ?thesis using same_data_trans by auto
  next
    case False
    obtain h1 where h1: "upd_node h p (set_pre (ll_tail L)) = Inr h1" "nx h1 = nx h" "pv h1 = (pv h)(p := ll_tail L)" "same_data h h1"
      using upd_pre [OF p(1)] by blast
    have "ll_tail L \<in> dom h1" using dom_same [OF h1(4)] d(2) tt False by simp
    then obtain h2 where "upd_node h1 (ll_tail L) (set_next p) = Inr h2" "nx h2 = (nx h1)(ll_tail L := p)" "pv h2 = pv h1" "same_data h1 h2"
      using upd_next by blast
    with h1 False tt that [of h2] show ?thesis using same_data_trans by auto
  qed
  obtain h3 where h3: "upd_node h2 p (set_next NULL) = Inr h3" "nx h3 = (nx h2)(p := NULL)" "pv h3 = pv h2" "same_data h2 h3"
    using upd_next [OF dom_same [OF h2(4) p(1)]] by blast
  have s3: "same_data h h3" using h2(4) h3(4) same_data_trans by blast
  obtain nd where nd: "get_node h3 p = Inr nd" "ln_data_bytes nd = node_bytes h p"
    using get_node_next [OF dom_same [OF s3 p(1)]] s3 by (auto simp: same_data_def)
  let ?L = "L\<lparr>ll_tail := p, ll_size := ll_size L + 1, ll_data_bytes := ll_data_bytes L + node_bytes h p\<rparr>"
  have run: "Push_List (Some L) p h = Inr (0, Some ?L, h3)"
    unfolding Push_List_def option.case h2(1) bind_ok.simps h3(1) nd by (rule refl)
  have "linked (nx h3) (pv h3) (?ns @ [p])"
    unfolding h3(2,3) h2(2,3) using L p(2) by (intro linked_snoc [where p = "pv h"]) (auto simp: list_rep_def)
  then have "list_rep h3 ?L (ps @ [p])"
    using L p same_data_null [OF s3] s3 size by (auto simp: list_rep_def same_data_def h3(2))
  then show ?thesis using run s3 by (intro exI [of _ h3] exI [of _ ?L]) simp
qed

text \<open>The neighbours of a node of a list.\<close>

lemma list_rep_at:
  assumes "list_rep h L (xs @ p # zs)"
  shows "pv h p = List.last (ll_head L # xs)" "nx h p = (case zs of [] \<Rightarrow> NULL | z # _ \<Rightarrow> z)"
    "p \<noteq> NULL" "p \<noteq> ll_head L" "p \<in> dom h" "List.last (ll_head L # xs) \<in> dom h" "set zs \<subseteq> dom h"
proof -
  obtain ys a where ya: "ll_head L # xs = ys @ [a]" by (cases "ll_head L # xs" rule: rev_cases) auto
  have lk: "linked (nx h) (pv h) (ys @ a # p # zs)"
  proof -
    have e: "ll_head L # xs @ p # zs = ys @ a # p # zs" using arg_cong [OF ya, of "\<lambda>u. u @ p # zs"] by simp
    have "linked (nx h) (pv h) (ll_head L # xs @ p # zs)" using assms by (simp add: list_rep_def)
    then show ?thesis by (simp only: e)
  qed
  then show "pv h p = List.last (ll_head L # xs)" unfolding linked_append ya by simp
  have "linked (nx h) (pv h) (p # zs)" using lk unfolding linked_append by simp
  then show "nx h p = (case zs of [] \<Rightarrow> NULL | z # _ \<Rightarrow> z)"
    using assms by (cases zs) (auto simp: list_rep_def)
  show "p \<noteq> NULL" using list_rep_not_null [OF assms] by simp
  show "p \<noteq> ll_head L" "p \<in> dom h" "set zs \<subseteq> dom h" using assms by (auto simp: list_rep_def)
  have "List.last (ll_head L # xs) \<in> set (ll_head L # xs)" by (rule last_in_set) simp
  moreover have "set (ll_head L # xs) \<subseteq> dom h" using assms by (auto simp: list_rep_def)
  ultimately show "List.last (ll_head L # xs) \<in> dom h" by blast
qed

lemma linked_remove:
  assumes "linked n p (ys @ a # x # z # zs)" "distinct (ys @ a # x # z # zs)"
  shows "linked (n(a := z, x := NULL)) (p(z := a)) (ys @ a # z # zs)"
proof -
  have l: "linked n p (ys @ [a])" "linked n p (z # zs)"
    using assms(1) linked_append [of n p "ys @ [a]" x z zs] linked_append [of n p ys a x "z # zs"] by simp_all
  have "linked (n(a := z, x := NULL)) (p(z := a)) (ys @ [a])"
    using l(1) assms(2) by (subst linked_frame [of _ _ n _ p]) (auto dest: in_set_butlastD set_tlD)
  moreover have "linked (n(a := z, x := NULL)) (p(z := a)) (z # zs)"
    using l(2) assms(2) by (subst linked_frame [of _ _ n _ p]) (auto dest: in_set_butlastD split: if_splits)
  ultimately show ?thesis using assms(2) unfolding linked_append by auto
qed

lemma Remove_Node_point_removes:
  assumes L: "list_rep h L (xs @ p # zs)"
  shows "\<exists>h' L'. Remove_Node_point (Some L) p h = Inr (0, Some L', h') \<and> list_rep h' L' (xs @ zs) \<and> same_data h h'
    \<and> ll_head L' = ll_head L \<and> ll_data_bytes L' = ll_data_bytes L - node_bytes h p"
proof -
  note at = list_rep_at [OF L]
  obtain ys a where ya: "ll_head L # xs = ys @ [a]" by (cases "ll_head L # xs" rule: rev_cases) auto
  then have la: "List.last (ll_head L # xs) = a" by simp
  have ns: "ll_head L # xs @ p # zs = ys @ a # p # zs" "ll_head L # xs @ zs = ys @ a # zs"
    using ya by (simp_all flip: append_Cons)
  have lk: "linked (nx h) (pv h) (ys @ a # p # zs)" and di: "distinct (ys @ a # p # zs)"
    using L unfolding list_rep_def ns by simp_all
  have ad: "a \<in> dom h" using at(6) la by simp
  have ap: "a \<noteq> p" using di by auto
  obtain nd where nd: "get_node h p = Inr nd" "ln_next nd = nx h p" "ln_pre nd = a" "ln_data_bytes nd = node_bytes h p"
    using get_node_next [OF at(5)] at(1) la by auto
  have size: "ll_size L - 1 = of_nat (length (xs @ zs))" "length (xs @ zs) < 2 ^ 32"
    using L by (simp_all add: list_rep_def)
  show ?thesis
  proof (cases zs)
    case Nil
    have nn: "ln_next nd = NULL" using nd(2) at(2) Nil by simp
    obtain h1 where h1: "upd_node h a (set_next NULL) = Inr h1" "nx h1 = (nx h)(a := NULL)" "pv h1 = pv h" "same_data h h1"
      using upd_next [OF ad] by blast
    obtain h2 where h2: "upd_node h1 a (set_next NULL) = Inr h2" "nx h2 = (nx h1)(a := NULL)" "pv h2 = pv h1" "same_data h1 h2"
      using upd_next [OF dom_same [OF h1(4) ad]] by blast
    have s2: "same_data h h2" using h1(4) h2(4) same_data_trans by blast
    obtain h3 where h3: "upd_node h2 p (set_next NULL) = Inr h3" "nx h3 = (nx h2)(p := NULL)" "pv h3 = pv h2" "same_data h2 h3"
      using upd_next [OF dom_same [OF s2 at(5)]] by blast
    have s3: "same_data h h3" using s2 h3(4) same_data_trans by blast
    let ?L = "L\<lparr>ll_tail := a, ll_size := ll_size L - 1, ll_data_bytes := ll_data_bytes L - node_bytes h p\<rparr>"
    have run: "Remove_Node_point (Some L) p h = Inr (0, Some ?L, h3)"
      using at(3,4) nd h1(1) h2(1) h3(1) nn by (simp add: Remove_Node_point_def)
    have "linked (nx h) (pv h) (ys @ [a])" using lk unfolding linked_append by simp
    then have "linked (nx h3) (pv h3) (ys @ [a])"
      using di h1(2,3) h2(2,3) h3(2,3) by (subst linked_frame [of _ _ "nx h" _ "pv h"]) (auto dest: in_set_butlastD)
    then have lx: "linked (nx h3) (pv h3) (ll_head L # xs)" by (simp only: ya)
    have nl: "nx h3 (List.last (ll_head L # xs)) = NULL" unfolding la using h3(2) h2(2) by simp
    have tl: "if xs = [] then a = ll_head L else a = List.last xs" using la by auto
    have "list_rep h3 ?L xs"
      using L size same_data_null [OF s3] s3 lx nl tl Nil unfolding list_rep_def same_data_def by simp
    then show ?thesis using run s3 Nil by (intro exI [of _ h3] exI [of _ ?L]) simp
  next
    case (Cons z zs')
    have nn: "ln_next nd = z" using nd(2) at(2) Cons by simp
    have zz: "z \<noteq> NULL" "z \<in> dom h" using list_rep_not_null [OF L, of z] at(7) Cons by auto
    obtain h1 where h1: "upd_node h z (set_pre a) = Inr h1" "nx h1 = nx h" "pv h1 = (pv h)(z := a)" "same_data h h1"
      using upd_pre [OF zz(2)] by blast
    obtain h2 where h2: "upd_node h1 a (set_next z) = Inr h2" "nx h2 = (nx h1)(a := z)" "pv h2 = pv h1" "same_data h1 h2"
      using upd_next [OF dom_same [OF h1(4) ad]] by blast
    have s2: "same_data h h2" using h1(4) h2(4) same_data_trans by blast
    obtain h3 where h3: "upd_node h2 p (set_next NULL) = Inr h3" "nx h3 = (nx h2)(p := NULL)" "pv h3 = pv h2" "same_data h2 h3"
      using upd_next [OF dom_same [OF s2 at(5)]] by blast
    have s3: "same_data h h3" using s2 h3(4) same_data_trans by blast
    let ?L = "L\<lparr>ll_size := ll_size L - 1, ll_data_bytes := ll_data_bytes L - node_bytes h p\<rparr>"
    have run: "Remove_Node_point (Some L) p h = Inr (0, Some ?L, h3)"
      using at(3,4) nd h1(1) h2(1) h3(1) nn zz(1) by (simp add: Remove_Node_point_def)
    have e2: "ll_head L # xs @ z # zs' = ys @ a # z # zs'" using ns(2) Cons by simp
    have "linked (nx h3) (pv h3) (ll_head L # xs @ z # zs')"
      unfolding e2 h3(2,3) h2(2,3) h1(2,3) by (rule linked_remove [OF lk [unfolded Cons] di [unfolded Cons]])
    moreover have "nx h3 (List.last (z # zs')) = NULL"
    proof -
      have "List.last (z # zs') \<in> set (z # zs')" by simp
      then have "List.last (z # zs') \<noteq> a" "List.last (z # zs') \<noteq> p" using di Cons by auto
      moreover have "nx h (List.last (z # zs')) = NULL" using L Cons by (simp add: list_rep_def)
      ultimately show ?thesis unfolding h3(2) h2(2) h1(2) by simp
    qed
    ultimately have "list_rep h3 ?L (xs @ zs)"
      using L size same_data_null [OF s3] s3 Cons
      by (auto simp: list_rep_def same_data_def)
    then show ?thesis using run s3 by (intro exI [of _ h3] exI [of _ ?L]) simp
  qed
qed

section \<open>The first node\<close>

lemma Get_Header_Data_first:
  assumes "list_rep h L ps"
  shows "Get_Header_Data (Some L) q h
    = Inr (case ps of [] \<Rightarrow> (NULL, NULL) | p # _ \<Rightarrow> (node_data h p, p))"
proof -
  have hd: "ll_head L \<in> dom h" using assms by (auto simp: list_rep_def)
  obtain nd where nd: "get_node h (ll_head L) = Inr nd" "ln_next nd = nx h (ll_head L)"
    using get_node_next [OF hd] by blast
  show ?thesis
  proof (cases ps)
    case Nil
    then have "nx h (ll_head L) = NULL" using assms by (simp add: list_rep_def)
    then show ?thesis using nd Nil by (simp add: Get_Header_Data_def)
  next
    case (Cons p ps')
    have "list_rep h L ([] @ p # ps')" using assms Cons by simp
    note at = list_rep_at [OF this]
    have "nx h (ll_head L) = p" using assms Cons by (simp add: list_rep_def)
    moreover obtain nd' where "get_node h p = Inr nd'" "ln_data nd' = node_data h p"
      using get_node_next [OF at(5)] by blast
    ultimately show ?thesis using nd Cons at(3) by (simp add: Get_Header_Data_def)
  qed
qed

text \<open>The size of a list, as the code tests it.\<close>

lemma list_rep_size:
  assumes "list_rep h L ps"
  shows "unat (ll_size L) = length ps" "1 < ll_size L \<longleftrightarrow> 1 < length ps" "ll_size L = 1 \<longleftrightarrow> length ps = 1"
proof -
  show u: "unat (ll_size L) = length ps"
    using assms by (simp add: list_rep_def unat_of_nat_lt)
  show "1 < ll_size L \<longleftrightarrow> 1 < length ps" "ll_size L = 1 \<longleftrightarrow> length ps = 1"
    using u by (simp_all add: word_less_nat_alt word_unat_eq_iff)
qed

lemma Pop_List_first:
  assumes L: "list_rep h L (p # ps)"
  shows "\<exists>h' L'. Pop_List (Some L) h = Inr (p, Some L', h') \<and> list_rep h' L' ps \<and> same_data h h'
    \<and> ll_head L' = ll_head L \<and> ll_data_bytes L' = ll_data_bytes L"
proof -
  note sz = list_rep_size [OF L]
  have L1: "list_rep h L ([] @ p # ps)" using L by simp
  note at = list_rep_at [OF L1]
  have hd: "ll_head L \<in> dom h" using L by (simp add: list_rep_def)
  obtain hn where hn: "get_node h (ll_head L) = Inr hn" "ln_next hn = p"
    using get_node_next [OF hd] L by (auto simp: list_rep_def)
  obtain nd where nd: "get_node h p = Inr nd" "ln_next nd = nx h p" using get_node_next [OF at(5)] by blast
  have size: "ll_size L - 1 = of_nat (length ps)" "length ps < 2 ^ 32" using L by (simp_all add: list_rep_def)
  show ?thesis
  proof (cases ps)
    case Nil
    have tl: "ll_tail L = p" using L Nil by (simp add: list_rep_def)
    obtain h1 where h1: "upd_node h (ll_head L) (set_next NULL) = Inr h1" "nx h1 = (nx h)(ll_head L := NULL)" "same_data h h1"
      using upd_next [OF hd] by blast
    obtain h2 where h2: "upd_node h1 p (set_pre NULL) = Inr h2" "nx h2 = nx h1" "same_data h1 h2"
      using upd_pre [OF dom_same [OF h1(3) at(5)]] by blast
    have s2: "same_data h h2" using h1(3) h2(3) same_data_trans by blast
    obtain h3 where h3: "upd_node h2 p (set_next NULL) = Inr h3" "nx h3 = (nx h2)(p := NULL)" "same_data h2 h3"
      using upd_next [OF dom_same [OF s2 at(5)]] by blast
    have s3: "same_data h h3" using s2 h3(3) same_data_trans by blast
    let ?L = "L\<lparr>ll_tail := NULL, ll_size := ll_size L - 1\<rparr>"
    have "Pop_List (Some L) h = Inr (p, Some ?L, h3)"
      using sz Nil hn h1(1) h2(1) h3(1) tl by (simp add: Pop_List_def)
    moreover have "nx h3 (ll_head L) = NULL" using h1(2) h2(2) h3(2) by simp
    then have "list_rep h3 ?L []"
      using L size same_data_null [OF s3] s3 Nil unfolding list_rep_def same_data_def by simp
    ultimately show ?thesis using s3 Nil by (intro exI [of _ h3] exI [of _ ?L]) simp
  next
    case (Cons z zs)
    have nz: "nx h p = z" using at(2) Cons by simp
    have zz: "z \<in> dom h" using at(7) Cons by simp
    obtain h1 where h1: "upd_node h (ll_head L) (set_next z) = Inr h1" "nx h1 = (nx h)(ll_head L := z)" "pv h1 = pv h" "same_data h h1"
      using upd_next [OF hd] by blast
    obtain h2 where h2: "upd_node h1 z (set_pre (ll_head L)) = Inr h2" "nx h2 = nx h1" "pv h2 = (pv h1)(z := ll_head L)" "same_data h1 h2"
      using upd_pre [OF dom_same [OF h1(4) zz]] by blast
    have s2: "same_data h h2" using h1(4) h2(4) same_data_trans by blast
    let ?L = "L\<lparr>ll_size := ll_size L - 1\<rparr>"
    have "Pop_List (Some L) h = Inr (p, Some ?L, h2)"
      using sz Cons hn nd nz h1(1) h2(1) by (simp add: Pop_List_def)
    moreover have di: "distinct (ll_head L # p # z # zs)" and lk: "linked (nx h) (pv h) (p # z # zs)"
      using L Cons by (simp_all add: list_rep_def)
    have "linked (nx h2) (pv h2) (z # zs) = linked (nx h) (pv h) (z # zs)"
      unfolding h1(2,3) h2(2,3)
      by (rule linked_frame) (use di in \<open>auto dest: in_set_butlastD split: if_splits\<close>)
    then have "linked (nx h2) (pv h2) (ll_head L # z # zs)" using lk h1(2,3) h2(2,3) by simp
    moreover have "nx h2 (List.last (z # zs)) = NULL"
    proof -
      have "List.last (z # zs) \<noteq> ll_head L" using di last_in_set [of "z # zs"] by auto
      moreover have "nx h (List.last (z # zs)) = NULL" using L Cons by (simp add: list_rep_def)
      ultimately show ?thesis unfolding h1(2) h2(2) by simp
    qed
    ultimately show ?thesis
      using L size same_data_null [OF s2] s2 Cons
      by (intro exI [of _ h2] exI [of _ ?L]) (auto simp: list_rep_def same_data_def)
  qed
qed

section \<open>Round robin\<close>

text \<open>
  What the reassembly needs of the list of buffer indices: a step yields the first value and moves it to
  the end.  Then \<open>n\<close> steps go round the list.
\<close>

locale round_robin =
  fixes step :: "'s \<Rightarrow> ('v \<times> 's) outcome"
    and rep :: "'s \<Rightarrow> 'v list \<Rightarrow> bool"
  assumes step_law: "rep s (x # xs) \<Longrightarrow> \<exists>s'. step s = Inr (x, s') \<and> rep s' (xs @ [x])"
begin

primrec steps :: "nat \<Rightarrow> 's \<Rightarrow> ('v list \<times> 's) outcome" where
  "steps 0 s = Inr ([], s)"
| "steps (Suc n) s = bind_ok (step s) (\<lambda>(x, s1). bind_ok (steps n s1) (\<lambda>(xs, s2). Inr (x # xs, s2)))"

lemma steps_rotate:
  "rep s vs \<Longrightarrow> vs \<noteq> [] \<Longrightarrow>
   \<exists>s'. steps n s = Inr (map (\<lambda>i. vs ! (i mod length vs)) [0..<n], s') \<and> rep s' (rotate n vs)"
proof (induction n arbitrary: s vs)
  case (Suc n)
  then obtain x xs where vs: "vs = x # xs" by (cases vs) auto
  obtain s1 where s1: "step s = Inr (x, s1)" "rep s1 (rotate1 vs)"
    using step_law [of s x xs] Suc.prems(1) vs by auto
  have ne: "rotate1 vs \<noteq> []" using vs by simp
  obtain s' where s': "steps n s1 = Inr (map (\<lambda>i. rotate1 vs ! (i mod length (rotate1 vs))) [0..<n], s')"
    "rep s' (rotate n (rotate1 vs))"
    using Suc.IH [OF s1(2) ne] by blast
  have nth: "rotate1 vs ! (i mod length vs) = vs ! (Suc i mod length vs)" for i
  proof -
    have "i mod length vs < length vs" using vs by simp
    then show ?thesis by (subst nth_rotate1) (simp_all add: mod_Suc_eq)
  qed
  have "map (\<lambda>i. vs ! (i mod length vs)) [0..<Suc n] = vs ! 0 # map (\<lambda>i. vs ! (Suc i mod length vs)) [0..<n]"
    by (simp add: upt_conv_Cons map_Suc_upt [symmetric] o_def del: upt_Suc)
  then show ?case using s1(1) s' vs nth by (simp add: rotate1_rotate_swap)
qed simp

text \<open>A full turn hands out every value once, in the order of the list, and restores it.\<close>

lemma full_turn:
  assumes "rep s vs" "vs \<noteq> []"
  shows "\<exists>s'. steps (length vs) s = Inr (vs, s') \<and> rep s' vs"
proof -
  have "map (\<lambda>i. vs ! (i mod length vs)) [0..<length vs] = vs" by (rule nth_equalityI) simp_all
  then show ?thesis using steps_rotate [OF assms, of "length vs"] by auto
qed

end

text \<open>The code of \<open>start_reassemble_pdu\<close> and \<open>keep_reassemble_pdu\<close>: read the first index and rotate;
  \<open>index_at\<close> is the \<open>int8_t\<close> at an address.\<close>

definition rotate_list :: "(ptr \<Rightarrow> int) \<Rightarrow> LINKLIST option \<times> heap \<Rightarrow> (int \<times> LINKLIST option \<times> heap) outcome" where
  "rotate_list index_at = (\<lambda>(pList, h).
     bind_ok (Get_Header_Data pList NULL h) (\<lambda>(ptr_index, pNode).
       if ptr_index = NULL then Inr (-1, pList, h)
       else bind_ok (Remove_Node_point pList pNode h) (\<lambda>(_, L1, h1).
            bind_ok (Push_List L1 pNode h1) (\<lambda>(_, L2, h2). Inr (index_at ptr_index, L2, h2)))))"

definition index_rep :: "(ptr \<Rightarrow> int) \<Rightarrow> LINKLIST option \<times> heap \<Rightarrow> int list \<Rightarrow> bool" where
  "index_rep index_at = (\<lambda>(pList, h) vs. \<exists>L ps. pList = Some L \<and> list_rep h L ps \<and> NULL \<notin> node_data h ` set ps
     \<and> vs = map (\<lambda>p. index_at (node_data h p)) ps)"

lemma rotate_list_law:
  assumes "index_rep index_at (pList, h) (x # xs)"
  shows "\<exists>s'. rotate_list index_at (pList, h) = Inr (x, s') \<and> index_rep index_at s' (xs @ [x])"
proof -
  obtain L p ps where L: "pList = Some L" "list_rep h L (p # ps)" "NULL \<notin> node_data h ` set (p # ps)"
    "x = index_at (node_data h p)" "xs = map (\<lambda>p. index_at (node_data h p)) ps"
    using assms by (auto simp: index_rep_def)
  have L0: "list_rep h L ([] @ p # ps)" using L(2) by simp
  obtain h1 L1 where r: "Remove_Node_point (Some L) p h = Inr (0, Some L1, h1)" "list_rep h1 L1 ps" "same_data h h1"
    "ll_head L1 = ll_head L"
    using Remove_Node_point_removes [OF L0] by auto
  have p: "p \<in> dom h1" "p \<notin> set (ll_head L1 # ps)" "Suc (length ps) < 2 ^ 32"
    using L(2) r(3,4) by (auto simp: list_rep_def same_data_def)
  obtain h2 L2 where u: "Push_List (Some L1) p h1 = Inr (0, Some L2, h2)" "list_rep h2 L2 (ps @ [p])" "same_data h1 h2"
    using Push_List_appends [OF r(2) p] by blast
  have d: "node_data h2 = node_data h" using r(3) u(3) by (simp add: same_data_def)
  have "node_data h p \<noteq> NULL" using L(3) by auto
  then have "rotate_list index_at (pList, h) = Inr (x, (Some L2, h2))"
    using Get_Header_Data_first [OF L(2)] r(1) u(1) L(1,4) by (simp add: rotate_list_def)
  moreover have "index_rep index_at (Some L2, h2) (xs @ [x])"
    using u(2) L(3-5) by (auto simp: index_rep_def d intro!: exI [of _ "ps @ [p]"])
  ultimately show ?thesis by blast
qed

interpretation heap_list: round_robin "rotate_list index_at" "index_rep index_at" for index_at
  by unfold_locales (auto dest: rotate_list_law)

text \<open>The model of the reassembly keeps the indices of a fragment ID as a list.\<close>

definition buffer_rep :: "nat \<Rightarrow> nat \<Rightarrow> DECAP_STATE \<Rightarrow> int list \<Rightarrow> bool" where
  "buffer_rep port ID s vs \<longleftrightarrow> in_range s port ID \<and> ds_index_list s ! port ! ID = vs"

interpretation buffers: round_robin "\<lambda>s. next_buffer s port ID" "buffer_rep port ID" for port ID
proof
  fix s x xs
  assume r: "buffer_rep port ID s (x # xs)"
  then have "next_buffer s port ID = Inr (x, rotate_index s port ID)"
    by (simp add: buffer_rep_def next_buffer_def rotate_index_def in_range_def)
  moreover have "buffer_rep port ID (rotate_index s port ID) (xs @ [x])"
    using r by (simp add: buffer_rep_def rotate_index_def in_range_def row_of_def)
  ultimately show "\<exists>s'. next_buffer s port ID = Inr (x, s') \<and> buffer_rep port ID s' (xs @ [x])" by blast
qed

section \<open>Runs of pushes and pops\<close>

primrec push_nodes :: "ptr list \<Rightarrow> LINKLIST option \<Rightarrow> heap \<Rightarrow> (LINKLIST option \<times> heap) outcome" where
  "push_nodes [] L h = Inr (L, h)"
| "push_nodes (p # ps) L h = bind_ok (Push_List L p h) (\<lambda>(_, L1, h1). push_nodes ps L1 h1)"

primrec pop_nodes :: "nat \<Rightarrow> LINKLIST option \<Rightarrow> heap \<Rightarrow> (ptr list \<times> LINKLIST option \<times> heap) outcome" where
  "pop_nodes 0 L h = Inr ([], L, h)"
| "pop_nodes (Suc n) L h = bind_ok (Pop_List L h) (\<lambda>(p, L1, h1).
     bind_ok (pop_nodes n L1 h1) (\<lambda>(ps, L2, h2). Inr (p # ps, L2, h2)))"

lemma push_nodes_appends:
  "list_rep h L qs \<Longrightarrow> set ps \<subseteq> dom h \<Longrightarrow> distinct (ll_head L # qs @ ps) \<Longrightarrow> length qs + length ps < 2 ^ 32 \<Longrightarrow>
   \<exists>L' h'. push_nodes ps (Some L) h = Inr (Some L', h') \<and> list_rep h' L' (qs @ ps) \<and> same_data h h'
     \<and> ll_head L' = ll_head L \<and> ll_data_bytes L' = ll_data_bytes L + sum_list (map (node_bytes h) ps)"
proof (induction ps arbitrary: h L qs)
  case Nil
  then show ?case by (simp add: same_data_def)
next
  case (Cons p ps)
  have p: "p \<in> dom h" "p \<notin> set (ll_head L # qs)" "Suc (length qs) < 2 ^ 32" using Cons.prems by auto
  obtain h1 L1 where u: "Push_List (Some L) p h = Inr (0, Some L1, h1)" "list_rep h1 L1 (qs @ [p])" "same_data h h1"
    "ll_head L1 = ll_head L" "ll_data_bytes L1 = ll_data_bytes L + node_bytes h p"
    using Push_List_appends [OF Cons.prems(1) p] by blast
  have "set ps \<subseteq> dom h1" "distinct (ll_head L1 # (qs @ [p]) @ ps)" "length (qs @ [p]) + length ps < 2 ^ 32"
    using Cons.prems(2-4) u(3,4) by (auto simp: same_data_def)
  from Cons.IH [OF u(2) this] obtain L' h' where "push_nodes ps (Some L1) h1 = Inr (Some L', h')"
    "list_rep h' L' ((qs @ [p]) @ ps)" "same_data h1 h'" "ll_head L' = ll_head L1"
    "ll_data_bytes L' = ll_data_bytes L1 + sum_list (map (node_bytes h1) ps)" by blast
  moreover have "node_bytes h1 = node_bytes h" using u(3) by (simp add: same_data_def)
  ultimately show ?case using u(1,3-5) same_data_trans [OF u(3)] by (auto simp: add.assoc)
qed

lemma pop_nodes_all:
  "list_rep h L ps \<Longrightarrow> \<exists>L' h'. pop_nodes (length ps) (Some L) h = Inr (ps, Some L', h') \<and> list_rep h' L' []
     \<and> ll_data_bytes L' = ll_data_bytes L"
proof (induction ps arbitrary: h L)
  case (Cons p ps)
  obtain h1 L1 where u: "Pop_List (Some L) h = Inr (p, Some L1, h1)" "list_rep h1 L1 ps" "ll_data_bytes L1 = ll_data_bytes L"
    using Pop_List_first [OF Cons.prems] by blast
  from Cons.IH [OF u(2)] u(1,3) show ?case by auto
qed auto

lemma walk_list:
  "linked (nx h) p ns \<Longrightarrow> set ns \<subseteq> dom h \<Longrightarrow> i < length ns \<Longrightarrow> walk h (ns ! 0) i = Inr (ns ! i)"
proof (induction i arbitrary: ns)
  case (Suc i)
  then obtain x y ys where ns: "ns = x # y # ys" by (cases ns; cases "tl ns") auto
  obtain nd where "get_node h x = Inr nd" "ln_next nd = nx h x"
    using get_node_next [of x h] Suc.prems(2) ns by auto
  then show ?case using Suc.IH [of "y # ys"] Suc.prems ns by simp
qed simp

lemma Init_List_rep:
  assumes "h NULL = None" "new_head \<noteq> NULL"
  shows "list_rep (snd (Init_List new_head junk h)) (fst (Init_List new_head junk h)) []"
  using assms by (auto simp: Init_List_def list_rep_def nx_def)

section \<open>Properties\<close>

text \<open>C22: taking a buffer index from the linked list (read the first node, unlink it, append it) is the
  rotation of the index list that the model of the reassembly uses: any number of requests yields the
  same indices in both, the indices of the list in turn, so that no buffer is taken a second time before
  every other one was.\<close>

theorem index_list_refines:
  assumes "index_rep index_at (Some L, h) vs" "vs \<noteq> []" "buffer_rep port ID s vs"
  shows "\<exists>st s'. heap_list.steps index_at n (Some L, h) = Inr (map (\<lambda>i. vs ! (i mod length vs)) [0..<n], st)
    \<and> buffers.steps port ID n s = Inr (map (\<lambda>i. vs ! (i mod length vs)) [0..<n], s')
    \<and> index_rep index_at st (rotate n vs) \<and> buffer_rep port ID s' (rotate n vs)"
  using heap_list.steps_rotate [OF assms(1,2), of n] buffers.steps_rotate [OF assms(3,2), of n] by blast

definition sample_heap :: heap where
  "sample_heap = [0x100 \<mapsto> \<lparr>ln_pre = 0, ln_next = 0xAA, ln_data = 0x1000, ln_data_bytes = 1\<rparr>,
     0x200 \<mapsto> \<lparr>ln_pre = 0xAA, ln_next = 0, ln_data = 0x1001, ln_data_bytes = 1\<rparr>]"

text \<open>The list \<open>init_decap_mem\<close> builds: two nodes pushed onto a fresh list.\<close>

lemma sample_index_list:
  "\<exists>L h. push_nodes [0x100, 0x200] (Some (fst (Init_List 0x10 (the (sample_heap 0x100)) sample_heap)))
      (snd (Init_List 0x10 (the (sample_heap 0x100)) sample_heap)) = Inr (Some L, h)
    \<and> index_rep (\<lambda>a. if a = 0x1000 then 0 else 1) (Some L, h) [0, 1]"
proof -
  let ?h = "snd (Init_List 0x10 (the (sample_heap 0x100)) sample_heap)"
  let ?L = "fst (Init_List 0x10 (the (sample_heap 0x100)) sample_heap)"
  have r: "list_rep ?h ?L []" by (rule Init_List_rep) (simp_all add: sample_heap_def NULL_def)
  have s: "set [0x100, 0x200] \<subseteq> dom ?h" "distinct (ll_head ?L # [] @ [0x100, 0x200])"
    "node_data ?h 0x100 = 0x1000" "node_data ?h 0x200 = 0x1001"
    by (auto simp: sample_heap_def Init_List_def node_data_def)
  obtain L h where p: "push_nodes [0x100, 0x200] (Some ?L) ?h = Inr (Some L, h)" "list_rep h L ([] @ [0x100, 0x200])"
    "same_data ?h h"
    using push_nodes_appends [OF r s(1,2)] by auto
  have "index_rep (\<lambda>a. if a = 0x1000 then 0 else 1) (Some L, h) [0, 1]"
    unfolding index_rep_def using p(2,3) s(3,4)
    by (auto simp: same_data_def NULL_def intro!: exI [of _ "[0x100, 0x200]"])
  then show ?thesis using p(1) by blast
qed

theorem index_list_refines_witness:
  "\<exists>L h st s'. heap_list.steps (\<lambda>a. if a = 0x1000 then 0 else 1) 3 (Some L, h) = Inr ([0, 1, 0], st)
    \<and> buffers.steps 0 5 3 start_decap_state = Inr ([0, 1, 0], s') \<and> buffer_rep 0 5 s' [1, 0]"
proof -
  obtain L h where L: "index_rep (\<lambda>a. if a = 0x1000 then 0 else 1) (Some L, h) [0, 1]" using sample_index_list by blast
  have "buffer_rep 0 5 start_decap_state [0, 1]"
    using start_row [of 0 5] by (simp add: buffer_rep_def MAX_DEVICE_NUM_def MAX_FRAG_ID_def)
  moreover have "map (\<lambda>i. [0, 1 :: int] ! (i mod length [0, 1 :: int])) [0..<3] = [0, 1, 0]" "rotate 3 [0, 1 :: int] = [1, 0]"
    by (simp_all add: upt_rec eval_nat_numeral)
  ultimately show ?thesis using index_list_refines [OF L _ , of 0 5 start_decap_state 3] by auto
qed

text \<open>From a fresh list, nodes pushed one after the other are popped in the same order, after which
  the list is empty again; but the counter of data bytes still has the sum of all nodes, because
  \<open>Pop_List\<close> never decreases it.\<close>

theorem list_is_fifo:
  assumes "h NULL = None" "new_head \<noteq> NULL" "set ps \<subseteq> dom h" "distinct (new_head # ps)" "length ps < 2 ^ 32"
    "Init_List new_head junk h = (L0, h0)"
  shows "\<exists>L1 h1 L2 h2. push_nodes ps (Some L0) h0 = Inr (Some L1, h1) \<and> unat (ll_size L1) = length ps
    \<and> pop_nodes (length ps) (Some L1) h1 = Inr (ps, Some L2, h2) \<and> list_rep h2 L2 []
    \<and> ll_data_bytes L2 = sum_list (map (node_bytes h) ps)"
proof -
  have r: "list_rep h0 L0 []" using Init_List_rep [where h = h, OF assms(1,2), of junk] assms(6) by simp
  have d: "set ps \<subseteq> dom h0" "distinct (ll_head L0 # [] @ ps)" "ll_data_bytes L0 = 0" "length [] + length ps < 2 ^ 32"
    "map (node_bytes h0) ps = map (node_bytes h) ps"
    using assms(3-6) by (auto simp: Init_List_def node_bytes_def)
  obtain L1 h1 where p: "push_nodes ps (Some L0) h0 = Inr (Some L1, h1)" "list_rep h1 L1 ps"
    "ll_data_bytes L1 = sum_list (map (node_bytes h) ps)"
    using push_nodes_appends [OF r d(1,2,4)] d(3,5) by auto
  obtain L2 h2 where "pop_nodes (length ps) (Some L1) h1 = Inr (ps, Some L2, h2)" "list_rep h2 L2 []"
    "ll_data_bytes L2 = ll_data_bytes L1"
    using pop_nodes_all [OF p(2)] by blast
  then show ?thesis using p list_rep_size(1) [OF p(2)] by auto
qed

theorem list_is_fifo_witness:
  "\<exists>L0 h0 L1 h1 L2 h2. Init_List 0x10 (the (sample_heap 0x100)) sample_heap = (L0, h0)
    \<and> push_nodes [0x200, 0x100] (Some L0) h0 = Inr (Some L1, h1)
    \<and> pop_nodes 2 (Some L1) h1 = Inr ([0x200, 0x100], Some L2, h2) \<and> ll_data_bytes L2 = 2"
proof -
  obtain L0 h0 where i: "Init_List 0x10 (the (sample_heap 0x100)) sample_heap = (L0, h0)" by (rule prod.exhaust)
  have n: "sample_heap NULL = None" "(0x10 :: ptr) \<noteq> NULL" "set [0x200, 0x100] \<subseteq> dom sample_heap"
    "distinct (0x10 # [0x200, 0x100 :: ptr])" "length [0x200, 0x100 :: ptr] < 2 ^ 32"
    by (auto simp: sample_heap_def NULL_def)
  have b: "sum_list (map (node_bytes sample_heap) [0x200, 0x100]) = 2" "length [0x200, 0x100 :: ptr] = 2"
    by (simp_all add: sample_heap_def node_bytes_def)
  show ?thesis using list_is_fifo [where h = sample_heap, OF n i] i unfolding b by blast
qed

text \<open>\<open>Insert_Node\<close> cannot append: at the end of a list, in particular into an empty list, it
  dereferences the NULL pointer behind the last node.\<close>

theorem Insert_Node_at_end_faults:
  assumes "list_rep h L ps" "length ps \<le> unat pos" "data \<noteq> NULL" "new \<notin> dom h" "new \<noteq> NULL"
  shows "Insert_Node (Some L) pos data new junk h = Inl NullDeref"
proof -
  let ?ns = "ll_head L # ps" and ?h = "h(new \<mapsto> junk\<lparr>ln_data := data, ln_pre := NULL, ln_next := NULL\<rparr>)"
  have sub: "set ?ns \<subseteq> dom h" using assms(1) by (simp add: list_rep_def)
  then have out: "new \<notin> set ?ns" using assms(4) by blast
  have "linked (nx ?h) (pv ?h) ?ns = linked (nx h) (pv h) ?ns"
  proof (rule linked_frame)
    fix x assume "x \<in> set (butlast ?ns)"
    then have "x \<noteq> new" using in_set_butlastD [of x ?ns] out by blast
    then show "nx ?h x = nx h x" by (simp add: nx_def)
  next
    fix x assume "x \<in> set (tl ?ns)"
    then have "x \<noteq> new" using out by auto
    then show "pv ?h x = pv h x" by (simp add: pv_def)
  qed
  then have lk: "linked (nx ?h) (pv ?h) ?ns" using assms(1) by (simp add: list_rep_def)
  have "(if ll_size L < pos then ll_size L else pos) = ll_size L"
    using list_rep_size(1) [OF assms(1)] assms(2) by (auto simp: word_less_nat_alt word_unat_eq_iff)
  moreover have "walk ?h (?ns ! 0) (length ps) = Inr (?ns ! length ps)"
    using sub by (intro walk_list [OF lk]) auto
  then have w: "walk ?h (ll_head L) (length ps) = Inr (List.last ?ns)"
    by (simp add: last_conv_nth)
  have lin: "List.last ?ns \<in> set ?ns" by (rule last_in_set) simp
  then have ln: "List.last ?ns \<in> dom ?h" "List.last ?ns \<noteq> new" using sub out by auto
  obtain nd where nd: "get_node ?h (List.last ?ns) = Inr nd" "ln_next nd = nx ?h (List.last ?ns)"
    using get_node_next [OF ln(1)] by blast
  have "nx ?h (List.last ?ns) = NULL" using assms(1) ln(2) by (simp add: nx_def list_rep_def)
  then have n0: "ln_next nd = NULL" using nd(2) by simp
  have nu: "upd_node ?h new (set_next NULL) = Inr (?h(new \<mapsto> set_next NULL (the (?h new))))"
    by (rule upd_node_ok) simp
  have "(?h(new \<mapsto> set_next NULL (the (?h new)))) NULL = None" using assms(1,5) by (simp add: list_rep_def)
  then have "upd_node (?h(new \<mapsto> set_next NULL (the (?h new)))) NULL (set_pre new) = Inl NullDeref"
    by (simp only: upd_node_def get_node_def option.case bind_ok.simps)
  ultimately show ?thesis
    using assms(3) list_rep_size(1) [OF assms(1)] w nd(1) n0 nu
    by (simp only: Insert_Node_def option.case if_False Let_def bind_ok.simps)
qed

theorem Insert_Node_at_end_faults_witness:
  "Insert_Node (Some (fst (Init_List 0x10 (the (sample_heap 0x100)) sample_heap))) 0 0x1000 0x300 (the (sample_heap 0x100))
     (snd (Init_List 0x10 (the (sample_heap 0x100)) sample_heap)) = Inl NullDeref"
proof -
  have "list_rep (snd (Init_List 0x10 (the (sample_heap 0x100)) sample_heap))
      (fst (Init_List 0x10 (the (sample_heap 0x100)) sample_heap)) []"
    by (rule Init_List_rep) (simp_all add: sample_heap_def NULL_def)
  then show ?thesis
    by (rule Insert_Node_at_end_faults) (simp_all add: sample_heap_def Init_List_def NULL_def)
qed

end
