(* ===== verification/DecapGse.thy ===== *)
theory DecapGse
  imports Reassembly
begin

text \<open>
  Decapsulation of frames (\<open>src/decapsulate.c\<close>, the default build without \<open>TAG_ROUTE\<close>): the loop over
  the extension headers of a GSE packet, \<open>get_single_pdu\<close> and \<open>get_concat_pdu\<close>, the loop
  \<open>decapsulate_gse\<close> over the packets of a frame, \<open>process_frame_header\<close> and \<open>dispatch_decap_pkt\<close>.  The
  data of an mbuf are a list of at most 65535 bytes (\<open>data_len\<close> has 16 bits); a pointer into it is a
  position, and reading behind its end is a fault.  The answers of the mbuf pool, of the ring and of
  the clock (\<open>RX_ENV\<close>) and the content of uninitialised locals are arguments, given for every position
  of a packet in the frame.  \<open>malloc\<close> succeeds.  Statistics counters and log output are not modelled.
\<close>

section \<open>The extension headers of a packet\<close>

text \<open>
  The loop over the extension headers.  The tables \<open>opt_extHeader\<close> and \<open>man_extHeader\<close> are only written
  (always at index 0), apart from the first bytes of the value, which are the time stamp of a sequence
  header; a value has at most 4 of the 20 bytes.  The result is \<open>offset\<close>, \<open>next_type\<close>,
  \<open>protocol_type\<close>, \<open>var_header_size\<close> and \<open>timestamp_seq\<close>.
\<close>

function read_ext_headers :: "u8 list \<Rightarrow> u16 \<Rightarrow> u16 \<Rightarrow> u16 \<Rightarrow> u16 \<Rightarrow> u16
    \<Rightarrow> (u16 \<times> u16 \<times> u16 \<times> u16 \<times> u16) outcome" where
  "read_ext_headers gse offset next_type protocol_type var_header_size timestamp_seq =
     (if \<not> regular_ext_header_type next_type
      then Inr (offset, next_type, protocol_type, var_header_size, timestamp_seq)
      else if 65535 < length gse then Inl OutOfBounds
      else bind_ok (get_extension_header_info (drop (unat offset) gse) next_type next_type) (\<lambda>(sz, next_type').
        bind_ok (get_bytes gse (unat offset) (unat (of_int sz - 2 :: u16))) (\<lambda>header_value.
        bind_ok (if get_extension_header_type next_type = OPTIONAL_EXT_HEADER \<and> next_type = FRAG_SEQUENCE
                 then bind_ok (load16 header_value 0) (\<lambda>w. Inr (bswap16 w)) else Inr timestamp_seq) (\<lambda>ts.
          read_ext_headers gse (offset + of_int sz) next_type' next_type (of_int sz) ts))))"
  by pat_completeness auto

lemma ext_header_info_size:
  assumes "get_extension_header_info h t n = Inr (sz, n')" "regular_ext_header_type t"
  shows "2 \<le> sz \<and> nat sz \<le> length h"
proof -
  have d: "drop_bit 8 (PDU_CONCAT AND 0xFF00) = (0 :: u16)" "PDU_CONCAT AND 0xFF = PDU_CONCAT"
    "drop_bit 8 (TIME_STEMP AND 0xFF00) = (3 :: u16)" "drop_bit 8 (FRAG_SEQUENCE AND 0xFF00) = (2 :: u16)"
    by (simp_all add: PDU_CONCAT_def TIME_STEMP_def FRAG_SEQUENCE_def)
  have "t = PDU_CONCAT \<or> t = TIME_STEMP \<or> t = FRAG_SEQUENCE"
    using assms(2) by (simp add: regular_ext_header_type_def)
  then show ?thesis
    using assms(1) d
    by (auto simp: get_extension_header_info_def get_pdu_concat_info_def bind_ok_eq_Inr_iff load16_def
        get_bytes_def split: if_splits)
qed

lemma ext_header_offset:
  assumes "2 \<le> sz" "nat sz \<le> length (drop (unat offset) gse)" "length gse \<le> 65535"
  shows "unat (offset + of_int sz :: u16) = unat offset + nat sz"
proof -
  have "int (nat sz) = sz" using assms(1) by simp
  then have "(of_int sz :: u16) = of_nat (nat sz)" by (metis of_int_of_nat_eq)
  moreover have "unat (of_nat (nat sz) :: u16) = nat sz" using assms by (intro unat_of_nat_lt) simp
  ultimately show ?thesis using assms by (subst unat_add_lt) auto
qed

termination read_ext_headers
proof (relation "measure (\<lambda>(gse, offset, _). length gse - unat offset)", simp, goal_cases)
  case (1 gse offset next_type protocol_type var_header_size timestamp_seq x sz n' hv ts)
  then have "2 \<le> sz \<and> nat sz \<le> length (drop (unat offset) gse)"
    by (intro ext_header_info_size [of _ next_type next_type sz n']) simp_all
  moreover from this have "unat (offset + of_int sz :: u16) = unat offset + nat sz"
    using 1 by (intro ext_header_offset [where gse = gse]) simp_all
  ultimately show ?case by auto
qed

declare read_ext_headers.simps [simp del]

section \<open>Whole PDUs\<close>

text \<open>
  \<open>None\<close> as return value is the uninitialised \<open>pdu_type\<close> of an unknown protocol type.  The mbuf of
  the pool keeps its private header, except for the fields that are set.
\<close>

definition deliver_single :: "RX_ENV \<Rightarrow> u8 list \<Rightarrow> u16 \<Rightarrow> u16 \<Rightarrow> u64 \<Rightarrow> int option \<Rightarrow> DECAP_STATE
    \<Rightarrow> (int option \<times> DECAP_STATE) outcome" where
  "deliver_single env datafield datafield_length protocol_type inrouter_time pdu_type s =
     (case rx_alloc env of
        None \<Rightarrow> Inr (Some (-1), s)
      | Some mbuf \<Rightarrow>
        let mbuf1 = (if inrouter_time \<noteq> 0
                     then mbuf\<lparr>mb_delay_time_mark_flag := 1, mb_inrouter_time := inrouter_time\<rparr> else mbuf) in
        if length (mb_tail mbuf1) < unat datafield_length
        then Inr (Some (-1), free_pdu (Some mbuf1) s)
        else
          bind_ok (get_bytes datafield 0 (unat datafield_length)) (\<lambda>bs.
          let n = length (mb_data mbuf1);
              mbuf2 = rte_pktmbuf_append (mbuf1\<lparr>mb_protocol_type := ucast protocol_type\<rparr>) (unat datafield_length) in
          bind_ok (put_bytes (mb_data mbuf2) n bs) (\<lambda>data.
          let mbuf3 = mbuf2\<lparr>mb_data := data\<rparr> in
          if rx_ring_ok env then Inr (pdu_type, s\<lparr>ds_encap_ring := ds_encap_ring s @ [mbuf3]\<rparr>)
          else Inr (pdu_type, free_pdu (Some mbuf3) s))))"

definition get_single_pdu :: "RX_ENV \<Rightarrow> u8 list option \<Rightarrow> u16 \<Rightarrow> u16 \<Rightarrow> u64 \<Rightarrow> DECAP_STATE
    \<Rightarrow> (int option \<times> DECAP_STATE) outcome" where
  "get_single_pdu env ptr_datafield datafield_length protocol_type inrouter_time s =
     (case ptr_datafield of
        None \<Rightarrow> Inr (Some (-1), s)
      | Some datafield \<Rightarrow>
        if protocol_type = PROTOCOL_IPV4 \<or> protocol_type = PROTOCOL_IPV6
        then deliver_single env datafield datafield_length protocol_type inrouter_time (Some (uint IP_PACKET)) s
        else if protocol_type = PROTOCOL_CTRL
        then bind_ok (load_at datafield 1) (\<lambda>_. Inr (Some (-1), s))
        else deliver_single env datafield datafield_length protocol_type inrouter_time None s)"

text \<open>
  The loop of \<open>get_concat_pdu\<close>: every PDU is copied to memory of its own and freed again; the result is
  the list of the copies.  The lengths are read in the byte order of the host.
\<close>

function concat_pdus :: "u8 list \<Rightarrow> nat \<Rightarrow> u16 \<Rightarrow> u16 \<Rightarrow> u8 list list outcome" where
  "concat_pdus datafield ptr_position total_read_length datafield_length =
     (if total_read_length < datafield_length
      then bind_ok (load16 datafield ptr_position) (\<lambda>read_length.
           bind_ok (get_bytes datafield (ptr_position + 2) (unat read_length)) (\<lambda>pdu.
           bind_ok (concat_pdus datafield (ptr_position + 2 + unat read_length)
                      (total_read_length + (read_length + 2)) datafield_length) (\<lambda>pdus.
             Inr (pdu # pdus))))
      else Inr [])"
  by pat_completeness auto

termination concat_pdus
  by (relation "measure (\<lambda>(datafield, pos, _). length datafield - pos)")
    (auto simp: load16_def get_bytes_def split: if_splits)

declare concat_pdus.simps [simp del]

definition get_concat_pdu :: "u8 list option \<Rightarrow> u16 \<Rightarrow> u8 list list outcome" where
  "get_concat_pdu ptr_datafield datafield_length = (case ptr_datafield of
     None \<Rightarrow> Inr [] | Some datafield \<Rightarrow> concat_pdus datafield 0 0 datafield_length)"

section \<open>The packets of a frame\<close>

text \<open>The locals of \<open>decapsulate_gse\<close> that live longer than a packet.\<close>

record DECAP_LOCALS =
  dl_timestamp_seq :: u16
  dl_buffer_index :: int
  dl_inrouter_time :: u64
  dl_bfirst_gse :: bool

text \<open>The sizes of the variable header are bytes, so that their sum is.\<close>

definition sum_header_size :: "u16 \<Rightarrow> GSE_VARIABLE_HEADER_SIZE \<Rightarrow> u16" where
  "sum_header_size ext v = ext + (ucast (fragment_ID_size v) + ucast (total_length_size v)
     + ucast (protocol_type_size v) + ucast (label_size v))"

text \<open>
  The body of the loop for the packet at \<open>pGSE\<close>, \<open>gse\<close> being the bytes from there on; the result is
  \<open>GSE_Length\<close>, the locals and the state.
\<close>

definition decapsulate_packet :: "RX_ENV \<Rightarrow> GSE_VARIABLE_HEADER_VALUE \<Rightarrow> u8 list \<Rightarrow> nat \<Rightarrow> u8 list
    \<Rightarrow> DECAP_LOCALS \<Rightarrow> DECAP_STATE \<Rightarrow> (12 word \<times> DECAP_LOCALS \<times> DECAP_STATE) outcome" where
  "decapsulate_packet env junk mac queue_id gse loc s =
     bind_ok (decapsulate_gse_header gse junk) (\<lambda>(off, next_type, fixed, var).
     bind_ok (filter_address fixed var mac (dl_bfirst_gse loc) (Some (ds_previous_mac s))) (\<lambda>(mac_match, prev).
     let s1 = s\<lparr>ds_previous_mac := (case prev of Some p \<Rightarrow> p | None \<Rightarrow> ds_previous_mac s)\<rparr> in
     if mac_match \<noteq> 1 then Inr (GSE_Length fixed, loc, s1)
     else
       bind_ok (read_ext_headers gse (of_int off) next_type 0 0 (dl_timestamp_seq loc))
         (\<lambda>(offset, next_type, protocol_type, ext_size, timestamp_seq).
       let v = variable_header_size var;
           var_header_size = sum_header_size ext_size v;
           datafield = drop (unat offset) gse;
           pdu_frag_type = start_end_indicator fixed;
           len = ucast (GSE_Length fixed) - var_header_size;
           loc1 = loc\<lparr>dl_bfirst_gse := False, dl_timestamp_seq := timestamp_seq\<rparr> in
       if pdu_frag_type = WHOLE_PDU
       then if PDU_CONCAT = protocol_type
            then bind_ok (get_concat_pdu (Some datafield) len) (\<lambda>_. Inr (GSE_Length fixed, loc1, s1))
            else bind_ok (get_single_pdu env (Some datafield) len next_type (dl_inrouter_time loc1) s1) (\<lambda>(_, s2).
                   Inr (GSE_Length fixed, loc1\<lparr>dl_inrouter_time := 0\<rparr>, s2))
       else
         let temp_header_size = ucast (var_header_size
               - (ucast (fragment_ID_size v) + ucast (total_length_size v))) :: u8 in
         bind_ok (reassemble_fragment env pdu_frag_type datafield var timestamp_seq (ucast temp_header_size) len
                    next_type (dl_buffer_index loc1) queue_id s1) (\<lambda>(_, index, s2).
           Inr (GSE_Length fixed, loc1\<lparr>dl_buffer_index := index\<rparr>, s2)))))"

section \<open>The loop over the packets\<close>

text \<open>The sum of the loop condition is computed with 32 bits.\<close>

definition handled_sum :: "u16 \<Rightarrow> u32 \<Rightarrow> u32 \<Rightarrow> u32" where
  "handled_sum header_size handle_total_size padding_bytes = ucast header_size + handle_total_size + padding_bytes"

function decapsulate_packets :: "(nat \<Rightarrow> RX_ENV) \<Rightarrow> (nat \<Rightarrow> GSE_VARIABLE_HEADER_VALUE) \<Rightarrow> u8 list \<Rightarrow> nat
    \<Rightarrow> u16 \<Rightarrow> u32 \<Rightarrow> u16 \<Rightarrow> u8 list \<Rightarrow> nat \<Rightarrow> u32 \<Rightarrow> DECAP_LOCALS \<Rightarrow> DECAP_STATE
    \<Rightarrow> (DECAP_LOCALS \<times> DECAP_STATE) outcome" where
  "decapsulate_packets env junk mac queue_id header_size padding_bytes frame_size data pGSE handle_total_size loc s =
     bind_ok (decapsulate_packet (env pGSE) (junk pGSE) mac queue_id (drop pGSE data) loc s) (\<lambda>(len, loc', s').
     let handled = handle_total_size + (2 + ucast len) in
     if handled_sum header_size handled padding_bytes < ucast frame_size
     then decapsulate_packets env junk mac queue_id header_size padding_bytes frame_size data
            (pGSE + 2 + unat len) handled loc' s'
     else Inr (loc', s'))"
  by pat_completeness auto

text \<open>
  The loop ends for every frame: the handled size grows by at least 2 and at most 4097 per packet, so
  that the sum cannot wrap around while it is below the frame size.
\<close>

definition bytes_to_go :: "u16 \<Rightarrow> u32 \<Rightarrow> nat" where
  "bytes_to_go frame_size x = (if x < ucast frame_size then unat frame_size - unat x else 65536)"

lemma bytes_to_go_decreases:
  assumes "handled_sum h (t + (2 + ucast (len :: 12 word))) p < ucast frame_size"
  shows "bytes_to_go frame_size (handled_sum h (t + (2 + ucast len)) p) < bytes_to_go frame_size (handled_sum h t p)"
proof -
  let ?x = "handled_sum h t p" and ?F = "ucast frame_size :: u32"
  have F: "unat ?F = unat frame_size" "unat frame_size < 65536"
    using unsigned_less [of frame_size] by (simp_all add: unat_ucast_up)
  have l: "unat (ucast len :: u32) = unat len" "unat len < 4096"
    using unsigned_less [of len] by (simp_all add: unat_ucast_up)
  have x: "handled_sum h (t + (2 + ucast len)) p = ?x + (2 + ucast len)" by (simp add: handled_sum_def)
  have step: "unat (2 + ucast len :: u32) = 2 + unat len"
    using l by (subst unat_add_lt) simp_all
  show ?thesis
  proof (cases "?x < ?F")
    case True
    then have "unat ?x < 65536" using F by (simp add: word_less_nat_alt)
    then have "unat (?x + (2 + ucast len)) = unat ?x + (2 + unat len)"
      using l(2) by (subst unat_add_lt) (simp_all only: step, simp_all)
    then show ?thesis using True assms F(1) unfolding x by (simp add: bytes_to_go_def word_less_nat_alt)
  next
    case False
    then show ?thesis using assms F(2) by (simp add: bytes_to_go_def)
  qed
qed

termination decapsulate_packets
proof (relation "measure (\<lambda>(_, _, _, _, h, p, frame_size, _, _, t, _). bytes_to_go frame_size (handled_sum h t p))",
    simp, goal_cases)
  case 1
  then show ?case using bytes_to_go_decreases by simp
qed

declare decapsulate_packets.simps [simp del]

definition ENUM_FWD_Rx_FWD_Data :: u8 where "ENUM_FWD_Rx_FWD_Data = 0x16"
definition ENUM_FWD_Tx_Indication :: u8 where "ENUM_FWD_Tx_Indication = 1"
definition RTN_TUNNEL_PDU :: u8 where "RTN_TUNNEL_PDU = 2"
definition FWD_TUNNEL_PDU :: u8 where "FWD_TUNNEL_PDU = 1"
definition MULTI_FWD_PDU_PACK :: u8 where "MULTI_FWD_PDU_PACK = 17"
definition MULTI_RTN_PDU_PACK :: u8 where "MULTI_RTN_PDU_PACK = 18"

text \<open>For another packet type the header size is read uninitialised.\<close>

definition decapsulate_gse :: "(nat \<Rightarrow> RX_ENV) \<Rightarrow> (nat \<Rightarrow> GSE_VARIABLE_HEADER_VALUE) \<Rightarrow> int \<Rightarrow> u8 list
    \<Rightarrow> MBUF \<Rightarrow> FRAME_PARAM \<Rightarrow> nat \<Rightarrow> DECAP_STATE \<Rightarrow> DECAP_STATE outcome" where
  "decapsulate_gse env junk index0 mac frame_mbuf frame_para queue_id s =
     (let marked = mb_delay_time_mark_flag frame_mbuf = 1;
          inrouter_time = (if marked then mb_inrouter_time frame_mbuf else 0);
          frame1 = (if marked then frame_mbuf\<lparr>mb_delay_time_mark_flag := 0\<rparr> else frame_mbuf);
          loc = \<lparr>dl_timestamp_seq = 0, dl_buffer_index = index0, dl_inrouter_time = inrouter_time, dl_bfirst_gse = True\<rparr>
      in bind_ok (if fp_pack_type frame_para = ISL_PACK then Inr (of_nat ISLHEADER_SIZE)
                  else if fp_pack_type frame_para = ENUM_FWD_Tx_FWD_Data \<or> fp_pack_type frame_para = ENUM_FWD_Rx_FWD_Data
                  then Inr (of_nat BBHEADER_SIZE) else Inl UninitRead) (\<lambda>header_size.
         bind_ok (decapsulate_packets env junk mac queue_id header_size (fp_padding_bytes frame_para)
                    (fp_frame_size frame_para) (mb_data frame1) (unat (fp_gse_offset frame_para)) 0 loc s)
           (\<lambda>(_, s1). Inr (free_pdu (Some frame1) s1))))"

section \<open>The headers of a frame\<close>

definition rte_pktmbuf_adj :: "MBUF \<Rightarrow> nat \<Rightarrow> MBUF" where
  "rte_pktmbuf_adj b n = (if n \<le> length (mb_data b) then b\<lparr>mb_data := drop n (mb_data b)\<rparr> else b)"

definition read_BBHeader :: "u8 list \<Rightarrow> nat \<Rightarrow> BBHEADER outcome" where
  "read_BBHeader data off = bind_ok (get_bytes data off BBHEADER_SIZE) (\<lambda>b.
     Inr \<lparr>RO = ucast (b ! 0), NPD = ucast (drop_bit 2 (b ! 0)), ISSYI = ucast (drop_bit 3 (b ! 0)),
       CCM_ACM = ucast (drop_bit 4 (b ! 0)), SIS_MIS = ucast (drop_bit 5 (b ! 0)), TS_GS = ucast (drop_bit 6 (b ! 0)),
       Matype2 = b ! 1, UPL = of_le16 (b ! 2) (b ! 3), bb_DFL = of_le16 (b ! 4) (b ! 5), SYNC = b ! 6,
       SYNCD = of_le16 (b ! 7) (b ! 8), bb_CRC8 = b ! 9\<rparr>)"

definition INDC_AVAIL_BUF_SENDING_RATE_MASK :: u32 where
  "INDC_AVAIL_BUF_SENDING_RATE_MASK = push_bit 30 1"

text \<open>The result is the return value and the number stored in \<open>available_fpga_buff\<close>, if any.  The mask is
  at offset 0 of \<open>FWD_Tx_Indication\<close>, the available buffer at offset 16.\<close>

definition fc_check_proc_tx_indication_hdr :: "MBUF \<Rightarrow> (u16 \<times> u32 option) outcome" where
  "fc_check_proc_tx_indication_hdr mbuf =
     bind_ok (load32 (mb_data mbuf) 0) (\<lambda>mask.
       if bswap32 mask AND INDC_AVAIL_BUF_SENDING_RATE_MASK = 0 then Inr (0, None)
       else bind_ok (load32 (mb_data mbuf) 16) (\<lambda>avail. Inr (1, Some (bswap32 avail))))"

definition FWD_Tx_Indication_SIZE :: nat where "FWD_Tx_Indication_SIZE = 48"
definition ETHER_HDR_SIZE :: nat where "ETHER_HDR_SIZE = 14"
definition PROTOCOL_ARP :: u16 where "PROTOCOL_ARP = 0x0806"

text \<open>
  The offsets of \<open>ether_type\<close> (12), \<open>msg_type\<close> (17) and \<open>msg_len\<close> (18) in the message header and of
  \<open>frame_size\<close> (10) in \<open>L2L1_HEADER\<close> are those of the packed structures.  The result is the return value,
  the frame parameters, the mbuf that is still owned by the caller, the mbuf that was freed, and the
  new \<open>available_fpga_buff\<close>.
\<close>

definition process_frame_header :: "MBUF \<Rightarrow> FRAME_PARAM
    \<Rightarrow> (int \<times> FRAME_PARAM \<times> MBUF option \<times> MBUF option \<times> u32 option) outcome" where
  "process_frame_header frame_mbuf frame_para =
     (let data = mb_data frame_mbuf in
      bind_ok (load16 data 12) (\<lambda>et. let ether_type = bswap16 et in
      if ether_type = 0x9101
      then
        bind_ok (load_at data 17) (\<lambda>mtype.
        if mtype = ENUM_FWD_Tx_FWD_Data \<or> mtype = ENUM_FWD_Rx_FWD_Data
        then
          bind_ok (load16 data (L2L1_MSG_HEADER_SIZE + 10)) (\<lambda>fs.
          bind_ok (read_BBHeader data (L2L1_MSG_HEADER_SIZE + L2L1_HEADER_SIZE)) (\<lambda>bb.
          let Frame_size = bswap16 fs; DFL = bswap16 (bb_DFL bb);
              padding_bytes = ucast Frame_size - of_nat BBHEADER_SIZE - ucast (drop_bit 3 DFL) in
          if identify_gs (Some bb) < 0
          then Inr (-1, frame_para\<lparr>fp_header_size := of_nat BBHEADER_SIZE\<rparr>, None, Some frame_mbuf, None)
          else Inr (0, frame_para\<lparr>fp_header_size := of_nat BBHEADER_SIZE, fp_frame_size := Frame_size,
                         fp_padding_bytes := padding_bytes, fp_pack_type := mtype,
                         fp_gse_offset := of_nat (L2L1_MSG_HEADER_SIZE + L2L1_HEADER_SIZE + BBHEADER_SIZE)\<rparr>,
                    Some frame_mbuf, None, None)))
        else if mtype = ENUM_FWD_Tx_Indication
        then
          bind_ok (load16 data 18) (\<lambda>ml.
          if bswap16 ml \<noteq> of_nat (L2L1_MSG_HEADER_SIZE + FWD_Tx_Indication_SIZE - ETHER_HDR_SIZE)
          then Inr (-1, frame_para, None, Some frame_mbuf, None)
          else
            let mbuf = rte_pktmbuf_adj frame_mbuf L2L1_MSG_HEADER_SIZE in
            bind_ok (fc_check_proc_tx_indication_hdr mbuf) (\<lambda>(_, avail).
              Inr (2, frame_para, None, Some mbuf, avail)))
        else Inr (-1, frame_para, None, Some frame_mbuf, None))
      else if ether_type = PROTOCOL_ARP \<or> ether_type = PROTOCOL_IPV4
      then Inr (0, frame_para\<lparr>fp_pack_type := RTN_TUNNEL_PDU\<rparr>,
                Some ((rte_pktmbuf_adj frame_mbuf ETHER_HDR_SIZE)\<lparr>mb_protocol_type := ucast ether_type\<rparr>), None, None)
      else Inr (-1, frame_para, None, Some frame_mbuf, None)))"

text \<open>
  \<open>pdu_packs\<close> stands for \<open>decapsulate_pdu\<close> and \<open>frame_para\<close> for the uninitialised local.  The tunnelled
  packets are put on the ring \<open>queue_id\<close>, all others on ring 0; the result is the state, what was put
  on the ring \<open>queue_id\<close> and the new \<open>available_fpga_buff\<close>.
\<close>

definition dispatch_decap_pkt :: "(nat \<Rightarrow> RX_ENV) \<Rightarrow> (nat \<Rightarrow> GSE_VARIABLE_HEADER_VALUE) \<Rightarrow> int \<Rightarrow> u8 list
    \<Rightarrow> (MBUF \<Rightarrow> FRAME_PARAM \<Rightarrow> DECAP_STATE \<Rightarrow> DECAP_STATE outcome) \<Rightarrow> FRAME_PARAM \<Rightarrow> MBUF \<Rightarrow> nat \<Rightarrow> DECAP_STATE
    \<Rightarrow> (DECAP_STATE \<times> (nat \<times> MBUF) option \<times> u32 option) outcome" where
  "dispatch_decap_pkt env junk index0 mac pdu_packs frame_para mbuf queue_id s =
     bind_ok (process_frame_header mbuf frame_para) (\<lambda>(ret, fp, kept, freed, avail).
     let s1 = free_pdu freed s in
     if ret = -1 \<or> ret = 2 then Inr (s1, None, avail)
     else case kept of
       None \<Rightarrow> Inl NullDeref
     | Some m \<Rightarrow>
       if fp_pack_type fp = ISL_PACK \<or> fp_pack_type fp = ENUM_FWD_Tx_FWD_Data \<or> fp_pack_type fp = ENUM_FWD_Rx_FWD_Data
       then bind_ok (decapsulate_gse env junk index0 mac m fp queue_id s1) (\<lambda>s2. Inr (s2, None, avail))
       else if fp_pack_type fp = MULTI_FWD_PDU_PACK \<or> fp_pack_type fp = MULTI_RTN_PDU_PACK
       then bind_ok (pdu_packs m fp s1) (\<lambda>s2. Inr (s2, None, avail))
       else if fp_pack_type fp = FWD_TUNNEL_PDU \<or> fp_pack_type fp = RTN_TUNNEL_PDU
       then if rx_ring_ok (env 0) then Inr (s1, Some (queue_id, m), avail)
            else Inr (free_pdu (Some m) s1, None, avail)
       else Inr (s1, None, avail))"

section \<open>Packets on the wire\<close>

text \<open>
  The packets the encapsulator builds: a whole PDU, or a fragment with its sequence header.  The
  label of a packet is as long as its type says, and neither protocol type is one of an extension
  header.
\<close>

datatype gse_packet =
    WholePdu "2 word" "u8 list" u16 "u8 list"
  | FragPdu "1 word" "1 word" "2 word" "u8 list" u8 u16 u16 u16 "u8 list"

fun pkt_gse_length :: "gse_packet \<Rightarrow> nat" where
  "pkt_gse_length (WholePdu lt lab ptype pdu) = 2 + length lab + length pdu"
| "pkt_gse_length (FragPdu S E lt lab ID tot ts ptype d) =
     length (wire_frag_fields S E ID tot) + 2 + length lab + 4 + length d"

fun pkt_bytes :: "gse_packet \<Rightarrow> u8 list" where
  "pkt_bytes (WholePdu lt lab ptype pdu) =
     wire_gse_header 1 1 lt (pkt_gse_length (WholePdu lt lab ptype pdu)) 0 0 ptype lab @ pdu"
| "pkt_bytes (FragPdu S E lt lab ID tot ts ptype d) =
     wire_gse_header S E lt (pkt_gse_length (FragPdu S E lt lab ID tot ts ptype d)) ID tot FRAG_SEQUENCE lab
     @ le16 (bswap16 ts) @ le16 (bswap16 ptype) @ d"

fun pkt_label :: "gse_label option \<Rightarrow> gse_packet \<Rightarrow> gse_label option" where
  "pkt_label cur (WholePdu lt lab ptype pdu) =
     (if lt = 3 then cur else if lt = 2 then Some Broadcast else Some (Mac lab))"
| "pkt_label cur (FragPdu S E lt lab ID tot ts ptype d) =
     (if lt = 3 then cur else if lt = 2 then Some Broadcast else Some (Mac lab))"

fun pkt_ok :: "gse_packet \<Rightarrow> bool" where
  "pkt_ok (WholePdu lt lab ptype pdu) \<longleftrightarrow> length lab = label_length lt \<and> \<not> regular_ext_header_type ptype
     \<and> pkt_gse_length (WholePdu lt lab ptype pdu) < 4096"
| "pkt_ok (FragPdu S E lt lab ID tot ts ptype d) \<longleftrightarrow> length lab = label_length lt \<and> \<not> regular_ext_header_type ptype
     \<and> \<not> (S = 1 \<and> E = 1) \<and> pkt_gse_length (FragPdu S E lt lab ID tot ts ptype d) < 4096"

lemma length_wire_gse_header:
  "length (wire_gse_header S E lt len ID tot ptype lab) = 4 + length (wire_frag_fields S E ID tot) + length lab"
  by (simp add: wire_gse_header_def gse_wire_header_def)

lemma length_pkt_bytes: "length (pkt_bytes p) = 2 + pkt_gse_length p"
  by (cases p) (simp_all add: length_wire_gse_header length_wire_frag_fields)

lemma read_no_ext_header:
  "\<not> regular_ext_header_type nt \<Longrightarrow> read_ext_headers gse off nt pt vs ts = Inr (off, nt, pt, vs, ts)"
  by (simp add: read_ext_headers.simps)

lemma read_frag_sequence:
  assumes "length pre = unat off" "\<not> regular_ext_header_type ptype"
    "length (pre @ le16 (bswap16 ts) @ le16 (bswap16 ptype) @ d) \<le> 65535"
  shows "read_ext_headers (pre @ le16 (bswap16 ts) @ le16 (bswap16 ptype) @ d) off FRAG_SEQUENCE pt vs ts0
    = Inr (off + 4, ptype, FRAG_SEQUENCE, 4, ts)"
proof -
  let ?g = "pre @ le16 (bswap16 ts) @ le16 (bswap16 ptype) @ d"
  have dr: "drop (unat off) ?g = le16 (bswap16 ts) @ le16 (bswap16 ptype) @ d" using assms(1) by simp
  have gb: "get_bytes ?g (unat off) 2 = Inr (le16 (bswap16 ts))" using assms(1) by simp
  have l: "load16 (le16 (bswap16 ts)) 0 = Inr (bswap16 ts)" using load16_0 [of "bswap16 ts" "[]"] by simp
  have t: "unat (of_int 4 - 2 :: u16) = 2" by simp
  show ?thesis
    using assms(3)
    by (subst read_ext_headers.simps)
      (simp only: frag_sequence_header_reads dr gb l t bind_ok.simps prod.case if_True if_False simp_thms
        not_less if_not_P bswap16_bswap16 read_no_ext_header [OF assms(2)] refl, simp)
qed

lemma start_end_bits:
  "start_end_indicator \<lparr>GSE_Length = len, Label_Type = lt, End_Indicator = E, Start_Indicator = S\<rparr>
   = (if S = 1 then if E = 1 then WHOLE_PDU else FRAG_START else if E = 1 then FRAG_END else FRAG_MIDDLE)"
  using one_bit_cases [of S] one_bit_cases [of E] by (auto simp: start_end_indicator_def frag_position_defs)

text \<open>The header and the filter of a packet in front of anything.\<close>

lemma wire_filter:
  assumes lab: "length lab = label_length lt" and junk: "length (v_label junk) = 6" and mac: "length mac = 6"
    and rel: "mac_info_rel cur p" "first_rel mac cur bf"
  shows "\<exists>var r p'. decapsulate_gse_header (wire_gse_header S E lt len ID tot ptype lab @ rest) junk
     = Inr (int (length (wire_gse_header S E lt len ID tot ptype lab)), ptype,
         \<lparr>GSE_Length = of_nat len, Label_Type = lt, End_Indicator = E, Start_Indicator = S\<rparr>, var)
    \<and> variable_header_size var = received_header_size
         \<lparr>GSE_Length = of_nat len, Label_Type = lt, End_Indicator = E, Start_Indicator = S\<rparr>
    \<and> (\<not> (S = 1 \<and> E = 1) \<longrightarrow> v_fragment_ID (variable_header_value var) = ID)
    \<and> (S = 1 \<and> E = 0 \<longrightarrow> v_total_length (variable_header_value var) = tot)
    \<and> filter_address \<lparr>GSE_Length = of_nat len, Label_Type = lt, End_Indicator = E, Start_Indicator = S\<rparr> var mac bf
        (Some p) = Inr (r, Some p')
    \<and> (r = 1 \<longleftrightarrow> label_for_us mac (pkt_label cur (WholePdu lt lab ptype [])))
    \<and> mac_info_rel (pkt_label cur (WholePdu lt lab ptype [])) p'
    \<and> first_rel mac (pkt_label cur (WholePdu lt lab ptype [])) (if r = 1 then False else bf)"
proof -
  let ?f = "\<lparr>GSE_Length = of_nat len, Label_Type = lt, End_Indicator = E, Start_Indicator = S\<rparr>"
  obtain var where v: "decapsulate_gse_header (wire_gse_header S E lt len ID tot ptype lab @ rest) junk
     = Inr (int (length (wire_gse_header S E lt len ID tot ptype lab)), ptype, ?f, var)"
    "variable_header_size var = received_header_size ?f"
    "\<not> (S = 1 \<and> E = 1) \<longrightarrow> v_fragment_ID (variable_header_value var) = ID"
    "S = 1 \<and> E = 0 \<longrightarrow> v_total_length (variable_header_value var) = tot"
    "length (v_label (variable_header_value var)) = 6" "take (length lab) (v_label (variable_header_value var)) = lab"
    using decapsulate_gse_header_reads [OF lab junk] by blast
  have e: "effective_label cur (?f, var) = pkt_label cur (WholePdu lt lab ptype [])"
    using v(6) lab by (simp add: effective_label_def)
  show ?thesis
    using filter_address_step [OF mac _ rel, of "(?f, var)"] v unfolding e fst_conv snd_conv by metis
qed

lemma whole_sizes:
  "sum_header_size 0 (received_header_size \<lparr>GSE_Length = len, Label_Type = lt, End_Indicator = 1, Start_Indicator = 1\<rparr>)
   = of_nat (2 + label_length lt)"
  using two_bit_cases [of lt]
  by (auto simp: sum_header_size_def received_header_size_def label_length_def label_type_defs)

lemma frag_sizes:
  "\<not> (S = 1 \<and> E = 1) \<Longrightarrow>
   sum_header_size 4 (received_header_size \<lparr>GSE_Length = len, Label_Type = lt, End_Indicator = E, Start_Indicator = S\<rparr>)
   = of_nat (6 + label_length lt + length (wire_frag_fields S E ID tot))"
  using two_bit_cases [of lt] one_bit_cases [of S] one_bit_cases [of E]
  by (auto simp: sum_header_size_def received_header_size_def label_length_def label_type_defs length_wire_frag_fields)

lemma ucast_len_12: "n < 4096 \<Longrightarrow> (ucast (of_nat n :: 12 word) :: u16) = of_nat n"
proof -
  assume "n < 4096"
  then have "unat (of_nat n :: 12 word) = n" by (intro unat_of_nat_lt) simp
  then show ?thesis by (metis of_nat_unat)
qed

section \<open>One packet\<close>

lemma decapsulate_whole:
  assumes ok: "pkt_ok (WholePdu lt lab ptype pdu)" and len: "length (pkt_bytes (WholePdu lt lab ptype pdu) @ rest) \<le> 65535"
    and junk: "length (v_label junk) = 6" and mac: "length mac = 6"
    and rel: "mac_info_rel cur (ds_previous_mac s)" "first_rel mac cur (dl_bfirst_gse loc)"
  defines "n \<equiv> pkt_gse_length (WholePdu lt lab ptype pdu)" and "cur' \<equiv> pkt_label cur (WholePdu lt lab ptype pdu)"
  shows "\<exists>p'. mac_info_rel cur' p' \<and> (let s1 = s\<lparr>ds_previous_mac := p'\<rparr> in
      decapsulate_packet env junk mac q (pkt_bytes (WholePdu lt lab ptype pdu) @ rest) loc s
      = (if label_for_us mac cur'
         then bind_ok (get_single_pdu env (Some (pdu @ rest)) (of_nat (length pdu)) ptype (dl_inrouter_time loc) s1)
                (\<lambda>(_, s2). Inr (of_nat n, loc\<lparr>dl_bfirst_gse := False, dl_inrouter_time := 0\<rparr>, s2))
         else Inr (of_nat n, loc, s1)))
    \<and> first_rel mac cur' (if label_for_us mac cur' then False else dl_bfirst_gse loc)"
proof -
  have o: "length lab = label_length lt" "\<not> regular_ext_header_type ptype" "n < 4096" using ok by (simp_all add: n_def)
  let ?f = "\<lparr>GSE_Length = of_nat n, Label_Type = lt, End_Indicator = 1, Start_Indicator = 1\<rparr>"
  let ?h = "wire_gse_header 1 1 lt n 0 0 ptype lab"
  have g: "pkt_bytes (WholePdu lt lab ptype pdu) @ rest = ?h @ pdu @ rest" by (simp add: n_def)
  obtain var r p' where v: "decapsulate_gse_header (?h @ pdu @ rest) junk = Inr (int (length ?h), ptype, ?f, var)"
    "variable_header_size var = received_header_size ?f"
    "filter_address ?f var mac (dl_bfirst_gse loc) (Some (ds_previous_mac s)) = Inr (r, Some p')"
    "r = 1 \<longleftrightarrow> label_for_us mac cur'" "mac_info_rel cur' p'" "first_rel mac cur' (if r = 1 then False else dl_bfirst_gse loc)"
    using wire_filter [OF o(1) junk mac rel, of 1 1 n 0 0 ptype "pdu @ rest"] unfolding cur'_def pkt_label.simps by metis
  have lh: "length ?h < 65536" using len unfolding g by simp
  have off: "unat (of_int (int (length ?h)) :: u16) = length ?h" using lh by (simp add: unat_of_nat_lt)
  have re: "read_ext_headers (?h @ pdu @ rest) (of_int (int (length ?h))) ptype 0 0 (dl_timestamp_seq loc)
      = Inr (of_int (int (length ?h)), ptype, 0, 0, dl_timestamp_seq loc)"
    using o(2) by (rule read_no_ext_header)
  have dl: "ucast (of_nat n :: 12 word) - of_nat (2 + label_length lt) = (of_nat (length pdu) :: u16)"
    using ucast_len_12 [OF o(3)] o(1) by (simp add: n_def)
  have w: "start_end_indicator ?f = WHOLE_PDU" by (simp add: start_end_bits)
  have pc: "(PDU_CONCAT = 0) = False" by (simp add: PDU_CONCAT_def)
  have dr: "drop (length ?h) (?h @ pdu @ rest) = pdu @ rest" by simp
  show ?thesis
  proof (intro exI conjI)
    show "mac_info_rel cur' p'" by (rule v(5))
    show "first_rel mac cur' (if label_for_us mac cur' then False else dl_bfirst_gse loc)" using v(4,6) by simp
    show "let s1 = s\<lparr>ds_previous_mac := p'\<rparr> in
      decapsulate_packet env junk mac q (pkt_bytes (WholePdu lt lab ptype pdu) @ rest) loc s
      = (if label_for_us mac cur'
         then bind_ok (get_single_pdu env (Some (pdu @ rest)) (of_nat (length pdu)) ptype (dl_inrouter_time loc) s1)
                (\<lambda>(_, s2). Inr (of_nat n, loc\<lparr>dl_bfirst_gse := False, dl_inrouter_time := 0\<rparr>, s2))
         else Inr (of_nat n, loc, s1))"
    proof (cases "label_for_us mac cur'")
      case False
      then show ?thesis unfolding g decapsulate_packet_def v(1) bind_ok.simps prod.case v(3) Let_def
        using v(4) by simp
    next
      case True
      show ?thesis
        unfolding g decapsulate_packet_def v(1) bind_ok.simps prod.case v(3) Let_def re off
          GSE_FIXED_HEADER.select_convs v(2) whole_sizes w dl dr pc
        using v(4) True by simp
    qed
  qed
qed

lemma frag_start_sizes:
  assumes "length lab = label_length lt"
  shows "ucast (ucast (of_nat (6 + label_length lt + length (wire_frag_fields S E ID tot))
      - (ucast (fragment_ID_size (received_header_size \<lparr>GSE_Length = len, Label_Type = lt, End_Indicator = E, Start_Indicator = S\<rparr>))
         + ucast (total_length_size (received_header_size \<lparr>GSE_Length = len, Label_Type = lt, End_Indicator = E, Start_Indicator = S\<rparr>))) :: u16) :: u8)
    = (of_nat (6 + length lab) :: u16)"
  using assms two_bit_cases [of lt] one_bit_cases [of S] one_bit_cases [of E]
  by (auto simp: received_header_size_def label_length_def length_wire_frag_fields)

lemma decapsulate_frag:
  fixes S E :: "1 word"
  assumes ok: "pkt_ok (FragPdu S E lt lab ID tot ts ptype d)"
    and len: "length (pkt_bytes (FragPdu S E lt lab ID tot ts ptype d) @ rest) \<le> 65535"
    and junk: "length (v_label junk) = 6" and mac: "length mac = 6"
    and rel: "mac_info_rel cur (ds_previous_mac s)" "first_rel mac cur (dl_bfirst_gse loc)"
  defines "n \<equiv> pkt_gse_length (FragPdu S E lt lab ID tot ts ptype d)"
    and "cur' \<equiv> pkt_label cur (FragPdu S E lt lab ID tot ts ptype d)"
  shows "\<exists>p' var. mac_info_rel cur' p' \<and> v_fragment_ID (variable_header_value var) = ID
    \<and> (S = 1 \<longrightarrow> v_total_length (variable_header_value var) = tot) \<and> (let s1 = s\<lparr>ds_previous_mac := p'\<rparr> in
      decapsulate_packet env junk mac q (pkt_bytes (FragPdu S E lt lab ID tot ts ptype d) @ rest) loc s
      = (if label_for_us mac cur'
         then bind_ok (reassemble_fragment env (if S = 1 then FRAG_START else if E = 1 then FRAG_END else FRAG_MIDDLE)
                         (d @ rest) var ts (of_nat (6 + length lab)) (of_nat (length d)) ptype (dl_buffer_index loc) q s1)
                (\<lambda>(_, index, s2). Inr (of_nat n, loc\<lparr>dl_bfirst_gse := False, dl_timestamp_seq := ts,
                                                  dl_buffer_index := index\<rparr>, s2))
         else Inr (of_nat n, loc, s1)))
    \<and> first_rel mac cur' (if label_for_us mac cur' then False else dl_bfirst_gse loc)"
proof -
  have o: "length lab = label_length lt" "\<not> regular_ext_header_type ptype" "\<not> (S = 1 \<and> E = 1)" "n < 4096"
    using ok by (simp_all add: n_def)
  let ?f = "\<lparr>GSE_Length = of_nat n, Label_Type = lt, End_Indicator = E, Start_Indicator = S\<rparr>"
  let ?h = "wire_gse_header S E lt n ID tot FRAG_SEQUENCE lab"
  let ?t = "le16 (bswap16 ts) @ le16 (bswap16 ptype) @ d @ rest"
  have g: "pkt_bytes (FragPdu S E lt lab ID tot ts ptype d) @ rest = ?h @ ?t" by (simp add: n_def)
  obtain var r p' where v: "decapsulate_gse_header (?h @ ?t) junk = Inr (int (length ?h), FRAG_SEQUENCE, ?f, var)"
    "variable_header_size var = received_header_size ?f"
    "\<not> (S = 1 \<and> E = 1) \<longrightarrow> v_fragment_ID (variable_header_value var) = ID"
    "S = 1 \<and> E = 0 \<longrightarrow> v_total_length (variable_header_value var) = tot"
    "filter_address ?f var mac (dl_bfirst_gse loc) (Some (ds_previous_mac s)) = Inr (r, Some p')"
    "r = 1 \<longleftrightarrow> label_for_us mac cur'" "mac_info_rel cur' p'" "first_rel mac cur' (if r = 1 then False else dl_bfirst_gse loc)"
    using wire_filter [OF o(1) junk mac rel, of S E n ID tot FRAG_SEQUENCE ?t] unfolding cur'_def pkt_label.simps by metis
  have lh: "length ?h < 65536" using len unfolding g by simp
  have off: "unat (of_int (int (length ?h)) :: u16) = length ?h" using lh by (simp add: unat_of_nat_lt)
  have re: "read_ext_headers (?h @ ?t) (of_int (int (length ?h))) FRAG_SEQUENCE 0 0 (dl_timestamp_seq loc)
      = Inr (of_int (int (length ?h)) + 4, ptype, FRAG_SEQUENCE, 4, ts)"
    using off o(2) len unfolding g by (intro read_frag_sequence) simp_all
  have off4: "unat (of_int (int (length ?h)) + 4 :: u16) = length ?h + 4"
    using len off unfolding g by (subst unat_add_lt) simp_all
  have dl: "ucast (of_nat n :: 12 word) - of_nat (6 + label_length lt + length (wire_frag_fields S E ID tot))
      = (of_nat (length d) :: u16)"
    using ucast_len_12 [OF o(4)] o(1) by (simp add: n_def)
  have w: "start_end_indicator ?f = (if S = 1 then FRAG_START else if E = 1 then FRAG_END else FRAG_MIDDLE)"
    "start_end_indicator ?f \<noteq> WHOLE_PDU"
    using o(3) by (auto simp: start_end_bits frag_position_defs)
  have dr: "drop (length ?h + 4) (?h @ ?t) = d @ rest" by simp
  have E0: "S = 1 \<longrightarrow> E = 0" using o(3) one_bit_cases [of E] by auto
  have hl: "ucast (ucast (of_nat (6 + label_length lt + length (wire_frag_fields S E ID tot))
      - (ucast (fragment_ID_size (received_header_size ?f)) + ucast (total_length_size (received_header_size ?f))) :: u16) :: u8)
    = (of_nat (6 + length lab) :: u16)" by (rule frag_start_sizes [OF o(1)])
  show ?thesis
  proof (intro exI conjI)
    show "mac_info_rel cur' p'" by (rule v(7))
    show "v_fragment_ID (variable_header_value var) = ID" using v(3) o(3) by blast
    show "S = 1 \<longrightarrow> v_total_length (variable_header_value var) = tot" using v(4) E0 by blast
    show "first_rel mac cur' (if label_for_us mac cur' then False else dl_bfirst_gse loc)" using v(6,8) by simp
    show "let s1 = s\<lparr>ds_previous_mac := p'\<rparr> in
      decapsulate_packet env junk mac q (pkt_bytes (FragPdu S E lt lab ID tot ts ptype d) @ rest) loc s
      = (if label_for_us mac cur'
         then bind_ok (reassemble_fragment env (if S = 1 then FRAG_START else if E = 1 then FRAG_END else FRAG_MIDDLE)
                         (d @ rest) var ts (of_nat (6 + length lab)) (of_nat (length d)) ptype (dl_buffer_index loc) q s1)
                (\<lambda>(_, index, s2). Inr (of_nat n, loc\<lparr>dl_bfirst_gse := False, dl_timestamp_seq := ts,
                                                  dl_buffer_index := index\<rparr>, s2))
         else Inr (of_nat n, loc, s1))"
    proof (cases "label_for_us mac cur'")
      case False
      then show ?thesis unfolding g decapsulate_packet_def v(1) bind_ok.simps prod.case v(5) Let_def
        using v(6) by simp
    next
      case True
      then have r1: "(r \<noteq> 1) = False" using v(6) by simp
      have nw: "((if S = 1 then FRAG_START else if E = 1 then FRAG_END else FRAG_MIDDLE) = WHOLE_PDU) = False"
        using w by simp
      show ?thesis
        unfolding g decapsulate_packet_def v(1) bind_ok.simps prod.case v(5) Let_def re off4 option.case
          GSE_FIXED_HEADER.select_convs v(2) frag_sizes [OF o(3), where ID = ID and tot = tot] dl dr hl w(1) r1 nw if_False
        using True by simp
    qed
  qed
qed

section \<open>The packets of a frame, one after the other\<close>

text \<open>The packets \<open>ps\<close> of a frame from position \<open>pos\<close> on, with \<open>post\<close> behind them.\<close>

fun visit_packets :: "(nat \<Rightarrow> RX_ENV) \<Rightarrow> (nat \<Rightarrow> GSE_VARIABLE_HEADER_VALUE) \<Rightarrow> u8 list \<Rightarrow> nat \<Rightarrow> u8 list
    \<Rightarrow> gse_packet list \<Rightarrow> nat \<Rightarrow> DECAP_LOCALS \<Rightarrow> DECAP_STATE \<Rightarrow> (DECAP_LOCALS \<times> DECAP_STATE) outcome" where
  "visit_packets env junk mac q post [] pos loc s = Inr (loc, s)"
| "visit_packets env junk mac q post (p # ps) pos loc s =
     bind_ok (decapsulate_packet (env pos) (junk pos) mac q (pkt_bytes p @ concat (map pkt_bytes ps) @ post) loc s)
       (\<lambda>(_, loc', s'). visit_packets env junk mac q post ps (pos + length (pkt_bytes p)) loc' s')"

lemma decapsulate_packet_length:
  assumes "pkt_ok p" "length (v_label junk) = 6"
    "decapsulate_packet env junk mac q (pkt_bytes p @ rest) loc s = Inr (len, loc', s')"
  shows "len = of_nat (pkt_gse_length p)"
proof -
  have "\<exists>off pt f var. decapsulate_gse_header (pkt_bytes p @ rest) junk = Inr (off, pt, f, var)
      \<and> GSE_Length f = of_nat (pkt_gse_length p)"
  proof (cases p)
    case (WholePdu lt lab ptype pdu)
    then show ?thesis
      using assms(1,2) decapsulate_gse_header_reads [of lab lt junk 1 1 "pkt_gse_length p" 0 0 ptype "pdu @ rest"] by auto
  next
    case (FragPdu S E lt lab ID tot ts ptype d)
    then show ?thesis
      using assms(1,2) decapsulate_gse_header_reads [of lab lt junk S E "pkt_gse_length p" ID tot FRAG_SEQUENCE
        "le16 (bswap16 ts) @ le16 (bswap16 ptype) @ d @ rest"] by auto
  qed
  then show ?thesis
    using assms(3) by (auto simp: decapsulate_packet_def bind_ok_eq_Inr_iff Let_def split: if_splits)
qed

lemma ucast_u32_of_nat: "n < 4096 \<Longrightarrow> (ucast (of_nat n :: 12 word) :: u32) = of_nat n"
proof -
  assume "n < 4096"
  then have "unat (of_nat n :: 12 word) = n" by (intro unat_of_nat_lt) simp
  then show ?thesis by (metis of_nat_unat)
qed

lemma pkt_ok_length: "pkt_ok p \<Longrightarrow> pkt_gse_length p < 4096"
  by (cases p) simp_all

lemma decapsulate_packets_visits:
  assumes junk: "\<And>pos. length (v_label (junk pos)) = 6"
  shows "ps \<noteq> [] \<Longrightarrow> list_all pkt_ok ps \<Longrightarrow> handled_sum hs t pad = of_nat x \<Longrightarrow>
    x + length (concat (map pkt_bytes ps)) = unat fsize \<Longrightarrow>
    decapsulate_packets env junk mac q hs pad fsize (pre @ concat (map pkt_bytes ps) @ post) (length pre) t loc s
    = visit_packets env junk mac q post ps (length pre) loc s"
proof (induction ps arbitrary: pre t x loc s)
  case (Cons p ps)
  let ?B = "concat (map pkt_bytes ps)" and ?n = "pkt_gse_length p"
  have ok: "pkt_ok p" "list_all pkt_ok ps" "?n < 4096" using Cons.prems(2) pkt_ok_length by auto
  have d: "drop (length pre) (pre @ concat (map pkt_bytes (p # ps)) @ post) = pkt_bytes p @ ?B @ post" by simp
  have F: "unat (ucast fsize :: u32) = unat fsize" "unat fsize < 65536"
    using unsigned_less [of fsize] by (simp_all add: unat_ucast_up)
  show ?case
  proof (cases "decapsulate_packet (env (length pre)) (junk (length pre)) mac q (pkt_bytes p @ ?B @ post) loc s")
    case (Inl e)
    then show ?thesis unfolding decapsulate_packets.simps [of _ _ _ _ _ _ _ _ "length pre"] d by simp
  next
    case (Inr r)
    obtain len loc' s' where r: "r = (len, loc', s')" by (cases r)
    then have len: "len = of_nat ?n"
      using decapsulate_packet_length [OF ok(1) junk] Inr by blast
    have un: "unat len = ?n" using ok(3) unfolding len by (intro unat_of_nat_lt) simp
    have h: "handled_sum hs (t + (2 + ucast len)) pad = of_nat (x + length (pkt_bytes p))"
    proof -
      have "handled_sum hs (t + (2 + ucast len)) pad = handled_sum hs t pad + (2 + ucast len)"
        by (simp add: handled_sum_def)
      then show ?thesis using Cons.prems(3) ucast_u32_of_nat [OF ok(3)] len by (simp add: length_pkt_bytes)
    qed
    have xl: "x + length (pkt_bytes p) + length ?B = unat fsize" using Cons.prems(4) by simp
    then have ux: "unat (of_nat (x + length (pkt_bytes p)) :: u32) = x + length (pkt_bytes p)"
      using F(2) by (intro unat_of_nat_lt) simp
    have more: "handled_sum hs (t + (2 + ucast len)) pad < ucast fsize \<longleftrightarrow> ps \<noteq> []"
    proof -
      have "ps \<noteq> [] \<longleftrightarrow> 0 < length ?B" by (cases ps) (simp_all add: length_pkt_bytes)
      then show ?thesis using ux F(1) xl unfolding h word_less_nat_alt by linarith
    qed
    have step: "decapsulate_packets env junk mac q hs pad fsize (pre @ concat (map pkt_bytes (p # ps)) @ post) (length pre) t loc s
        = (if ps \<noteq> []
           then decapsulate_packets env junk mac q hs pad fsize ((pre @ pkt_bytes p) @ ?B @ post)
                  (length (pre @ pkt_bytes p)) (t + (2 + ucast len)) loc' s'
           else Inr (loc', s'))"
      unfolding decapsulate_packets.simps [of _ _ _ _ _ _ _ _ "length pre"] d Inr r
      using more un by (simp add: length_pkt_bytes add.assoc)
    show ?thesis
    proof (cases "ps = []")
      case True
      then show ?thesis unfolding step using Inr r by simp
    next
      case False
      from Cons.IH [OF this ok(2) h xl, of "pre @ pkt_bytes p" loc' s'] show ?thesis unfolding step using Inr r False by simp
    qed
  qed
qed simp

section \<open>Frames of whole PDUs\<close>

text \<open>An mbuf of the pool with room for any PDU of a packet, and room on the ring.\<close>

definition rx_ready :: "RX_ENV \<Rightarrow> bool" where
  "rx_ready env \<longleftrightarrow> rx_ring_ok env \<and> (case rx_alloc env of None \<Rightarrow> False
     | Some m \<Rightarrow> mb_data m = [] \<and> 4096 \<le> length (mb_tail m))"

definition is_ip_pdu :: "gse_packet \<Rightarrow> bool" where
  "is_ip_pdu p = (case p of WholePdu lt lab ptype pdu \<Rightarrow> ptype = PROTOCOL_IPV4 \<or> ptype = PROTOCOL_IPV6 | _ \<Rightarrow> False)"

text \<open>The specification: the PDUs whose label is for \<open>mac\<close>, with their protocol types.\<close>

fun accepted_pdus :: "u8 list \<Rightarrow> gse_label option \<Rightarrow> gse_packet list \<Rightarrow> (u32 \<times> u8 list) list" where
  "accepted_pdus mac cur [] = []"
| "accepted_pdus mac cur (WholePdu lt lab ptype pdu # ps) =
     (if label_for_us mac (pkt_label cur (WholePdu lt lab ptype pdu)) then [(ucast ptype, pdu)] else [])
     @ accepted_pdus mac (pkt_label cur (WholePdu lt lab ptype pdu)) ps"
| "accepted_pdus mac cur (FragPdu S E lt lab ID tot ts ptype d # ps) =
     accepted_pdus mac (pkt_label cur (FragPdu S E lt lab ID tot ts ptype d)) ps"

definition pdu_of :: "MBUF \<Rightarrow> u32 \<times> u8 list" where
  "pdu_of b = (mb_protocol_type b, mb_data b)"

lemma get_single_pdu_delivers:
  assumes "rx_ready env" "ptype = PROTOCOL_IPV4 \<or> ptype = PROTOCOL_IPV6" "length pdu < 4096"
  shows "\<exists>b. get_single_pdu env (Some (pdu @ rest)) (of_nat (length pdu)) ptype inrouter_time s
      = Inr (Some 0, s\<lparr>ds_encap_ring := ds_encap_ring s @ [b]\<rparr>) \<and> pdu_of b = (ucast ptype, pdu)"
proof -
  obtain m where m: "rx_alloc env = Some m" "mb_data m = []" "4096 \<le> length (mb_tail m)" "rx_ring_ok env"
    using assms(1) by (auto simp: rx_ready_def split: option.splits)
  have n: "unat (of_nat (length pdu) :: u16) = length pdu" using assms(3) by (intro unat_of_nat_lt) simp
  show ?thesis
    using assms(2,3) m(2,3)
    by (auto simp: get_single_pdu_def deliver_single_def m(1,4) n Let_def rte_pktmbuf_append_def pdu_of_def IP_PACKET_def)
qed

lemma visit_whole_pdus:
  assumes env: "\<And>pos. rx_ready (env pos)" and junk: "\<And>pos. length (v_label (junk pos)) = 6" and mac: "length mac = 6"
  shows "list_all (\<lambda>p. pkt_ok p \<and> is_ip_pdu p) ps \<Longrightarrow>
    length (concat (map pkt_bytes ps) @ post) \<le> 65535 \<Longrightarrow>
    mac_info_rel cur (ds_previous_mac s) \<Longrightarrow> first_rel mac cur (dl_bfirst_gse loc) \<Longrightarrow>
    \<exists>loc' s' bs. visit_packets env junk mac q post ps pos loc s = Inr (loc', s')
      \<and> ds_encap_ring s' = ds_encap_ring s @ bs \<and> map pdu_of bs = accepted_pdus mac cur ps
      \<and> ds_freed s' = ds_freed s \<and> ds_frag_info s' = ds_frag_info s \<and> ds_index_list s' = ds_index_list s
      \<and> length (pm_mac_address (ds_previous_mac s')) = 6"
proof (induction ps arbitrary: cur pos loc s)
  case Nil
  then show ?case by (simp add: mac_info_rel_def)
next
  case (Cons p ps)
  obtain lt lab ptype pdu where p: "p = WholePdu lt lab ptype pdu" "ptype = PROTOCOL_IPV4 \<or> ptype = PROTOCOL_IPV6"
    using Cons.prems(1) by (cases p) (auto simp: is_ip_pdu_def)
  let ?rest = "concat (map pkt_bytes ps) @ post" and ?c = "pkt_label cur p"
  have ok: "pkt_ok p" and l: "length (pkt_bytes p @ ?rest) \<le> 65535" and lr: "length ?rest \<le> 65535"
    and all: "list_all (\<lambda>p. pkt_ok p \<and> is_ip_pdu p) ps"
    using Cons.prems(1,2) by simp_all
  have lp: "length pdu < 4096" using ok p(1) by simp
  obtain p' where d: "mac_info_rel ?c p'" "decapsulate_packet (env pos) (junk pos) mac q (pkt_bytes p @ ?rest) loc s
      = (if label_for_us mac ?c
         then bind_ok (get_single_pdu (env pos) (Some (pdu @ ?rest)) (of_nat (length pdu)) ptype (dl_inrouter_time loc)
                 (s\<lparr>ds_previous_mac := p'\<rparr>))
                (\<lambda>(_, s2). Inr (of_nat (pkt_gse_length p), loc\<lparr>dl_bfirst_gse := False, dl_inrouter_time := 0\<rparr>, s2))
         else Inr (of_nat (pkt_gse_length p), loc, s\<lparr>ds_previous_mac := p'\<rparr>))"
    "first_rel mac ?c (if label_for_us mac ?c then False else dl_bfirst_gse loc)"
    using decapsulate_whole [OF ok [unfolded p(1)] l [unfolded p(1)] junk [of pos] mac Cons.prems(3,4), of "env pos" q]
    unfolding p(1) Let_def by blast
  obtain b where b: "get_single_pdu (env pos) (Some (pdu @ ?rest)) (of_nat (length pdu)) ptype (dl_inrouter_time loc)
      (s\<lparr>ds_previous_mac := p'\<rparr>) = Inr (Some 0, s\<lparr>ds_previous_mac := p', ds_encap_ring := ds_encap_ring s @ [b]\<rparr>)"
    "pdu_of b = (ucast ptype, pdu)"
    using get_single_pdu_delivers [OF env [of pos] p(2) lp, of ?rest "dl_inrouter_time loc" "s\<lparr>ds_previous_mac := p'\<rparr>"] by auto
  define us where "us = label_for_us mac ?c"
  define loc1 where "loc1 = (if us then loc\<lparr>dl_bfirst_gse := False, dl_inrouter_time := 0\<rparr> else loc)"
  define s1 where "s1 = s\<lparr>ds_previous_mac := p', ds_encap_ring := ds_encap_ring s @ (if us then [b] else [])\<rparr>"
  have step: "visit_packets env junk mac q post (p # ps) pos loc s
      = visit_packets env junk mac q post ps (pos + length (pkt_bytes p)) loc1 s1"
    unfolding visit_packets.simps d(2) b(1) by (simp add: us_def loc1_def s1_def)
  have "mac_info_rel ?c (ds_previous_mac s1)" "first_rel mac ?c (dl_bfirst_gse loc1)"
    using d(1,3) by (simp_all add: s1_def loc1_def us_def split: if_splits)
  from Cons.IH [OF all lr this, of "pos + length (pkt_bytes p)"] obtain loc' s' bs where
    "visit_packets env junk mac q post ps (pos + length (pkt_bytes p)) loc1 s1 = Inr (loc', s')"
    "ds_encap_ring s' = ds_encap_ring s1 @ bs" "map pdu_of bs = accepted_pdus mac ?c ps"
    "ds_freed s' = ds_freed s1" "ds_frag_info s' = ds_frag_info s1" "ds_index_list s' = ds_index_list s1"
    "length (pm_mac_address (ds_previous_mac s')) = 6"
    by blast
  then show ?case
    unfolding step using b(2)
    by (intro exI [of _ loc'] exI [of _ s'] exI [of _ "(if us then [b] else []) @ bs"])
      (simp add: s1_def us_def p(1))
qed

section \<open>Received BBFRAMEs\<close>

text \<open>
  \<open>frame\<close> is a frame of the data type with the packets \<open>ps\<close> in its data field and \<open>post\<close> behind them, whose
  header \<open>identify_gs\<close> accepts; \<open>fs\<close> is its frame size.
\<close>

definition bb_frame :: "u16 \<Rightarrow> gse_packet list \<Rightarrow> u8 list \<Rightarrow> u8 list \<Rightarrow> bool" where
  "bb_frame fs ps post frame \<longleftrightarrow> (\<exists>inner tx h.
     frame = inner @ tx @ BBHEADER_bytes h @ concat (map pkt_bytes ps) @ post
     \<and> length inner = L2L1_MSG_HEADER_SIZE \<and> length tx = L2L1_HEADER_SIZE
     \<and> take 2 (drop 12 inner) = le16 (bswap16 0x9101) \<and> inner ! 17 = ENUM_FWD_Tx_FWD_Data
     \<and> take 2 (drop 10 tx) = le16 (bswap16 fs) \<and> identify_gs (Some h) = 0
     \<and> bb_DFL h = bswap16 (of_nat (8 * length (concat (map pkt_bytes ps))))
     \<and> length (concat (map pkt_bytes ps)) \<le> 8191
     \<and> BBHEADER_SIZE + length (concat (map pkt_bytes ps)) \<le> unat fs \<and> length frame \<le> 65535)"

lemma load16_in: "take 2 (drop off pre) = le16 w \<Longrightarrow> off + 2 \<le> length pre \<Longrightarrow> load16 (pre @ rest) off = Inr w"
proof -
  assume t: "take 2 (drop off pre) = le16 w" and l: "off + 2 \<le> length pre"
  have "pre = take off pre @ le16 w @ drop (off + 2) pre"
    using t by (metis add.commute append_take_drop_id drop_drop)
  then have "pre @ rest = take off pre @ le16 w @ drop (off + 2) pre @ rest" by (metis append.assoc)
  moreover have "length (take off pre) = off" using l by simp
  ultimately show ?thesis using load16_at [of "take off pre" w "drop (off + 2) pre @ rest"] by metis
qed

lemma matype1_fields:
  "ucast (matype1 h) = RO h" "ucast (drop_bit 2 (matype1 h)) = NPD h" "ucast (drop_bit 3 (matype1 h)) = ISSYI h"
  "ucast (drop_bit 4 (matype1 h)) = CCM_ACM h" "ucast (drop_bit 5 (matype1 h)) = SIS_MIS h"
  "ucast (drop_bit 6 (matype1 h)) = TS_GS h"
  by (rule bit_word_eqI; auto simp: matype1_def bit_simps dest: bit_imp_le_length)+

lemma read_BBHeader_bytes: "read_BBHeader (pre @ BBHEADER_bytes h @ rest) (length pre) = Inr h"
proof -
  have "get_bytes (pre @ BBHEADER_bytes h @ rest) (length pre) BBHEADER_SIZE = Inr (BBHEADER_bytes h)" by simp
  moreover have "BBHEADER_bytes h = [matype1 h, Matype2 h, ucast (UPL h), ucast (drop_bit 8 (UPL h)),
      ucast (bb_DFL h), ucast (drop_bit 8 (bb_DFL h)), SYNC h, ucast (SYNCD h), ucast (drop_bit 8 (SYNCD h)), bb_CRC8 h]"
    by (simp add: BBHEADER_bytes_def BBHEADER_body_def le16_def)
  moreover have "of_le16 (ucast w) (ucast (drop_bit 8 w)) = w" for w by (simp add: byte_simps)
  ultimately show ?thesis by (simp add: read_BBHeader_def matype1_fields)
qed

lemma process_bb_frame:
  assumes "bb_frame fs ps post (mb_data m)"
  shows "\<exists>pre. mb_data m = pre @ concat (map pkt_bytes ps) @ post \<and> length pre = 66
    \<and> process_frame_header m fp = Inr (0, fp\<lparr>fp_header_size := of_nat BBHEADER_SIZE, fp_frame_size := fs,
        fp_padding_bytes := of_nat (unat fs - BBHEADER_SIZE - length (concat (map pkt_bytes ps))),
        fp_pack_type := ENUM_FWD_Tx_FWD_Data, fp_gse_offset := 66\<rparr>, Some m, None, None)"
proof -
  let ?B = "concat (map pkt_bytes ps)"
  obtain inner tx h where f: "mb_data m = inner @ tx @ BBHEADER_bytes h @ ?B @ post"
    "length inner = 24" "length tx = 32" "take 2 (drop 12 inner) = le16 (bswap16 0x9101)"
    "inner ! 17 = ENUM_FWD_Tx_FWD_Data" "take 2 (drop 10 tx) = le16 (bswap16 fs)" "identify_gs (Some h) = 0"
    "bb_DFL h = bswap16 (of_nat (8 * length ?B))" "length ?B \<le> 8191" "10 + length ?B \<le> unat fs"
    using assms by (auto simp: bb_frame_def header_size_defs)
  let ?r = "tx @ BBHEADER_bytes h @ ?B @ post"
  have a: "load16 (mb_data m) 12 = Inr (bswap16 0x9101)" unfolding f(1) using f(2,4) by (intro load16_in) simp_all
  have b: "load_at (mb_data m) 17 = Inr ENUM_FWD_Tx_FWD_Data" unfolding f(1) using f(2,5) by (simp add: load_at_def nth_append)
  have c: "load16 (mb_data m) 34 = Inr (bswap16 fs)"
    unfolding f(1) append_assoc [symmetric] using f(2,3,6)
    by (simp add: append_assoc) (intro load16_in [of 34 "inner @ tx", simplified], simp_all)
  have d: "read_BBHeader (mb_data m) 56 = Inr h"
    unfolding f(1) using read_BBHeader_bytes [of "inner @ tx" h "?B @ post"] f(2,3) by simp
  have n: "unat (of_nat (8 * length ?B) :: u16) = 8 * length ?B" using f(9) by (intro unat_of_nat_lt) simp
  have "unat (drop_bit 3 w) = unat w div 8" for w :: u16 by (simp add: drop_bit_eq_div unat_div)
  then have "unat (drop_bit 3 (of_nat (8 * length ?B) :: u16)) = length ?B" by (simp only: n)
  then have dfl: "(ucast (drop_bit 3 (of_nat (8 * length ?B) :: u16)) :: u32) = of_nat (length ?B)" by (metis of_nat_unat)
  have "(ucast fs :: u32) = of_nat (unat fs)" by (metis of_nat_unat)
  then have pad: "(ucast fs :: u32) - of_nat 10 - of_nat (length ?B) = of_nat (unat fs - 10 - length ?B)"
    using f(10) by (simp add: of_nat_diff del: of_nat_unat)
  have sz: "24 + 10 = (34 :: nat)" "24 + 32 = (56 :: nat)" "24 + 32 + 10 = (66 :: nat)" by simp_all
  show ?thesis
  proof (intro exI conjI)
    show "mb_data m = (inner @ tx @ BBHEADER_bytes h) @ ?B @ post" using f(1) by simp
    show "length (inner @ tx @ BBHEADER_bytes h) = 66" using f(2,3) by (simp add: header_size_defs)
    show "process_frame_header m fp = Inr (0, fp\<lparr>fp_header_size := of_nat BBHEADER_SIZE, fp_frame_size := fs,
        fp_padding_bytes := of_nat (unat fs - BBHEADER_SIZE - length ?B),
        fp_pack_type := ENUM_FWD_Tx_FWD_Data, fp_gse_offset := 66\<rparr>, Some m, None, None)"
      unfolding process_frame_header_def Let_def header_size_defs sz a b c d bind_ok.simps f(7,8) bswap16_bswap16 dfl pad
      by (simp add: of_nat_numeral)
  qed
qed

text \<open>What \<open>decapsulate_gse\<close> does with such a frame.\<close>

lemma dispatch_bb_frame:
  fixes index0 :: int and m :: MBUF
  assumes fr: "bb_frame fs ps post (mb_data m)" and ps: "ps \<noteq> []" "list_all pkt_ok ps"
    and junk: "\<And>pos. length (v_label (junk pos)) = 6"
  defines "m' \<equiv> if mb_delay_time_mark_flag m = 1 then m\<lparr>mb_delay_time_mark_flag := 0\<rparr> else m"
    and "loc \<equiv> \<lparr>dl_timestamp_seq = 0, dl_buffer_index = index0,
      dl_inrouter_time = (if mb_delay_time_mark_flag m = 1 then mb_inrouter_time m else 0), dl_bfirst_gse = True\<rparr>"
  shows "dispatch_decap_pkt env junk index0 mac pdu_packs fp m q s
    = bind_ok (visit_packets env junk mac q post ps 66 loc s) (\<lambda>(_, s1). Inr (free_pdu (Some m') s1, None, None))"
proof -
  let ?B = "concat (map pkt_bytes ps)"
  obtain pre where pre: "mb_data m = pre @ ?B @ post" "length pre = 66"
    and p: "process_frame_header m fp = Inr (0, fp\<lparr>fp_header_size := of_nat BBHEADER_SIZE, fp_frame_size := fs,
        fp_padding_bytes := of_nat (unat fs - BBHEADER_SIZE - length ?B),
        fp_pack_type := ENUM_FWD_Tx_FWD_Data, fp_gse_offset := 66\<rparr>, Some m, None, None)"
    using process_bb_frame [OF fr] by blast
  have sz: "BBHEADER_SIZE + length ?B \<le> unat fs" using fr by (auto simp: bb_frame_def)
  have x: "handled_sum (of_nat BBHEADER_SIZE) 0 (of_nat (unat fs - BBHEADER_SIZE - length ?B))
      = of_nat (BBHEADER_SIZE + (unat fs - BBHEADER_SIZE - length ?B))"
    by (simp add: handled_sum_def header_size_defs)
  have y: "BBHEADER_SIZE + (unat fs - BBHEADER_SIZE - length ?B) + length ?B = unat fs" using sz by simp
  have run: "decapsulate_packets env junk mac q (of_nat BBHEADER_SIZE) (of_nat (unat fs - BBHEADER_SIZE - length ?B)) fs
      (pre @ ?B @ post) 66 0 loc s = visit_packets env junk mac q post ps 66 loc s"
    using decapsulate_packets_visits [OF junk ps x y, where pre = pre and post = post] pre(2) by simp
  have t: "ENUM_FWD_Tx_FWD_Data \<noteq> ISL_PACK" by (simp add: ENUM_FWD_Tx_FWD_Data_def ISL_PACK_def)
  have dt: "mb_data (if mb_delay_time_mark_flag m = 1 then m\<lparr>mb_delay_time_mark_flag := 0\<rparr> else m) = pre @ ?B @ post"
    using pre(1) by simp
  show ?thesis
    unfolding dispatch_decap_pkt_def p bind_ok.simps prod.case
    using t run dt
    by (simp add: decapsulate_gse_def free_pdu_def loc_def m'_def bind_ok_assoc case_prod_unfold)
qed

section \<open>Frames of fragments\<close>

text \<open>The packet of the fragment \<open>i\<close> of the PDU \<open>concat xs\<close> with the label \<open>L i\<close>; the total length counts the
  protocol type, the label, the sequence header and the PDU.\<close>

definition frag_packet :: "(nat \<Rightarrow> 2 word \<times> u8 list) \<Rightarrow> u8 \<Rightarrow> u16 \<Rightarrow> u16 \<Rightarrow> u8 list list \<Rightarrow> nat \<Rightarrow> gse_packet" where
  "frag_packet L ID T ptype xs i =
     FragPdu (if i = 0 then 1 else 0) (if i \<noteq> 0 \<and> Suc i = length xs then 1 else 0) (fst (L i)) (snd (L i)) ID
       (of_nat (6 + length (snd (L i))) + of_nat (length (concat xs))) (push_bit 3 T OR of_nat i) ptype (frag_data xs i)"

fun all_for_us :: "u8 list \<Rightarrow> gse_label option \<Rightarrow> gse_packet list \<Rightarrow> bool" where
  "all_for_us mac cur [] \<longleftrightarrow> True"
| "all_for_us mac cur (p # ps) \<longleftrightarrow> label_for_us mac (pkt_label cur p) \<and> all_for_us mac (pkt_label cur p) ps"

lemma job_inv_other_fields:
  "job_inv port ID k T ptype xs R (s\<lparr>ds_previous_mac := p\<rparr>) = job_inv port ID k T ptype xs R s"
  "job_inv port ID k T ptype xs R (s\<lparr>ds_freed := f\<rparr>) = job_inv port ID k T ptype xs R s"
  by (simp_all add: job_inv_def in_range_def row_of_def)

lemma row_of_other_fields:
  "row_of (s\<lparr>ds_previous_mac := p\<rparr>) port ID = row_of s port ID" "row_of (s\<lparr>ds_freed := f\<rparr>) port ID = row_of s port ID"
  by (simp_all add: row_of_def)

lemma piece_position_of_packet:
  "pieces_ok xs \<Longrightarrow> piece_position xs i = (if (if i = 0 then 1 else 0 :: 1 word) = 1 then FRAG_START
     else if (if i \<noteq> 0 \<and> Suc i = length xs then 1 else 0 :: 1 word) = 1 then FRAG_END else FRAG_MIDDLE)"
  by (auto simp: piece_position_def pieces_ok_def)

text \<open>Reassembly leaves the label of the previous packet alone.\<close>

lemma store_fi_mac: "store_fi s port ID k fi = Inr s' \<Longrightarrow> ds_previous_mac s' = ds_previous_mac s"
  by (auto simp: store_fi_def elim!: bind_okE)

lemma free_pdu_mac [simp]: "ds_previous_mac (free_pdu p s) = ds_previous_mac s"
  by (simp add: free_pdu_def split: option.split)

lemma select_buffer_mac: "select_buffer s port ID ts = Inr (k, s') \<Longrightarrow> ds_previous_mac s' = ds_previous_mac s"
  by (auto simp: select_buffer_def next_buffer_def elim!: bind_okE split: if_split_asm list.split_asm)

lemma start_reassemble_mac:
  "start_reassemble_pdu env p var ts hl len pt bi q s = Inr (r, k, s') \<Longrightarrow> ds_previous_mac s' = ds_previous_mac s"
  by (auto simp: start_reassemble_pdu_def Let_def elim!: bind_okE dest!: store_fi_mac select_buffer_mac
      split: option.split_asm if_split_asm prod.split_asm)

lemma keep_reassemble_mac:
  "keep_reassemble_pdu env ft p ID ts len bi q s = Inr (r, k, s') \<Longrightarrow> ds_previous_mac s' = ds_previous_mac s"
  by (auto simp: keep_reassemble_pdu_def Let_def elim!: bind_okE dest!: store_fi_mac select_buffer_mac
      split: option.split_asm if_split_asm)

lemma finish_at_mac: "finish_at env q ID k s = Inr (r, s') \<Longrightarrow> ds_previous_mac s' = ds_previous_mac s"
  by (auto simp: finish_at_def elim!: bind_okE dest!: store_fi_mac)

lemma reassemble_fragment_mac:
  "reassemble_fragment env ft d var ts hl len nt bi q s = Inr (r, k, s') \<Longrightarrow> ds_previous_mac s' = ds_previous_mac s"
  by (auto simp: reassemble_fragment_def elim!: bind_okE
      dest!: start_reassemble_mac keep_reassemble_mac finish_at_mac split: if_split_asm)

lemma visit_frags:
  fixes L :: "nat \<Rightarrow> 2 word \<times> u8 list" and ID :: u8
  assumes env: "\<And>pos. fresh_mbuf (env pos) xs \<and> rx_ring_ok (env pos)"
    and junk: "\<And>pos. length (v_label (junk pos)) = 6" and mac: "length mac = 6"
    and xs: "pieces_ok xs" and T: "T < 8192" and ptype: "ptype = PROTOCOL_IPV4 \<or> ptype = PROTOCOL_IPV6"
  defines "P \<equiv> frag_packet L ID T ptype xs"
  shows "job_inv q (unat ID) k T ptype xs R s \<Longrightarrow> distinct order \<Longrightarrow> set order \<inter> R = {} \<Longrightarrow>
    set order \<union> R \<subseteq> {..<length xs} \<Longrightarrow> order \<noteq> [] \<Longrightarrow> list_all pkt_ok (map P order) \<Longrightarrow>
    all_for_us mac cur (map P order) \<Longrightarrow> length (concat (map pkt_bytes (map P order)) @ post) \<le> 65535 \<Longrightarrow>
    mac_info_rel cur (ds_previous_mac s) \<Longrightarrow> first_rel mac cur (dl_bfirst_gse loc) \<Longrightarrow>
    \<exists>loc' s'. visit_packets env junk mac q post (map P order) pos loc s = Inr (loc', s')
      \<and> ds_freed s' = ds_freed s \<and> length (pm_mac_address (ds_previous_mac s')) = 6
      \<and> (if set order \<union> R = {..<length xs}
         then (\<exists>b. ds_encap_ring s' = ds_encap_ring s @ [b] \<and> pdu_of b = (ucast ptype, concat xs))
           \<and> (\<forall>T' p' xs'. asm_inv T' p' xs' {} (row_of s' q (unat ID) ! k))
         else ds_encap_ring s' = ds_encap_ring s \<and> job_inv q (unat ID) k T ptype xs (set order \<union> R) s')"
proof (induction order arbitrary: cur pos loc s R)
  case (Cons i order)
  let ?rest = "concat (map pkt_bytes (map P order)) @ post" and ?c = "pkt_label cur (P i)"
  let ?S = "if i = 0 then 1 else 0 :: 1 word" and ?E = "if i \<noteq> 0 \<and> Suc i = length xs then 1 else 0 :: 1 word"
  let ?d = "frag_data xs i" and ?ts = "push_bit 3 T OR of_nat i :: u16"
  have i: "i < length xs" "i \<notin> R" using Cons.prems(3,4) by auto
  have ok: "pkt_ok (P i)" and l: "length (pkt_bytes (P i) @ ?rest) \<le> 65535" and lr: "length ?rest \<le> 65535"
    and all: "list_all pkt_ok (map P order)" and us: "label_for_us mac ?c" "all_for_us mac ?c (map P order)"
    using Cons.prems(6-8) by simp_all
  note step = decapsulate_frag [OF ok [unfolded P_def frag_packet_def] l [unfolded P_def frag_packet_def] junk [of pos] mac
      Cons.prems(9,10), of "env pos" q, folded frag_packet_def, folded P_def]
  obtain p' var where d: "mac_info_rel ?c p'" "v_fragment_ID (variable_header_value var) = ID"
    "?S = 1 \<longrightarrow> v_total_length (variable_header_value var) = of_nat (6 + length (snd (L i))) + of_nat (length (concat xs))"
    "decapsulate_packet (env pos) (junk pos) mac q (pkt_bytes (P i) @ ?rest) loc s
      = bind_ok (reassemble_fragment (env pos) (piece_position xs i) (?d @ ?rest) var ?ts (of_nat (6 + length (snd (L i))))
            (of_nat (length ?d)) ptype (dl_buffer_index loc) q (s\<lparr>ds_previous_mac := p'\<rparr>))
           (\<lambda>(_, index, s2). Inr (of_nat (pkt_gse_length (P i)), loc\<lparr>dl_bfirst_gse := False, dl_timestamp_seq := ?ts,
                                        dl_buffer_index := index\<rparr>, s2))"
    "first_rel mac ?c False"
    using step us(1) piece_position_of_packet [OF xs, of i] unfolding Let_def by auto
  have j: "job_inv q (unat (v_fragment_ID (variable_header_value var))) k T ptype xs R (s\<lparr>ds_previous_mac := p'\<rparr>)"
    using Cons.prems(1) d(2) by (simp add: job_inv_other_fields)
  have start: "i = 0 \<Longrightarrow> fits_start var (of_nat (6 + length (snd (L i)))) xs \<and> ptype = ptype"
    using d(3) by (simp add: fits_start_def)
  have data: "take (length ?d) (?d @ ?rest) = ?d" by simp
  let ?call = "reassemble_fragment (env pos) (piece_position xs i) (?d @ ?rest) var ?ts (of_nat (6 + length (snd (L i))))
            (of_nat (length ?d)) ptype (dl_buffer_index loc) q (s\<lparr>ds_previous_mac := p'\<rparr>)"
  have ex: "\<exists>r s1. ?call = Inr (r, int k, s1) \<and> ds_freed s1 = ds_freed s
    \<and> (if insert i R = {..<length xs}
       then (\<exists>b. ds_encap_ring s1 = ds_encap_ring s @ [b] \<and> pdu_of b = (ucast ptype, concat xs))
          \<and> (\<forall>T' p' xs'. asm_inv T' p' xs' {} (row_of s1 q (unat ID) ! k))
       else ds_encap_ring s1 = ds_encap_ring s \<and> job_inv q (unat ID) k T ptype xs (insert i R) s1)"
    using receive_piece [OF j xs T i _ _ ptype start data, of "env pos" "dl_buffer_index loc"] env [of pos] d(2)
    by (cases "insert i R = {..<length xs}") (auto simp: pdu_of_def)
  then obtain r s1 where r: "?call = Inr (r, int k, s1)" "ds_freed s1 = ds_freed s"
    "if insert i R = {..<length xs}
       then (\<exists>b. ds_encap_ring s1 = ds_encap_ring s @ [b] \<and> pdu_of b = (ucast ptype, concat xs))
          \<and> (\<forall>T' p' xs'. asm_inv T' p' xs' {} (row_of s1 q (unat ID) ! k))
       else ds_encap_ring s1 = ds_encap_ring s \<and> job_inv q (unat ID) k T ptype xs (insert i R) s1"
    by blast
  have m: "ds_previous_mac s1 = p'" using reassemble_fragment_mac [OF r(1)] by simp
  define loc1 where "loc1 = loc\<lparr>dl_bfirst_gse := False, dl_timestamp_seq := ?ts, dl_buffer_index := int k\<rparr>"
  have st: "visit_packets env junk mac q post (map P (i # order)) pos loc s
      = visit_packets env junk mac q post (map P order) (pos + length (pkt_bytes (P i))) loc1 s1"
    unfolding list.map visit_packets.simps d(4) r(1) bind_ok.simps prod.case loc1_def by (rule refl)
  show ?case
  proof (cases "order = []")
    case True
    then show ?thesis using r(2,3) m d(1) unfolding st by (simp add: mac_info_rel_def)
  next
    case False
    then obtain y where "y \<in> set order" using last_in_set by blast
    then have "y \<in> {..<length xs}" "y \<notin> insert i R" using Cons.prems(2-4) by auto
    then have "insert i R \<noteq> {..<length xs}" by blast
    then have n: "job_inv q (unat ID) k T ptype xs (insert i R) s1" "ds_encap_ring s1 = ds_encap_ring s"
      using r(3) by simp_all
    have o: "distinct order" "set order \<inter> insert i R = {}" "set order \<union> insert i R \<subseteq> {..<length xs}"
      using Cons.prems(2-4) by auto
    have b: "mac_info_rel ?c (ds_previous_mac s1)" "first_rel mac ?c (dl_bfirst_gse loc1)"
      using d(1,5) m by (simp_all add: loc1_def)
    have u: "set (i # order) \<union> R = set order \<union> insert i R" by simp
    show ?thesis
      using Cons.IH [OF n(1) o False all us(2) lr b, of "pos + length (pkt_bytes (P i))"]
      unfolding st u n(2) r(2) by blast
  qed
qed simp

text \<open>The packets of one burst of \<open>decapsulate_thread\<close>.\<close>

definition decap_burst :: "(nat \<Rightarrow> RX_ENV) \<Rightarrow> (nat \<Rightarrow> GSE_VARIABLE_HEADER_VALUE) \<Rightarrow> int \<Rightarrow> u8 list
    \<Rightarrow> (MBUF \<Rightarrow> FRAME_PARAM \<Rightarrow> DECAP_STATE \<Rightarrow> DECAP_STATE outcome) \<Rightarrow> FRAME_PARAM \<Rightarrow> nat \<Rightarrow> MBUF list \<Rightarrow> DECAP_STATE
    \<Rightarrow> DECAP_STATE outcome" where
  "decap_burst env junk index0 mac pdu_packs fp queue_id pkts_burst s =
     for_each pkts_burst (\<lambda>m st. bind_ok (dispatch_decap_pkt env junk index0 mac pdu_packs fp m queue_id st)
       (\<lambda>(st', _, _). Inr st')) s"

definition frame_of :: "(nat \<Rightarrow> gse_packet) \<Rightarrow> u8 list \<Rightarrow> nat list \<Rightarrow> MBUF \<Rightarrow> bool" where
  "frame_of P mac order m \<longleftrightarrow> order \<noteq> [] \<and> list_all pkt_ok (map P order) \<and> all_for_us mac None (map P order)
     \<and> (\<exists>fs post. bb_frame fs (map P order) post (mb_data m))"

lemma dispatch_frame_of:
  assumes fr: "frame_of P mac order m" and P: "P = frag_packet L ID T ptype xs"
    and env: "\<And>pos. fresh_mbuf (env pos) xs \<and> rx_ring_ok (env pos)"
    and junk: "\<And>pos. length (v_label (junk pos)) = 6" and mac: "length mac = 6" "length (pm_mac_address (ds_previous_mac s)) = 6"
    and xs: "pieces_ok xs" "T < 8192" "ptype = PROTOCOL_IPV4 \<or> ptype = PROTOCOL_IPV6"
    and job: "job_inv q (unat ID) k T ptype xs R s" "distinct order" "set order \<inter> R = {}" "set order \<union> R \<subseteq> {..<length xs}"
  shows "\<exists>s' m'. dispatch_decap_pkt env junk index0 mac pdu_packs fp m q s = Inr (s', None, None)
      \<and> ds_freed s' = ds_freed s @ [m'] \<and> mb_data m' = mb_data m \<and> length (pm_mac_address (ds_previous_mac s')) = 6
      \<and> (if set order \<union> R = {..<length xs}
         then (\<exists>b. ds_encap_ring s' = ds_encap_ring s @ [b] \<and> pdu_of b = (ucast ptype, concat xs))
           \<and> (\<forall>T' p' xs'. asm_inv T' p' xs' {} (row_of s' q (unat ID) ! k))
         else ds_encap_ring s' = ds_encap_ring s \<and> job_inv q (unat ID) k T ptype xs (set order \<union> R) s')"
proof -
  obtain fs post where f: "bb_frame fs (map P order) post (mb_data m)" "order \<noteq> []" "list_all pkt_ok (map P order)"
    "all_for_us mac None (map P order)"
    using fr by (auto simp: frame_of_def)
  obtain pre where "mb_data m = pre @ concat (map pkt_bytes (map P order)) @ post" "length (mb_data m) \<le> 65535"
    using process_bb_frame [OF f(1), of fp] f(1) by (auto simp: bb_frame_def)
  then have len: "length (concat (map pkt_bytes (map P order)) @ post) \<le> 65535" by simp
  define loc where "loc = \<lparr>dl_timestamp_seq = 0, dl_buffer_index = index0,
      dl_inrouter_time = (if mb_delay_time_mark_flag m = 1 then mb_inrouter_time m else 0), dl_bfirst_gse = True\<rparr>"
  have rel: "mac_info_rel None (ds_previous_mac s)" "first_rel mac None (dl_bfirst_gse loc)"
    using mac(2) by (simp_all add: mac_info_rel_def first_rel_def label_for_us_def loc_def)
  obtain loc' s1 where v: "visit_packets env junk mac q post (map P order) 66 loc s = Inr (loc', s1)"
    "ds_freed s1 = ds_freed s" "length (pm_mac_address (ds_previous_mac s1)) = 6"
    "if set order \<union> R = {..<length xs}
         then (\<exists>b. ds_encap_ring s1 = ds_encap_ring s @ [b] \<and> pdu_of b = (ucast ptype, concat xs))
           \<and> (\<forall>T' p' xs'. asm_inv T' p' xs' {} (row_of s1 q (unat ID) ! k))
         else ds_encap_ring s1 = ds_encap_ring s \<and> job_inv q (unat ID) k T ptype xs (set order \<union> R) s1"
    using visit_frags [where env = env and junk = junk and pos = 66 and q = q, OF env junk mac(1) xs job(1-4) f(2)
        f(3,4) [unfolded P] len [unfolded P] rel] unfolding P by blast
  let ?m = "if mb_delay_time_mark_flag m = 1 then m\<lparr>mb_delay_time_mark_flag := 0\<rparr> else m"
  have ne: "map P order \<noteq> []" using f(2) by simp
  have "dispatch_decap_pkt env junk index0 mac pdu_packs fp m q s = Inr (free_pdu (Some ?m) s1, None, None)"
    unfolding dispatch_bb_frame [OF f(1) ne f(3) junk] loc_def [symmetric] v(1) by simp
  moreover have "ds_encap_ring (free_pdu (Some ?m) s1) = ds_encap_ring s1"
    "ds_freed (free_pdu (Some ?m) s1) = ds_freed s @ [?m]" "row_of (free_pdu (Some ?m) s1) q (unat ID) = row_of s1 q (unat ID)"
    "\<And>R. job_inv q (unat ID) k T ptype xs R (free_pdu (Some ?m) s1) = job_inv q (unat ID) k T ptype xs R s1"
    using v(2) by (simp_all add: free_pdu_def job_inv_other_fields row_of_other_fields)
  ultimately show ?thesis
    using v(3,4) by (intro exI [of _ "free_pdu (Some ?m) s1"] exI [of _ ?m]) auto
qed

lemma decap_burst_frames:
  assumes P: "P = frag_packet L ID T ptype xs"
    and env: "\<And>pos. fresh_mbuf (env pos) xs \<and> rx_ring_ok (env pos)"
    and junk: "\<And>pos. length (v_label (junk pos)) = 6" and mac: "length mac = 6"
    and xs: "pieces_ok xs" "T < 8192" "ptype = PROTOCOL_IPV4 \<or> ptype = PROTOCOL_IPV6"
  shows "list_all2 (frame_of P mac) orders frames \<Longrightarrow> orders \<noteq> [] \<Longrightarrow>
    length (pm_mac_address (ds_previous_mac s)) = 6 \<Longrightarrow>
    job_inv q (unat ID) k T ptype xs R s \<Longrightarrow> distinct (concat orders) \<Longrightarrow> set (concat orders) \<inter> R = {} \<Longrightarrow>
    set (concat orders) \<union> R = {..<length xs} \<Longrightarrow>
    \<exists>s' b fr. decap_burst env junk index0 mac pdu_packs fp q frames s = Inr s'
      \<and> ds_encap_ring s' = ds_encap_ring s @ [b] \<and> pdu_of b = (ucast ptype, concat xs)
      \<and> ds_freed s' = ds_freed s @ fr \<and> map mb_data fr = map mb_data frames
      \<and> (\<forall>T' p' xs'. asm_inv T' p' xs' {} (row_of s' q (unat ID) ! k))"
proof (induction orders arbitrary: frames s R)
  case (Cons order orders)
  obtain m frames' where fr: "frames = m # frames'" "frame_of P mac order m" "list_all2 (frame_of P mac) orders frames'"
    using Cons.prems(1) by (cases frames) auto
  have o: "distinct order" "set order \<inter> R = {}" "set order \<union> R \<subseteq> {..<length xs}"
    using Cons.prems(5-7) by auto
  obtain s1 m' where s1: "dispatch_decap_pkt env junk index0 mac pdu_packs fp m q s = Inr (s1, None, None)"
      "ds_freed s1 = ds_freed s @ [m']" "mb_data m' = mb_data m" "length (pm_mac_address (ds_previous_mac s1)) = 6"
      "if set order \<union> R = {..<length xs}
         then (\<exists>b. ds_encap_ring s1 = ds_encap_ring s @ [b] \<and> pdu_of b = (ucast ptype, concat xs))
           \<and> (\<forall>T' p' xs'. asm_inv T' p' xs' {} (row_of s1 q (unat ID) ! k))
         else ds_encap_ring s1 = ds_encap_ring s \<and> job_inv q (unat ID) k T ptype xs (set order \<union> R) s1"
    using dispatch_frame_of [where env = env and junk = junk, OF fr(2) P env junk mac Cons.prems(3) xs Cons.prems(4) o]
    by blast
  have st: "decap_burst env junk index0 mac pdu_packs fp q frames s
      = decap_burst env junk index0 mac pdu_packs fp q frames' s1"
    by (simp add: decap_burst_def fr(1) s1(1))
  show ?case
  proof (cases "orders = []")
    case True
    then have "frames' = []" "set order \<union> R = {..<length xs}" using fr(3) Cons.prems(7) by auto
    then show ?thesis using s1(2,3,5) unfolding st by (auto simp: decap_burst_def fr(1))
  next
    case False
    then obtain order2 rest where or: "orders = order2 # rest" by (cases orders) auto
    then have "order2 \<noteq> []" using fr(3) by (cases frames') (auto simp: frame_of_def)
    then obtain y where "y \<in> set order2" using last_in_set by blast
    then have "y \<in> {..<length xs}" "y \<notin> set order \<union> R" using Cons.prems(5-7) or by auto
    then have "set order \<union> R \<noteq> {..<length xs}" by blast
    then have n: "job_inv q (unat ID) k T ptype xs (set order \<union> R) s1" "ds_encap_ring s1 = ds_encap_ring s"
      using s1(5) by simp_all
    have c: "distinct (concat orders)" "set (concat orders) \<inter> (set order \<union> R) = {}"
      "set (concat orders) \<union> (set order \<union> R) = {..<length xs}"
      using Cons.prems(5-7) by auto
    obtain s' b fr' where "decap_burst env junk index0 mac pdu_packs fp q frames' s1 = Inr s'"
      "ds_encap_ring s' = ds_encap_ring s1 @ [b]" "pdu_of b = (ucast ptype, concat xs)"
      "ds_freed s' = ds_freed s1 @ fr'" "map mb_data fr' = map mb_data frames'"
      "\<forall>T' p' xs'. asm_inv T' p' xs' {} (row_of s' q (unat ID) ! k)"
      using Cons.IH [OF fr(3) False s1(4) n(1) c] by blast
    then show ?thesis unfolding st using n(2) s1(2,3) fr(1)
      by (intro exI [of _ s'] exI [of _ b] exI [of _ "m' # fr'"]) simp
  qed
qed simp

section \<open>Corrupted frames\<close>

lemma matype1_of_byte:
  "matype1 \<lparr>RO = ucast b, NPD = ucast (drop_bit 2 b), ISSYI = ucast (drop_bit 3 b), CCM_ACM = ucast (drop_bit 4 b),
     SIS_MIS = ucast (drop_bit 5 b), TS_GS = ucast (drop_bit 6 b), Matype2 = x1, UPL = x2, bb_DFL = x3, SYNC = x4,
     SYNCD = x5, bb_CRC8 = x6\<rparr> = b"
proof (rule bit_word_eqI)
  fix n assume "n < LENGTH(8)"
  then consider "n = 0" | "n = 1" | "n = 2" | "n = 3" | "n = 4" | "n = 5" | "n = 6" | "n = 7" by fastforce
  then show "bit (matype1 \<lparr>RO = ucast b, NPD = ucast (drop_bit 2 b), ISSYI = ucast (drop_bit 3 b), CCM_ACM = ucast (drop_bit 4 b),
     SIS_MIS = ucast (drop_bit 5 b), TS_GS = ucast (drop_bit 6 b), Matype2 = x1, UPL = x2, bb_DFL = x3, SYNC = x4,
     SYNCD = x5, bb_CRC8 = x6\<rparr>) n = bit b n"
    by cases (simp_all add: matype1_def bit_simps)
qed

text \<open>Any ten bytes are a header, and it is read back as these bytes.\<close>

lemma read_BBHeader_inverse:
  assumes "length bs = BBHEADER_SIZE"
  shows "\<exists>h. read_BBHeader (pre @ bs @ rest) (length pre) = Inr h \<and> BBHEADER_bytes h = bs"
proof -
  obtain b0 b1 b2 b3 b4 b5 b6 b7 b8 b9 where b: "bs = [b0, b1, b2, b3, b4, b5, b6, b7, b8, b9]"
    using assms by (auto simp: header_size_defs length_Suc_conv eval_nat_numeral)
  have "get_bytes (pre @ bs @ rest) (length pre) BBHEADER_SIZE = Inr bs" using assms by simp
  then show ?thesis
    by (simp add: read_BBHeader_def b BBHEADER_bytes_def BBHEADER_body_def matype1_of_byte le16_def byte_simps)
qed

lemma process_corrupted_frame:
  assumes "bb_frame fs ps post (xs @ a # ys)" "56 \<le> length xs" "length xs < 66" "a \<noteq> b" "mb_data m = xs @ b # ys"
  shows "\<exists>fp'. process_frame_header m fp = Inr (-1, fp', None, Some m, None)"
proof -
  obtain inner tx h rest where f: "xs @ a # ys = inner @ tx @ BBHEADER_bytes h @ rest"
    "length inner = 24" "length tx = 32" "take 2 (drop 12 inner) = le16 (bswap16 0x9101)"
    "inner ! 17 = ENUM_FWD_Tx_FWD_Data" "take 2 (drop 10 tx) = le16 (bswap16 fs)" "identify_gs (Some h) = 0"
    using assms(1) by (auto simp: bb_frame_def header_size_defs)
  let ?pre = "inner @ tx" and ?us = "drop 56 xs" and ?vs = "take (65 - length xs) ys"
  have lp: "length ?pre = 56" using f(2,3) by simp
  have tp: "take 56 xs = ?pre"
    using arg_cong [OF f(1), of "take 56"] assms(2) lp by simp
  have "drop 56 (xs @ a # ys) = BBHEADER_bytes h @ rest" using lp unfolding f(1) by simp
  then have dr: "?us @ a # ys = BBHEADER_bytes h @ rest" using assms(2) by simp
  have lu: "length ?us = length xs - 56" by simp
  have hb: "BBHEADER_bytes h = ?us @ a # ?vs"
    using arg_cong [OF dr, of "take 10"] assms(2,3) by (simp add: header_size_defs take_Cons' eval_nat_numeral)
  have "length ?vs = 65 - length xs"
    using arg_cong [OF hb, of length] assms(2,3) by (simp add: header_size_defs)
  then have "length (?us @ b # ?vs) = BBHEADER_SIZE" using assms(2,3) by (simp add: header_size_defs)
  from read_BBHeader_inverse [OF this, of ?pre "drop (65 - length xs) ys"] obtain h' where
    h': "read_BBHeader (?pre @ (?us @ b # ?vs) @ drop (65 - length xs) ys) 56 = Inr h'" "BBHEADER_bytes h' = ?us @ b # ?vs"
    unfolding lp by blast
  have "xs = ?pre @ ?us" using tp by (metis append_take_drop_id)
  then have data: "mb_data m = ?pre @ (?us @ b # ?vs) @ drop (65 - length xs) ys"
    using assms(5) by (metis append.assoc append_Cons append_take_drop_id)
  have bad: "identify_gs (Some h') = -1" by (rule header_byte_rejected [OF f(7) hb h'(2) assms(4)])
  let ?r = "(?us @ b # ?vs) @ drop (65 - length xs) ys"
  have m1: "load16 (mb_data m) 12 = Inr (bswap16 0x9101)"
    unfolding data append_assoc [of inner tx] using f(2,4) by (intro load16_in) simp_all
  have m2: "load_at (mb_data m) 17 = Inr ENUM_FWD_Tx_FWD_Data" unfolding data using f(2,5) by (simp add: load_at_def nth_append)
  have m3: "load16 (mb_data m) 34 = Inr (bswap16 fs)"
    unfolding data using f(2,3,6) by (intro load16_in) simp_all
  have sz: "24 + 10 = (34 :: nat)" "24 + 32 = (56 :: nat)" by simp_all
  show ?thesis
    unfolding process_frame_header_def Let_def header_size_defs sz m1 m2 m3 bind_ok.simps h'(1) [folded data] bad
    by simp
qed

section \<open>Properties\<close>

text \<open>C7: a received BBFRAME of whole PDUs: exactly the PDUs whose effective label is the broadcast label
  or the local address are put on the ring, each in an mbuf of its own with its protocol type, in the
  order of the frame; the padding is not read as packets, no reassembly buffer is touched and the mbuf
  of the frame is freed.\<close>

theorem frame_delivers_pdus:
  assumes "bb_frame fs ps post (mb_data m)" "ps \<noteq> []" "list_all (\<lambda>p. pkt_ok p \<and> is_ip_pdu p) ps"
    "\<forall>pos. rx_ready (env pos)" "\<forall>pos. length (v_label (junk pos)) = 6" "length mac = 6"
    "length (pm_mac_address (ds_previous_mac s)) = 6"
  shows "\<exists>s' bs m'. dispatch_decap_pkt env junk index0 mac pdu_packs fp m q s = Inr (s', None, None)
    \<and> ds_encap_ring s' = ds_encap_ring s @ bs \<and> map pdu_of bs = accepted_pdus mac None ps
    \<and> ds_freed s' = ds_freed s @ [m'] \<and> mb_data m' = mb_data m
    \<and> ds_frag_info s' = ds_frag_info s \<and> ds_index_list s' = ds_index_list s"
proof -
  have env: "rx_ready (env pos)" and junk: "length (v_label (junk pos)) = 6" for pos using assms(4,5) by simp_all
  have ok: "list_all pkt_ok ps" using assms(3) by (simp add: list_all_iff)
  obtain pre where "mb_data m = pre @ concat (map pkt_bytes ps) @ post" "length (mb_data m) \<le> 65535"
    using process_bb_frame [OF assms(1), of fp] assms(1) by (auto simp: bb_frame_def)
  then have len: "length (concat (map pkt_bytes ps) @ post) \<le> 65535" by simp
  have rel: "mac_info_rel None (ds_previous_mac s)" "first_rel mac None (dl_bfirst_gse
      \<lparr>dl_timestamp_seq = 0, dl_buffer_index = index0,
      dl_inrouter_time = (if mb_delay_time_mark_flag m = 1 then mb_inrouter_time m else 0), dl_bfirst_gse = True\<rparr>)"
    using assms(7) by (simp_all add: mac_info_rel_def first_rel_def label_for_us_def)
  from visit_whole_pdus [where env = env and junk = junk and pos = 66 and q = q, OF env junk assms(6,3) len rel] obtain loc' s' bs where
    v: "visit_packets env junk mac q post ps 66 \<lparr>dl_timestamp_seq = 0, dl_buffer_index = index0,
      dl_inrouter_time = (if mb_delay_time_mark_flag m = 1 then mb_inrouter_time m else 0), dl_bfirst_gse = True\<rparr> s
      = Inr (loc', s')"
    "ds_encap_ring s' = ds_encap_ring s @ bs" "map pdu_of bs = accepted_pdus mac None ps" "ds_freed s' = ds_freed s"
    "ds_frag_info s' = ds_frag_info s" "ds_index_list s' = ds_index_list s" by blast
  let ?m = "if mb_delay_time_mark_flag m = 1 then m\<lparr>mb_delay_time_mark_flag := 0\<rparr> else m"
  have "dispatch_decap_pkt env junk index0 mac pdu_packs fp m q s = Inr (free_pdu (Some ?m) s', None, None)"
    unfolding dispatch_bb_frame [OF assms(1,2) ok junk] v(1) by simp
  with v(2-6) show ?thesis
    by (intro exI [of _ "free_pdu (Some ?m) s'"] exI [of _ bs] exI [of _ ?m]) (simp add: free_pdu_def)
qed

text \<open>A frame with given packets, as the layer-1 receiver hands it over.\<close>

definition plain_frame :: "u16 \<Rightarrow> gse_packet list \<Rightarrow> u8 list \<Rightarrow> u8 list" where
  "plain_frame fs ps post =
     (let h = plain_bbheader\<lparr>bb_DFL := bswap16 (of_nat (8 * length (concat (map pkt_bytes ps))))\<rparr> in
      (replicate 12 0 @ le16 (bswap16 0x9101) @ [0, 0, 0, 6] @ replicate 6 0)
      @ (replicate 10 0 @ le16 (bswap16 fs) @ replicate 20 0)
      @ BBHEADER_bytes (h\<lparr>bb_CRC8 := mcs_get_crc8 (BBHEADER_body h)\<rparr>) @ concat (map pkt_bytes ps) @ post)"

lemma plain_frame_ok:
  assumes "length (concat (map pkt_bytes ps)) \<le> 8191" "10 + length (concat (map pkt_bytes ps)) \<le> unat fs"
    "length (concat (map pkt_bytes ps)) + length post \<le> 60000"
  shows "bb_frame fs ps post (plain_frame fs ps post)"
proof -
  define h where "h = plain_bbheader\<lparr>bb_DFL := bswap16 (of_nat (8 * length (concat (map pkt_bytes ps))))\<rparr>"
  have b: "BBHEADER_body (h\<lparr>bb_CRC8 := c\<rparr>) = BBHEADER_body h" for c
    by (simp add: BBHEADER_body_def matype1_def)
  have "identify_gs (Some (h\<lparr>bb_CRC8 := mcs_get_crc8 (BBHEADER_body h)\<rparr>)) = 0"
    unfolding identify_gs_def option.case b by (simp add: h_def plain_bbheader_def)
  moreover have "bb_DFL (h\<lparr>bb_CRC8 := mcs_get_crc8 (BBHEADER_body h)\<rparr>)
      = bswap16 (of_nat (8 * length (concat (map pkt_bytes ps))))" by (simp add: h_def)
  moreover have "take 2 (drop 10 (replicate 10 (0 :: u8) @ le16 (bswap16 fs) @ replicate 20 0)) = le16 (bswap16 fs)"
    "take 2 (drop 12 (replicate 12 (0 :: u8) @ le16 (bswap16 0x9101) @ [0, 0, 0, 6] @ replicate 6 0)) = le16 (bswap16 0x9101)"
    "(replicate 12 (0 :: u8) @ le16 (bswap16 0x9101) @ [0, 0, 0, 6] @ replicate 6 0) ! 17 = ENUM_FWD_Tx_FWD_Data"
    by (simp_all add: nth_append ENUM_FWD_Tx_FWD_Data_def)
  ultimately show ?thesis
    unfolding bb_frame_def plain_frame_def Let_def h_def [symmetric] using assms
    by (intro exI [of _ "replicate 12 0 @ le16 (bswap16 0x9101) @ [0, 0, 0, 6] @ replicate 6 0"]
        exI [of _ "replicate 10 0 @ le16 (bswap16 fs) @ replicate 20 0"]
        exI [of _ "h\<lparr>bb_CRC8 := mcs_get_crc8 (BBHEADER_body h)\<rparr>"]) (simp add: header_size_defs)
qed

definition sample_packets :: "gse_packet list" where
  "sample_packets = [WholePdu 2 [] PROTOCOL_IPV4 [0x45, 1, 2], WholePdu 0 [9, 9, 9, 9, 9, 9] PROTOCOL_IPV4 [0x45, 3],
     WholePdu 3 [] PROTOCOL_IPV4 [0x45, 4], WholePdu 0 [2, 0, 0, 0, 0, 1] PROTOCOL_IPV6 [0x60, 5], WholePdu 3 [] PROTOCOL_IPV4 [0x45]]"

definition roomy_rx_env :: RX_ENV where
  "roomy_rx_env = \<lparr>rx_alloc = Some \<lparr>mb_data = [], mb_tail = replicate 8192 0xAA, mb_protocol_type = 0,
     mb_delay_time_mark_flag = 0, mb_inrouter_time = 0\<rparr>, rx_ring_ok = True, rx_now = 1000\<rparr>"

definition junk_header :: GSE_VARIABLE_HEADER_VALUE where
  "junk_header = \<lparr>v_fragment_ID = 0xAA, v_total_length = 0xAAAA, v_protocol_type = 0xAAAA, v_label = replicate 6 0xAA\<rparr>"

definition frame_mbuf :: "u8 list \<Rightarrow> MBUF" where
  "frame_mbuf data = \<lparr>mb_data = data, mb_tail = [], mb_protocol_type = 0, mb_delay_time_mark_flag = 0, mb_inrouter_time = 0\<rparr>"

theorem frame_delivers_pdus_witness:
  "\<forall>fp. \<exists>s' bs. dispatch_decap_pkt (\<lambda>_. roomy_rx_env) (\<lambda>_. junk_header) 0 [2, 0, 0, 0, 0, 1] (\<lambda>_ _. Inr) fp
       (frame_mbuf (plain_frame 200 sample_packets (replicate 100 0))) 0 start_decap_state = Inr (s', None, None)
    \<and> ds_encap_ring s' = bs
    \<and> map pdu_of bs = [(0x0800, [0x45, 1, 2]), (0x86DD, [0x60, 5]), (0x0800, [0x45])]"
proof -
  have len: "length (concat (map pkt_bytes sample_packets)) = 42"
    by (simp add: sample_packets_def length_pkt_bytes length_wire_gse_header length_wire_frag_fields)
  have f: "bb_frame 200 sample_packets (replicate 100 0)
      (mb_data (frame_mbuf (plain_frame 200 sample_packets (replicate 100 0))))"
    using plain_frame_ok [of sample_packets 200 "replicate 100 0"] len by (simp add: frame_mbuf_def)
  have ok: "sample_packets \<noteq> []" "list_all (\<lambda>p. pkt_ok p \<and> is_ip_pdu p) sample_packets"
    by (simp_all add: sample_packets_def is_ip_pdu_def label_length_def regular_ext_header_type_def PROTOCOL_IPV4_def
        PROTOCOL_IPV6_def PDU_CONCAT_def TIME_STEMP_def FRAG_SEQUENCE_def)
  have e: "rx_ready roomy_rx_env" "length (v_label junk_header) = 6"
    "length (pm_mac_address (ds_previous_mac start_decap_state)) = 6" "ds_encap_ring start_decap_state = []"
    by (simp_all add: rx_ready_def roomy_rx_env_def junk_header_def start_decap_state_def init_decap_mem_def boot_decap_state_def)
  have a: "accepted_pdus [2, 0, 0, 0, 0, 1] None sample_packets
      = [(0x0800, [0x45, 1, 2]), (0x86DD, [0x60, 5]), (0x0800, [0x45])]"
    by (simp add: sample_packets_def label_for_us_def PROTOCOL_IPV4_def PROTOCOL_IPV6_def)
  show ?thesis
  proof (rule allI)
    fix fp :: FRAME_PARAM
    show "\<exists>s' bs. dispatch_decap_pkt (\<lambda>_. roomy_rx_env) (\<lambda>_. junk_header) 0 [2, 0, 0, 0, 0, 1] (\<lambda>_ _. Inr) fp
       (frame_mbuf (plain_frame 200 sample_packets (replicate 100 0))) 0 start_decap_state = Inr (s', None, None)
    \<and> ds_encap_ring s' = bs
    \<and> map pdu_of bs = [(0x0800, [0x45, 1, 2]), (0x86DD, [0x60, 5]), (0x0800, [0x45])]"
    using frame_delivers_pdus [OF f ok, of "\<lambda>_. roomy_rx_env" "\<lambda>_. junk_header" "[2, 0, 0, 0, 0, 1]" start_decap_state
        0 "\<lambda>_ _. Inr" fp 0] e a by auto
  qed
qed

text \<open>C6: the fragments of a PDU, sent as GSE packets in any number of BBFRAMEs and in any order, are put
  together again by a burst of these frames: exactly one mbuf with the PDU and its protocol type is put
  on the ring, every frame is freed, and the reassembly buffer is unused afterwards.\<close>

theorem fragments_in_frames_reassembled:
  assumes "list_all2 (frame_of (frag_packet L ID T ptype xs) mac) orders frames"
    "job_inv q (unat ID) k T ptype xs {} s" "pieces_ok xs" "T < 8192" "ptype \<in> {PROTOCOL_IPV4, PROTOCOL_IPV6}"
    "\<forall>pos. fresh_mbuf (env pos) xs \<and> rx_ring_ok (env pos)" "\<forall>pos. length (v_label (junk pos)) = 6"
    "length mac = 6" "length (pm_mac_address (ds_previous_mac s)) = 6"
    "distinct (concat orders)" "set (concat orders) = {0..<length xs}"
  shows "\<exists>s' b fr. decap_burst env junk index0 mac pdu_packs fp q frames s = Inr s'
    \<and> ds_encap_ring s' = ds_encap_ring s @ [b] \<and> pdu_of b = (ucast ptype, concat xs)
    \<and> ds_freed s' = ds_freed s @ fr \<and> map mb_data fr = map mb_data frames
    \<and> asm_inv T ptype xs {} (row_of s' q (unat ID) ! k)"
proof -
  have env: "fresh_mbuf (env pos) xs \<and> rx_ring_ok (env pos)" and junk: "length (v_label (junk pos)) = 6" for pos
    using assms(6,7) by simp_all
  have p: "ptype = PROTOCOL_IPV4 \<or> ptype = PROTOCOL_IPV6" using assms(5) by simp
  have "orders \<noteq> []" using assms(3,11) by (auto simp: pieces_ok_def)
  moreover have "set (concat orders) \<inter> {} = {}" "set (concat orders) \<union> {} = {..<length xs}"
    using assms(11) by (auto simp: atLeast0LessThan)
  ultimately show ?thesis
    using decap_burst_frames [where env = env and junk = junk, OF refl env junk assms(8,3,4) p assms(1) _ assms(9,2,10)]
    by blast
qed

definition sample_pieces :: "u8 list list" where
  "sample_pieces = [[0x45, 1, 2], [3, 4], [5]]"

definition sample_frag :: "nat \<Rightarrow> gse_packet" where
  "sample_frag = frag_packet (\<lambda>i. (2, [])) 5 9 PROTOCOL_IPV4 sample_pieces"

lemma sample_frag_frame:
  assumes "order \<noteq> []" "set order \<subseteq> {0, 1, 2}" "length order \<le> 3"
  shows "frame_of sample_frag mac order (frame_mbuf (plain_frame 200 (map sample_frag order) []))"
proof -
  have one: "pkt_ok (sample_frag i) \<and> length (pkt_bytes (sample_frag i)) \<le> 20" if "i \<in> {0, 1, 2}" for i
  proof -
    have "\<not> regular_ext_header_type PROTOCOL_IPV4"
      by (simp add: regular_ext_header_type_def PROTOCOL_IPV4_def PDU_CONCAT_def TIME_STEMP_def FRAG_SEQUENCE_def)
    moreover have "length (frag_data sample_pieces i) \<le> 5"
      using that by (auto simp: frag_data_def sample_pieces_def)
    ultimately show ?thesis
      by (auto simp: sample_frag_def frag_packet_def length_wire_frag_fields label_length_def length_wire_gse_header)
  qed
  have p: "list_all pkt_ok (map sample_frag order)" using one assms(2) by (auto simp: list_all_iff)
  have b: "length (concat (map pkt_bytes (map sample_frag order))) \<le> length order * 20"
    using one assms(2) by (induction order) force+
  have "pkt_label cur (sample_frag i) = Some Broadcast" for cur i by (simp add: sample_frag_def frag_packet_def)
  then have u: "all_for_us mac cur (map sample_frag order)" for cur
    by (induction order arbitrary: cur) (simp_all add: label_for_us_def)
  have "length (concat (map pkt_bytes (map sample_frag order))) \<le> 60" using b assms(3) by linarith
  then have "bb_frame 200 (map sample_frag order) [] (plain_frame 200 (map sample_frag order) [])"
    by (intro plain_frame_ok) simp_all
  then show ?thesis using p u assms(1) by (auto simp: frame_of_def frame_mbuf_def)
qed

theorem fragments_in_frames_reassembled_witness:
  "\<forall>fp. \<exists>s' b. decap_burst (\<lambda>_. roomy_rx_env) (\<lambda>_. junk_header) 0 [2, 0, 0, 0, 0, 1] (\<lambda>_ _. Inr) fp 0
      [frame_mbuf (plain_frame 200 [sample_frag 2, sample_frag 0] []), frame_mbuf (plain_frame 200 [sample_frag 1] [])]
      start_decap_state = Inr s'
    \<and> ds_encap_ring s' = [b] \<and> pdu_of b = (0x0800, [0x45, 1, 2, 3, 4, 5])"
proof (rule allI)
  fix fp :: FRAME_PARAM
  let ?fr = "[frame_mbuf (plain_frame 200 [sample_frag 2, sample_frag 0] []), frame_mbuf (plain_frame 200 [sample_frag 1] [])]"
  have l: "list_all2 (frame_of (frag_packet (\<lambda>i. (2, [])) 5 9 PROTOCOL_IPV4 sample_pieces) [2, 0, 0, 0, 0, 1]) [[2, 0], [1]] ?fr"
    unfolding sample_frag_def [symmetric]
    using sample_frag_frame [of "[2, 0]" "[2, 0, 0, 0, 0, 1]"] sample_frag_frame [of "[1]" "[2, 0, 0, 0, 0, 1]"] by simp
  have j: "job_inv 0 (unat (5 :: u8)) 0 9 PROTOCOL_IPV4 sample_pieces {} start_decap_state"
    by (rule start_job) (simp_all add: MAX_DEVICE_NUM_def MAX_FRAG_ID_def)
  have e: "fresh_mbuf roomy_rx_env sample_pieces \<and> rx_ring_ok roomy_rx_env" "length (v_label junk_header) = 6"
    "length (pm_mac_address (ds_previous_mac start_decap_state)) = 6" "ds_encap_ring start_decap_state = []"
    by (simp_all add: fresh_mbuf_def roomy_rx_env_def junk_header_def start_decap_state_def init_decap_mem_def
        boot_decap_state_def sample_pieces_def)
  have "set (concat [[2, 0], [1]]) = {0..<length sample_pieces}" by (auto simp: sample_pieces_def)
  moreover have "pieces_ok sample_pieces" using sample_pieces_ok(1) by (simp add: sample_pieces_def)
  ultimately show "\<exists>s' b. decap_burst (\<lambda>_. roomy_rx_env) (\<lambda>_. junk_header) 0 [2, 0, 0, 0, 0, 1] (\<lambda>_ _. Inr) fp 0 ?fr
      start_decap_state = Inr s' \<and> ds_encap_ring s' = [b] \<and> pdu_of b = (0x0800, [0x45, 1, 2, 3, 4, 5])"
    using fragments_in_frames_reassembled [OF l j, of "\<lambda>_. roomy_rx_env" "\<lambda>_. junk_header" 0 "\<lambda>_ _. Inr" fp] e
    by (auto simp: sample_pieces_def PROTOCOL_IPV4_def)
qed

text \<open>The extension headers a packet may carry, with their values, and the bytes of a chain of them in front of
  data of type \<open>nt\<close>: each header is its value and the type of what follows.  Behind a \<open>PDU_CONCAT\<close> header
  the type is in host byte order, as \<open>get_pdu_concat_info\<close> reads it.\<close>

datatype ext_hdr = SeqHdr u16 | TimeHdr u32 | ConcatHdr

fun ext_type :: "ext_hdr \<Rightarrow> u16" where
  "ext_type (SeqHdr ts) = FRAG_SEQUENCE"
| "ext_type (TimeHdr t) = TIME_STEMP"
| "ext_type ConcatHdr = PDU_CONCAT"

fun ext_value :: "ext_hdr \<Rightarrow> u8 list" where
  "ext_value (SeqHdr ts) = le16 (bswap16 ts)"
| "ext_value (TimeHdr t) = le32 t"
| "ext_value ConcatHdr = []"

definition chain_type :: "ext_hdr list \<Rightarrow> u16 \<Rightarrow> u16" where
  "chain_type hs nt = (case hs of [] \<Rightarrow> nt | h # _ \<Rightarrow> ext_type h)"

fun chain_bytes :: "ext_hdr list \<Rightarrow> u16 \<Rightarrow> u8 list" where
  "chain_bytes [] nt = []"
| "chain_bytes (h # hs) nt =
     ext_value h @ le16 (if h = ConcatHdr then chain_type hs nt else bswap16 (chain_type hs nt)) @ chain_bytes hs nt"

definition chain_stamp :: "ext_hdr list \<Rightarrow> u16 \<Rightarrow> u16" where
  "chain_stamp = fold (\<lambda>h ts. case h of SeqHdr t \<Rightarrow> t | _ \<Rightarrow> ts)"

definition chain_last :: "(ext_hdr \<Rightarrow> 'a) \<Rightarrow> ext_hdr list \<Rightarrow> 'a \<Rightarrow> 'a" where
  "chain_last f hs x = (if hs = [] then x else f (last hs))"

lemma chain_last_Cons: "chain_last f (h # hs) x = chain_last f hs (f h)"
  by (simp add: chain_last_def)

lemma ext_hdr_reads:
  "get_extension_header_info (ext_value h @ le16 (if h = ConcatHdr then w else bswap16 w) @ rest) (ext_type h) n
   = Inr (int (length (ext_value h)) + 2, w)" "regular_ext_header_type (ext_type h)"
proof -
  have l: "load16 (v @ le16 x @ rest) (length v) = Inr x" for v x
    using load16_at [of v x rest] by simp
  show "get_extension_header_info (ext_value h @ le16 (if h = ConcatHdr then w else bswap16 w) @ rest) (ext_type h) n
   = Inr (int (length (ext_value h)) + 2, w)"
    using l [of "le16 (bswap16 ts)" for ts] l [of "le32 t" for t] l [of "[]"]
    by (cases h) (simp_all add: get_extension_header_info_def get_pdu_concat_info_def FRAG_SEQUENCE_def TIME_STEMP_def PDU_CONCAT_def)
  show "regular_ext_header_type (ext_type h)" by (cases h) (simp_all add: regular_ext_header_type_def)
qed

lemma ext_stamp_reads:
  "(if get_extension_header_type (ext_type h) = OPTIONAL_EXT_HEADER \<and> ext_type h = FRAG_SEQUENCE
    then bind_ok (load16 (ext_value h) 0) (\<lambda>w. Inr (bswap16 w)) else Inr ts) = Inr (chain_stamp [h] ts)"
proof (cases h)
  case (SeqHdr t)
  have "load16 (le16 (bswap16 t)) 0 = Inr (bswap16 t)" using load16_0 [of "bswap16 t" "[]"] by simp
  then show ?thesis using SeqHdr frag_sequence_header_reads(2) by (simp add: chain_stamp_def)
qed (simp_all add: chain_stamp_def TIME_STEMP_def FRAG_SEQUENCE_def PDU_CONCAT_def)

lemma length_ext_value: "length (ext_value h) \<le> 4"
  by (cases h) simp_all

lemma read_chain:
  assumes "length pre = unat off" "\<not> regular_ext_header_type nt" "length (pre @ chain_bytes hs nt @ rest) \<le> 65535"
  shows "read_ext_headers (pre @ chain_bytes hs nt @ rest) off (chain_type hs nt) pt vs ts
    = Inr (off + of_nat (length (chain_bytes hs nt)), nt, chain_last ext_type hs pt,
        chain_last (\<lambda>h. of_nat (length (ext_value h) + 2)) hs vs, chain_stamp hs ts)"
  using assms
proof (induction hs arbitrary: pre off pt vs ts)
  case Nil
  then show ?case by (simp add: chain_type_def chain_last_def chain_stamp_def read_no_ext_header)
next
  case (Cons h hs)
  let ?v = "ext_value h" and ?w = "le16 (if h = ConcatHdr then chain_type hs nt else bswap16 (chain_type hs nt))"
  let ?g = "pre @ chain_bytes (h # hs) nt @ rest" and ?sz = "int (length (ext_value h)) + 2"
  have g: "?g = pre @ ?v @ ?w @ chain_bytes hs nt @ rest" by simp
  have dr: "drop (unat off) ?g = ?v @ ?w @ chain_bytes hs nt @ rest" using Cons.prems(1) unfolding g by simp
  have sz: "(of_int ?sz :: u16) = of_nat (length ?v + 2)" by simp
  have "unat (of_int ?sz - 2 :: u16) = length ?v"
    using length_ext_value [of h] by (simp add: unat_of_nat_lt)
  then have gb: "get_bytes ?g (unat off) (unat (of_int ?sz - 2 :: u16)) = Inr ?v"
    using Cons.prems(1) unfolding g by simp
  have len: "\<not> 65535 < length ?g" using Cons.prems(3) by simp
  have u: "unat (of_nat (length ?v + 2) :: u16) = length ?v + 2"
    using length_ext_value [of h] by (intro unat_of_nat_lt) simp
  have "unat off + unat (of_nat (length ?v + 2) :: u16) < 2 ^ LENGTH(16)"
    unfolding u using Cons.prems(1,3) by simp
  then have "unat (off + of_nat (length ?v + 2)) = unat off + unat (of_nat (length ?v + 2) :: u16)"
    by (rule unat_add_lt)
  then have o: "length (pre @ ?v @ ?w) = unat (off + of_nat (length ?v + 2) :: u16)"
    unfolding u using Cons.prems(1) by simp
  have "read_ext_headers ((pre @ ?v @ ?w) @ chain_bytes hs nt @ rest) (off + of_nat (length ?v + 2)) (chain_type hs nt)
        (ext_type h) (of_nat (length ?v + 2)) (chain_stamp [h] ts)
    = Inr (off + of_nat (length ?v + 2) + of_nat (length (chain_bytes hs nt)), nt, chain_last ext_type hs (ext_type h),
        chain_last (\<lambda>h. of_nat (length (ext_value h) + 2)) hs (of_nat (length ?v + 2)), chain_stamp hs (chain_stamp [h] ts))"
    using Cons.prems(2,3) by (intro Cons.IH [OF o]) simp_all
  moreover have "read_ext_headers ?g off (ext_type h) pt vs ts
    = read_ext_headers ?g (off + of_int ?sz) (chain_type hs nt) (ext_type h) (of_int ?sz) (chain_stamp [h] ts)"
    by (subst read_ext_headers.simps)
      (simp only: ext_hdr_reads dr gb len ext_stamp_reads bind_ok.simps prod.case if_False not_True_eq_False)
  ultimately show ?case
    unfolding sz by (simp add: chain_type_def chain_last_Cons chain_stamp_def add.assoc)
qed



text \<open>The loop with a bound \<open>n\<close> on the number of packets.\<close>

primrec run_packets :: "nat \<Rightarrow> (nat \<Rightarrow> RX_ENV) \<Rightarrow> (nat \<Rightarrow> GSE_VARIABLE_HEADER_VALUE) \<Rightarrow> u8 list \<Rightarrow> nat
    \<Rightarrow> u16 \<Rightarrow> u32 \<Rightarrow> u16 \<Rightarrow> u8 list \<Rightarrow> nat \<Rightarrow> u32 \<Rightarrow> DECAP_LOCALS \<Rightarrow> DECAP_STATE
    \<Rightarrow> (DECAP_LOCALS \<times> DECAP_STATE) outcome option" where
  "run_packets 0 env junk mac q hs pad fsize data pos t loc s = None"
| "run_packets (Suc n) env junk mac q hs pad fsize data pos t loc s =
     (case decapsulate_packet (env pos) (junk pos) mac q (drop pos data) loc s of
        Inl e \<Rightarrow> Some (Inl e)
      | Inr (len, loc', s') \<Rightarrow>
          if handled_sum hs (t + (2 + ucast len)) pad < ucast fsize
          then run_packets n env junk mac q hs pad fsize data (pos + 2 + unat len) (t + (2 + ucast len)) loc' s'
          else Some (Inr (loc', s')))"

lemma bytes_to_go_step:
  fixes fsize :: u16
  assumes "x = handled_sum h t p" "x < ucast fsize" "y = handled_sum h (t + (2 + ucast (len :: 12 word))) p" "y < ucast fsize"
  shows "unat x + 2 \<le> unat y"
proof -
  have F: "unat (ucast fsize :: u32) = unat fsize" "unat fsize < 65536"
    using unsigned_less [of fsize] by (simp_all add: unat_ucast_up)
  have l: "unat (ucast len :: u32) = unat len" "unat len < 4096"
    using unsigned_less [of len] by (simp_all add: unat_ucast_up)
  have e: "y = x + (2 + ucast len)" using assms(1,3) by (simp add: handled_sum_def)
  have step: "unat (2 + ucast len :: u32) = 2 + unat len"
    using l by (subst unat_add_lt) simp_all
  have "unat x < 65536" using assms(2) F by (simp add: word_less_nat_alt)
  then have "unat y = unat x + (2 + unat len)"
    using l(2) unfolding e by (subst unat_add_lt) (simp_all only: step, simp_all)
  then show ?thesis by simp
qed

lemma run_packets_enough:
  "handled_sum hs t pad < ucast fsize \<Longrightarrow> (unat fsize - unat (handled_sum hs t pad)) div 2 < n \<Longrightarrow>
   run_packets n env junk mac q hs pad fsize data pos t loc s
   = Some (decapsulate_packets env junk mac q hs pad fsize data pos t loc s)"
proof (induction n arbitrary: pos t loc s)
  case (Suc n)
  let ?x = "handled_sum hs t pad"
  have F: "unat (ucast fsize :: u32) = unat fsize" by (simp add: unat_ucast_up)
  show ?case
  proof (cases "decapsulate_packet (env pos) (junk pos) mac q (drop pos data) loc s")
    case (Inl e)
    then show ?thesis by (simp add: decapsulate_packets.simps)
  next
    case (Inr r)
    obtain len loc' s' where r: "r = (len, loc', s')" by (cases r)
    let ?t = "t + (2 + ucast len)"
    show ?thesis
    proof (cases "handled_sum hs ?t pad < ucast fsize")
      case False
      then show ?thesis using Inr r by (simp add: decapsulate_packets.simps [of _ _ _ _ _ _ _ _ pos t] Let_def)
    next
      case True
      have "unat ?x + 2 \<le> unat (handled_sum hs ?t pad)" by (rule bytes_to_go_step [OF refl Suc.prems(1) refl True])
      moreover have "unat (handled_sum hs ?t pad) < unat fsize" using True F by (simp add: word_less_nat_alt)
      ultimately have "(unat fsize - unat (handled_sum hs ?t pad)) div 2 < n" using Suc.prems(2) by linarith
      from Suc.IH [OF True this] show ?thesis
        using Inr r True by (simp add: decapsulate_packets.simps [of _ _ _ _ _ _ _ _ pos t] Let_def)
    qed
  qed
qed simp

text \<open>C23: the loop over the packets of a frame ends for every content of the frame and every padding: it
  handles at most half as many packets as the frame size says bytes, and two more.\<close>

theorem packet_loop_bounded:
  "run_packets (unat fsize div 2 + 2) env junk mac q hs pad fsize data pos t loc s
   = Some (decapsulate_packets env junk mac q hs pad fsize data pos t loc s)"
proof (cases "handled_sum hs t pad < ucast fsize")
  case True
  have "(unat fsize - unat (handled_sum hs t pad)) div 2 \<le> unat fsize div 2" by (rule div_le_mono) simp
  then show ?thesis using run_packets_enough [OF True, of "unat fsize div 2 + 2"] by (simp del: run_packets.simps)
next
  case False
  have e: "unat fsize div 2 + 2 = Suc (unat fsize div 2 + 1)" by simp
  show ?thesis
  proof (cases "decapsulate_packet (env pos) (junk pos) mac q (drop pos data) loc s")
    case (Inl x)
    then show ?thesis by (simp add: decapsulate_packets.simps e del: One_nat_def)
  next
    case (Inr r)
    obtain len loc' s' where r: "r = (len, loc', s')" by (cases r)
    let ?t = "t + (2 + ucast len)"
    have "(unat fsize - unat (handled_sum hs ?t pad)) div 2 < unat fsize div 2 + 1"
      using div_le_mono [of "unat fsize - unat (handled_sum hs ?t pad)" "unat fsize" 2] by linarith
    then show ?thesis
      unfolding e run_packets.simps decapsulate_packets.simps [of _ _ _ _ _ _ _ _ pos t]
      using Inr r run_packets_enough [of hs ?t pad fsize "unat fsize div 2 + 1"] by (auto simp: Let_def)
  qed
qed

text \<open>C24: a BBFRAME in which any one byte of the BBHEADER was changed on the way is freed; no packet of it
  is looked at, nothing is put on a ring and the reassembly buffers stay as they were.\<close>

theorem corrupted_frame_dropped:
  assumes "bb_frame fs ps post (xs @ a # ys)" "56 \<le> length xs" "length xs < 66" "a \<noteq> b" "mb_data m = xs @ b # ys"
  shows "dispatch_decap_pkt env junk index0 mac pdu_packs fp m q s
    = Inr (s\<lparr>ds_freed := ds_freed s @ [m]\<rparr>, None, None)"
proof -
  obtain fp' where "process_frame_header m fp = Inr (-1, fp', None, Some m, None)"
    using process_corrupted_frame [OF assms] by blast
  then show ?thesis by (simp add: dispatch_decap_pkt_def free_pdu_def)
qed

theorem corrupted_frame_dropped_witness:
  "\<forall>env fp s. \<exists>xs b ys. take 2 (drop 60 (plain_frame 200 [sample_frag 0] [])) \<noteq> take 2 (drop 60 (xs @ b # ys))
    \<and> dispatch_decap_pkt env (\<lambda>_. junk_header) 0 [2, 0, 0, 0, 0, 1] (\<lambda>_ _. Inr) fp (frame_mbuf (xs @ b # ys)) 0 s
      = Inr (s\<lparr>ds_freed := ds_freed s @ [frame_mbuf (xs @ b # ys)]\<rparr>, None, None)"
proof (intro allI)
  fix env :: "nat \<Rightarrow> RX_ENV" and fp :: FRAME_PARAM and s :: DECAP_STATE
  let ?f = "plain_frame 200 [sample_frag 0] []"
  have "frame_of sample_frag [2, 0, 0, 0, 0, 1] [0] (frame_mbuf (plain_frame 200 (map sample_frag [0]) []))"
    by (rule sample_frag_frame) simp_all
  then obtain fs post where f: "bb_frame fs [sample_frag 0] post ?f" by (auto simp: frame_of_def frame_mbuf_def)
  then have l: "66 \<le> length ?f" by (auto simp: bb_frame_def header_size_defs)
  define xs a ys where "xs = take 61 ?f" "a = ?f ! 61" "ys = drop 62 ?f"
  have "61 < length ?f" using l by linarith
  then have e: "?f = xs @ a # ys" unfolding xs_a_ys_def using id_take_nth_drop [of 61 ?f] by simp
  have lx: "length xs = 61" using l by (simp add: xs_a_ys_def)
  have ne: "a \<noteq> a + 1" by simp
  have d: "take 2 (drop 60 ?f) \<noteq> take 2 (drop 60 (xs @ (a + 1) # ys))"
    using lx unfolding e by (simp add: take_Cons')
  have fe: "bb_frame fs [sample_frag 0] post (xs @ a # ys)" using f e by simp
  have lb: "56 \<le> length xs" "length xs < 66" using lx by simp_all
  have dm: "mb_data (frame_mbuf (xs @ (a + 1) # ys)) = xs @ (a + 1) # ys" by (simp add: frame_mbuf_def)
  show "\<exists>xs b ys. take 2 (drop 60 ?f) \<noteq> take 2 (drop 60 (xs @ b # ys))
    \<and> dispatch_decap_pkt env (\<lambda>_. junk_header) 0 [2, 0, 0, 0, 0, 1] (\<lambda>_ _. Inr) fp (frame_mbuf (xs @ b # ys)) 0 s
      = Inr (s\<lparr>ds_freed := ds_freed s @ [frame_mbuf (xs @ b # ys)]\<rparr>, None, None)"
    using d corrupted_frame_dropped [OF fe lb ne dm] by blast
qed

end
