(* ===== verification/Encapsulate.thy ===== *)
theory Encapsulate
  imports Fragment EncapFrame
begin

text \<open>
  The sending channel (\<open>src/encapsulate.c\<close>): a PDU of the encapsulation ring is put into the GSE
  group of the frame under construction, fragmented when the frame has too little room, and the frame
  is written out when it is full, when the PDU was fragmented or when the ring stayed empty.  The
  arrays indexed by \<open>mapping_id\<close> are the fields of one channel; the counters of \<open>ut_statis_debug\<close> and
  the logging are left out.
\<close>

section \<open>State and environment\<close>

definition SUCCEED_FETCH_FRAGMENT :: int where "SUCCEED_FETCH_FRAGMENT = 1"
definition SUCCEED_FETCH_MODCOD :: int where "SUCCEED_FETCH_MODCOD = 2"
definition FAILED_FETCH_MODCOD :: int where "FAILED_FETCH_MODCOD = 3"

lemmas fetch_code_defs = SUCCEED_FETCH_FRAGMENT_def SUCCEED_FETCH_MODCOD_def FAILED_FETCH_MODCOD_def

text \<open>
  The elements of \<open>encap_info\<close> and \<open>frame_payload\<close> of the channel, the label remembered by all
  channels (\<open>last_mac_length\<close>, \<open>last_mac_address\<close>), the static variables of \<open>update_pdu_group\<close> and of
  \<open>run_fragment\<close>, the frames handed to the transmit ring and the mbufs freed, in their order, and the
  number of calls made to the environment.
\<close>

record ENCAP_STATE =
  es_param :: ENCAP_PARAM
  es_payload :: FRAME_PAYLOAD
  es_frame_param :: FRAME_PARAM
  es_last_mac_length :: u8
  es_last_mac_address :: "u8 list"
  es_statics :: UPD_STATICS
  es_last_ID :: "u8 list"
  es_force_padding_count :: u64
  es_loop_count :: u8
  es_sent :: "u8 list list"
  es_freed :: "ptr list"
  es_calls :: nat

text \<open>
  The environment: the memory the mbufs point into, the configuration, the macro \<open>INVALID_ID_VALUE\<close>,
  and for the \<open>k\<close>-th call the clock, the uninitialised locals of \<open>encapsulate_gse\<close> and
  \<open>encapsulate_frame\<close> and the answer of the mbuf pool.
\<close>

record ENCAP_ENV =
  ee_mem :: mem
  ee_modcode :: u8
  ee_threshold :: u16
  ee_port :: PORT_CONF
  ee_invalid_id :: "int \<Rightarrow> bool"
  ee_now :: "nat \<Rightarrow> u64"
  ee_field :: "nat \<Rightarrow> u8 list"
  ee_stack :: "nat \<Rightarrow> ONE_GSE"
  ee_inner :: "nat \<Rightarrow> L2L1_MSG_HEADER"
  ee_mbuf_ok :: "nat \<Rightarrow> bool"

definition zero_frame_payload :: FRAME_PAYLOAD where
  "zero_frame_payload = \<lparr>used_payload = 0, usable_payload = 0, max_payload = 0, frame_modcod = 0\<rparr>"

definition zero_fragment_buffer :: FRAGMENT_BUFFER where
  "zero_fragment_buffer = \<lparr>b_used = 0, b_fragment_info = zero_fragment_info, b_pdu_node = zero_pdu_node\<rparr>"

text \<open>\<open>es\<close> is the array of GSE packets as \<open>malloc\<close> returned it; a failed allocation faults in the
  \<open>memset\<close> behind it.\<close>

definition init_encap_mem :: "bool \<Rightarrow> ONE_GSE list \<Rightarrow> ENCAP_STATE \<Rightarrow> ENCAP_STATE outcome" where
  "init_encap_mem malloc_ok es s =
     (if \<not> malloc_ok then Inl NullDeref else
      bind_ok (init_fragment_info True) (\<lambda>q.
      let fp = es_frame_param s;
          (bb, tx) = init_BBHeader (Some (initialBBHeader fp)) (Some (L2L1_header fp));
          (ih, tx') = init_ISLHeader (Some (initialISLHeader fp)) tx
      in case (bb, ih, tx') of
           (Some bb', Some ih', Some tx'') \<Rightarrow>
             Inr (s\<lparr>es_param := \<lparr>pPDU_Group = zero_pdu_group,
                       pGSE_Group = \<lparr>s_modcod = 0, s_frame_create_time = 0, s_priority_group = 0,
                         s_total_length = 0, s_gse_num = 0, s_pOneGSE = es\<rparr>,
                       using_pdu = using_pdu (es_param s),
                       pfragment_buffer = replicate FRAGMENT_MAX_NUM zero_fragment_buffer,
                       fragmentID_queue = q\<rparr>,
                     es_payload := zero_frame_payload,
                     es_frame_param := fp\<lparr>initialBBHeader := bb', initialISLHeader := ih', L2L1_header := tx''\<rparr>\<rparr>)
         | _ \<Rightarrow> Inl NullDeref))"

section \<open>Reading a PDU\<close>

text \<open>An mbuf of the ring: its address, where its data is, how long it is, and its protocol type.\<close>

record TX_MBUF =
  tm_address :: ptr
  tm_data :: ptr
  tm_data_len :: u16
  tm_protocol_type :: u32

definition read_enapsulate_buffer :: "ENCAP_ENV \<Rightarrow> EN_PDU_NODE \<Rightarrow> TX_MBUF \<Rightarrow> int \<times> EN_PDU_NODE" where
  "read_enapsulate_buffer e n m = (SUCCEED_FETCH_MODCOD, n\<lparr>
     n_pdu_size := tm_data_len m, n_pPDU_start := tm_data m, n_mac_length := 0,
     n_MODCOD := ee_modcode e, n_vip_flag := 1, n_mobility := 1, n_userID := 0, n_priority := 3,
     n_protocoltype := ucast (tm_protocol_type m), n_priority_group := 1, n_pPDU_address := tm_data m,
     n_mbuf_address := tm_address m, n_pdu_total_length := tm_data_len m,
     n_MAC_address := BOARDCAST_ADDRESS\<rparr>)"

definition set_using :: "EN_PDU_NODE \<Rightarrow> ENCAP_STATE \<Rightarrow> ENCAP_STATE" where
  "set_using n s = s\<lparr>es_param := (es_param s)\<lparr>using_pdu := n\<rparr>\<rparr>"

definition get_whole_pkt :: "ENCAP_ENV \<Rightarrow> TX_MBUF \<Rightarrow> ENCAP_STATE \<Rightarrow> int \<times> ENCAP_STATE" where
  "get_whole_pkt e m s = (let (read_ok, n) = read_enapsulate_buffer e zero_pdu_node m in (read_ok, set_using n s))"

text \<open>The fragmenter of the channel: the parts of the state \<open>fragment.c\<close> works on.\<close>

definition frag_state :: "ENCAP_STATE \<Rightarrow> FRAG_STATE" where
  "frag_state s = \<lparr>fs_buffer = pfragment_buffer (es_param s), fs_queue = fragmentID_queue (es_param s),
     fs_last_ID = es_last_ID s\<rparr>"

definition set_frag_state :: "FRAG_STATE \<Rightarrow> ENCAP_STATE \<Rightarrow> ENCAP_STATE" where
  "set_frag_state f s = s\<lparr>es_param := (es_param s)\<lparr>pfragment_buffer := fs_buffer f, fragmentID_queue := fs_queue f\<rparr>,
     es_last_ID := fs_last_ID f\<rparr>"

definition get_frag_pkt :: "ENCAP_ENV \<Rightarrow> ENCAP_STATE \<Rightarrow> (int \<times> ENCAP_STATE) outcome" where
  "get_frag_pkt e s =
     bind_ok (fetch_pdu_fragment (ee_invalid_id e) (frag_state s) zero_pdu_node) (\<lambda>(fragmentID, f, n).
       Inr (if 0 \<le> fragmentID then SUCCEED_FETCH_FRAGMENT else SUCCEED_FETCH_MODCOD,
            set_frag_state f (set_using n s)))"

section \<open>Frames\<close>

definition make_frame :: "ENCAP_ENV \<Rightarrow> ENCAP_STATE \<Rightarrow> (bool \<times> ENCAP_STATE) outcome" where
  "make_frame e s =
     (let p = es_param s; k = es_calls s in
      bind_ok (encapsulate_frame (ee_mem e) (ee_mbuf_ok e k) (ee_port e) (ee_inner e k) (pGSE_Group p)
                 (max_payload (es_payload s)) (used_payload (es_payload s)) (s_modcod (pGSE_Group p))
                 (Some (es_frame_param s)))
        (\<lambda>(ret, fp, out, freed).
          Inr (True, s\<lparr>es_param := p\<lparr>pGSE_Group := reset_gse_group (pGSE_Group p)\<rparr>,
                       es_payload := zero_frame_payload,
                       es_frame_param := (case fp of Some fp' \<Rightarrow> fp' | None \<Rightarrow> es_frame_param s),
                       es_sent := es_sent s @ (case out of Some f \<Rightarrow> [f] | None \<Rightarrow> []),
                       es_freed := es_freed s @ freed, es_calls := Suc k\<rparr>)))"

text \<open>The calls of \<open>encapsulate_isl_bb\<close> to the operations of \<open>encapsulate_gse.c\<close>.\<close>

definition close_gse :: "ENCAP_ENV \<Rightarrow> ENCAP_STATE \<Rightarrow> ENCAP_STATE outcome" where
  "close_gse e s =
     (let k = es_calls s in
      bind_ok (update_gse_group (ee_now e k) (ee_field e k) (ee_stack e k) (es_payload s) (es_param s) True)
        (\<lambda>(f, p). Inr (s\<lparr>es_payload := f, es_param := p, es_calls := Suc k\<rparr>)))"

definition group_pdu :: "u8 \<times> u8 \<Rightarrow> u16 \<Rightarrow> ENCAP_STATE \<Rightarrow> ENCAP_STATE outcome" where
  "group_pdu label mapping_id s =
     (let p = es_param s in
      bind_ok (update_pdu_group (using_pdu p) (pPDU_Group p) (fst label) (snd label) mapping_id (es_statics s))
        (\<lambda>(g, st). Inr (s\<lparr>es_param := p\<lparr>pPDU_Group := g\<rparr>, es_statics := st\<rparr>)))"

definition choose_label :: "bool \<Rightarrow> ENCAP_STATE \<Rightarrow> (u8 \<times> u8) outcome" where
  "choose_label null_frame s =
     (let n = using_pdu (es_param s) in
      decide_label (n_mac_length n) (n_MAC_address n) (es_last_mac_length s) (es_last_mac_address s) null_frame)"

definition remember_label :: "ENCAP_STATE \<Rightarrow> ENCAP_STATE outcome" where
  "remember_label s =
     (let n = using_pdu (es_param s) in
      bind_ok (update_last_label (n_mac_length n) (n_MAC_address n) (es_last_mac_length s) (es_last_mac_address s))
        (\<lambda>(len, mac). Inr (s\<lparr>es_last_mac_length := len, es_last_mac_address := mac\<rparr>)))"

definition open_payload :: "u8 \<Rightarrow> ENCAP_STATE \<Rightarrow> ENCAP_STATE outcome" where
  "open_payload modcod s = bind_ok (init_frame_payload (es_payload s) modcod) (\<lambda>f. Inr (s\<lparr>es_payload := f\<rparr>))"

definition force_send :: "ENCAP_ENV \<Rightarrow> bool \<Rightarrow> ENCAP_STATE \<Rightarrow> ENCAP_STATE outcome" where
  "force_send e insert_dummy s =
     (if \<not> insert_dummy \<and> 0 < s_gse_num (pGSE_Group (es_param s))
      then bind_ok (close_gse e s) (\<lambda>s1.
           bind_ok (make_frame e s1) (\<lambda>(_, s2).
             Inr (s2\<lparr>es_force_padding_count := es_force_padding_count s2 + 1\<rparr>)))
      else Inr s)"

definition fragment_process :: "ENCAP_ENV \<Rightarrow> u8 \<times> u8 \<Rightarrow> bool \<Rightarrow> u16 \<Rightarrow> ENCAP_STATE \<Rightarrow> (bool \<times> ENCAP_STATE) outcome" where
  "fragment_process e label null_frame mapping_id s =
     (let s1 = s\<lparr>es_param := (es_param s)\<lparr>pPDU_Group := reset_pdu_group (pPDU_Group (es_param s))\<rparr>\<rparr>;
          n = using_pdu (es_param s1) in
      bind_ok (do_fragment (ee_mem e) null_frame (max_payload (es_payload s1)) (usable_payload (es_payload s1)) n
                 mapping_id (frag_state s1)) (\<lambda>(_, n1, f1).
      bind_ok (fetch_pdu_fragment (ee_invalid_id e) f1 n1) (\<lambda>(_, f2, n2).
      bind_ok (group_pdu label mapping_id (set_frag_state f2 (set_using n2 s1))) (\<lambda>s2.
      bind_ok (close_gse e s2) (\<lambda>s3. make_frame e s3)))))"

section \<open>\<open>encapsulate_isl_bb\<close>\<close>

definition room_for_group :: "ENCAP_STATE \<Rightarrow> bool" where
  "room_for_group s \<longleftrightarrow> g_gse_total_length (pPDU_Group (es_param s)) \<le> usable_payload (es_payload s)"

definition adopt_modcod :: "ENCAP_STATE \<Rightarrow> ENCAP_STATE" where
  "adopt_modcod s =
     (let p = es_param s in
      if s_modcod (pGSE_Group p) = 0
      then s\<lparr>es_param := p\<lparr>pGSE_Group := (pGSE_Group p)\<lparr>s_modcod := n_MODCOD (using_pdu p)\<rparr>\<rparr>\<rparr>
      else s)"

definition encapsulate_isl_bb :: "ENCAP_ENV \<Rightarrow> int \<Rightarrow> u16 \<Rightarrow> ENCAP_STATE \<Rightarrow> ENCAP_STATE outcome" where
  "encapsulate_isl_bb e read_ok mapping_id s =
     (if read_ok = SUCCEED_FETCH_MODCOD \<or> read_ok = SUCCEED_FETCH_FRAGMENT then
        let null_frame = (max_payload (es_payload s) = 0) in
        bind_ok (if null_frame then open_payload (n_MODCOD (using_pdu (es_param s))) s else Inr s) (\<lambda>s1.
        bind_ok (choose_label null_frame s1) (\<lambda>label.
        bind_ok (group_pdu label mapping_id (adopt_modcod s1)) (\<lambda>s2.
        if room_for_group s2 then
          bind_ok (close_gse e s2) (\<lambda>s3.
          bind_ok (remember_label s3) (\<lambda>s4.
          if usable_payload (es_payload s4) < ee_threshold e
          then bind_ok (make_frame e s4) (\<lambda>(_, s5). Inr s5)
          else Inr s4))
        else if usable_payload (es_payload s2) < ee_threshold e then
          bind_ok (make_frame e s2) (\<lambda>(null_frame', s3).
          bind_ok (open_payload (g_modcod (pPDU_Group (es_param s3))) s3) (\<lambda>s4.
          bind_ok (choose_label null_frame' s4) (\<lambda>label'.
          bind_ok (remember_label s4) (\<lambda>s5.
          bind_ok (group_pdu label' mapping_id s5) (\<lambda>s6.
          if room_for_group s6 then close_gse e s6
          else bind_ok (fragment_process e label' null_frame' mapping_id s6) (\<lambda>(_, s7). Inr s7))))))
        else
          bind_ok (remember_label s2) (\<lambda>s3.
          bind_ok (fragment_process e label null_frame mapping_id s3) (\<lambda>(_, s4). Inr s4)))))
      else force_send e False s)"

section \<open>\<open>encapsulate_thread\<close>\<close>

text \<open>The loop over the waiting fragments; it has no bound of its own.\<close>

partial_function (option) drain_fragments :: "ENCAP_ENV \<Rightarrow> u16 \<Rightarrow> ENCAP_STATE \<Rightarrow> ENCAP_STATE outcome option" where
  "drain_fragments e mapping_id s =
     (case get_frag_pkt e s of
        Inl x \<Rightarrow> Some (Inl x)
      | Inr r \<Rightarrow>
          if fst r = SUCCEED_FETCH_FRAGMENT
          then (case encapsulate_isl_bb e SUCCEED_FETCH_FRAGMENT mapping_id (snd r) of
                  Inl x \<Rightarrow> Some (Inl x)
                | Inr s' \<Rightarrow> drain_fragments e mapping_id s')
          else Some (Inr (snd r)))"

text \<open>The PDUs of one burst.\<close>

definition encap_burst :: "ENCAP_ENV \<Rightarrow> u16 \<Rightarrow> TX_MBUF list \<Rightarrow> ENCAP_STATE \<Rightarrow> ENCAP_STATE outcome" where
  "encap_burst e mapping_id pkts_burst s =
     for_each pkts_burst (\<lambda>m st. let (read_ok, st1) = get_whole_pkt e m st in encapsulate_isl_bb e read_ok mapping_id st1) s"

text \<open>
  One pass over channel 1 when a single thread serves all channels: the waiting fragments, then the
  burst; the 100th pass in a row without a burst sends the frame as it is.
\<close>

definition encap_pass :: "ENCAP_ENV \<Rightarrow> u16 \<Rightarrow> TX_MBUF list \<Rightarrow> ENCAP_STATE \<Rightarrow> ENCAP_STATE outcome option" where
  "encap_pass e mapping_id pkts_burst s =
     (case drain_fragments e mapping_id s of
        None \<Rightarrow> None
      | Some r \<Rightarrow> Some (bind_ok r (\<lambda>s1.
          if pkts_burst \<noteq> [] then encap_burst e mapping_id pkts_burst (s1\<lparr>es_loop_count := 0\<rparr>)
          else let c = es_loop_count s1 + 1 in
               if c = 100 then encapsulate_isl_bb e FAILED_FETCH_MODCOD mapping_id (s1\<lparr>es_loop_count := 0\<rparr>)
               else Inr (s1\<lparr>es_loop_count := c\<rparr>))))"

text \<open>One pass of the thread of a channel: the burst first, then the fragments, and the frame is sent as
  it is when there was no burst.\<close>

definition encap_pass_one :: "ENCAP_ENV \<Rightarrow> u16 \<Rightarrow> TX_MBUF list \<Rightarrow> ENCAP_STATE \<Rightarrow> ENCAP_STATE outcome option" where
  "encap_pass_one e mapping_id pkts_burst s =
     (case encap_burst e mapping_id pkts_burst s of
        Inl x \<Rightarrow> Some (Inl x)
      | Inr s1 \<Rightarrow>
          (case drain_fragments e mapping_id s1 of
             None \<Rightarrow> None
           | Some r \<Rightarrow> Some (bind_ok r (\<lambda>s2.
               if pkts_burst = [] then encapsulate_isl_bb e FAILED_FETCH_MODCOD mapping_id s2 else Inr s2))))"

text \<open>The loop of the thread with one of the two kinds of pass, for the bursts \<open>mss\<close> the ring hands out.\<close>

primrec encap_passes :: "(TX_MBUF list \<Rightarrow> ENCAP_STATE \<Rightarrow> ENCAP_STATE outcome option) \<Rightarrow> TX_MBUF list list
    \<Rightarrow> ENCAP_STATE \<Rightarrow> ENCAP_STATE outcome option" where
  "encap_passes pass [] s = Some (Inr s)"
| "encap_passes pass (ms # mss) s =
     (case pass ms s of
        None \<Rightarrow> None
      | Some (Inl x) \<Rightarrow> Some (Inl x)
      | Some (Inr s1) \<Rightarrow> encap_passes pass mss s1)"

lemma encap_passes_append:
  "encap_passes pass mss s = Some (Inr s1) \<Longrightarrow> encap_passes pass (mss @ nss) s = encap_passes pass nss s1"
  by (induction mss arbitrary: s) (auto split: option.splits sum.splits)

section \<open>What the frame under construction holds\<close>

text \<open>
  An item of the group: the bytes of a GSE packet on the wire, and the mbufs that are freed with it.
\<close>

type_synonym item = "u8 list \<times> ptr list"

definition group_items :: "mem \<Rightarrow> GSE_GROUP \<Rightarrow> item list" where
  "group_items m G = map (\<lambda>ge. (gse_wire m ge, gse_freed ge)) (group_gses G)"

definition items_bytes :: "item list \<Rightarrow> u8 list" where
  "items_bytes its = concat (map fst its)"

definition items_freed :: "item list \<Rightarrow> ptr list" where
  "items_freed its = concat (map snd its)"

lemma items_append [simp]:
  "items_bytes (a @ b) = items_bytes a @ items_bytes b" "items_freed (a @ b) = items_freed a @ items_freed b"
  "items_bytes [] = []" "items_freed [] = []" "items_bytes [x] = fst x" "items_freed [x] = snd x"
  by (simp_all add: items_bytes_def items_freed_def)

lemma group_of_items:
  assumes "frame_gses_ok G"
  shows "group_wire m G = items_bytes (group_items m G)" "group_freed G = items_freed (group_items m G)"
    "unat (s_gse_num G) = length (group_items m G)"
  using assms by (simp_all add: group_wire_def group_freed_def items_bytes_def items_freed_def group_items_def
      frame_gses_ok_def group_gses_def o_def)

definition env_ok :: "ENCAP_ENV \<Rightarrow> bool" where
  "env_ok e \<longleftrightarrow> (\<forall>k. stack_ok (ee_field e k) (ee_stack e k) \<and> ee_mbuf_ok e k)
     \<and> length (local_mac (ee_port e)) = 6 \<and> is_bb_type (port_to_pkt_type (ee_port e))
     \<and> (\<forall>i. 0 \<le> i \<and> i < 256 \<longrightarrow> \<not> ee_invalid_id e i) \<and> ee_invalid_id e (-1)"

text \<open>The frame \<open>frame\<close> carries \<open>data\<close> and zero padding up to \<open>mx\<close> bytes.\<close>

definition data_header :: "BBHEADER \<Rightarrow> nat \<Rightarrow> BBHEADER" where
  "data_header bb n = (let h = bb\<lparr>bb_DFL := bswap16 (of_nat (8 * n))\<rparr> in h\<lparr>bb_CRC8 := mcs_get_crc8 (BBHEADER_body h)\<rparr>)"

definition carries :: "PORT_CONF \<Rightarrow> BBHEADER \<Rightarrow> u16 \<Rightarrow> u8 list \<Rightarrow> u8 list \<Rightarrow> bool" where
  "carries c bb mx data frame \<longleftrightarrow> (\<exists>inner tx.
     frame = inner @ tx @ BBHEADER_bytes (data_header bb (length data)) @ data @ replicate (unat mx - length data) 0
     \<and> length data \<le> unat mx \<and> length inner = L2L1_MSG_HEADER_SIZE \<and> length tx = L2L1_HEADER_SIZE
     \<and> take 2 (drop 12 inner) = le16 (bswap16 0x9101) \<and> inner ! 17 = port_to_pkt_type c
     \<and> take 2 (drop 10 tx) = le16 (bswap16 (of_nat BBHEADER_SIZE + mx)))"

lemma bb_header_of_data:
  "unat data_size = n \<Longrightarrow> bb_header_of fp data_size = data_header (initialBBHeader fp) n"
proof -
  assume "unat data_size = n"
  then have "data_size = of_nat n" by auto
  then have "(of_nat (8 * n) :: u16) = data_size * 8" by simp
  then show ?thesis by (simp only: bb_header_of_def data_header_def)
qed

text \<open>The frame under construction: nothing has been accounted for, or \<open>its\<close> have and there is room left
  above the threshold.\<close>

definition frame_open :: "ENCAP_ENV \<Rightarrow> u16 \<Rightarrow> item list \<Rightarrow> ENCAP_STATE \<Rightarrow> bool" where
  "frame_open e mx its s \<longleftrightarrow> pPDU_Group (es_param s) = zero_pdu_group
     \<and> length (s_pOneGSE (pGSE_Group (es_param s))) = GSE_MAX_NUM \<and> frame_gses_ok (pGSE_Group (es_param s))
     \<and> group_items (ee_mem e) (pGSE_Group (es_param s)) = its \<and> length (es_last_mac_address s) = 6
     \<and> (if its = [] then es_payload s = zero_frame_payload
        else max_payload (es_payload s) = mx \<and> unat (used_payload (es_payload s)) = length (items_bytes its)
          \<and> length (items_bytes its) \<le> unat mx
          \<and> usable_payload (es_payload s) = mx - used_payload (es_payload s)
          \<and> ee_threshold e \<le> usable_payload (es_payload s))"

text \<open>The group with one more packet.\<close>

lemma close_gse_step:
  assumes ge: "build_one_gse (ee_field e (es_calls s)) (ee_stack e (es_calls s)) g = Inr ge" "gse_ok ge"
    and g: "pPDU_Group (es_param s) = g" "g_pdu_num g \<noteq> 0"
    and G: "length (s_pOneGSE (pGSE_Group (es_param s))) = GSE_MAX_NUM" "frame_gses_ok (pGSE_Group (es_param s))"
    and num: "length (group_items m (pGSE_Group (es_param s))) < 255"
  shows "\<exists>G'. close_gse e s = Inr (s\<lparr>es_param := (es_param s)\<lparr>pPDU_Group := zero_pdu_group, pGSE_Group := G'\<rparr>,
       es_payload := update_frame_payload (es_payload s) (g_gse_total_length g), es_calls := Suc (es_calls s)\<rparr>)
     \<and> length (s_pOneGSE G') = GSE_MAX_NUM \<and> frame_gses_ok G'
     \<and> group_items m G' = group_items m (pGSE_Group (es_param s)) @ [(gse_wire m ge, gse_freed ge)]"
proof -
  let ?G = "pGSE_Group (es_param s)" and ?k = "es_calls s"
  let ?n = "unat (s_gse_num ?G)"
  have n: "?n < 255" using num group_of_items(3) [OF G(2), of m] by simp
  let ?E = "enter_gse_group (ee_now e ?k) g ?G"
  let ?G' = "?E\<lparr>s_pOneGSE := (s_pOneGSE ?G)[?n := ge]\<rparr>"
  have E: "s_pOneGSE ?E = s_pOneGSE ?G" "s_gse_num ?E = s_gse_num ?G + 1"
    by (simp_all add: enter_gse_group_def Let_def)
  have u: "unat (s_gse_num ?G + 1) = Suc ?n" using n by (subst unat_add_lt) simp_all
  then have i: "uint (s_gse_num ?E) - 1 = int ?n" by (simp add: E(2) uint_eq_int_unat del: of_nat_unat)
  have r: "close_gse e s = Inr (s\<lparr>es_param := (es_param s)\<lparr>pPDU_Group := zero_pdu_group, pGSE_Group := ?G'\<rparr>,
       es_payload := update_frame_payload (es_payload s) (g_gse_total_length g), es_calls := Suc ?k\<rparr>)"
    using ge(1) g(2) n G(1)
    by (simp add: close_gse_def update_gse_group_def encapsulate_gse_def g(1) Let_def i E(1) reset_pdu_group_def GSE_MAX_NUM_def)
  have gg: "group_gses ?G' = group_gses ?G @ [ge]"
  proof -
    have "take (Suc ?n) ((s_pOneGSE ?G)[?n := ge]) = take ?n (s_pOneGSE ?G) @ [ge]"
      using n G(1) by (simp add: GSE_MAX_NUM_def take_Suc_conv_app_nth)
    then show ?thesis by (simp add: group_gses_def E(2) u)
  qed
  have l: "length (s_pOneGSE ?G') = GSE_MAX_NUM" using G(1) by simp
  have "frame_gses_ok ?G'"
    using G(2) ge(2) l n unfolding frame_gses_ok_def gg by (simp add: E(2) u GSE_MAX_NUM_def)
  then show ?thesis using r l gg by (intro exI [of _ ?G']) (simp add: group_items_def)
qed

lemma make_frame_step:
  assumes e: "env_ok e" and G: "frame_gses_ok (pGSE_Group (es_param s))"
    "group_items (ee_mem e) (pGSE_Group (es_param s)) = its" "its \<noteq> []"
    and F: "max_payload (es_payload s) = mx" "unat (used_payload (es_payload s)) = length (items_bytes its)"
      "length (items_bytes its) \<le> unat mx" "unat mx \<le> 7264"
  shows "\<exists>fp' frame. make_frame e s = Inr (True,
      s\<lparr>es_param := (es_param s)\<lparr>pGSE_Group := reset_gse_group (pGSE_Group (es_param s))\<rparr>,
        es_payload := zero_frame_payload, es_frame_param := fp', es_sent := es_sent s @ [frame],
        es_freed := es_freed s @ items_freed its, es_calls := Suc (es_calls s)\<rparr>)
    \<and> initialBBHeader fp' = initialBBHeader (es_frame_param s)
    \<and> carries (ee_port e) (initialBBHeader (es_frame_param s)) mx (items_bytes its) frame"
proof -
  let ?G = "pGSE_Group (es_param s)" and ?u = "used_payload (es_payload s)" and ?fp = "es_frame_param s"
  let ?m = "ee_mem e" and ?k = "es_calls s" and ?c = "ee_port e"
  note w = group_of_items [OF G(1), of ?m, unfolded G(2)]
  have nz: "s_gse_num ?G \<noteq> 0" using w(3) G(3) by (metis length_0_conv unat_0)
  have fills: "group_fills ?m ?G ?u" using G(1) nz F(2) w(1) by (simp add: group_fills_def)
  have le: "?u \<le> mx" using F(2,3) by (simp add: word_le_nat_alt)
  have c: "length (local_mac ?c) = 6" "is_bb_type (port_to_pkt_type ?c)" "ee_mbuf_ok e ?k" using e by (simp_all add: env_ok_def)
  have ne: "port_to_pkt_type ?c \<noteq> ISL_PACK"
    using c(2) by (auto simp: is_bb_type_def ISL_PACK_def BBFRAME_PACK_def ENUM_FWD_Tx_FWD_Data_def)
  have pad: "unat (mx - ?u) = unat mx - length (items_bytes its)" using le F(2) by (simp add: unat_sub_le)
  obtain fp' inner tx where r: "encapsulate_bb_frame ?m True ?c (ee_inner e ?k) ?G mx ?u (s_modcod ?G) ?fp
     = Inr (0, fp', Some (inner @ tx @ BBHEADER_bytes (data_header (initialBBHeader ?fp) (length (items_bytes its)))
         @ items_bytes its @ replicate (unat mx - length (items_bytes its)) 0), items_freed its)"
    "length inner = L2L1_MSG_HEADER_SIZE" "length tx = L2L1_HEADER_SIZE"
    "take 2 (drop 10 tx) = le16 (bswap16 (of_nat BBHEADER_SIZE + mx))"
    "take 2 (drop 12 inner) = le16 (bswap16 0x9101)" "inner ! 17 = port_to_pkt_type ?c"
    "initialBBHeader fp' = initialBBHeader ?fp"
    using encapsulate_bb_frame_ok [OF fills le F(4) c(1), of "ee_inner e ?k" "s_modcod ?G" ?fp]
    unfolding bb_header_of_data [OF F(2)] w(1,2) pad by blast
  have "encapsulate_frame ?m (ee_mbuf_ok e ?k) ?c (ee_inner e ?k) ?G (max_payload (es_payload s)) ?u (s_modcod ?G) (Some ?fp)
     = Inr (0, Some fp', Some (inner @ tx @ BBHEADER_bytes (data_header (initialBBHeader ?fp) (length (items_bytes its)))
         @ items_bytes its @ replicate (unat mx - length (items_bytes its)) 0), items_freed its)"
    using r(1) nz ne c(2,3) F(1) by (simp add: encapsulate_frame_def)
  with r F(3) show ?thesis
    by (intro exI [of _ fp'] exI [of _ "inner @ tx @ BBHEADER_bytes (data_header (initialBBHeader ?fp) (length (items_bytes its)))
         @ items_bytes its @ replicate (unat mx - length (items_bytes its)) 0"])
      (auto simp: make_frame_def carries_def Let_def)
qed

section \<open>A packet that fits\<close>

text \<open>A node \<open>read_enapsulate_buffer\<close> or the fragmenter left in \<open>using_pdu\<close>: the label is the broadcast
  address, whose length is given as 0.\<close>

definition broadcast_node :: "ENCAP_ENV \<Rightarrow> EN_PDU_NODE \<Rightarrow> bool" where
  "broadcast_node e n \<longleftrightarrow> n_MODCOD n = ee_modcode e \<and> n_MAC_address n = BOARDCAST_ADDRESS \<and> n_mac_length n = 0"

text \<open>\<open>g\<close> is a group whose GSE packet is \<open>it\<close> on the wire, whatever the locals hold.\<close>

definition group_makes :: "ENCAP_ENV \<Rightarrow> PDU_GROUP \<Rightarrow> item \<Rightarrow> bool" where
  "group_makes e g it \<longleftrightarrow> g_pdu_num g \<noteq> 0 \<and> unat (g_gse_total_length g) = length (fst it)
     \<and> (\<forall>k. \<exists>ge. build_one_gse (ee_field e k) (ee_stack e k) g = Inr ge \<and> gse_ok ge
           \<and> gse_wire (ee_mem e) ge = fst it \<and> gse_freed ge = snd it)"

text \<open>Between \<open>s\<close> and \<open>s'\<close> one frame with the items \<open>its\<close> was sent, or the items \<open>its\<close> are now those of
  the frame under construction; the latter when they leave at least the threshold.\<close>

definition frame_closed :: "ENCAP_ENV \<Rightarrow> u16 \<Rightarrow> item list \<Rightarrow> ENCAP_STATE \<Rightarrow> ENCAP_STATE \<Rightarrow> bool" where
  "frame_closed e mx its s s' \<longleftrightarrow> frame_open e mx [] s' \<and> es_freed s' = es_freed s @ items_freed its
     \<and> (\<exists>frame. es_sent s' = es_sent s @ [frame]
          \<and> carries (ee_port e) (initialBBHeader (es_frame_param s)) mx (items_bytes its) frame)
     \<and> initialBBHeader (es_frame_param s') = initialBBHeader (es_frame_param s)"

definition frame_grown :: "ENCAP_ENV \<Rightarrow> u16 \<Rightarrow> item list \<Rightarrow> ENCAP_STATE \<Rightarrow> ENCAP_STATE \<Rightarrow> bool" where
  "frame_grown e mx its s s' \<longleftrightarrow>
     (if unat mx - length (items_bytes its) < unat (ee_threshold e) then frame_closed e mx its s s'
      else frame_open e mx its s' \<and> es_sent s' = es_sent s \<and> es_freed s' = es_freed s
        \<and> initialBBHeader (es_frame_param s') = initialBBHeader (es_frame_param s))"

lemma broadcast_label:
  assumes "broadcast_node e (using_pdu (es_param s))" "length (es_last_mac_address s) = 6"
  shows "choose_label b s = Inr (LABEL_TYPE_BROADCAST, 0)"
    "remember_label s = Inr (s\<lparr>es_last_mac_length := 0\<rparr>)"
proof -
  have "length (n_MAC_address (using_pdu (es_param s))) = 6" using assms(1) by (simp add: broadcast_node_def BOARDCAST_ADDRESS_def)
  from get_broadcast_type_ok [OF this] show "choose_label b s = Inr (LABEL_TYPE_BROADCAST, 0)"
    using assms(1) by (simp add: choose_label_def decide_label_def broadcast_node_def Let_def BROADCAST_TYPE_YES_def)
  show "remember_label s = Inr (s\<lparr>es_last_mac_length := 0\<rparr>)"
    using assms by (simp add: remember_label_def update_last_label_def broadcast_node_def Let_def put_bytes_def get_bytes_def)
qed

text \<open>Opening the payload of an unused frame; then the frame has \<open>mx\<close> bytes.\<close>

definition payload_of :: "u16 \<Rightarrow> item list \<Rightarrow> FRAME_PAYLOAD \<Rightarrow> bool" where
  "payload_of mx its F \<longleftrightarrow> max_payload F = mx \<and> unat (used_payload F) = length (items_bytes its)
     \<and> length (items_bytes its) \<le> unat mx \<and> usable_payload F = mx - used_payload F"

lemma open_frame_payload:
  assumes "frame_open e mx its s" "map_modcod_payload (ee_modcode e) = Inr mx" "0 < mx"
  shows "\<exists>F. (if max_payload (es_payload s) = 0 then open_payload (ee_modcode e) s else Inr s) = Inr (s\<lparr>es_payload := F\<rparr>)
     \<and> payload_of mx its F \<and> (its \<noteq> [] \<longrightarrow> F = es_payload s \<and> ee_threshold e \<le> usable_payload F)
     \<and> (max_payload (es_payload s) = 0 \<longleftrightarrow> its = [])"
proof (cases "its = []")
  case True
  then show ?thesis
    using assms
    by (intro exI [of _ "\<lparr>used_payload = 0, usable_payload = mx, max_payload = mx, frame_modcod = ee_modcode e\<rparr>"])
      (simp add: frame_open_def zero_frame_payload_def open_payload_def init_frame_payload_def payload_of_def)
next
  case False
  then show ?thesis
    using assms by (intro exI [of _ "es_payload s"]) (auto simp: frame_open_def payload_of_def)
qed

lemma payload_of_grown:
  assumes F: "payload_of mx its F" and t: "unat tot = length (fst it)"
    and room: "length (items_bytes its) + length (fst it) \<le> unat mx" and its': "its' = its @ [it]"
  defines "F' \<equiv> update_frame_payload F tot"
  shows "tot \<le> usable_payload F" "payload_of mx its' F'"
    "unat (usable_payload F') = unat mx - length (items_bytes its')"
proof -
  let ?u = "used_payload F"
  have u: "unat ?u = length (items_bytes its)" "?u \<le> mx" using F by (simp_all add: payload_of_def word_le_nat_alt)
  have s: "unat (mx - ?u) = unat mx - length (items_bytes its)" using u by (simp add: unat_sub_le)
  show le: "tot \<le> usable_payload F"
    using F s t room by (simp add: payload_of_def word_le_nat_alt)
  have a: "unat (?u + tot) = length (items_bytes its) + length (fst it)"
    using u(1) t room unat_u16_lt [of mx] by (subst unat_add_lt) simp_all
  show "payload_of mx its' F'"
    using F a room by (simp add: payload_of_def F'_def update_frame_payload_def its' diff_diff_eq)
  then show "unat (usable_payload F') = unat mx - length (items_bytes its')"
    by (auto simp: payload_of_def unat_sub_le word_le_nat_alt)
qed

lemma isl_bb_fits:
  assumes e: "env_ok e" and mx: "map_modcod_payload (ee_modcode e) = Inr mx" "0 < mx" "unat mx \<le> 7264"
    and op: "frame_open e mx its s" and n: "broadcast_node e (using_pdu (es_param s))"
    and r: "read_ok = SUCCEED_FETCH_MODCOD \<or> read_ok = SUCCEED_FETCH_FRAGMENT"
    and g: "update_pdu_group (using_pdu (es_param s)) zero_pdu_group LABEL_TYPE_BROADCAST 0 mid (es_statics s) = Inr (g, st)"
      "group_makes e g it"
    and room: "length (items_bytes its) + length (fst it) \<le> unat mx" "length its < 255"
  shows "\<exists>s'. encapsulate_isl_bb e read_ok mid s = Inr s' \<and> frame_grown e mx (its @ [it]) s s'
     \<and> frag_state s' = frag_state s \<and> es_statics s' = st"
proof -
  let ?n = "using_pdu (es_param s)" and ?G = "pGSE_Group (es_param s)" and ?its = "its @ [it]"
  have o: "pPDU_Group (es_param s) = zero_pdu_group" "length (s_pOneGSE ?G) = GSE_MAX_NUM" "frame_gses_ok ?G"
    "group_items (ee_mem e) ?G = its" "length (es_last_mac_address s) = 6"
    using op by (simp_all add: frame_open_def)
  have mc: "n_MODCOD ?n = ee_modcode e" using n by (simp add: broadcast_node_def)
  obtain F where F: "(if max_payload (es_payload s) = 0 then open_payload (ee_modcode e) s else Inr s) = Inr (s\<lparr>es_payload := F\<rparr>)"
    "payload_of mx its F"
    using open_frame_payload [OF op mx(1,2)] by blast
  obtain G1 where G1: "adopt_modcod (s\<lparr>es_payload := F\<rparr>) = s\<lparr>es_payload := F, es_param := (es_param s)\<lparr>pGSE_Group := G1\<rparr>\<rparr>"
    "s_pOneGSE G1 = s_pOneGSE ?G" "s_gse_num G1 = s_gse_num ?G"
  proof (rule that)
    let ?G1 = "if s_modcod ?G = 0 then ?G\<lparr>s_modcod := n_MODCOD ?n\<rparr> else ?G"
    show "adopt_modcod (s\<lparr>es_payload := F\<rparr>) = s\<lparr>es_payload := F, es_param := (es_param s)\<lparr>pGSE_Group := ?G1\<rparr>\<rparr>"
      by (simp add: adopt_modcod_def Let_def)
  qed simp_all
  have same: "group_gses G1 = group_gses ?G" "frame_gses_ok G1" "group_items (ee_mem e) G1 = its"
    using G1(2,3) o(3,4) by (simp_all add: group_gses_def frame_gses_ok_def group_items_def)
  define s2 where "s2 = s\<lparr>es_payload := F, es_param := (es_param s)\<lparr>pGSE_Group := G1, pPDU_Group := g\<rparr>, es_statics := st\<rparr>"
  have gp: "group_pdu (LABEL_TYPE_BROADCAST, 0) mid (adopt_modcod (s\<lparr>es_payload := F\<rparr>)) = Inr s2"
    using g(1) o(1) by (simp add: group_pdu_def G1(1) s2_def)
  have ge: "g_pdu_num g \<noteq> 0" "unat (g_gse_total_length g) = length (fst it)" using g(2) by (simp_all add: group_makes_def)
  obtain b where b: "build_one_gse (ee_field e (es_calls s2)) (ee_stack e (es_calls s2)) g = Inr b" "gse_ok b"
    "gse_wire (ee_mem e) b = fst it" "gse_freed b = snd it"
    using g(2) unfolding group_makes_def by blast
  let ?F = "update_frame_payload F (g_gse_total_length g)"
  note pg = payload_of_grown [OF F(2) ge(2) room(1) refl]
  obtain G' where G': "close_gse e s2 = Inr (s2\<lparr>es_param := (es_param s2)\<lparr>pPDU_Group := zero_pdu_group, pGSE_Group := G'\<rparr>,
       es_payload := ?F, es_calls := Suc (es_calls s2)\<rparr>)"
    "length (s_pOneGSE G') = GSE_MAX_NUM" "frame_gses_ok G'" "group_items (ee_mem e) G' = ?its"
    using close_gse_step [OF b(1,2), of "ee_mem e"] ge(1) o(2) same room(2) G1(2) b(3,4) by (auto simp: s2_def)
  define s4 where "s4 = s2\<lparr>es_param := (es_param s2)\<lparr>pPDU_Group := zero_pdu_group, pGSE_Group := G'\<rparr>,
       es_payload := ?F, es_calls := Suc (es_calls s2), es_last_mac_length := 0\<rparr>"
  have rm: "remember_label (s2\<lparr>es_param := (es_param s2)\<lparr>pPDU_Group := zero_pdu_group, pGSE_Group := G'\<rparr>,
       es_payload := ?F, es_calls := Suc (es_calls s2)\<rparr>) = Inr s4"
    using broadcast_label(2) [of e "s2\<lparr>es_param := (es_param s2)\<lparr>pPDU_Group := zero_pdu_group, pGSE_Group := G'\<rparr>,
       es_payload := ?F, es_calls := Suc (es_calls s2)\<rparr>"] n o(5) by (simp add: s2_def s4_def)
  have fits: "room_for_group s2" using pg(1) by (simp add: room_for_group_def s2_def)
  have run: "encapsulate_isl_bb e read_ok mid s
      = (if usable_payload ?F < ee_threshold e then bind_ok (make_frame e s4) (\<lambda>(_, s5). Inr s5) else Inr s4)"
  proof -
    have cl: "choose_label b (s\<lparr>es_payload := F\<rparr>) = Inr (LABEL_TYPE_BROADCAST, 0)" for b
      using broadcast_label(1) [of e "s\<lparr>es_payload := F\<rparr>"] n o(5) by simp
    have u: "usable_payload (es_payload s4) = usable_payload ?F" by (simp add: s4_def)
    show ?thesis
      using r unfolding encapsulate_isl_bb_def Let_def mc F(1) bind_ok.simps cl gp by (auto simp: fits G'(1) rm u)
  qed
  have keep: "frag_state s4 = frag_state s" "es_statics s4 = st" "es_sent s4 = es_sent s" "es_freed s4 = es_freed s"
    "es_frame_param s4 = es_frame_param s" "pGSE_Group (es_param s4) = G'" "es_payload s4 = ?F"
    "pPDU_Group (es_param s4) = zero_pdu_group" "es_last_mac_address s4 = es_last_mac_address s"
    by (simp_all add: s4_def s2_def frag_state_def)
  have P: "max_payload ?F = mx" "unat (used_payload ?F) = length (items_bytes ?its)" "length (items_bytes ?its) \<le> unat mx"
    "usable_payload ?F = mx - used_payload ?F"
    using pg(2) by (simp_all add: payload_of_def)
  have small: "usable_payload ?F < ee_threshold e \<longleftrightarrow> unat mx - length (items_bytes ?its) < unat (ee_threshold e)"
    using pg(3) by (simp add: word_less_nat_alt)
  show ?thesis
  proof (cases "usable_payload ?F < ee_threshold e")
    case False
    have "frame_open e mx ?its s4"
      using keep G' P False o(5) by (simp add: frame_open_def)
    then show ?thesis using run False keep small by (auto simp: frame_grown_def)
  next
    case True
    have "\<exists>fp' frame. make_frame e s4 = Inr (True,
      s4\<lparr>es_param := (es_param s4)\<lparr>pGSE_Group := reset_gse_group (pGSE_Group (es_param s4))\<rparr>,
        es_payload := zero_frame_payload, es_frame_param := fp', es_sent := es_sent s4 @ [frame],
        es_freed := es_freed s4 @ items_freed ?its, es_calls := Suc (es_calls s4)\<rparr>)
    \<and> initialBBHeader fp' = initialBBHeader (es_frame_param s4)
    \<and> carries (ee_port e) (initialBBHeader (es_frame_param s4)) mx (items_bytes ?its) frame"
      by (rule make_frame_step [OF e]) (use keep G' P mx(3) in simp_all)
    then obtain fp' frame where mf: "make_frame e s4 = Inr (True,
      s4\<lparr>es_param := (es_param s4)\<lparr>pGSE_Group := reset_gse_group (pGSE_Group (es_param s4))\<rparr>,
        es_payload := zero_frame_payload, es_frame_param := fp', es_sent := es_sent s4 @ [frame],
        es_freed := es_freed s4 @ items_freed ?its, es_calls := Suc (es_calls s4)\<rparr>)" (is "_ = Inr (True, ?s5)")
      "initialBBHeader fp' = initialBBHeader (es_frame_param s)"
      "carries (ee_port e) (initialBBHeader (es_frame_param s)) mx (items_bytes ?its) frame"
      using keep by auto
    have "frame_open e mx [] ?s5"
      using keep G' o(5) by (simp add: frame_open_def reset_gse_group_def frame_gses_ok_def group_gses_def group_items_def)
    then have "frame_closed e mx ?its s ?s5" using mf(2,3) keep by (auto simp: frame_closed_def)
    moreover have "frag_state ?s5 = frag_state s" "es_statics ?s5 = st"
      using keep by (simp_all add: frag_state_def)
    ultimately show ?thesis using run True mf(1) small by (auto simp: frame_grown_def)
  qed
qed

section \<open>Whole PDUs\<close>

lemma modcod_payload_le:
  assumes "map_modcod_payload modcod = Inr p"
  shows "unat p \<le> 7264"
proof -
  have "\<forall>x \<in> set valid_payload. x \<le> 7264" by code_simp
  moreover have "p \<in> set valid_payload"
    using assms by (auto simp: map_modcod_payload_def load_at_def split: if_splits)
  ultimately show ?thesis by (auto simp: word_le_nat_alt)
qed

lemma whole_group_makes:
  assumes e: "env_ok e" and n: "node_ok n" "n_fragment_flag n = 0" "lt < 4" "unat (n_pdu_size n) \<le> 4087"
  shows "\<exists>g. update_pdu_group n zero_pdu_group lt ls mid st = Inr (g, st)
     \<and> group_makes e g (whole_pdu_bytes (ee_mem e) lt n, [n_mbuf_address n])"
proof -
  obtain g where g: "update_pdu_group n zero_pdu_group lt ls mid st = Inr (g, st)" "single_group n lt zero_opt g"
    "g_gse_total_length g = 2 + of_nat (length (group_var_header g)) + data_bytes g"
    using update_pdu_group_whole [OF n(1-3)] by blast
  have st: "stack_ok (ee_field e k) (ee_stack e k)" for k using e by (simp add: env_ok_def)
  note w = whole_gse_wire [OF g(2) n(2,3) g(3) st n(4), of _ "ee_mem e"]
  have "g_pdu_num g \<noteq> 0" using g(2) by (simp add: single_group_def)
  then have "group_makes e g (whole_pdu_bytes (ee_mem e) lt n, [n_mbuf_address n])"
    unfolding group_makes_def fst_conv snd_conv using w by metis
  with g(1) show ?thesis by blast
qed

lemma frag_group_makes:
  assumes e: "env_ok e" and n: "node_ok n" "n_fragment_flag n = 1" "lt < 4"
      "unat (n_pdu_size n) + (if n_fragment_type n = FRAGMENT_TYPE_E then 4 else 0) \<le> 4080"
    and ts: "frag_time_seq n mid st = Inr (ts, st')"
  shows "\<exists>g. update_pdu_group n zero_pdu_group lt ls mid st = Inr (g, st')
     \<and> group_makes e g (fragment_bytes (ee_mem e) lt ts n, if n_fragment_type n = FRAGMENT_TYPE_E then [n_mbuf_address n] else [])"
proof -
  obtain g where g: "update_pdu_group n zero_pdu_group lt ls mid st = Inr (g, st')"
    "single_group n lt (frag_opt ts (n_protocoltype n)) g"
    "g_gse_total_length g = 2 + of_nat (length (group_var_header g)) + data_bytes g"
    using update_pdu_group_fragment [OF n(1-3) ts] by blast
  have st: "stack_ok (ee_field e k) (ee_stack e k)" for k using e by (simp add: env_ok_def)
  note w = fragment_gse_wire [OF g(2) n(2,3) g(3) st n(4), of _ "ee_mem e"]
  have "g_pdu_num g \<noteq> 0" using g(2) by (simp add: single_group_def)
  then have "group_makes e g (fragment_bytes (ee_mem e) lt ts n, if n_fragment_type n = FRAGMENT_TYPE_E then [n_mbuf_address n] else [])"
    unfolding group_makes_def fst_conv snd_conv using w by metis
  with g(1) show ?thesis by blast
qed

text \<open>The node and the item of an mbuf of the ring.\<close>

definition pdu_node :: "ENCAP_ENV \<Rightarrow> TX_MBUF \<Rightarrow> EN_PDU_NODE" where
  "pdu_node e m = snd (read_enapsulate_buffer e zero_pdu_node m)"

definition whole_item :: "ENCAP_ENV \<Rightarrow> TX_MBUF \<Rightarrow> item" where
  "whole_item e m = (whole_pdu_bytes (ee_mem e) LABEL_TYPE_BROADCAST (pdu_node e m), [tm_address m])"

definition pdu_data :: "ENCAP_ENV \<Rightarrow> TX_MBUF \<Rightarrow> u8 list" where
  "pdu_data e m = load_bytes (ee_mem e) (tm_data m) (unat (tm_data_len m))"

definition sendable :: "TX_MBUF \<Rightarrow> bool" where
  "sendable m \<longleftrightarrow> 0 < tm_data_len m \<and> unat (tm_data_len m) \<le> 4087"

lemma pdu_node_fields:
  "n_pdu_size (pdu_node e m) = tm_data_len m" "n_pPDU_start (pdu_node e m) = tm_data m"
  "n_MAC_address (pdu_node e m) = BOARDCAST_ADDRESS" "n_mac_length (pdu_node e m) = 0"
  "n_MODCOD (pdu_node e m) = ee_modcode e" "n_fragment_flag (pdu_node e m) = 0"
  "n_protocoltype (pdu_node e m) = ucast (tm_protocol_type m)" "n_mbuf_address (pdu_node e m) = tm_address m"
  "n_pdu_total_length (pdu_node e m) = tm_data_len m"
  by (simp_all add: pdu_node_def read_enapsulate_buffer_def zero_pdu_node_def)

lemma whole_item_bytes:
  "fst (whole_item e m) = gse_wire_header 1 1 2 (2 + unat (tm_data_len m))
     @ le16 (bswap16 (ucast (tm_protocol_type m))) @ pdu_data e m"
  by (simp add: whole_item_def whole_pdu_bytes_def pdu_node_fields label_bytes_def pdu_data_def label_type_defs)

lemma whole_item_length: "length (fst (whole_item e m)) = 4 + unat (tm_data_len m)"
  by (simp add: whole_item_bytes gse_wire_header_def pdu_data_def)

lemma get_whole_pkt_eq: "get_whole_pkt e m s = (SUCCEED_FETCH_MODCOD, set_using (pdu_node e m) s)"
  by (simp add: get_whole_pkt_def pdu_node_def read_enapsulate_buffer_def)

lemma set_using_fields [simp]:
  "using_pdu (es_param (set_using n s)) = n" "es_statics (set_using n s) = es_statics s"
  "frag_state (set_using n s) = frag_state s" "es_payload (set_using n s) = es_payload s"
  "frame_open e mx its (set_using n s) = frame_open e mx its s" "es_sent (set_using n s) = es_sent s"
  "frame_grown e mx its (set_using n s) s' = frame_grown e mx its s s'"
  "frame_closed e mx its (set_using n s) s' = frame_closed e mx its s s'"
  by (simp_all add: set_using_def frag_state_def frame_open_def frame_grown_def frame_closed_def)

lemma broadcast_pdu_node: "broadcast_node e (pdu_node e m)"
  by (simp add: broadcast_node_def pdu_node_fields)

lemma pdu_node_ok: "sendable m \<Longrightarrow> node_ok (pdu_node e m)"
  by (simp add: node_ok_def pdu_node_fields BOARDCAST_ADDRESS_def sendable_def)

lemma send_whole_pdu:
  assumes e: "env_ok e" and mx: "map_modcod_payload (ee_modcode e) = Inr mx" "0 < mx"
    and op: "frame_open e mx its s" and m: "sendable m"
    and room: "length (items_bytes its) + length (fst (whole_item e m)) \<le> unat mx" "length its < 255"
  shows "\<exists>s'. encapsulate_isl_bb e SUCCEED_FETCH_MODCOD mid (set_using (pdu_node e m) s) = Inr s'
     \<and> frame_grown e mx (its @ [whole_item e m]) s s' \<and> frag_state s' = frag_state s \<and> es_statics s' = es_statics s"
proof -
  let ?n = "pdu_node e m"
  have "LABEL_TYPE_BROADCAST < 4" by (simp add: label_type_defs)
  with whole_group_makes [OF e pdu_node_ok [OF m, of e], of LABEL_TYPE_BROADCAST 0 mid "es_statics s"] m
  obtain g where "update_pdu_group ?n zero_pdu_group LABEL_TYPE_BROADCAST 0 mid (es_statics s) = Inr (g, es_statics s)"
    "group_makes e g (whole_item e m)"
    by (auto simp: pdu_node_fields sendable_def whole_item_def)
  then show ?thesis
    using isl_bb_fits [OF e mx modcod_payload_le [OF mx(1)], of its "set_using ?n s" SUCCEED_FETCH_MODCOD mid g
        "es_statics s" "whole_item e m"] op room broadcast_pdu_node by simp
qed

text \<open>
  The specification of packing: an item is added to the frame as long as it fits and the frame has
  fewer than 255 items; a frame with less than \<open>th\<close> bytes of room left is closed.
\<close>

primrec pack_items :: "nat \<Rightarrow> nat \<Rightarrow> item list \<Rightarrow> item list \<Rightarrow> (item list list \<times> item list) option" where
  "pack_items mx th its [] = Some ([], its)"
| "pack_items mx th its (it # rest) =
     (let its' = its @ [it]; l = length (items_bytes its') in
      if mx < l \<or> 255 < length its' then None
      else if mx - l < th then map_option (\<lambda>(frames, r). (its' # frames, r)) (pack_items mx th [] rest)
      else pack_items mx th its' rest)"

lemma pack_items_concat:
  "pack_items mx th its xs = Some (frames, rest) \<Longrightarrow> concat frames @ rest = its @ xs"
  by (induction xs arbitrary: its frames) (auto simp: Let_def split: if_splits)

lemma encap_burst_packs:
  assumes e: "env_ok e" and mx: "map_modcod_payload (ee_modcode e) = Inr mx" "0 < mx"
  shows "frame_open e mx its s \<Longrightarrow> list_all sendable ms \<Longrightarrow>
    pack_items (unat mx) (unat (ee_threshold e)) its (map (whole_item e) ms) = Some (frames, rest) \<Longrightarrow>
    \<exists>s' new. encap_burst e mid ms s = Inr s' \<and> frame_open e mx rest s' \<and> es_sent s' = es_sent s @ new
      \<and> list_all2 (\<lambda>its frame. carries (ee_port e) (initialBBHeader (es_frame_param s)) mx (items_bytes its) frame) frames new
      \<and> es_freed s' = es_freed s @ items_freed (concat frames) \<and> frag_state s' = frag_state s \<and> es_statics s' = es_statics s
      \<and> initialBBHeader (es_frame_param s') = initialBBHeader (es_frame_param s)"
proof (induction ms arbitrary: its s frames)
  case Nil
  then show ?case by (simp add: encap_burst_def)
next
  case (Cons m ms)
  let ?its = "its @ [whole_item e m]"
  have r: "length (items_bytes its) + length (fst (whole_item e m)) \<le> unat mx" "length its < 255"
    using Cons.prems(3) by (auto simp: Let_def split: if_splits)
  obtain s1 where s1: "encapsulate_isl_bb e SUCCEED_FETCH_MODCOD mid (set_using (pdu_node e m) s) = Inr s1"
    "frame_grown e mx ?its s s1" "frag_state s1 = frag_state s" "es_statics s1 = es_statics s"
    using send_whole_pdu [OF e mx Cons.prems(1) _ r] Cons.prems(2) by auto
  have st: "encap_burst e mid (m # ms) s = encap_burst e mid ms s1"
    by (simp add: encap_burst_def get_whole_pkt_eq s1(1))
  show ?case
  proof (cases "unat mx - length (items_bytes ?its) < unat (ee_threshold e)")
    case True
    then have c: "frame_closed e mx ?its s s1" using s1(2) by (simp add: frame_grown_def)
    obtain fs where fs: "frames = ?its # fs"
      "pack_items (unat mx) (unat (ee_threshold e)) [] (map (whole_item e) ms) = Some (fs, rest)"
      using Cons.prems(3) True r by (auto simp: Let_def split: if_splits)
    have "frame_open e mx [] s1" using c by (simp add: frame_closed_def)
    from Cons.IH [OF this _ fs(2)] Cons.prems(2) c s1(3,4) show ?thesis
      unfolding st fs(1) by (auto simp: frame_closed_def items_freed_def)
  next
    case False
    then have g: "frame_open e mx ?its s1" "es_sent s1 = es_sent s" "es_freed s1 = es_freed s"
      "initialBBHeader (es_frame_param s1) = initialBBHeader (es_frame_param s)"
      using s1(2) by (simp_all add: frame_grown_def)
    have "pack_items (unat mx) (unat (ee_threshold e)) ?its (map (whole_item e) ms) = Some (frames, rest)"
      using Cons.prems(3) False r by (auto simp: Let_def split: if_splits)
    from Cons.IH [OF g(1) _ this] Cons.prems(2) g(2-4) s1(3,4) show ?thesis unfolding st by auto
  qed
qed

text \<open>Sending the frame as it is.\<close>

lemma force_send_open:
  assumes e: "env_ok e" and mx: "map_modcod_payload (ee_modcode e) = Inr mx" and op: "frame_open e mx its s"
    and r: "read_ok = FAILED_FETCH_MODCOD"
  shows "\<exists>s'. encapsulate_isl_bb e read_ok mid s = Inr s' \<and> frag_state s' = frag_state s \<and> es_statics s' = es_statics s
    \<and> (if its = [] then s' = s else frame_closed e mx its s s')"
proof -
  let ?G = "pGSE_Group (es_param s)"
  have o: "pPDU_Group (es_param s) = zero_pdu_group" "frame_gses_ok ?G" "group_items (ee_mem e) ?G = its"
    "length (s_pOneGSE ?G) = GSE_MAX_NUM" "length (es_last_mac_address s) = 6"
    using op by (simp_all add: frame_open_def)
  have run: "encapsulate_isl_bb e read_ok mid s = force_send e False s"
    using r by (simp add: encapsulate_isl_bb_def fetch_code_defs)
  have nz: "s_gse_num ?G = 0 \<longleftrightarrow> its = []"
    using group_of_items(3) [OF o(2), of "ee_mem e"] o(3) by (simp add: unat_eq_zero [symmetric])
  show ?thesis
  proof (cases "its = []")
    case True
    then show ?thesis using nz by (simp add: run force_send_def)
  next
    case False
    then have F: "max_payload (es_payload s) = mx" "unat (used_payload (es_payload s)) = length (items_bytes its)"
      "length (items_bytes its) \<le> unat mx"
      using op by (simp_all add: frame_open_def)
    define s1 where "s1 = s\<lparr>es_calls := Suc (es_calls s)\<rparr>"
    have z: "g_pdu_num zero_pdu_group = 0" "g_gse_total_length zero_pdu_group = 0" by (simp_all add: zero_pdu_group_def)
    have c: "close_gse e s = Inr s1"
    proof -
      have "es_param s\<lparr>pPDU_Group := zero_pdu_group, pGSE_Group := ?G\<rparr> = es_param s" using o(1) by simp
      moreover have "update_frame_payload (es_payload s) 0 = es_payload s" by (simp add: update_frame_payload_def)
      ultimately show ?thesis
        by (simp add: close_gse_def update_gse_group_def encapsulate_gse_def o(1) z s1_def)
    qed
    have k: "es_param s1 = es_param s" "es_payload s1 = es_payload s" "es_frame_param s1 = es_frame_param s"
      "es_sent s1 = es_sent s" "es_freed s1 = es_freed s" by (simp_all add: s1_def)
    have "\<exists>fp' frame. make_frame e s1 = Inr (True,
      s1\<lparr>es_param := (es_param s1)\<lparr>pGSE_Group := reset_gse_group (pGSE_Group (es_param s1))\<rparr>,
        es_payload := zero_frame_payload, es_frame_param := fp', es_sent := es_sent s1 @ [frame],
        es_freed := es_freed s1 @ items_freed its, es_calls := Suc (es_calls s1)\<rparr>)
    \<and> initialBBHeader fp' = initialBBHeader (es_frame_param s1)
    \<and> carries (ee_port e) (initialBBHeader (es_frame_param s1)) mx (items_bytes its) frame"
      by (rule make_frame_step [OF e]) (use k o F False modcod_payload_le [OF mx] in simp_all)
    then obtain fp' frame where mf: "make_frame e s1 = Inr (True,
      s1\<lparr>es_param := (es_param s1)\<lparr>pGSE_Group := reset_gse_group (pGSE_Group (es_param s1))\<rparr>,
        es_payload := zero_frame_payload, es_frame_param := fp', es_sent := es_sent s1 @ [frame],
        es_freed := es_freed s1 @ items_freed its, es_calls := Suc (es_calls s1)\<rparr>)" (is "_ = Inr (True, ?s2)")
      "initialBBHeader fp' = initialBBHeader (es_frame_param s1)"
      "carries (ee_port e) (initialBBHeader (es_frame_param s1)) mx (items_bytes its) frame"
      by blast
    let ?s3 = "?s2\<lparr>es_force_padding_count := es_force_padding_count ?s2 + 1\<rparr>"
    have "0 < s_gse_num ?G" using nz False by (simp add: word_neq_0_conv)
    then have "encapsulate_isl_bb e read_ok mid s = Inr ?s3"
      unfolding run force_send_def using c mf(1) by simp
    moreover have "frame_open e mx [] ?s3"
      using o by (simp add: s1_def frame_open_def reset_gse_group_def frame_gses_ok_def group_gses_def group_items_def)
    then have "frame_closed e mx its s ?s3" using mf(2,3) k by (auto simp: frame_closed_def)
    moreover have "frag_state ?s3 = frag_state s" "es_statics ?s3 = es_statics s"
      by (simp_all add: frag_state_def s1_def)
    ultimately show ?thesis using False by (intro exI [of _ ?s3]) simp
  qed
qed

section \<open>A PDU that does not fit\<close>

lemma close_and_send:
  assumes e: "env_ok e" and mx: "unat mx \<le> 7264" and g: "pPDU_Group (es_param s) = g" "group_makes e g it"
    and G: "length (s_pOneGSE (pGSE_Group (es_param s))) = GSE_MAX_NUM" "frame_gses_ok (pGSE_Group (es_param s))"
      "group_items (ee_mem e) (pGSE_Group (es_param s)) = its"
    and F: "payload_of mx its (es_payload s)" and mac: "length (es_last_mac_address s) = 6"
    and room: "length (items_bytes its) + length (fst it) \<le> unat mx" "length its < 255"
  shows "\<exists>s'. bind_ok (close_gse e s) (make_frame e) = Inr (True, s') \<and> frame_closed e mx (its @ [it]) s s'
     \<and> frag_state s' = frag_state s \<and> es_statics s' = es_statics s"
proof -
  let ?its = "its @ [it]" and ?F = "update_frame_payload (es_payload s) (g_gse_total_length g)"
  have ge: "g_pdu_num g \<noteq> 0" "unat (g_gse_total_length g) = length (fst it)" using g(2) by (simp_all add: group_makes_def)
  obtain b where b: "build_one_gse (ee_field e (es_calls s)) (ee_stack e (es_calls s)) g = Inr b" "gse_ok b"
    "gse_wire (ee_mem e) b = fst it" "gse_freed b = snd it"
    using g(2) unfolding group_makes_def by blast
  obtain G' where G': "close_gse e s = Inr (s\<lparr>es_param := (es_param s)\<lparr>pPDU_Group := zero_pdu_group, pGSE_Group := G'\<rparr>,
       es_payload := ?F, es_calls := Suc (es_calls s)\<rparr>)" (is "_ = Inr ?s1")
    "length (s_pOneGSE G') = GSE_MAX_NUM" "frame_gses_ok G'" "group_items (ee_mem e) G' = ?its"
    using close_gse_step [OF b(1,2) g(1) ge(1) G(1,2), of "ee_mem e"] G(3) room(2) b(3,4) by auto
  have P: "payload_of mx ?its ?F" by (rule payload_of_grown(2) [OF F ge(2) room(1) refl])
  have k: "es_frame_param ?s1 = es_frame_param s" "es_sent ?s1 = es_sent s" "es_freed ?s1 = es_freed s"
    "pGSE_Group (es_param ?s1) = G'" "es_payload ?s1 = ?F" by simp_all
  have "\<exists>fp' frame. make_frame e ?s1 = Inr (True,
      ?s1\<lparr>es_param := (es_param ?s1)\<lparr>pGSE_Group := reset_gse_group (pGSE_Group (es_param ?s1))\<rparr>,
        es_payload := zero_frame_payload, es_frame_param := fp', es_sent := es_sent ?s1 @ [frame],
        es_freed := es_freed ?s1 @ items_freed ?its, es_calls := Suc (es_calls ?s1)\<rparr>)
    \<and> initialBBHeader fp' = initialBBHeader (es_frame_param ?s1)
    \<and> carries (ee_port e) (initialBBHeader (es_frame_param ?s1)) mx (items_bytes ?its) frame"
    by (rule make_frame_step [OF e]) (use G' P mx in \<open>simp_all add: payload_of_def\<close>)
  then obtain fp' frame where mf: "make_frame e ?s1 = Inr (True,
      ?s1\<lparr>es_param := (es_param ?s1)\<lparr>pGSE_Group := reset_gse_group (pGSE_Group (es_param ?s1))\<rparr>,
        es_payload := zero_frame_payload, es_frame_param := fp', es_sent := es_sent ?s1 @ [frame],
        es_freed := es_freed ?s1 @ items_freed ?its, es_calls := Suc (es_calls ?s1)\<rparr>)" (is "_ = Inr (True, ?s2)")
      "initialBBHeader fp' = initialBBHeader (es_frame_param s)"
      "carries (ee_port e) (initialBBHeader (es_frame_param s)) mx (items_bytes ?its) frame"
    unfolding k by blast
  have "frame_open e mx [] ?s2"
    using G' mac by (simp add: frame_open_def reset_gse_group_def frame_gses_ok_def group_gses_def group_items_def)
  then have "frame_closed e mx ?its s ?s2" using mf(2,3) by (auto simp: frame_closed_def)
  moreover have "frag_state ?s2 = frag_state s" "es_statics ?s2 = es_statics s" by (simp_all add: frag_state_def)
  ultimately show ?thesis using G'(1) mf(1) by (intro exI [of _ ?s2]) simp
qed

definition middle_room :: "u16 \<Rightarrow> nat" where
  "middle_room mx = (if unat mx \<le> GSE_MAX_SIZE then unat mx - 15 else unat mx div 2 - 15)"

lemma plan_two_fragments:
  assumes us: "12 \<le> unat us" "unat us < unat P + 4" and b: "b \<Longrightarrow> us = mx"
    and two: "unat P + 15 - unat us < middle_room mx" and P: "unat P \<le> 4087" and mx: "unat mx \<le> 7264"
  shows "\<exists>M. fragment_plan b mx us GSE_HEADER_LENGTH_FRAGMENT_PDU_S2 (P + 4)
     = Inr \<lparr>p_start_size = us - 11, p_middle_size = M, p_end_size = P + 15 - us, p_total_num = 2\<rparr>"
proof -
  define M where "M = (if unat mx \<le> GSE_MAX_SIZE then mx - GSE_HEADER_LENGTH_FRAGMENT_PDU_M1 - 4
          else mx div 2 - GSE_HEADER_LENGTH_FRAGMENT_PDU_M1 - 4 :: u16)"
  have d2: "unat (mx div 2) = unat mx div 2" by (simp add: unat_div)
  have "M = (if unat mx \<le> GSE_MAX_SIZE then mx - 15 else mx div 2 - 15)"
    by (simp add: M_def GSE_HEADER_LENGTH_FRAGMENT_PDU_M1_def)
  moreover have "15 < unat mx" "\<not> unat mx \<le> GSE_MAX_SIZE \<Longrightarrow> 15 < unat mx div 2"
    using two by (simp_all add: middle_room_def split: if_splits)
  ultimately have uM: "unat M = middle_room mx"
    using d2 by (auto simp: middle_room_def unat_sub_le word_le_nat_alt)
  have start: "(if b then mx - GSE_HEADER_LENGTH_FRAGMENT_PDU_S2 else us - GSE_HEADER_LENGTH_FRAGMENT_PDU_S2) - 4 = us - 11"
    using b by (auto simp: GSE_HEADER_LENGTH_FRAGMENT_PDU_S2_def)
  have s: "unat (us - 11) = unat us - 11" using us(1) by (simp add: unat_sub_le word_le_nat_alt)
  have p4: "unat (P + 4) = unat P + 4" using P by (subst unat_add_lt) simp_all
  have p15: "unat (P + 15) = unat P + 15" using P by (subst unat_add_lt) simp_all
  have e: "unat (P + 15 - us) = unat P + 15 - unat us"
    using us(2) p15 by (subst unat_sub_le) (simp_all add: word_le_nat_alt)
  have r: "unat (ucast (P + 4) - ucast (us - 11) :: u32) = unat P + 15 - unat us"
    using us p4 s by (subst unat_sub_le) (simp_all add: word_le_nat_alt unat_ucast_up)
  have mM: "unat (ucast M :: u32) = middle_room mx" using uM by (simp add: unat_ucast_up)
  have md: "unat ((ucast (P + 4) - ucast (us - 11) :: u32) mod ucast M) = unat P + 15 - unat us"
    using two by (simp only: unat_mod r mM mod_less)
  have dv: "(ucast (P + 4) - ucast (us - 11) :: u32) div ucast M = 0"
    using two by (simp only: word_unat_eq_iff unat_div r mM div_less unat_0)
  have en: "ucast ((ucast (P + 4) - ucast (us - 11) :: u32) mod ucast M) = P + 15 - us"
  proof -
    have "unat (ucast ((ucast (P + 4) - ucast (us - 11) :: u32) mod ucast M) :: u16) = unat P + 15 - unat us"
      using P unfolding unsigned_ucast_eq by (simp only: md) (simp add: take_bit_nat_eq_self)
    then show ?thesis using e by (simp only: word_unat_eq_iff)
  qed
  have pos: "0 < P + 15 - us" using e us(2) by (simp add: word_less_nat_alt)
  have "M \<noteq> 0" using uM two by (metis not_less_zero unat_0)
  then have "fragment_plan b mx us GSE_HEADER_LENGTH_FRAGMENT_PDU_S2 (P + 4)
     = Inr \<lparr>p_start_size = us - 11, p_middle_size = M, p_end_size = P + 15 - us, p_total_num = 2\<rparr>"
    unfolding fragment_plan_def Let_def start M_def [symmetric] en dv using pos by simp
  then show ?thesis by blast
qed

text \<open>
  On an empty queue \<open>get_fragmentID\<close> reads the last slot of the buffer.  A slot never holds anything but
  a fragment ID or -1, so that the read is harmless.
\<close>

definition queue_slots :: "FRAG_STATE \<Rightarrow> bool" where
  "queue_slots f \<longleftrightarrow> (\<forall>v \<in> set (pQueueStart (fs_queue f)). v = -1 \<or> unat v < 256)"

lemma slots_update:
  "store_at a i d = Inr b \<Longrightarrow> d = -1 \<or> unat d < 256 \<Longrightarrow> \<forall>v \<in> set a. v = -1 \<or> unat (v :: u16) < 256 \<Longrightarrow>
   \<forall>v \<in> set b. v = -1 \<or> unat v < 256"
  using set_update_subset_insert [of a i d] by (auto simp: store_at_def split: if_splits)

lemma slots_Push:
  assumes "Push q d = Inr q'" "unat d < 256" "\<forall>v \<in> set (pQueueStart q). v = -1 \<or> unat v < 256"
  shows "\<forall>v \<in> set (pQueueStart q'). v = -1 \<or> unat v < 256"
proof -
  obtain b q1 where q1: "IsFull q = (b, q1)" by (cases "IsFull q")
  then have "pQueueStart q1 = pQueueStart q" by (auto simp: IsFull_def Let_def split: if_splits)
  moreover have "pQueueStart (push_not_full q1) = pQueueStart q1" "pQueueStart (push_full q1) = pQueueStart q1"
    by (simp_all add: push_not_full_def push_full_def Let_def)
  ultimately obtain i bs where "store_at (pQueueStart q) i d = Inr bs" "pQueueStart q' = bs"
    using assms(1) q1 by (cases b) (auto simp: Push_def store_tail_def bind_ok_eq_Inr_iff)
  then show ?thesis using slots_update assms(2,3) by blast
qed

lemma slots_do_fragment:
  assumes "do_fragment mm b mx us n m f = Inr (r, n', f')" "queue_slots f"
  shows "queue_slots f'"
proof -
  obtain n1 c where "run_fragment b mx us n1 c m f = Inr (r, f')"
    using assms(1) by (auto simp: do_fragment_def bind_ok_eq_Inr_iff Let_def)
  then have "f' = f \<or> (\<exists>ID :: u8. Push (fs_queue f) (ucast ID) = Inr (fs_queue f'))"
    by (auto simp: run_fragment_def bind_ok_eq_Inr_iff Let_def split: option.splits if_splits)
  then show ?thesis
  proof
    assume "\<exists>ID :: u8. Push (fs_queue f) (ucast ID) = Inr (fs_queue f')"
    then obtain ID :: u8 where "Push (fs_queue f) (ucast ID) = Inr (fs_queue f')" by blast
    moreover have "unat (ucast ID :: u16) < 256" using unat_u8_lt [of ID] by (simp add: unat_ucast_up)
    ultimately show ?thesis using slots_Push assms(2) by (simp add: queue_slots_def)
  qed (use assms(2) in simp)
qed

lemma slots_fetch:
  assumes "fetch_pdu_fragment invalid f n = Inr (r, f', n')" "queue_slots f"
  shows "queue_slots f'"
proof -
  have "fs_queue f' = fs_queue f \<or> (\<exists>q. SetElement (fs_queue f) 0 (-1) = Inr q \<and> fs_queue f' = Pop q)"
    using assms(1)
    by (auto simp: fetch_pdu_fragment_def Let_def elim!: bind_okE split: option.split_asm if_split_asm prod.split_asm)
  then show ?thesis
  proof
    assume "\<exists>q. SetElement (fs_queue f) 0 (-1) = Inr q \<and> fs_queue f' = Pop q"
    then obtain q where q: "SetElement (fs_queue f) 0 (-1) = Inr q" "fs_queue f' = Pop q" by blast
    have "\<forall>v \<in> set (pQueueStart q). v = -1 \<or> unat v < 256"
      using q(1) assms(2) unfolding SetElement_def queue_slots_def
      by (auto elim!: bind_okE split: if_split_asm dest!: slots_update)
    moreover have "pQueueStart (Pop q) = pQueueStart q" by (simp add: Pop_def Let_def)
    ultimately show ?thesis by (simp add: queue_slots_def q(2))
  qed (use assms(2) in \<open>simp add: queue_slots_def\<close>)
qed

text \<open>The fragment \<open>k\<close> of an entry as the channel sends it; the last one frees the mbuf.\<close>

definition frag_item :: "ENCAP_ENV \<Rightarrow> u16 \<Rightarrow> EN_PDU_NODE \<Rightarrow> item" where
  "frag_item e ts n = (fragment_bytes (ee_mem e) LABEL_TYPE_BROADCAST ts n,
     if n_fragment_type n = FRAGMENT_TYPE_E then [n_mbuf_address n] else [])"

text \<open>The channel waits with the second of the two fragments of \<open>m\<close>; the first had \<open>k\<close> bytes.\<close>

definition half_sent :: "ENCAP_ENV \<Rightarrow> TX_MBUF \<Rightarrow> nat \<Rightarrow> u8 \<Rightarrow> FRAGMENT_BUFFER \<Rightarrow> ENCAP_STATE \<Rightarrow> bool" where
  "half_sent e m k ID E s \<longleftrightarrow> frag_inv (frag_state s) \<and> cq_list (fs_queue (frag_state s)) = [ucast ID]
     \<and> queue_slots (frag_state s) \<and> fs_buffer (frag_state s) ! unat ID = at_fragment E 1 \<and> frag_total E = 2
     \<and> b_pdu_node E = (pdu_node e m)\<lparr>n_pdu_size := tm_data_len m + 4\<rparr>
     \<and> f_start_size (b_fragment_info E) = of_nat k \<and> f_end_size (b_fragment_info E) = tm_data_len m - of_nat k
     \<and> f_CRC32 (b_fragment_info E) = crc32_lookup_table (pdu_data e m)
     \<and> 0 < k \<and> k < unat (tm_data_len m)"

text \<open>The fields of a fragment the channel sends.\<close>

lemma frag_nth_more:
  assumes "k < frag_total E"
  shows "n_protocoltype (frag_nth E x n0 k) = n_protocoltype n0"
    "n_MAC_address (frag_nth E x n0 k) = n_MAC_address (b_pdu_node E)"
    "n_mac_length (frag_nth E x n0 k) = n_mac_length (b_pdu_node E)"
    "n_MODCOD (frag_nth E x n0 k) = n_MODCOD (b_pdu_node E)"
    "n_mbuf_address (frag_nth E x n0 k) = n_mbuf_address (b_pdu_node E)"
  using assms by (simp_all add: frag_nth_def fragment_node_def at_fragment_def Let_def)

lemma fragment_pdu:
  assumes e: "env_ok e" and mx: "unat mx \<le> 7264"
    and m: "sendable m" and n: "using_pdu (es_param s) = pdu_node e m"
    and F: "payload_of mx its (es_payload s)" "null_frame \<Longrightarrow> usable_payload (es_payload s) = mx"
    and G: "length (s_pOneGSE (pGSE_Group (es_param s))) = GSE_MAX_NUM" "frame_gses_ok (pGSE_Group (es_param s))"
      "group_items (ee_mem e) (pGSE_Group (es_param s)) = its" "length its < 255"
    and mac: "length (es_last_mac_address s) = 6"
    and fr: "frag_inv (frag_state s)" "cq_list (fs_queue (frag_state s)) = []" "queue_slots (frag_state s)"
    and st: "statics_ok (es_statics s)" "unat mid < MAX_DEVICE_NUM"
    and us: "12 \<le> unat (usable_payload (es_payload s))" "unat (usable_payload (es_payload s)) < unat (tm_data_len m) + 4"
    and two: "unat (tm_data_len m) + 15 - unat (usable_payload (es_payload s)) < middle_room mx"
  shows "\<exists>s' ID E ts. fragment_process e (LABEL_TYPE_BROADCAST, 0) null_frame mid s = Inr (True, s')
     \<and> half_sent e m (unat (usable_payload (es_payload s)) - 11) ID E s'
     \<and> ts = push_bit 3 (next_count (es_statics s) mid ID) \<and> frag_counter (es_statics s') mid ID = next_count (es_statics s) mid ID
     \<and> \<not> new_frag_ID (es_statics s') mid ID \<and> statics_ok (es_statics s')
     \<and> frame_closed e mx (its @ [frag_item e ts (frag_nth E (ucast ID) (pdu_node e m) 0)]) s s'"
proof -
  let ?n = "pdu_node e m" and ?us = "usable_payload (es_payload s)" and ?P = "tm_data_len m"
  define s1 where "s1 = s\<lparr>es_param := (es_param s)\<lparr>pPDU_Group := zero_pdu_group\<rparr>\<rparr>"
  have P: "unat ?P \<le> 4087" "0 < ?P" using m by (simp_all add: sendable_def)
  have b: "null_frame \<Longrightarrow> ?us = mx" by (rule F(2))
  have mxp: "max_payload (es_payload s) = mx" using F(1) by (simp add: payload_of_def)
  obtain M where plan: "fragment_plan null_frame mx ?us GSE_HEADER_LENGTH_FRAGMENT_PDU_S2 (?P + 4)
     = Inr \<lparr>p_start_size = ?us - 11, p_middle_size = M, p_end_size = ?P + 15 - ?us, p_total_num = 2\<rparr>"
    using plan_two_fragments [OF us b two P(1) mx] by blast
  have hl: "frag_header_length ?n = GSE_HEADER_LENGTH_FRAGMENT_PDU_S2"
    by (simp add: frag_header_length_def pdu_node_fields start_header_length_def BROADCAST_TYPE_YES_def)
  have p4: "unat (?P + 4) = unat ?P + 4" using P by (subst unat_add_lt) simp_all
  then have nz: "n_pdu_size ?n + 4 \<noteq> 0" by (auto simp: pdu_node_fields)
  have ml: "length (n_MAC_address ?n) = 6" by (simp add: pdu_node_fields BOARDCAST_ADDRESS_def)
  obtain ID f1 E where d: "do_fragment (ee_mem e) null_frame mx ?us ?n mid (frag_state s) = Inr (uint (ID :: u8), ?n, f1)"
    "frag_inv f1" "cq_list (fs_queue f1) = [ucast ID]" "fs_buffer f1 ! unat ID = at_fragment E 0"
    "b_pdu_node E = ?n\<lparr>n_pdu_size := ?P + 4\<rparr>"
    "b_fragment_info E = \<lparr>f_FragmentID = ID, f_total_num = 2, f_transfered_num = 0, f_middle_size = M,
        f_start_size = ?us - 11, f_end_size = ?P + 15 - ?us - 4, f_CRC32 = crc32_lookup_table (pdu_data e m)\<rparr>"
    using do_fragment_ok [OF fr(1,2) st(2) ml nz, of null_frame mx ?us _ "ee_mem e", unfolded hl] plan
    by (auto simp: pdu_node_fields pdu_data_def)
  have x: "unat (ucast ID :: u16) = unat ID" by (simp add: unat_ucast_up)
  have valid: "\<not> ee_invalid_id e (int (unat (ucast ID :: u16)))"
    using e unat_u8_lt [of ID] x unfolding env_ok_def by (metis of_nat_0_le_iff of_nat_less_iff of_nat_numeral)
  have tot: "frag_total E = 2" by (simp add: frag_total_def d(6))
  let ?f0 = "frag_nth E (ucast ID) ?n 0"
  obtain f2 where f2: "fetch_pdu_fragment (ee_invalid_id e) f1 ?n = Inr (int (unat (ucast ID :: u16)), f2, ?f0)" "frag_inv f2"
    "cq_list (fs_queue f2) = [ucast ID]" "fs_buffer f2 ! unat ID = at_fragment E 1"
    using fetch_step [where invalid_id = "ee_invalid_id e" and e = E and k = 0 and ?n0.0 = ?n, OF d(2,3) _ _ valid] d(4) x tot by auto
  have fd: "n_pdu_size ?f0 = ?us - 11" "n_fragment_flag ?f0 = 1" "n_fragment_type ?f0 = FRAGMENT_TYPE_S"
    "n_MAC_address ?f0 = BOARDCAST_ADDRESS" "n_fragment_ID ?f0 = ID" "n_fragment_seq ?f0 = 0"
    using tot by (simp_all add: frag_nth_fields frag_nth_more frag_size_def frag_kind_def d(5,6) pdu_node_fields)
  have sz: "unat (?us - 11) = unat ?us - 11" using us(1) by (simp add: unat_sub_le word_le_nat_alt)
  then have small: "unat (n_pdu_size ?f0) + (if n_fragment_type ?f0 = FRAGMENT_TYPE_E then 4 else 0) \<le> 4080"
    using fd(1,3) us P by (simp add: fragment_type_defs)
  have "unat (?us - 7) = unat ?us - 7" using us(1) by (simp add: unat_sub_le word_le_nat_alt)
  then have "unat (node_data_bytes ?f0) = unat ?us - 7"
    using fd(1,2,3) by (simp add: node_data_bytes_def fragment_type_defs)
  then have "0 < unat (node_data_bytes ?f0)" using us(1) by simp
  then have nok: "node_ok ?f0" using fd by (simp add: node_ok_def BOARDCAST_ADDRESS_def unat_gt_0 word_neq_0_conv)
  obtain st' where ts: "frag_time_seq ?f0 mid (es_statics s) = Inr (push_bit 3 (next_count (es_statics s) mid ID), st')"
    "statics_ok st'" "frag_counter st' mid ID = next_count (es_statics s) mid ID" "\<not> new_frag_ID st' mid ID"
    using frag_time_seq_step [OF st, of ?f0] fd(5,6) by auto
  let ?ts = "push_bit 3 (next_count (es_statics s) mid ID)"
  have lt: "LABEL_TYPE_BROADCAST < 4" by (simp add: label_type_defs)
  have it: "frag_item e ?ts ?f0 = (fragment_bytes (ee_mem e) LABEL_TYPE_BROADCAST ?ts ?f0,
      if n_fragment_type ?f0 = FRAGMENT_TYPE_E then [n_mbuf_address ?f0] else [])" by (simp add: frag_item_def)
  obtain g where g: "update_pdu_group ?f0 zero_pdu_group LABEL_TYPE_BROADCAST 0 mid (es_statics s) = Inr (g, st')"
    "group_makes e g (frag_item e ?ts ?f0)"
    using frag_group_makes [OF e nok fd(2) lt small ts(1), of 0] unfolding it by blast
  have fl: "length (fst (frag_item e ?ts ?f0)) = unat ?us"
    using fd us(1) by (simp add: frag_item_def fragment_bytes_def gse_wire_header_def frag_var_header_def fragment_data_def
        label_bytes_def label_type_defs fragment_type_defs sz)
  have usv: "unat ?us = unat mx - length (items_bytes its)" "length (items_bytes its) \<le> unat mx"
    using F(1) by (auto simp: payload_of_def unat_sub_le word_le_nat_alt)
  define s2 where "s2 = (set_frag_state f2 (set_using ?f0 s1))\<lparr>es_param :=
      (es_param (set_frag_state f2 (set_using ?f0 s1)))\<lparr>pPDU_Group := g\<rparr>, es_statics := st'\<rparr>"
  have k2: "pPDU_Group (es_param s2) = g" "pGSE_Group (es_param s2) = pGSE_Group (es_param s)"
    "es_payload s2 = es_payload s" "es_last_mac_address s2 = es_last_mac_address s" "frag_state s2 = f2"
    "es_statics s2 = st'" "es_sent s2 = es_sent s" "es_freed s2 = es_freed s" "es_frame_param s2 = es_frame_param s"
    by (simp_all add: s2_def s1_def set_frag_state_def set_using_def frag_state_def)
  have room: "length (items_bytes its) + length (fst (frag_item e ?ts ?f0)) \<le> unat mx" using fl usv by simp
  obtain s' where s': "bind_ok (close_gse e s2) (make_frame e) = Inr (True, s')"
    "frame_closed e mx (its @ [frag_item e ?ts ?f0]) s2 s'" "frag_state s' = f2" "es_statics s' = st'"
    using close_and_send [OF e mx k2(1) g(2) _ _ _ _ _ room G(4)] G(1-3) F(1) mac k2 by auto
  have gp: "group_pdu (LABEL_TYPE_BROADCAST, 0) mid (set_frag_state f2 (set_using ?f0 s1)) = Inr s2"
    using g(1) by (simp add: group_pdu_def s2_def s1_def set_frag_state_def set_using_def Let_def)
  have k1: "frag_state s1 = frag_state s" "using_pdu (es_param s1) = ?n" "es_payload s1 = es_payload s"
    using n by (simp_all add: s1_def frag_state_def)
  have run: "fragment_process e (LABEL_TYPE_BROADCAST, 0) null_frame mid s = Inr (True, s')"
    unfolding fragment_process_def Let_def reset_pdu_group_def s1_def [symmetric] k1 mxp d(1) bind_ok.simps prod.case f2(1) gp
    using s'(1) by simp
  have "frame_closed e mx (its @ [frag_item e ?ts ?f0]) s s'"
    using s'(2) k2(7-9) by (simp add: frame_closed_def)
  moreover have "half_sent e m (unat ?us - 11) ID E s'"
  proof -
    have a: "(of_nat (unat ?us - 11) :: u16) = ?us - 11" unfolding sz [symmetric] by simp
    have "?P + 15 - ?us - 4 = ?P - (?us - 11)" by simp
    moreover have "queue_slots f2" by (rule slots_fetch [OF f2(1) slots_do_fragment [OF d(1) fr(3)]])
    ultimately show ?thesis unfolding half_sent_def using s'(3) f2(2-4) tot d(5,6) a us by auto
  qed
  ultimately show ?thesis using run ts(2-4) s'(4) by blast
qed

lemma isl_bb_splits:
  assumes e: "env_ok e" and mx: "map_modcod_payload (ee_modcode e) = Inr mx" "0 < mx"
    and op: "frame_open e mx its s" and m: "sendable m" and num: "length its < 255"
    and fr: "frag_inv (frag_state s)" "cq_list (fs_queue (frag_state s)) = []" "queue_slots (frag_state s)"
    and st: "statics_ok (es_statics s)" "unat mid < MAX_DEVICE_NUM"
    and U: "U = unat mx - length (items_bytes its)" "12 \<le> unat (ee_threshold e)" "unat (ee_threshold e) \<le> U"
    and full: "U < 4 + unat (tm_data_len m)" and two: "unat (tm_data_len m) + 15 - U < middle_room mx"
  shows "\<exists>s' ID E ts. encapsulate_isl_bb e SUCCEED_FETCH_MODCOD mid (set_using (pdu_node e m) s) = Inr s'
     \<and> half_sent e m (U - 11) ID E s'
     \<and> ts = push_bit 3 (next_count (es_statics s) mid ID) \<and> frag_counter (es_statics s') mid ID = next_count (es_statics s) mid ID
     \<and> \<not> new_frag_ID (es_statics s') mid ID \<and> statics_ok (es_statics s')
     \<and> frame_closed e mx (its @ [frag_item e ts (frag_nth E (ucast ID) (pdu_node e m) 0)]) s s'"
proof -
  let ?n = "pdu_node e m" and ?P = "tm_data_len m"
  let ?s = "set_using ?n s"
  let ?G = "pGSE_Group (es_param s)"
  have op': "frame_open e mx its ?s" using op by simp
  have o: "pPDU_Group (es_param ?s) = zero_pdu_group" "length (s_pOneGSE (pGSE_Group (es_param ?s))) = GSE_MAX_NUM"
    "frame_gses_ok (pGSE_Group (es_param ?s))" "group_items (ee_mem e) (pGSE_Group (es_param ?s)) = its"
    "length (es_last_mac_address ?s) = 6"
    using op' by (simp_all only: frame_open_def)
  obtain F where F: "(if max_payload (es_payload ?s) = 0 then open_payload (ee_modcode e) ?s else Inr ?s) = Inr (?s\<lparr>es_payload := F\<rparr>)"
    "payload_of mx its F" "max_payload (es_payload ?s) = 0 \<longleftrightarrow> its = []"
    using open_frame_payload [OF op' mx] by blast
  obtain G1 where G1: "adopt_modcod (?s\<lparr>es_payload := F\<rparr>) = ?s\<lparr>es_payload := F, es_param := (es_param ?s)\<lparr>pGSE_Group := G1\<rparr>\<rparr>"
    "s_pOneGSE G1 = s_pOneGSE (pGSE_Group (es_param ?s))" "s_gse_num G1 = s_gse_num (pGSE_Group (es_param ?s))"
  proof (rule that)
    let ?G1 = "if s_modcod (pGSE_Group (es_param ?s)) = 0
      then (pGSE_Group (es_param ?s))\<lparr>s_modcod := n_MODCOD ?n\<rparr> else pGSE_Group (es_param ?s)"
    show "adopt_modcod (?s\<lparr>es_payload := F\<rparr>) = ?s\<lparr>es_payload := F, es_param := (es_param ?s)\<lparr>pGSE_Group := ?G1\<rparr>\<rparr>"
      by (simp add: adopt_modcod_def Let_def)
  qed simp_all
  have same: "frame_gses_ok G1" "group_items (ee_mem e) G1 = its"
    using G1(2,3) o(3,4) by (simp_all add: group_gses_def frame_gses_ok_def group_items_def)
  have lt: "LABEL_TYPE_BROADCAST < 4" by (simp add: label_type_defs)
  obtain g where g: "update_pdu_group ?n zero_pdu_group LABEL_TYPE_BROADCAST 0 mid (es_statics s) = Inr (g, es_statics s)"
    "group_makes e g (whole_item e m)"
    using whole_group_makes [OF e pdu_node_ok [OF m, of e] pdu_node_fields(6) lt, of 0 mid "es_statics s"] m
    by (auto simp: pdu_node_fields sendable_def whole_item_def)
  have tot: "unat (g_gse_total_length g) = 4 + unat ?P" using g(2) whole_item_length by (simp add: group_makes_def)
  define s2 where "s2 = ?s\<lparr>es_payload := F, es_param := (es_param ?s)\<lparr>pGSE_Group := G1, pPDU_Group := g\<rparr>\<rparr>"
  have gp: "group_pdu (LABEL_TYPE_BROADCAST, 0) mid (adopt_modcod (?s\<lparr>es_payload := F\<rparr>)) = Inr s2"
    using g(1) o(1) unfolding G1(1) s2_def by (simp add: group_pdu_def set_using_def)
  have u: "unat (usable_payload F) = U" "its = [] \<Longrightarrow> usable_payload F = mx"
    using F(2) U(1) by (auto simp: payload_of_def unat_sub_le word_le_nat_alt unat_eq_zero)
  have nofit: "\<not> room_for_group s2" "\<not> usable_payload F < ee_threshold e"
    using tot u(1) full U(3) by (simp_all add: room_for_group_def s2_def word_le_nat_alt word_less_nat_alt)
  define s3 where "s3 = s2\<lparr>es_last_mac_length := 0\<rparr>"
  have k3: "es_payload s3 = F" "pGSE_Group (es_param s3) = G1" "using_pdu (es_param s3) = ?n"
    "es_last_mac_address s3 = es_last_mac_address s" "frag_state s3 = frag_state s" "es_statics s3 = es_statics s"
    "es_sent s3 = es_sent s" "es_freed s3 = es_freed s" "es_frame_param s3 = es_frame_param s"
    by (simp_all add: s3_def s2_def set_using_def frag_state_def)
  have rm: "remember_label s2 = Inr s3"
    using broadcast_label(2) [of e s2] broadcast_pdu_node o(5) by (simp add: s3_def s2_def set_using_def)
  have cl: "choose_label b (?s\<lparr>es_payload := F\<rparr>) = Inr (LABEL_TYPE_BROADCAST, 0)" for b
    using broadcast_label(1) [of e "?s\<lparr>es_payload := F\<rparr>"] broadcast_pdu_node o(5) by (simp add: set_using_def)
  have us: "12 \<le> unat (usable_payload F)" "unat (usable_payload F) < unat ?P + 4"
    "unat ?P + 15 - unat (usable_payload F) < middle_room mx"
    using u(1) U(2,3) full two by simp_all
  have run: "encapsulate_isl_bb e SUCCEED_FETCH_MODCOD mid ?s
      = bind_ok (fragment_process e (LABEL_TYPE_BROADCAST, 0) (its = []) mid s3) (\<lambda>(_, s4). Inr s4)"
  proof -
    have u2: "usable_payload (es_payload s2) = usable_payload F" by (simp add: s2_def)
    have mc: "n_MODCOD (using_pdu (es_param ?s)) = ee_modcode e" by (simp add: pdu_node_fields)
    show ?thesis
      unfolding encapsulate_isl_bb_def Let_def mc F(1) bind_ok.simps cl gp
      unfolding F(3) by (simp only: nofit u2 rm if_False if_True simp_thms bind_ok.simps)
  qed
  from fragment_pdu [where s = s3 and null_frame = "its = []" and mid = mid, unfolded k3, OF e modcod_payload_le [OF mx(1)] m
      refl F(2) u(2) _ same num _ fr st us]
  obtain s' ID E ts where r: "fragment_process e (LABEL_TYPE_BROADCAST, 0) (its = []) mid s3 = Inr (True, s')"
     "half_sent e m (unat (usable_payload F) - 11) ID E s'"
     "ts = push_bit 3 (next_count (es_statics s) mid ID)" "frag_counter (es_statics s') mid ID = next_count (es_statics s) mid ID"
     "\<not> new_frag_ID (es_statics s') mid ID" "statics_ok (es_statics s')"
     "frame_closed e mx (its @ [frag_item e ts (frag_nth E (ucast ID) (pdu_node e m) 0)]) s3 s'"
    using G1(2) o(2,5) by (auto simp: set_using_def)
  have "frame_closed e mx (its @ [frag_item e ts (frag_nth E (ucast ID) (pdu_node e m) 0)]) s s'"
    using r(7) k3(7-9) by (simp add: frame_closed_def)
  then show ?thesis using run r u(1) by auto
qed

text \<open>The second fragment: the first packet of the next frame.\<close>

lemma set_using_grown [simp]:
  "frame_grown e mx its s (set_using n s') = frame_grown e mx its s s'"
  "frame_closed e mx its s (set_using n s') = frame_closed e mx its s s'"
  by (auto simp: frame_grown_def frame_closed_def frame_open_def set_using_def)

lemma set_frag_state_same [simp]: "set_frag_state (frag_state s) s = s"
  by (simp add: set_frag_state_def frag_state_def)

lemma set_frag_state_fields [simp]:
  "using_pdu (es_param (set_frag_state f s)) = using_pdu (es_param s)" "es_statics (set_frag_state f s) = es_statics s"
  "frag_state (set_frag_state f s) = f" "frame_open e mx its (set_frag_state f s) = frame_open e mx its s"
  "frame_grown e mx its (set_frag_state f s) s' = frame_grown e mx its s s'"
  by (simp_all add: set_frag_state_def frag_state_def frame_open_def frame_grown_def frame_closed_def)

lemma no_fragment:
  assumes e: "env_ok e" and inv: "frag_inv (frag_state s)" "cq_list (fs_queue (frag_state s)) = []" "queue_slots (frag_state s)"
  shows "get_frag_pkt e s = Inr (SUCCEED_FETCH_MODCOD, set_using zero_pdu_node s)"
proof -
  let ?q = "fs_queue (frag_state s)"
  define v where "v = pQueueStart ?q ! 255"
  have q: "cq_wf ?q" "cq_cap ?q = 256" "length (fs_buffer (frag_state s)) = 256" using inv(1) by (simp_all add: frag_inv_def)
  then have len: "length (pQueueStart ?q) = 256" by (simp add: cq_wf_def cq_cap_def)
  have "GetElement ?q 0 = Some 255" using GetElement_empty_slot [OF q(1) inv(2)] q(2) by simp
  then have g: "get_fragmentID ?q = Inr (sint v)" using len by (simp add: get_fragmentID_def v_def)
  have "v \<in> set (pQueueStart ?q)" using len by (simp add: v_def)
  then have v: "v = -1 \<or> unat v < 256" using inv(3) by (simp add: queue_slots_def)
  have "\<exists>r < 0. fetch_pdu_fragment (ee_invalid_id e) (frag_state s) zero_pdu_node = Inr (r, frag_state s, zero_pdu_node)"
  proof (cases "ee_invalid_id e (sint v)")
    case True
    then show ?thesis by (simp add: fetch_pdu_fragment_def g ERROR_FRAGMENT_ID_INVALID_def)
  next
    case False
    then have "v \<noteq> -1" using e by (auto simp: env_ok_def)
    then have u: "unat v < 256" using v by blast
    then have "sint v = int (unat v)" by (intro sint_eq_int_unat) simp
    moreover have "b_used (fs_buffer (frag_state s) ! unat v) = 0"
      using inv(1,2) u by (simp add: frag_inv_def del: cq_list_eq_Nil)
    ultimately show ?thesis
      using False u q(3) by (simp add: fetch_pdu_fragment_def g ERROR_FRAGMENT_ID_USED_def)
  qed
  moreover have "set_frag_state (frag_state s) (set_using zero_pdu_node s) = set_using zero_pdu_node s"
    by (simp add: set_frag_state_def frag_state_def set_using_def)
  ultimately show ?thesis by (auto simp: get_frag_pkt_def)
qed

lemma next_count_again:
  assumes "\<not> new_frag_ID st mid ID" "frag_counter st mid ID < 8192"
  shows "next_count st mid ID = frag_counter st mid ID"
  using assms leD by (auto simp: next_count_def Let_def)

lemma drain_half_sent:
  assumes e: "env_ok e" and mx: "map_modcod_payload (ee_modcode e) = Inr mx" "0 < mx"
    and op: "frame_open e mx its s" and m: "sendable m" and h: "half_sent e m k ID E s"
    and st: "statics_ok (es_statics s)" "unat mid < MAX_DEVICE_NUM" "\<not> new_frag_ID (es_statics s) mid ID"
    and num: "length its < 255" and room: "length (items_bytes its) + 13 + (unat (tm_data_len m) - k) \<le> unat mx" "unat (tm_data_len m) - k \<le> 4076"
  shows "\<exists>s'. drain_fragments e mid s = Some (Inr s')
     \<and> frame_grown e mx (its @ [frag_item e (push_bit 3 (frag_counter (es_statics s) mid ID) OR 1)
           (frag_nth E (ucast ID) zero_pdu_node 1)]) s s'
     \<and> frag_inv (frag_state s') \<and> cq_list (fs_queue (frag_state s')) = [] \<and> queue_slots (frag_state s')
     \<and> statics_ok (es_statics s')"
proof -
  let ?f = "frag_nth E (ucast ID) zero_pdu_node 1" and ?P = "tm_data_len m"
  have P: "unat ?P \<le> 4087" "0 < k" "k < unat ?P" and tot: "frag_total E = 2"
    and inv: "frag_inv (frag_state s)" "cq_list (fs_queue (frag_state s)) = [ucast ID]"
      "fs_buffer (frag_state s) ! unat ID = at_fragment E 1"
    and E: "b_pdu_node E = (pdu_node e m)\<lparr>n_pdu_size := ?P + 4\<rparr>" "f_end_size (b_fragment_info E) = ?P - of_nat k"
    using m h by (simp_all add: sendable_def half_sent_def)
  have x: "unat (ucast ID :: u16) = unat ID" by (simp add: unat_ucast_up)
  have valid: "\<not> ee_invalid_id e (int (unat (ucast ID :: u16)))"
    using e unat_u8_lt [of ID] x unfolding env_ok_def by (metis of_nat_0_le_iff of_nat_less_iff of_nat_numeral)
  obtain f2 where f2: "fetch_pdu_fragment (ee_invalid_id e) (frag_state s) zero_pdu_node
      = Inr (int (unat (ucast ID :: u16)), f2, ?f)" "frag_inv f2" "cq_list (fs_queue f2) = []"
    using fetch_step [where invalid_id = "ee_invalid_id e" and e = E and k = 1 and ?n0.0 = zero_pdu_node, OF inv(1,2) _ _ valid]
      inv(3) x tot by auto
  define s1 where "s1 = set_frag_state f2 (set_using ?f s)"
  have g1: "get_frag_pkt e s = Inr (SUCCEED_FETCH_FRAGMENT, s1)" by (simp add: get_frag_pkt_def f2(1) s1_def)
  have fd: "n_pdu_size ?f = ?P - of_nat k" "n_fragment_flag ?f = 1" "n_fragment_type ?f = FRAGMENT_TYPE_E"
    "n_MAC_address ?f = BOARDCAST_ADDRESS" "n_fragment_ID ?f = ID" "n_fragment_seq ?f = 1" "n_mac_length ?f = 0"
    "n_MODCOD ?f = ee_modcode e"
    using tot by (simp_all add: frag_nth_fields frag_nth_more frag_size_def frag_kind_def E pdu_node_fields)
  have uk: "unat (of_nat k :: u16) = k" using P by (intro unat_of_nat_lt) simp
  have sz: "unat (n_pdu_size ?f) = unat ?P - k"
    unfolding fd(1) using P(3) uk by (subst unat_sub_le) (simp_all add: word_le_nat_alt)
  then have small: "unat (n_pdu_size ?f) + (if n_fragment_type ?f = FRAGMENT_TYPE_E then 4 else 0) \<le> 4080"
    using fd(3) room(2) by simp
  have lt: "LABEL_TYPE_BROADCAST < 4" by (simp add: label_type_defs)
  let ?T = "frag_counter (es_statics s) mid ID" and ?ts = "push_bit 3 (frag_counter (es_statics s) mid ID) OR 1"
  have "next_count (es_statics s) mid ID = ?T"
    using next_count_again [OF st(3)] statics_row(2) [OF st(1,2)] by blast
  then obtain st' where ts: "frag_time_seq ?f mid (es_statics s) = Inr (?ts, st')" "statics_ok st'"
    using frag_time_seq_step [OF st(1,2), of ?f] fd(5,6) by auto
  have "unat (node_data_bytes ?f) = unat ?P - k + 8"
    using fd(2,3) sz room(2) unfolding node_data_bytes_def by (subst unat_add_lt) simp_all
  then have "0 < node_data_bytes ?f" by (simp add: word_less_nat_alt)
  then have nok: "node_ok ?f" using fd by (simp add: node_ok_def BOARDCAST_ADDRESS_def)
  have it: "frag_item e ?ts ?f = (fragment_bytes (ee_mem e) LABEL_TYPE_BROADCAST ?ts ?f,
      if n_fragment_type ?f = FRAGMENT_TYPE_E then [n_mbuf_address ?f] else [])" by (simp add: frag_item_def)
  obtain g where g: "update_pdu_group ?f zero_pdu_group LABEL_TYPE_BROADCAST 0 mid (es_statics s) = Inr (g, st')"
    "group_makes e g (frag_item e ?ts ?f)"
    using frag_group_makes [OF e nok fd(2) lt small ts(1), of 0] unfolding it by blast
  have "length (fst (frag_item e ?ts ?f)) = 13 + (unat ?P - k)"
    using fd sz by (simp add: frag_item_def fragment_bytes_def gse_wire_header_def frag_var_header_def fragment_data_def
        label_bytes_def label_type_defs fragment_type_defs)
  then have fits: "length (items_bytes its) + length (fst (frag_item e ?ts ?f)) \<le> unat mx" using room(1) by simp
  have s1: "frame_open e mx its s1" "using_pdu (es_param s1) = ?f" "es_statics s1 = es_statics s" "frag_state s1 = f2"
    using op by (simp_all add: s1_def)
  have bn: "broadcast_node e (using_pdu (es_param s1))" using fd(4,7,8) by (simp add: broadcast_node_def s1(2))
  obtain s2 where s2: "encapsulate_isl_bb e SUCCEED_FETCH_FRAGMENT mid s1 = Inr s2"
    "frame_grown e mx (its @ [frag_item e ?ts ?f]) s1 s2" "frag_state s2 = f2" "es_statics s2 = st'"
    using isl_bb_fits [OF e mx modcod_payload_le [OF mx(1)] s1(1) bn disjI2 [OF refl] _ g(2) fits num]
      g(1) s1(2-4) by auto
  have slots: "queue_slots f2"
    using slots_fetch [OF f2(1)] h by (simp add: half_sent_def)
  have g2: "get_frag_pkt e s2 = Inr (SUCCEED_FETCH_MODCOD, set_using zero_pdu_node s2)"
    by (rule no_fragment [OF e]) (simp_all only: s2(3) f2(2,3) slots)
  have ne: "SUCCEED_FETCH_MODCOD \<noteq> SUCCEED_FETCH_FRAGMENT" by (simp add: fetch_code_defs)
  have "drain_fragments e mid s = drain_fragments e mid s2"
    by (subst drain_fragments.simps) (simp add: g1 s2(1))
  also have "\<dots> = Some (Inr (set_using zero_pdu_node s2))"
    by (subst drain_fragments.simps) (simp add: g2 ne)
  finally have "drain_fragments e mid s = Some (Inr (set_using zero_pdu_node s2))" .
  moreover have "frame_grown e mx (its @ [frag_item e ?ts ?f]) s s2" using s2(2) by (simp add: s1_def)
  ultimately show ?thesis using s2(3,4) f2(2,3) slots ts(2) by (intro exI [of _ "set_using zero_pdu_node s2"]) simp
qed

section \<open>The bytes of the two fragments\<close>

definition fragment_header :: "1 word \<Rightarrow> 1 word \<Rightarrow> nat \<Rightarrow> u8 list \<Rightarrow> u16 \<Rightarrow> u16 \<Rightarrow> u8 list" where
  "fragment_header S E len extra ts ptype =
     gse_wire_header S E 2 len @ extra @ le16 (bswap16 FRAG_SEQUENCE) @ le16 (bswap16 ts) @ le16 (bswap16 ptype)"

definition first_fragment :: "ENCAP_ENV \<Rightarrow> TX_MBUF \<Rightarrow> nat \<Rightarrow> u8 \<Rightarrow> u16 \<Rightarrow> u8 list" where
  "first_fragment e m k ID T = fragment_header 1 0 (9 + k) (ID # le16 (bswap16 (6 + tm_data_len m)))
     (push_bit 3 T) (ucast (tm_protocol_type m)) @ take k (pdu_data e m)"

definition last_fragment :: "ENCAP_ENV \<Rightarrow> TX_MBUF \<Rightarrow> nat \<Rightarrow> u8 \<Rightarrow> u16 \<Rightarrow> u8 list" where
  "last_fragment e m k ID T = fragment_header 0 1 (11 + (unat (tm_data_len m) - k)) [ID] (push_bit 3 T OR 1) 0
     @ drop k (pdu_data e m) @ le32 (bswap32 (crc32_lookup_table (pdu_data e m)))"

lemma take_load_bytes: "k \<le> n \<Longrightarrow> take k (load_bytes mm p n) = load_bytes mm p k"
  by (rule nth_equalityI) (simp_all add: nth_load_bytes)

lemma drop_load_bytes: "k \<le> n \<Longrightarrow> drop k (load_bytes mm p n) = load_bytes mm (p + of_nat k) (n - k)"
  by (rule nth_equalityI) (simp_all add: nth_load_bytes add.assoc)

lemma half_sent_items:
  assumes h: "half_sent e m k ID E s"
  shows "frag_item e (push_bit 3 T) (frag_nth E (ucast ID) (pdu_node e m) 0) = (first_fragment e m k ID T, [])"
    "frag_item e (push_bit 3 T OR 1) (frag_nth E (ucast ID) zero_pdu_node 1) = (last_fragment e m k ID T, [tm_address m])"
proof -
  have E: "frag_total E = 2" "b_pdu_node E = (pdu_node e m)\<lparr>n_pdu_size := tm_data_len m + 4\<rparr>"
    "f_start_size (b_fragment_info E) = of_nat k" "f_end_size (b_fragment_info E) = tm_data_len m - of_nat k"
    "f_CRC32 (b_fragment_info E) = crc32_lookup_table (pdu_data e m)" "0 < k" "k < unat (tm_data_len m)"
    using h by (simp_all add: half_sent_def)
  have k: "unat (of_nat k :: u16) = k" using E(7) unat_u16_lt [of "tm_data_len m"] by (intro unat_of_nat_lt) simp
  have r: "unat (tm_data_len m - of_nat k) = unat (tm_data_len m) - k"
    using E(7) k by (subst unat_sub_le) (simp_all add: word_le_nat_alt)
  have f: "n_pdu_size (frag_nth E x n0 0) = of_nat k" "n_pdu_size (frag_nth E x n0 1) = tm_data_len m - of_nat k"
    "n_pPDU_start (frag_nth E x n0 0) = tm_data m" "n_pPDU_start (frag_nth E x n0 1) = tm_data m + of_nat k"
    "n_fragment_type (frag_nth E x n0 0) = FRAGMENT_TYPE_S" "n_fragment_type (frag_nth E x n0 1) = FRAGMENT_TYPE_E" for x n0
    using E k by (simp_all add: frag_nth_fields frag_size_def frag_kind_def frag_offset_def pdu_node_fields)
  have ids: "n_fragment_ID (frag_nth E (ucast ID) n0 j) = ID" "n_MAC_address (frag_nth E (ucast ID) n0 j) = BOARDCAST_ADDRESS"
    "n_pdu_total_length (frag_nth E (ucast ID) n0 j) = tm_data_len m" "n_mbuf_address (frag_nth E (ucast ID) n0 j) = tm_address m"
    "n_crc32 (frag_nth E (ucast ID) n0 j) = crc32_lookup_table (pdu_data e m)"
    "n_protocoltype (frag_nth E (ucast ID) n0 j) = n_protocoltype n0" if "j < 2" for n0 j
    using that E by (simp_all add: frag_nth_fields frag_nth_more pdu_node_fields)
  have ne: "FRAGMENT_TYPE_S \<noteq> FRAGMENT_TYPE_E" by (simp add: fragment_type_defs)
  show "frag_item e (push_bit 3 T) (frag_nth E (ucast ID) (pdu_node e m) 0) = (first_fragment e m k ID T, [])"
    using f ids [of 0 "pdu_node e m"] k E(7) ne
    by (simp add: frag_item_def fragment_bytes_def frag_var_header_def fragment_data_def first_fragment_def fragment_header_def
        label_bytes_def label_type_defs frag_indicators_def pdu_node_fields pdu_data_def take_load_bytes)
  show "frag_item e (push_bit 3 T OR 1) (frag_nth E (ucast ID) zero_pdu_node 1) = (last_fragment e m k ID T, [tm_address m])"
    using f ids [of 1 zero_pdu_node] r E(7) ne
    by (simp add: frag_item_def fragment_bytes_def frag_var_header_def fragment_data_def last_fragment_def fragment_header_def
        label_bytes_def label_type_defs frag_indicators_def pdu_data_def drop_load_bytes zero_pdu_node_def)
qed

section \<open>Properties\<close>

text \<open>The channel after \<open>init_encap_mem\<close>, and an environment for it.\<close>

definition boot_encap_state :: ENCAP_STATE where
  "boot_encap_state = \<lparr>
     es_param = \<lparr>pPDU_Group = zero_pdu_group, pGSE_Group = \<lparr>s_modcod = 0, s_frame_create_time = 0, s_priority_group = 0,
         s_total_length = 0, s_gse_num = 0, s_pOneGSE = []\<rparr>, using_pdu = zero_pdu_node, pfragment_buffer = [],
         fragmentID_queue = \<lparr>QueueSize = 0, QueueMaxSize = 0, Head = 0, Tail = 0, pQueueStart = []\<rparr>\<rparr>,
     es_payload = zero_frame_payload,
     es_frame_param = \<lparr>initialBBHeader = \<lparr>RO = 0, NPD = 0, ISSYI = 0, CCM_ACM = 0, SIS_MIS = 0, TS_GS = 0, Matype2 = 0,
         UPL = 0, bb_DFL = 0, SYNC = 0, SYNCD = 0, bb_CRC8 = 0\<rparr>,
       initialISLHeader = \<lparr>SYN = 0, isl_D = 0, isl_M = 0, isl_E = 0, isl_RE = 0, Link_Control = 0, Frame_Sequence = 0,
         isl_DFL = 0, isl_CRC32 = 0\<rparr>,
       L2L1_header = zero_tx, fp_padding_bytes = 0, fp_pack_type = 0, fp_gse_offset = 0, fp_header_size = 0,
       fp_frame_size = 0, fp_frame_count = 0\<rparr>,
     es_last_mac_length = 0, es_last_mac_address = replicate 6 0, es_statics = sample_statics,
     es_last_ID = replicate 8 0, es_force_padding_count = 0, es_loop_count = 0, es_sent = [], es_freed = [], es_calls = 0\<rparr>"

definition start_encap_state :: ENCAP_STATE where
  "start_encap_state = (case init_encap_mem True (replicate 1000 sample_stack) boot_encap_state of Inr s \<Rightarrow> s | Inl _ \<Rightarrow> boot_encap_state)"

definition sample_encap_env :: "u8 \<Rightarrow> ENCAP_ENV" where
  "sample_encap_env modcode = \<lparr>ee_mem = sample_mem, ee_modcode = modcode, ee_threshold = 16, ee_port = sample_port 6,
     ee_invalid_id = valid_ids, ee_now = (\<lambda>_. 0), ee_field = (\<lambda>_. replicate 11 0xAA), ee_stack = (\<lambda>_. sample_stack),
     ee_inner = (\<lambda>_. \<lparr>m_cDstMacAddress = [], m_cSrcMacAddress = [], m_cType = 0, mac_rev = 0, m_V = 0, m_R = 0,
        msg_type = 0, msg_len = 0, m_reserve = 0\<rparr>),
     ee_mbuf_ok = (\<lambda>_. True)\<rparr>"

lemma sample_encap_env_ok: "env_ok (sample_encap_env modcode)"
  using sample_ok(2)
  by (simp add: env_ok_def sample_encap_env_def sample_port_def is_bb_type_def ENUM_FWD_Tx_FWD_Data_def valid_ids_def)

text \<open>The channel has no fragment waiting.\<close>

definition no_fragment_waiting :: "ENCAP_STATE \<Rightarrow> bool" where
  "no_fragment_waiting s \<longleftrightarrow> frag_inv (frag_state s) \<and> cq_list (fs_queue (frag_state s)) = [] \<and> queue_slots (frag_state s)
     \<and> statics_ok (es_statics s)"

lemma start_encap_ok:
  "frame_open e mx [] start_encap_state" "no_fragment_waiting start_encap_state"
  "es_sent start_encap_state = []" "es_freed start_encap_state = []" "es_statics start_encap_state = sample_statics"
  "TS_GS (initialBBHeader (es_frame_param start_encap_state)) = 1" "es_loop_count start_encap_state = 0"
proof -
  have f: "frag_state start_encap_state = idle_frag_state"
    by (simp add: start_encap_state_def init_encap_mem_def init_BBHeader_def init_ISLHeader_def init_fragment_info_def
        InitCircleQueue_def boot_encap_state_def frag_state_def idle_frag_state_def FRAGMENT_MAX_NUM_def Let_def
        zero_fragment_buffer_def idle_entry_def)
  show "frame_open e mx [] start_encap_state"
    by (simp add: start_encap_state_def init_encap_mem_def init_BBHeader_def init_ISLHeader_def init_fragment_info_def
        InitCircleQueue_def boot_encap_state_def frame_open_def GSE_MAX_NUM_def frame_gses_ok_def group_gses_def
        group_items_def Let_def)
  show "es_sent start_encap_state = []" "es_freed start_encap_state = []" "es_statics start_encap_state = sample_statics"
    "TS_GS (initialBBHeader (es_frame_param start_encap_state)) = 1" "es_loop_count start_encap_state = 0"
    by (simp_all add: start_encap_state_def init_encap_mem_def init_BBHeader_def init_ISLHeader_def init_fragment_info_def
        InitCircleQueue_def boot_encap_state_def Let_def)
  then show "no_fragment_waiting start_encap_state"
    using idle_inv sample_ok(3) by (simp add: no_fragment_waiting_def f) (simp add: queue_slots_def idle_frag_state_def)
qed


definition sample_tx :: "u16 \<Rightarrow> TX_MBUF" where
  "sample_tx len = \<lparr>tm_address = 0x2000, tm_data = 0x1000, tm_data_len = len, tm_protocol_type = 0x0800\<rparr>"

lemma payload_modcod_1: "map_modcod_payload (ee_modcode (sample_encap_env 1)) = Inr 1991"
  by (simp add: map_modcod_payload_def valid_payload_def sample_encap_env_def)




end
