(* ===== verification/ReceiveStream.thy ===== *)
theory ReceiveStream
  imports DecapGse
begin

text \<open>
  The receiver as the other end of a channel (\<open>src/decapsulate.c\<close>): whole PDUs and the two fragments
  of split PDUs, mixed in one stream of packets and distributed over frames.  Between the fragments
  of one PDU other whole PDUs may arrive; the fragment IDs come in any order.
\<close>

section \<open>What the reassembly of one fragment ID leaves alone\<close>

text \<open>The index list of a fragment ID holds both buffers.\<close>

definition index_ok :: "DECAP_STATE \<Rightarrow> nat \<Rightarrow> nat \<Rightarrow> bool" where
  "index_ok s port ID \<longleftrightarrow> in_range s port ID \<and> ds_index_list s ! port ! ID \<in> {[0, 1], [1, 0]}"

text \<open>Everything of the other fragment IDs is as before.\<close>

definition same_rows :: "nat \<Rightarrow> nat \<Rightarrow> DECAP_STATE \<Rightarrow> DECAP_STATE \<Rightarrow> bool" where
  "same_rows port ID s s' \<longleftrightarrow> (\<forall>p i. (p, i) \<noteq> (port, ID) \<longrightarrow> in_range s' p i = in_range s p i
     \<and> row_of s' p i = row_of s p i \<and> ds_index_list s' ! p ! i = ds_index_list s ! p ! i)
     \<and> (index_ok s port ID \<longrightarrow> index_ok s' port ID)"

lemma same_rows_trans: "same_rows port ID s s1 \<Longrightarrow> same_rows port ID s1 s2 \<Longrightarrow> same_rows port ID s s2"
  by (simp add: same_rows_def)

lemma same_rows_other_fields [simp]:
  "same_rows port ID s (s'\<lparr>ds_encap_ring := x\<rparr>) = same_rows port ID s s'"
  "same_rows port ID s (s'\<lparr>ds_freed := y\<rparr>) = same_rows port ID s s'"
  "same_rows port ID (s\<lparr>ds_freed := y\<rparr>) s' = same_rows port ID s s'"
  "same_rows port ID s (s'\<lparr>ds_previous_mac := z\<rparr>) = same_rows port ID s s'"
  "same_rows port ID (s\<lparr>ds_previous_mac := z\<rparr>) s' = same_rows port ID s s'"
  "same_rows port ID s s"
  by (simp_all add: same_rows_def index_ok_def in_range_def row_of_def)

lemma same_rows_free_pdu [simp]:
  "same_rows port ID s (free_pdu b s') = same_rows port ID s s'" "same_rows port ID (free_pdu b s) s' = same_rows port ID s s'"
  by (simp_all add: free_pdu_def split: option.split)

lemma same_rows_store_fi: "store_fi s port ID k fi = Inr s' \<Longrightarrow> same_rows port ID s s'"
  by (auto simp: store_fi_def same_rows_def index_ok_def in_range_def row_of_def load_at_def store_at_def store_i_def
      nth_list_update elim!: bind_okE split: if_split_asm)

lemma same_rows_select: "select_buffer s port ID ts = Inr (k, s') \<Longrightarrow> same_rows port ID s s'"
  by (auto simp: select_buffer_def next_buffer_def same_rows_def index_ok_def in_range_def row_of_def load_at_def store_at_def
      nth_list_update elim!: bind_okE split: if_split_asm list.split_asm)

lemmas same_rows_steps = same_rows_store_fi same_rows_select

lemma same_rows_start:
  "start_reassemble_pdu env p var ts hl len pt bi q s = Inr (r, k, s') \<Longrightarrow>
   same_rows q (unat (v_fragment_ID (variable_header_value var))) s s'"
  by (auto simp: start_reassemble_pdu_def Let_def elim!: bind_okE dest!: same_rows_steps
      split: option.split_asm if_split_asm prod.split_asm) (erule (1) same_rows_trans)+

lemma same_rows_keep:
  "keep_reassemble_pdu env ft p ID ts len bi q s = Inr (r, k, s') \<Longrightarrow> same_rows q (unat ID) s s'"
  by (auto simp: keep_reassemble_pdu_def Let_def elim!: bind_okE dest!: same_rows_steps
      split: option.split_asm if_split_asm) (erule (1) same_rows_trans)+

lemma same_rows_finish: "finish_at env q ID k s = Inr (r, s') \<Longrightarrow> same_rows q ID s s'"
  by (auto simp: finish_at_def elim!: bind_okE dest!: same_rows_steps)

lemma same_rows_reassemble:
  "reassemble_fragment env ft d var ts hl len nt bi q s = Inr (r, k, s') \<Longrightarrow>
   same_rows q (unat (v_fragment_ID (variable_header_value var))) s s'"
  by (auto simp: reassemble_fragment_def elim!: bind_okE
      dest!: same_rows_start same_rows_keep same_rows_finish split: if_split_asm) (erule (1) same_rows_trans)+

section \<open>Unused buffers\<close>

definition idle_buffer :: "FRAG_INFO \<Rightarrow> bool" where
  "idle_buffer fi \<longleftrightarrow> (\<forall>T ptype xs. asm_inv T ptype xs {} fi) \<and> fi_time_stamp fi = 0"

definition idle_row :: "DECAP_STATE \<Rightarrow> nat \<Rightarrow> nat \<Rightarrow> bool" where
  "idle_row s port ID \<longleftrightarrow> index_ok s port ID \<and> (\<forall>k < FRAG_BUFFER_NUM. idle_buffer (row_of s port ID ! k))"

lemma idle_row_job:
  assumes "idle_row s port ID"
  shows "\<exists>k. job_inv port ID k T ptype xs {} s \<and> idle_buffer (row_of s port ID ! (1 - k))"
proof -
  have i: "in_range s port ID" "ds_index_list s ! port ! ID \<in> {[0, 1], [1, 0]}" "idle_buffer (row_of s port ID ! 0)"
    "idle_buffer (row_of s port ID ! 1)"
    using assms by (simp_all add: idle_row_def index_ok_def FRAG_BUFFER_NUM_def)
  show ?thesis
  proof (cases "T = 0")
    case True
    then have "job_inv port ID 0 T ptype xs {} s" using i by (simp add: job_inv_def idle_buffer_def FRAG_BUFFER_NUM_def)
    then show ?thesis using i(4) by (intro exI [of _ 0]) simp
  next
    case False
    have "job_inv port ID (nat (hd (ds_index_list s ! port ! ID))) T ptype xs {} s"
      using i False by (auto simp: job_inv_def idle_buffer_def FRAG_BUFFER_NUM_def)
    moreover have "1 - nat (hd (ds_index_list s ! port ! ID)) \<in> {0, 1}" using i(2) by auto
    ultimately show ?thesis using i(3,4) by (intro exI [of _ "nat (hd (ds_index_list s ! port ! ID))"]) auto
  qed
qed

section \<open>The stream of packets\<close>

text \<open>
  A packet with the broadcast label as the sender of this program builds it: a whole PDU, or one of the two
  fragments of a PDU, the first with its first \<open>k\<close> bytes, the last with the rest and the CRC-32.  Only
  the first fragment carries the protocol type.
\<close>

datatype rx_pkt =
    PWhole u16 "u8 list"
  | PFirst u8 u16 u16 "u8 list" nat
  | PLast u8 u16 u16 "u8 list" nat

fun rx_packet :: "rx_pkt \<Rightarrow> gse_packet" where
  "rx_packet (PWhole ptype pdu) = WholePdu 2 [] ptype pdu"
| "rx_packet (PFirst ID T ptype pdu k) =
     FragPdu 1 0 2 [] ID (of_nat (6 + length pdu)) (push_bit 3 T) ptype (take k pdu)"
| "rx_packet (PLast ID T ptype pdu k) =
     FragPdu 0 1 2 [] ID 0 (push_bit 3 T OR 1) 0 (drop k pdu @ le32 (bswap32 (crc32_lookup_table pdu)))"

text \<open>The PDUs a stream delivers, in the order of their last packets.\<close>

fun delivered :: "rx_pkt list \<Rightarrow> (u32 \<times> u8 list) list" where
  "delivered [] = []"
| "delivered (PWhole ptype pdu # ps) = (ucast ptype, pdu) # delivered ps"
| "delivered (PFirst ID T ptype pdu k # ps) = delivered ps"
| "delivered (PLast ID T ptype pdu k # ps) = (ucast ptype, pdu) # delivered ps"

lemma delivered_append [simp]: "delivered (ps @ qs) = delivered ps @ delivered qs"
  by (induction ps rule: delivered.induct) simp_all

text \<open>
  The streams considered: at most one PDU waits for its last fragment, whose fragments fit into the
  buffers of the receiver (\<open>FRAG_MAX_LENGTH\<close> bytes).
\<close>

type_synonym rx_pending = "(u8 \<times> u16 \<times> u16 \<times> u8 list \<times> nat) option"

definition ip_type :: "u16 \<Rightarrow> bool" where
  "ip_type ptype \<longleftrightarrow> ptype = PROTOCOL_IPV4 \<or> ptype = PROTOCOL_IPV6"

definition frag_fits :: "u16 \<Rightarrow> u16 \<Rightarrow> u8 list \<Rightarrow> nat \<Rightarrow> bool" where
  "frag_fits T ptype pdu k \<longleftrightarrow> T < 8192 \<and> ip_type ptype \<and> k \<le> FRAG_MAX_LENGTH \<and> k \<le> length pdu
     \<and> length pdu - k + 4 \<le> FRAG_MAX_LENGTH"

fun rx_step :: "rx_pending \<Rightarrow> rx_pkt \<Rightarrow> rx_pending option" where
  "rx_step w (PWhole ptype pdu) = (if ip_type ptype \<and> length pdu \<le> 4093 then Some w else None)"
| "rx_step w (PFirst ID T ptype pdu k) =
     (if w = None \<and> frag_fits T ptype pdu k then Some (Some (ID, T, ptype, pdu, k)) else None)"
| "rx_step w (PLast ID T ptype pdu k) = (if w = Some (ID, T, ptype, pdu, k) then Some None else None)"

primrec rx_steps :: "rx_pending \<Rightarrow> rx_pkt list \<Rightarrow> rx_pending option" where
  "rx_steps w [] = Some w"
| "rx_steps w (p # ps) = (case rx_step w p of None \<Rightarrow> None | Some w' \<Rightarrow> rx_steps w' ps)"

lemma rx_steps_append:
  "rx_steps w (ps @ qs) = (case rx_steps w ps of None \<Rightarrow> None | Some w' \<Rightarrow> rx_steps w' qs)"
  by (induction ps arbitrary: w) (simp_all split: option.split)

text \<open>The buffers while the stream is in the state \<open>w\<close>.\<close>

definition rx_inv :: "nat \<Rightarrow> rx_pending \<Rightarrow> DECAP_STATE \<Rightarrow> bool" where
  "rx_inv q w s \<longleftrightarrow> (\<forall>i < MAX_FRAG_ID. case w of
     None \<Rightarrow> idle_row s q i
   | Some (ID, T, ptype, pdu, k) \<Rightarrow>
       if i = unat ID
       then frag_fits T ptype pdu k \<and> index_ok s q i
          \<and> (\<exists>b. job_inv q i b T ptype [take k pdu, drop k pdu] {0} s \<and> idle_buffer (row_of s q i ! (1 - b)))
       else idle_row s q i)"

lemma frag_pieces:
  assumes "frag_fits T ptype pdu k"
  shows "pieces_ok [take k pdu, drop k pdu]" "frag_data [take k pdu, drop k pdu] 0 = take k pdu"
    "frag_data [take k pdu, drop k pdu] 1 = drop k pdu @ le32 (bswap32 (crc32_lookup_table pdu))"
proof -
  show f: "frag_data [take k pdu, drop k pdu] 0 = take k pdu"
    "frag_data [take k pdu, drop k pdu] 1 = drop k pdu @ le32 (bswap32 (crc32_lookup_table pdu))"
    by (simp_all add: frag_data_def pdu_crc_def)
  have "length (frag_data [take k pdu, drop k pdu] i) \<le> FRAG_MAX_LENGTH" if "i < 2" for i
  proof -
    have "i = 0 \<or> i = 1" using that by arith
    then show ?thesis using f assms by (auto simp: frag_fits_def)
  qed
  then show "pieces_ok [take k pdu, drop k pdu]" by (simp add: pieces_ok_def FRAG_MAX_NUM_def)
qed

lemma idle_row_same: "same_rows q ID s s' \<Longrightarrow> i \<noteq> ID \<Longrightarrow> idle_row s q i \<Longrightarrow> idle_row s' q i"
  by (simp add: same_rows_def idle_row_def index_ok_def)

lemma idle_row_fields [simp]:
  "idle_row (s\<lparr>ds_previous_mac := p\<rparr>) q i = idle_row s q i" "idle_row (s\<lparr>ds_encap_ring := r\<rparr>) q i = idle_row s q i"
  "idle_row (s\<lparr>ds_freed := f\<rparr>) q i = idle_row s q i"
  "index_ok (s\<lparr>ds_previous_mac := p\<rparr>) q i = index_ok s q i" "index_ok (s\<lparr>ds_encap_ring := r\<rparr>) q i = index_ok s q i"
  "index_ok (s\<lparr>ds_freed := f\<rparr>) q i = index_ok s q i"
  by (simp_all add: idle_row_def index_ok_def in_range_def row_of_def)

lemma rx_inv_fields [simp]:
  "rx_inv q w (s\<lparr>ds_previous_mac := p\<rparr>) = rx_inv q w s" "rx_inv q w (s\<lparr>ds_encap_ring := r\<rparr>) = rx_inv q w s"
  "rx_inv q w (s\<lparr>ds_freed := f\<rparr>) = rx_inv q w s"
  by (simp_all add: rx_inv_def job_inv_def in_range_def row_of_def split: option.split)

section \<open>One packet of the stream\<close>

lemma not_ext_header: "\<not> regular_ext_header_type 0" "ip_type ptype \<Longrightarrow> \<not> regular_ext_header_type ptype"
  by (auto simp: regular_ext_header_type_def PDU_CONCAT_def TIME_STEMP_def FRAG_SEQUENCE_def ip_type_def
      PROTOCOL_IPV4_def PROTOCOL_IPV6_def)

lemma rx_packet_ok: "rx_step w p = Some w' \<Longrightarrow> (\<And>ID T pt pdu k. w = Some (ID, T, pt, pdu, k) \<Longrightarrow> frag_fits T pt pdu k) \<Longrightarrow> pkt_ok (rx_packet p)"
  by (cases p) (auto simp: not_ext_header label_length_def length_wire_frag_fields frag_fits_def FRAG_MAX_LENGTH_def
      split: if_splits)

lemma rx_inv_pending: "rx_inv q (Some (ID, T, pt, pdu, k)) s \<Longrightarrow> frag_fits T pt pdu k"
  using unat_u8_lt [of ID] by (auto simp: rx_inv_def MAX_FRAG_ID_def)

lemma rx_packet_label: "pkt_label cur (rx_packet p) = Some Broadcast"
  by (cases p) simp_all

lemma rx_ready_fresh:
  assumes "rx_ready env" "frag_fits T ptype pdu k"
  shows "fresh_mbuf env [take k pdu, drop k pdu]" "rx_ring_ok env"
  using assms by (auto simp: rx_ready_def fresh_mbuf_def frag_fits_def FRAG_MAX_LENGTH_def split: option.splits)

lemma rx_first:
  fixes var :: GSE_VARIABLE_HEADER
  assumes inv: "rx_inv q None s" and f: "frag_fits T ptype pdu k" and env: "rx_ready env"
    and var: "v_fragment_ID (variable_header_value var) = ID" "v_total_length (variable_header_value var) = of_nat (6 + length pdu)"
  shows "\<exists>r i s'. reassemble_fragment env FRAG_START (take k pdu @ rest) var (push_bit 3 T) 6 (of_nat k) ptype bi q s
      = Inr (r, i, s') \<and> rx_inv q (Some (ID, T, ptype, pdu, k)) s' \<and> ds_encap_ring s' = ds_encap_ring s
      \<and> ds_freed s' = ds_freed s"
proof -
  let ?xs = "[take k pdu, drop k pdu]"
  have I: "unat ID < MAX_FRAG_ID" using unat_u8_lt [of ID] by (simp add: MAX_FRAG_ID_def)
  then have idle: "idle_row s q (unat ID)" using inv by (simp add: rx_inv_def)
  from idle_row_job [OF this] obtain b where b: "job_inv q (unat ID) b T ptype ?xs {} s" "idle_buffer (row_of s q (unat ID) ! (1 - b))"
    by blast
  have j: "job_inv q (unat (v_fragment_ID (variable_header_value var))) b T ptype ?xs {} s" using b(1) var(1) by simp
  note P = frag_pieces [OF f]
  have T: "T < 8192" and pt: "ptype = PROTOCOL_IPV4 \<or> ptype = PROTOCOL_IPV6" and k: "k \<le> length pdu"
    using f by (simp_all add: frag_fits_def ip_type_def)
  have st: "fits_start var 6 ?xs \<and> ptype = ptype" using k by (simp add: fits_start_def var(2))
  have d: "take (length (frag_data ?xs 0)) (take k pdu @ rest) = frag_data ?xs 0" unfolding P(2) using k by simp
  have pp: "piece_position ?xs 0 = FRAG_START" "push_bit 3 T OR of_nat 0 = push_bit 3 T" "insert 0 {} \<noteq> {..<length ?xs}"
    "(0 :: nat) < length ?xs" "length (frag_data ?xs 0) = k"
    using k unfolding P(2) by (auto simp: piece_position_def)
  obtain r s' where r: "reassemble_fragment env FRAG_START (take k pdu @ rest) var (push_bit 3 T) 6 (of_nat k) ptype bi q s
      = Inr (r, int b, s')" "ds_freed s' = ds_freed s" "ds_encap_ring s' = ds_encap_ring s"
    "row_of s' q (unat ID) ! (1 - b) = row_of s q (unat ID) ! (1 - b)" "job_inv q (unat ID) b T ptype ?xs {0} s'"
    using receive_piece [OF j P(1) T pp(4) _ rx_ready_fresh [OF env f] pt st d, of bi] pp(3)
    unfolding pp(1,2,5) var(1) by auto
  have same: "same_rows q (unat ID) s s'" using same_rows_reassemble [OF r(1)] var(1) by simp
  have "rx_inv q (Some (ID, T, ptype, pdu, k)) s'"
    unfolding rx_inv_def
  proof (intro allI impI)
    fix i assume i: "i < MAX_FRAG_ID"
    show "case Some (ID, T, ptype, pdu, k) of None \<Rightarrow> idle_row s' q i | Some (ID, T, ptype, pdu, k) \<Rightarrow>
       if i = unat ID
       then frag_fits T ptype pdu k \<and> index_ok s' q i
          \<and> (\<exists>b. job_inv q i b T ptype [take k pdu, drop k pdu] {0} s' \<and> idle_buffer (row_of s' q i ! (1 - b)))
       else idle_row s' q i"
      using i f r(4,5) b(2) idle same inv idle_row_same [OF same] by (auto simp: rx_inv_def idle_row_def same_rows_def)
  qed
  then show ?thesis using r(1-3) by blast
qed

lemma rx_last:
  fixes var :: GSE_VARIABLE_HEADER
  assumes inv: "rx_inv q (Some (ID, T, ptype, pdu, k)) s" and env: "rx_ready env"
    and var: "v_fragment_ID (variable_header_value var) = ID"
  defines "d \<equiv> drop k pdu @ le32 (bswap32 (crc32_lookup_table pdu))"
  shows "\<exists>r i s' b. reassemble_fragment env FRAG_END (d @ rest) var (push_bit 3 T OR 1) hl (of_nat (length d)) nt bi q s
      = Inr (r, i, s') \<and> rx_inv q None s' \<and> ds_encap_ring s' = ds_encap_ring s @ [b] \<and> pdu_of b = (ucast ptype, pdu)
      \<and> ds_freed s' = ds_freed s"
proof -
  let ?xs = "[take k pdu, drop k pdu]"
  have f: "frag_fits T ptype pdu k" by (rule rx_inv_pending [OF inv])
  have I: "unat ID < MAX_FRAG_ID" using unat_u8_lt [of ID] by (simp add: MAX_FRAG_ID_def)
  with inv have "index_ok s q (unat ID) \<and>
      (\<exists>b. job_inv q (unat ID) b T ptype ?xs {0} s \<and> idle_buffer (row_of s q (unat ID) ! (1 - b)))"
    by (simp add: rx_inv_def del: One_nat_def)
  then obtain b where b: "job_inv q (unat ID) b T ptype ?xs {0} s" "idle_buffer (row_of s q (unat ID) ! (1 - b))"
    "index_ok s q (unat ID)"
    by blast
  have j: "job_inv q (unat (v_fragment_ID (variable_header_value var))) b T ptype ?xs {0} s" using b(1) var(1) by simp
  note P = frag_pieces [OF f]
  have T: "T < 8192" and pt: "ptype = PROTOCOL_IPV4 \<or> ptype = PROTOCOL_IPV6"
    using f by (simp_all add: frag_fits_def ip_type_def)
  have dd: "take (length (frag_data ?xs 1)) (d @ rest) = frag_data ?xs 1" unfolding P(3) d_def by simp
  have pp: "piece_position ?xs 1 = FRAG_END" "push_bit 3 T OR of_nat 1 = push_bit 3 T OR 1" "insert 1 {0} = {..<length ?xs}"
    "(1 :: nat) < length ?xs" "(1 :: nat) \<notin> {0}" "frag_data ?xs 1 = d" "concat ?xs = pdu"
    unfolding P(3) by (auto simp: piece_position_def d_def)
  have z: "1 = (0 :: nat) \<Longrightarrow> fits_start var hl ?xs \<and> nt = ptype" by simp
  obtain r s' m where r: "reassemble_fragment env FRAG_END (d @ rest) var (push_bit 3 T OR 1) hl (of_nat (length d)) nt bi q s
      = Inr (r, int b, s')" "ds_freed s' = ds_freed s" "ds_encap_ring s' = ds_encap_ring s @ [m]" "mb_data m = pdu"
    "mb_protocol_type m = ucast ptype"
    "row_of s' q (unat ID) ! (1 - b) = row_of s q (unat ID) ! (1 - b)" "idle_buffer (row_of s' q (unat ID) ! b)"
    using receive_piece [OF j P(1) T pp(4,5) rx_ready_fresh [OF env f] pt z dd, of bi]
    unfolding pp(1,2,3,6,7) var(1) if_P [OF refl] by (auto simp: idle_buffer_def)
  have same: "same_rows q (unat ID) s s'" using same_rows_reassemble [OF r(1)] var(1) by simp
  have bb: "b = 0 \<or> b = 1" using b(1) by (auto simp: job_inv_def FRAG_BUFFER_NUM_def)
  have "idle_buffer (row_of s' q (unat ID) ! i)" if "i < FRAG_BUFFER_NUM" for i
  proof -
    have "i = 0 \<or> i = 1" using that by (auto simp: FRAG_BUFFER_NUM_def)
    then have "i = b \<or> i = 1 - b" using bb by auto
    then show ?thesis using r(6,7) b(2) by auto
  qed
  then have row: "idle_row s' q (unat ID)" using b(3) same by (simp add: idle_row_def same_rows_def)
  have "rx_inv q None s'"
    unfolding rx_inv_def
  proof (intro allI impI)
    fix i assume i: "i < MAX_FRAG_ID"
    have "i \<noteq> unat ID \<Longrightarrow> idle_row s q i" using inv i by (auto simp: rx_inv_def)
    then have "idle_row s' q i" using row idle_row_same [OF same] by (cases "i = unat ID") simp_all
    then show "case None of None \<Rightarrow> idle_row s' q i | Some (ID, T, ptype, pdu, k) \<Rightarrow>
       if i = unat ID
       then frag_fits T ptype pdu k \<and> index_ok s' q i
          \<and> (\<exists>b. job_inv q i b T ptype [take k pdu, drop k pdu] {0} s' \<and> idle_buffer (row_of s' q i ! (1 - b)))
       else idle_row s' q i" by simp
  qed
  then show ?thesis using r(1-5) by (auto simp: pdu_of_def)
qed

text \<open>One packet of the stream, with anything behind it.\<close>

lemma rx_packet_step:
  assumes st: "rx_step w p = Some w'" and inv: "rx_inv q w s" and env: "rx_ready env"
    and junk: "length (v_label junk) = 6" and mac: "length mac = 6"
    and rel: "mac_info_rel cur (ds_previous_mac s)" "first_rel mac cur (dl_bfirst_gse loc)"
    and len: "length (pkt_bytes (rx_packet p) @ rest) \<le> 65535"
  shows "\<exists>n loc' s' bs. decapsulate_packet env junk mac q (pkt_bytes (rx_packet p) @ rest) loc s = Inr (n, loc', s')
    \<and> rx_inv q w' s' \<and> ds_encap_ring s' = ds_encap_ring s @ bs \<and> map pdu_of bs = delivered [p]
    \<and> ds_freed s' = ds_freed s
    \<and> mac_info_rel (Some Broadcast) (ds_previous_mac s') \<and> first_rel mac (Some Broadcast) (dl_bfirst_gse loc')"
proof -
  have us: "label_for_us mac (Some Broadcast)" by (simp add: label_for_us_def)
  have ok: "pkt_ok (rx_packet p)"
    using rx_packet_ok [OF st] inv rx_inv_pending by blast
  show ?thesis
  proof (cases p)
    case (PWhole ptype pdu)
    have w: "w' = w" "ptype = PROTOCOL_IPV4 \<or> ptype = PROTOCOL_IPV6" "length pdu < 4096"
      using st PWhole by (auto simp: ip_type_def split: if_splits)
    obtain p' where d: "mac_info_rel (Some Broadcast) p'" "first_rel mac (Some Broadcast) False"
      "decapsulate_packet env junk mac q (pkt_bytes (rx_packet p) @ rest) loc s
        = bind_ok (get_single_pdu env (Some (pdu @ rest)) (of_nat (length pdu)) ptype (dl_inrouter_time loc)
            (s\<lparr>ds_previous_mac := p'\<rparr>))
          (\<lambda>(_, s2). Inr (of_nat (pkt_gse_length (rx_packet p)), loc\<lparr>dl_bfirst_gse := False, dl_inrouter_time := 0\<rparr>, s2))"
      using decapsulate_whole [of 2 "[]" ptype pdu rest junk mac cur s loc env q] ok len junk mac rel us
      unfolding PWhole rx_packet.simps by (auto simp: Let_def)
    obtain b where b: "get_single_pdu env (Some (pdu @ rest)) (of_nat (length pdu)) ptype (dl_inrouter_time loc)
        (s\<lparr>ds_previous_mac := p'\<rparr>) = Inr (Some 0, (s\<lparr>ds_previous_mac := p'\<rparr>)\<lparr>ds_encap_ring := ds_encap_ring s @ [b]\<rparr>)"
      "pdu_of b = (ucast ptype, pdu)"
      using get_single_pdu_delivers [OF env w(2,3), of rest "dl_inrouter_time loc" "s\<lparr>ds_previous_mac := p'\<rparr>"] by auto
    show ?thesis using d b inv w(1) by (simp add: PWhole)
  next
    case (PFirst ID T ptype pdu k)
    have w: "w = None" "frag_fits T ptype pdu k" "w' = Some (ID, T, ptype, pdu, k)"
      using st PFirst by (auto split: if_splits)
    then have k: "min (length pdu) k = k" by (simp add: frag_fits_def)
    obtain p' var where d: "mac_info_rel (Some Broadcast) p'" "v_fragment_ID (variable_header_value var) = ID"
      "v_total_length (variable_header_value var) = of_nat (6 + length pdu)" "first_rel mac (Some Broadcast) False"
      "decapsulate_packet env junk mac q (pkt_bytes (rx_packet p) @ rest) loc s
        = bind_ok (reassemble_fragment env FRAG_START (take k pdu @ rest) var (push_bit 3 T) 6 (of_nat k) ptype
            (dl_buffer_index loc) q (s\<lparr>ds_previous_mac := p'\<rparr>))
          (\<lambda>(_, i, s2). Inr (of_nat (pkt_gse_length (rx_packet p)), loc\<lparr>dl_bfirst_gse := False,
              dl_timestamp_seq := push_bit 3 T, dl_buffer_index := i\<rparr>, s2))"
      using decapsulate_frag [of 1 0 2 "[]" ID "of_nat (6 + length pdu)" "push_bit 3 T" ptype "take k pdu" rest junk mac cur s
          loc env q] ok len junk mac rel us k
      unfolding PFirst rx_packet.simps by (auto simp: Let_def)
    have inv': "rx_inv q None (s\<lparr>ds_previous_mac := p'\<rparr>)" using inv w(1) by simp
    obtain r i s2 where r: "reassemble_fragment env FRAG_START (take k pdu @ rest) var (push_bit 3 T) 6 (of_nat k) ptype
            (dl_buffer_index loc) q (s\<lparr>ds_previous_mac := p'\<rparr>) = Inr (r, i, s2)"
      "rx_inv q w' s2" "ds_encap_ring s2 = ds_encap_ring s" "ds_freed s2 = ds_freed s"
      using rx_first [OF inv' w(2) env d(2,3), of rest "dl_buffer_index loc"] w(3) by auto
    have "ds_previous_mac s2 = p'" using reassemble_fragment_mac [OF r(1)] by simp
    then show ?thesis using d r by (simp add: PFirst)
  next
    case (PLast ID T ptype pdu k)
    have w: "w = Some (ID, T, ptype, pdu, k)" "w' = None" using st PLast by (auto split: if_splits)
    let ?d = "drop k pdu @ le32 (bswap32 (crc32_lookup_table pdu))"
    obtain p' var where d: "mac_info_rel (Some Broadcast) p'" "v_fragment_ID (variable_header_value var) = ID"
      "first_rel mac (Some Broadcast) False"
      "decapsulate_packet env junk mac q (pkt_bytes (rx_packet p) @ rest) loc s
        = bind_ok (reassemble_fragment env FRAG_END (?d @ rest) var (push_bit 3 T OR 1) 6 (of_nat (length ?d)) 0
            (dl_buffer_index loc) q (s\<lparr>ds_previous_mac := p'\<rparr>))
          (\<lambda>(_, i, s2). Inr (of_nat (pkt_gse_length (rx_packet p)), loc\<lparr>dl_bfirst_gse := False,
              dl_timestamp_seq := push_bit 3 T OR 1, dl_buffer_index := i\<rparr>, s2))"
      using decapsulate_frag [of 0 1 2 "[]" ID 0 "push_bit 3 T OR 1" 0 ?d rest junk mac cur s loc env q] ok len junk mac rel us
      unfolding PLast rx_packet.simps by (auto simp: Let_def)
    have inv': "rx_inv q (Some (ID, T, ptype, pdu, k)) (s\<lparr>ds_previous_mac := p'\<rparr>)" using inv w(1) by simp
    obtain r i s2 b where r: "reassemble_fragment env FRAG_END (?d @ rest) var (push_bit 3 T OR 1) 6 (of_nat (length ?d)) 0
            (dl_buffer_index loc) q (s\<lparr>ds_previous_mac := p'\<rparr>) = Inr (r, i, s2)"
      "rx_inv q None s2" "ds_encap_ring s2 = ds_encap_ring s @ [b]" "pdu_of b = (ucast ptype, pdu)" "ds_freed s2 = ds_freed s"
      using rx_last [OF inv' env d(2), of rest 6 0 "dl_buffer_index loc"] by auto
    have "ds_previous_mac s2 = p'" using reassemble_fragment_mac [OF r(1)] by simp
    then show ?thesis using d r w(2) by (simp add: PLast)
  qed
qed

section \<open>The packets of a frame\<close>

lemma rx_steps_ok:
  "rx_steps w ps = Some w' \<Longrightarrow> (\<And>ID T pt pdu k. w = Some (ID, T, pt, pdu, k) \<Longrightarrow> frag_fits T pt pdu k) \<Longrightarrow>
   list_all pkt_ok (map rx_packet ps)"
proof (induction ps arbitrary: w)
  case (Cons p ps)
  obtain w1 where w1: "rx_step w p = Some w1" "rx_steps w1 ps = Some w'"
    using Cons.prems(1) by (auto split: option.splits)
  have "frag_fits T pt pdu k" if "w1 = Some (ID, T, pt, pdu, k)" for ID T pt pdu k
    using w1(1) that Cons.prems(2) by (cases p) (auto split: if_splits)
  from Cons.IH [OF w1(2) this] rx_packet_ok [OF w1(1) Cons.prems(2)] show ?case by simp
qed simp

lemma visit_stream:
  assumes env: "\<And>pos. rx_ready (env pos)" and junk: "\<And>pos. length (v_label (junk pos)) = 6" and mac: "length mac = 6"
  shows "rx_steps w ps = Some w' \<Longrightarrow> rx_inv q w s \<Longrightarrow>
    length (concat (map pkt_bytes (map rx_packet ps)) @ post) \<le> 65535 \<Longrightarrow>
    mac_info_rel cur (ds_previous_mac s) \<Longrightarrow> first_rel mac cur (dl_bfirst_gse loc) \<Longrightarrow>
    \<exists>loc' s' bs. visit_packets env junk mac q post (map rx_packet ps) pos loc s = Inr (loc', s')
      \<and> rx_inv q w' s' \<and> ds_encap_ring s' = ds_encap_ring s @ bs \<and> map pdu_of bs = delivered ps
      \<and> ds_freed s' = ds_freed s \<and> length (pm_mac_address (ds_previous_mac s')) = 6"
proof (induction ps arbitrary: w cur pos loc s)
  case Nil
  then show ?case by (auto simp: mac_info_rel_def)
next
  case (Cons p ps)
  let ?rest = "concat (map pkt_bytes (map rx_packet ps)) @ post"
  obtain w1 where w1: "rx_step w p = Some w1" "rx_steps w1 ps = Some w'"
    using Cons.prems(1) by (auto split: option.splits)
  have l: "length (pkt_bytes (rx_packet p) @ ?rest) \<le> 65535" "length ?rest \<le> 65535" using Cons.prems(3) by simp_all
  obtain n loc1 s1 bs where s1: "decapsulate_packet (env pos) (junk pos) mac q (pkt_bytes (rx_packet p) @ ?rest) loc s
      = Inr (n, loc1, s1)" "rx_inv q w1 s1" "ds_encap_ring s1 = ds_encap_ring s @ bs" "map pdu_of bs = delivered [p]"
    "ds_freed s1 = ds_freed s" "mac_info_rel (Some Broadcast) (ds_previous_mac s1)"
    "first_rel mac (Some Broadcast) (dl_bfirst_gse loc1)"
    using rx_packet_step [OF w1(1) Cons.prems(2) env junk mac Cons.prems(4,5) l(1)] by blast
  obtain loc' s' bs' where s': "visit_packets env junk mac q post (map rx_packet ps) (pos + length (pkt_bytes (rx_packet p))) loc1 s1
      = Inr (loc', s')" "rx_inv q w' s'" "ds_encap_ring s' = ds_encap_ring s1 @ bs'" "map pdu_of bs' = delivered ps"
    "ds_freed s' = ds_freed s1" "length (pm_mac_address (ds_previous_mac s')) = 6"
    using Cons.IH [OF w1(2) s1(2) l(2) s1(6,7)] by blast
  have "visit_packets env junk mac q post (map rx_packet (p # ps)) pos loc s = Inr (loc', s')"
    unfolding list.map visit_packets.simps s1(1) bind_ok.simps prod.case s'(1) by (rule refl)
  moreover have "delivered (p # ps) = delivered [p] @ delivered ps" using delivered_append [of "[p]" ps] by simp
  ultimately show ?case using s' s1(3-5) by (intro exI [of _ loc'] exI [of _ s'] exI [of _ "bs @ bs'"]) simp
qed

lemma dispatch_stream:
  assumes fr: "bb_frame fs (map rx_packet ps) post (mb_data m)" "ps \<noteq> []"
    and st: "rx_steps w ps = Some w'" "rx_inv q w s" "length (pm_mac_address (ds_previous_mac s)) = 6"
    and env: "\<And>pos. rx_ready (env pos)" and junk: "\<And>pos. length (v_label (junk pos)) = 6" and mac: "length mac = 6"
  shows "\<exists>s' bs m'. dispatch_decap_pkt env junk index0 mac pdu_packs fp m q s = Inr (s', None, None)
    \<and> rx_inv q w' s' \<and> length (pm_mac_address (ds_previous_mac s')) = 6
    \<and> ds_encap_ring s' = ds_encap_ring s @ bs \<and> map pdu_of bs = delivered ps
    \<and> ds_freed s' = ds_freed s @ [m'] \<and> mb_data m' = mb_data m"
proof -
  have ok: "list_all pkt_ok (map rx_packet ps)" using rx_steps_ok [OF st(1)] st(2) rx_inv_pending by blast
  obtain pre where "mb_data m = pre @ concat (map pkt_bytes (map rx_packet ps)) @ post" "length (mb_data m) \<le> 65535"
    using process_bb_frame [OF fr(1), of fp] fr(1) by (auto simp: bb_frame_def)
  then have len: "length (concat (map pkt_bytes (map rx_packet ps)) @ post) \<le> 65535" by simp
  define loc where "loc = \<lparr>dl_timestamp_seq = 0, dl_buffer_index = index0,
      dl_inrouter_time = (if mb_delay_time_mark_flag m = 1 then mb_inrouter_time m else 0), dl_bfirst_gse = True\<rparr>"
  have rel: "mac_info_rel None (ds_previous_mac s)" "first_rel mac None (dl_bfirst_gse loc)"
    using st(3) by (simp_all add: mac_info_rel_def first_rel_def label_for_us_def loc_def)
  obtain loc' s1 bs where v: "visit_packets env junk mac q post (map rx_packet ps) 66 loc s = Inr (loc', s1)"
    "rx_inv q w' s1" "ds_encap_ring s1 = ds_encap_ring s @ bs" "map pdu_of bs = delivered ps" "ds_freed s1 = ds_freed s"
    "length (pm_mac_address (ds_previous_mac s1)) = 6"
    using visit_stream [where env = env and junk = junk and pos = 66, OF env junk mac st(1,2) len rel] by blast
  let ?m = "if mb_delay_time_mark_flag m = 1 then m\<lparr>mb_delay_time_mark_flag := 0\<rparr> else m"
  have ne: "map rx_packet ps \<noteq> []" using fr(2) by simp
  have "dispatch_decap_pkt env junk index0 mac pdu_packs fp m q s = Inr (free_pdu (Some ?m) s1, None, None)"
    unfolding dispatch_bb_frame [OF fr(1) ne ok junk] loc_def [symmetric] v(1) by simp
  then show ?thesis using v(2-6)
    by (intro exI [of _ "free_pdu (Some ?m) s1"] exI [of _ bs] exI [of _ ?m]) (simp add: free_pdu_def)
qed

section \<open>A link that delivers frame by frame\<close>

text \<open>
  The contract between the sender and the receiver of frames: when the receiver is in the state of the
  protocol, one frame with the packets \<open>ps\<close> takes it to the next state and delivers \<open>out ps\<close>.  Then a
  sequence of frames delivers what the concatenation of their packets does, however the packets are
  distributed over the frames.
\<close>

locale frame_link =
  fixes inv :: "'w \<Rightarrow> 's \<Rightarrow> bool"
    and steps :: "'w \<Rightarrow> 'p list \<Rightarrow> 'w option"
    and out :: "'p list \<Rightarrow> 'o list"
    and carries_packets :: "'p list \<Rightarrow> 'm \<Rightarrow> bool"
    and receive :: "'m \<Rightarrow> 's \<Rightarrow> 's outcome"
    and ring :: "'s \<Rightarrow> 'b list"
    and view :: "'b \<Rightarrow> 'o"
    and released :: "'s \<Rightarrow> 'c list"
    and content :: "'m \<Rightarrow> 'c"
  assumes steps_Nil: "steps w [] = Some w"
    and steps_append: "steps w (ps @ qs) = (case steps w ps of None \<Rightarrow> None | Some w' \<Rightarrow> steps w' qs)"
    and out_append: "out (ps @ qs) = out ps @ out qs"
    and receive_frame: "inv w s \<Longrightarrow> carries_packets ps m \<Longrightarrow> steps w ps = Some w' \<Longrightarrow>
      \<exists>s' bs. receive m s = Inr s' \<and> inv w' s' \<and> ring s' = ring s @ bs \<and> map view bs = out ps
        \<and> released s' = released s @ [content m]"
begin

lemma out_Nil: "out [] = []"
  using out_append [of "[]" "[]"] by simp

lemma receive_frames:
  "list_all2 carries_packets pss ms \<Longrightarrow> inv w s \<Longrightarrow> steps w (concat pss) = Some w' \<Longrightarrow>
   \<exists>s' bs. for_each ms receive s = Inr s' \<and> inv w' s' \<and> ring s' = ring s @ bs \<and> map view bs = out (concat pss)
     \<and> released s' = released s @ map content ms"
proof (induction pss arbitrary: ms w s)
  case Nil
  then show ?case by (simp add: out_Nil steps_Nil)
next
  case (Cons ps pss)
  obtain m ms' where ms: "ms = m # ms'" "carries_packets ps m" "list_all2 carries_packets pss ms'"
    using Cons.prems(1) by (cases ms) auto
  obtain w1 where w1: "steps w ps = Some w1" "steps w1 (concat pss) = Some w'"
    using Cons.prems(3) by (cases "steps w ps") (simp_all add: steps_append)
  obtain s1 bs where s1: "receive m s = Inr s1" "inv w1 s1" "ring s1 = ring s @ bs" "map view bs = out ps"
    "released s1 = released s @ [content m]"
    using receive_frame [OF Cons.prems(2) ms(2) w1(1)] by blast
  obtain s' bs' where "for_each ms' receive s1 = Inr s'" "inv w' s'" "ring s' = ring s1 @ bs'" "map view bs' = out (concat pss)"
    "released s' = released s1 @ map content ms'"
    using Cons.IH [OF ms(3) s1(2) w1(2)] by blast
  then show ?case using s1 ms(1) by (intro exI [of _ s'] exI [of _ "bs @ bs'"]) (simp add: out_append)
qed

end

text \<open>\<open>dispatch_decap_pkt\<close> is such a receiver; its environment is one that never refuses an mbuf.\<close>

definition rx_env_ok :: "(nat \<Rightarrow> RX_ENV) \<Rightarrow> (nat \<Rightarrow> GSE_VARIABLE_HEADER_VALUE) \<Rightarrow> u8 list \<Rightarrow> bool" where
  "rx_env_ok env junk mac \<longleftrightarrow> (\<forall>pos. rx_ready (env pos) \<and> length (v_label (junk pos)) = 6) \<and> length mac = 6"

definition bb_carries :: "rx_pkt list \<Rightarrow> MBUF \<Rightarrow> bool" where
  "bb_carries ps m \<longleftrightarrow> ps \<noteq> [] \<and> (\<exists>fs post. bb_frame fs (map rx_packet ps) post (mb_data m))"

definition link_inv :: "(nat \<Rightarrow> RX_ENV) \<Rightarrow> (nat \<Rightarrow> GSE_VARIABLE_HEADER_VALUE) \<Rightarrow> u8 list \<Rightarrow> nat \<Rightarrow> rx_pending \<Rightarrow> DECAP_STATE \<Rightarrow> bool" where
  "link_inv env junk mac q w s \<longleftrightarrow> rx_env_ok env junk mac \<and> rx_inv q w s \<and> length (pm_mac_address (ds_previous_mac s)) = 6"

interpretation decap_link: frame_link "link_inv env junk mac q" rx_steps delivered bb_carries
    "\<lambda>m s. bind_ok (dispatch_decap_pkt env junk index0 mac pdu_packs fp m q s) (\<lambda>(s', _, _). Inr s')"
    ds_encap_ring pdu_of "\<lambda>s. map mb_data (ds_freed s)" mb_data
  for env junk mac q index0 pdu_packs fp
proof
  fix w s ps m w'
  assume i: "link_inv env junk mac q w s" and c: "bb_carries ps m" and st: "rx_steps w ps = Some w'"
  obtain fs post where f: "bb_frame fs (map rx_packet ps) post (mb_data m)" "ps \<noteq> []" using c by (auto simp: bb_carries_def)
  have e: "\<And>pos. rx_ready (env pos)" "\<And>pos. length (v_label (junk pos)) = 6" "length mac = 6"
    and r: "rx_inv q w s" "length (pm_mac_address (ds_previous_mac s)) = 6"
    using i by (simp_all add: link_inv_def rx_env_ok_def)
  from dispatch_stream [where env = env and junk = junk and ?index0.0 = index0 and pdu_packs = pdu_packs and fp = fp, OF f st r e]
  show "\<exists>s' bs. bind_ok (dispatch_decap_pkt env junk index0 mac pdu_packs fp m q s) (\<lambda>(s', _, _). Inr s') = Inr s'
      \<and> link_inv env junk mac q w' s' \<and> ds_encap_ring s' = ds_encap_ring s @ bs \<and> map pdu_of bs = delivered ps
      \<and> map mb_data (ds_freed s') = map mb_data (ds_freed s) @ [mb_data m]"
    using i by (auto simp: link_inv_def)
qed (simp_all add: rx_steps_append)

text \<open>A burst of frames.\<close>

lemma burst_delivers:
  assumes "list_all2 bb_carries pss frames" "link_inv env junk mac q w s" "rx_steps w (concat pss) = Some w'"
  shows "\<exists>s' bs. decap_burst env junk index0 mac pdu_packs fp q frames s = Inr s' \<and> link_inv env junk mac q w' s'
    \<and> ds_encap_ring s' = ds_encap_ring s @ bs \<and> map pdu_of bs = delivered (concat pss)
    \<and> map mb_data (ds_freed s') = map mb_data (ds_freed s) @ map mb_data frames"
  using decap_link.receive_frames [OF assms] unfolding decap_burst_def by blast

lemma start_link:
  assumes "q < MAX_DEVICE_NUM" "rx_env_ok env junk mac"
  shows "link_inv env junk mac q None start_decap_state"
proof -
  have "idle_row start_decap_state q i" if "i < MAX_FRAG_ID" for i
    using start_row [OF assms(1) that]
    by (auto simp: idle_row_def index_ok_def idle_buffer_def FRAG_BUFFER_NUM_def asm_inv_def init_frag_entry_def
        zero_frag_info_def less_2_cases_iff)
  then show ?thesis
    using assms(2) by (simp add: link_inv_def rx_inv_def start_decap_state_def init_decap_mem_def boot_decap_state_def)
qed

end
