(* ===== verification/Channel.thy ===== *)
theory Channel
  imports Encapsulate ReceiveStream "HOL-Library.Multiset"
begin

text \<open>
  The sending channel over many passes (\<open>encapsulate_thread\<close>, one thread per channel): bursts of PDUs
  of any size, at most one of each burst too long for the frame under construction.  A plan on
  lengths says which PDU goes where; the channel follows it, and the frames it sends carry a stream
  of packets the receiver understands.
\<close>

section \<open>Packets of the channel\<close>

datatype tx_pkt =
    TWhole TX_MBUF
  | TFirst TX_MBUF nat u8 u16
  | TLast TX_MBUF nat u8 u16

fun tx_item :: "ENCAP_ENV \<Rightarrow> tx_pkt \<Rightarrow> item" where
  "tx_item e (TWhole m) = whole_item e m"
| "tx_item e (TFirst m k ID T) = (first_fragment e m k ID T, [])"
| "tx_item e (TLast m k ID T) = (last_fragment e m k ID T, [tm_address m])"

definition pdu_type :: "TX_MBUF \<Rightarrow> u16" where
  "pdu_type m = ucast (tm_protocol_type m)"

fun tx_rx :: "ENCAP_ENV \<Rightarrow> tx_pkt \<Rightarrow> rx_pkt" where
  "tx_rx e (TWhole m) = PWhole (pdu_type m) (pdu_data e m)"
| "tx_rx e (TFirst m k ID T) = PFirst ID T (pdu_type m) (pdu_data e m) k"
| "tx_rx e (TLast m k ID T) = PLast ID T (pdu_type m) (pdu_data e m) k"

fun tx_fits :: "tx_pkt \<Rightarrow> bool" where
  "tx_fits (TWhole m) \<longleftrightarrow> True"
| "tx_fits (TFirst m k ID T) \<longleftrightarrow> k \<le> unat (tm_data_len m)"
| "tx_fits (TLast m k ID T) \<longleftrightarrow> k \<le> unat (tm_data_len m)"

lemma length_pdu_data [simp]: "length (pdu_data e m) = unat (tm_data_len m)"
  by (simp add: pdu_data_def)

lemma tx_item_bytes: "tx_fits p \<Longrightarrow> fst (tx_item e p) = pkt_bytes (rx_packet (tx_rx e p))"
  by (cases p) (simp_all add: whole_item_bytes first_fragment_def last_fragment_def fragment_header_def wire_gse_header_def
      wire_frag_fields_def pdu_type_def)

text \<open>What is given away by the frames with the packets: the PDUs and their mbufs.\<close>

definition pdu_desc :: "ENCAP_ENV \<Rightarrow> TX_MBUF \<Rightarrow> u32 \<times> u8 list" where
  "pdu_desc e m = (ucast (pdu_type m), pdu_data e m)"

fun finished :: "tx_pkt list \<Rightarrow> TX_MBUF list" where
  "finished [] = []"
| "finished (TWhole m # ps) = m # finished ps"
| "finished (TFirst m k ID T # ps) = finished ps"
| "finished (TLast m k ID T # ps) = m # finished ps"

lemma finished_append [simp]: "finished (ps @ qs) = finished ps @ finished qs"
  by (induction ps rule: finished.induct) simp_all

lemma finished_delivered: "delivered (map (tx_rx e) ps) = map (pdu_desc e) (finished ps)"
  by (induction ps rule: finished.induct) (simp_all add: pdu_desc_def)

lemma finished_freed: "items_freed (map (tx_item e) ps) = map tm_address (finished ps)"
  by (induction ps rule: finished.induct) (simp_all add: items_freed_def whole_item_def)

text \<open>The frames the channel sends are frames for the receiver.\<close>

lemma carries_bb_frame:
  assumes c: "carries c bb mx (items_bytes (map (tx_item e) ps)) frame" and mx: "unat mx \<le> 7264"
    and t: "port_to_pkt_type c = ENUM_FWD_Tx_FWD_Data" "TS_GS bb = 0 \<or> TS_GS bb = 1" and ok: "list_all tx_fits ps"
  shows "\<exists>fs post. bb_frame fs (map rx_packet (map (tx_rx e) ps)) post frame"
proof -
  have d: "items_bytes (map (tx_item e) ps) = concat (map pkt_bytes (map rx_packet (map (tx_rx e) ps)))"
    using ok by (induction ps) (simp_all add: items_bytes_def tx_item_bytes)
  let ?B = "concat (map pkt_bytes (map rx_packet (map (tx_rx e) ps)))"
  obtain inner tx where f: "frame = inner @ tx @ BBHEADER_bytes (data_header bb (length ?B)) @ ?B @ replicate (unat mx - length ?B) 0"
    "length ?B \<le> unat mx" "length inner = L2L1_MSG_HEADER_SIZE" "length tx = L2L1_HEADER_SIZE"
    "take 2 (drop 12 inner) = le16 (bswap16 0x9101)" "inner ! 17 = port_to_pkt_type c"
    "take 2 (drop 10 tx) = le16 (bswap16 (of_nat BBHEADER_SIZE + mx))"
    using c unfolding carries_def d by blast
  let ?h = "data_header bb (length ?B)"
  have "BBHEADER_body (h\<lparr>bb_CRC8 := x\<rparr>) = BBHEADER_body h" for h x by (simp add: BBHEADER_body_def matype1_def)
  then have id: "identify_gs (Some ?h) = 0" "bb_DFL ?h = bswap16 (of_nat (8 * length ?B))"
    using t(2) by (auto simp: identify_gs_def data_header_def Let_def)
  have "unat (of_nat BBHEADER_SIZE + mx) = BBHEADER_SIZE + unat mx"
    using mx by (subst unat_add_lt) (simp_all add: header_size_defs)
  then have "bb_frame (of_nat BBHEADER_SIZE + mx) (map rx_packet (map (tx_rx e) ps)) (replicate (unat mx - length ?B) 0) frame"
    using f id mx t(1) unfolding bb_frame_def
    by (intro exI [of _ inner] exI [of _ tx] exI [of _ ?h]) (simp add: header_size_defs)
  then show ?thesis by blast
qed

section \<open>The plan\<close>

text \<open>
  The state of the plan: the bytes and the packets in the frame under construction, and the PDU whose
  second fragment waits, with the size of its first one.  Every step also says which PDUs are finished.
\<close>

type_synonym plan_state = "nat \<times> nat \<times> (TX_MBUF \<times> nat) option"

definition close_if_full :: "nat \<Rightarrow> nat \<Rightarrow> nat \<Rightarrow> nat \<Rightarrow> nat \<times> nat" where
  "close_if_full mx th l c = (if mx - l < th then (0, 0) else (l, c))"

definition plan_pdu :: "u16 \<Rightarrow> nat \<Rightarrow> plan_state \<Rightarrow> TX_MBUF \<Rightarrow> (plan_state \<times> TX_MBUF list) option" where
  "plan_pdu mx th st m =
     (let (l, c, w) = st; n = unat (tm_data_len m); room = unat mx - l in
      if \<not> (sendable m \<and> ip_type (pdu_type m) \<and> c < 255) then None
      else if l + 4 + n \<le> unat mx
      then (let (l', c') = close_if_full (unat mx) th (l + 4 + n) (Suc c) in Some ((l', c', w), [m]))
      else if w = None \<and> n \<le> 1514 \<and> th \<le> room \<and> n + 15 - room < middle_room mx
      then Some ((0, 0, Some (m, room - 11)), [])
      else None)"

primrec plan_burst :: "u16 \<Rightarrow> nat \<Rightarrow> plan_state \<Rightarrow> TX_MBUF list \<Rightarrow> (plan_state \<times> TX_MBUF list) option" where
  "plan_burst mx th st [] = Some (st, [])"
| "plan_burst mx th st (m # ms) =
     (case plan_pdu mx th st m of
        None \<Rightarrow> None
      | Some (st', out) \<Rightarrow> map_option (\<lambda>(st'', out'). (st'', out @ out')) (plan_burst mx th st' ms))"

definition plan_drain :: "u16 \<Rightarrow> nat \<Rightarrow> plan_state \<Rightarrow> (plan_state \<times> TX_MBUF list) option" where
  "plan_drain mx th st =
     (case st of (l, c, None) \<Rightarrow> Some (st, [])
      | (l, c, Some (m, k)) \<Rightarrow>
          let l1 = l + 13 + (unat (tm_data_len m) - k) in
          if c < 255 \<and> l1 \<le> unat mx
          then (let (l', c') = close_if_full (unat mx) th l1 (Suc c) in Some ((l', c', None), [m]))
          else None)"

text \<open>A pass; without a burst the frame under construction is sent.\<close>

definition plan_pass :: "u16 \<Rightarrow> nat \<Rightarrow> plan_state \<Rightarrow> TX_MBUF list \<Rightarrow> (plan_state \<times> TX_MBUF list) option" where
  "plan_pass mx th st ms =
     (case plan_burst mx th st ms of
        None \<Rightarrow> None
      | Some (st1, out1) \<Rightarrow>
          (case plan_drain mx th st1 of
             None \<Rightarrow> None
           | Some ((l, c, w), out2) \<Rightarrow> Some (if ms = [] then (0, 0, w) else (l, c, w), out1 @ out2)))"

primrec plan_passes :: "u16 \<Rightarrow> nat \<Rightarrow> plan_state \<Rightarrow> TX_MBUF list list \<Rightarrow> (plan_state \<times> TX_MBUF list) option" where
  "plan_passes mx th st [] = Some (st, [])"
| "plan_passes mx th st (ms # rest) =
     (case plan_pass mx th st ms of
        None \<Rightarrow> None
      | Some (st', out) \<Rightarrow> map_option (\<lambda>(st'', out'). (st'', out @ out')) (plan_passes mx th st' rest))"

text \<open>The plan loses no PDU and invents none.\<close>

definition waiting_pdus :: "plan_state \<Rightarrow> TX_MBUF multiset" where
  "waiting_pdus st = (case snd (snd st) of None \<Rightarrow> {#} | Some (m, k) \<Rightarrow> {#m#})"

lemma mset_chain:
  fixes a b w w1 w' x y :: "'a multiset"
  assumes "a + w1 = w + x" "b + w' = w1 + y"
  shows "a + b + w' = w + (x + y)"
proof -
  have "a + (b + w') = (a + w1) + y" unfolding assms(2) by (simp only: add.assoc)
  then show ?thesis unfolding assms(1) by (simp only: add.assoc)
qed

lemma plan_pdu_mset: "plan_pdu mx th st m = Some (st', out) \<Longrightarrow> mset out + waiting_pdus st' = waiting_pdus st + {#m#}"
  by (auto simp: plan_pdu_def waiting_pdus_def Let_def split: prod.splits if_splits)

lemma plan_burst_mset: "plan_burst mx th st ms = Some (st', out) \<Longrightarrow> mset out + waiting_pdus st' = waiting_pdus st + mset ms"
proof (induction ms arbitrary: st out)
  case (Cons m ms)
  obtain st1 out1 out2 where p: "plan_pdu mx th st m = Some (st1, out1)" "plan_burst mx th st1 ms = Some (st', out2)"
    "out = out1 @ out2"
    using Cons.prems by (auto split: option.splits)
  show ?case using mset_chain [OF plan_pdu_mset [OF p(1)] Cons.IH [OF p(2)]] p(3) by simp
qed simp

lemma plan_drain_mset: "plan_drain mx th st = Some (st', out) \<Longrightarrow> mset out + waiting_pdus st' = waiting_pdus st"
  by (auto simp: plan_drain_def waiting_pdus_def Let_def split: prod.splits if_splits option.splits)

lemma plan_drain_empties: "plan_drain mx th st = Some (st', out) \<Longrightarrow> snd (snd st') = None"
  by (auto simp: plan_drain_def Let_def split: prod.splits if_splits option.splits)

lemma plan_pass_mset: 
  assumes "plan_pass mx th st ms = Some (st', out)"
  shows "mset out + waiting_pdus st' = waiting_pdus st + mset ms" "snd (snd st') = None"
proof -
  obtain st1 out1 l c w out2 where p: "plan_burst mx th st ms = Some (st1, out1)" "plan_drain mx th st1 = Some ((l, c, w), out2)"
    "st' = (if ms = [] then (0, 0, w) else (l, c, w))" "out = out1 @ out2"
    using assms by (auto simp: plan_pass_def split: option.splits)
  have "waiting_pdus st' = waiting_pdus (l, c, w)" using p(3) by (simp add: waiting_pdus_def)
  then show "mset out + waiting_pdus st' = waiting_pdus st + mset ms"
    using plan_burst_mset [OF p(1)] plan_drain_mset [OF p(2)] p(4) by (simp add: add_ac)
  show "snd (snd st') = None" using plan_drain_empties [OF p(2)] p(3) by simp
qed

lemma plan_passes_mset:
  "plan_passes mx th st mss = Some (st', out) \<Longrightarrow> mset out + waiting_pdus st' = waiting_pdus st + mset (concat mss)"
proof (induction mss arbitrary: st out)
  case (Cons ms mss)
  obtain st1 out1 out2 where p: "plan_pass mx th st ms = Some (st1, out1)" "plan_passes mx th st1 mss = Some (st', out2)"
    "out = out1 @ out2"
    using Cons.prems by (auto split: option.splits)
  show ?case using mset_chain [OF plan_pass_mset(1) [OF p(1)] Cons.IH [OF p(2)]] p(3) by simp
qed simp

lemma plan_passes_append:
  "plan_passes mx th st (mss @ nss) = (case plan_passes mx th st mss of
     None \<Rightarrow> None
   | Some (st1, out1) \<Rightarrow> map_option (\<lambda>(st2, out2). (st2, out1 @ out2)) (plan_passes mx th st1 nss))"
proof (induction mss arbitrary: st)
  case Nil
  have "(\<lambda>(st2, out2). (st2, [] @ out2)) = (id :: plan_state \<times> TX_MBUF list \<Rightarrow> _)" by auto
  then show ?case by (simp add: option.map_id)
next
  case (Cons ms mss)
  then show ?case by (auto simp: option.map_comp o_def case_prod_unfold split: option.splits)
qed

lemma plan_all_sent:
  assumes "plan_passes mx th (0, 0, None) (mss @ [[]]) = Some (st, out)"
  shows "mset out = mset (concat mss)"
proof -
  obtain st1 out1 out2 where p: "plan_passes mx th (0, 0, None) mss = Some (st1, out1)" "plan_pass mx th st1 [] = Some (st, out2)"
    using assms by (auto simp: plan_passes_append split: option.splits)
  have "waiting_pdus st = {#}" using plan_pass_mset(2) [OF p(2)] by (simp add: waiting_pdus_def)
  then show ?thesis using plan_passes_mset [OF assms] by (simp add: waiting_pdus_def)
qed

section \<open>The channel follows the plan\<close>

text \<open>Since the state \<open>s0\<close> the channel has sent frames with the packets \<open>closed\<close>; the frame under construction
  holds \<open>cur\<close>.\<close>

definition chan :: "ENCAP_ENV \<Rightarrow> u16 \<Rightarrow> ENCAP_STATE \<Rightarrow> tx_pkt list list \<Rightarrow> tx_pkt list \<Rightarrow> ENCAP_STATE \<Rightarrow> bool" where
  "chan e mx s0 closed cur s \<longleftrightarrow> (\<exists>new. es_sent s = es_sent s0 @ new
       \<and> list_all2 (\<lambda>ps frame. ps \<noteq> [] \<and> list_all tx_fits ps \<and> carries (ee_port e) (initialBBHeader (es_frame_param s0)) mx
            (items_bytes (map (tx_item e) ps)) frame) closed new)
     \<and> frame_open e mx (map (tx_item e) cur) s \<and> list_all tx_fits cur
     \<and> es_freed s = es_freed s0 @ items_freed (map (tx_item e) (concat closed))
     \<and> initialBBHeader (es_frame_param s) = initialBBHeader (es_frame_param s0)"

lemma chan_closed:
  assumes "chan e mx s0 closed cur s" "frame_closed e mx (map (tx_item e) cur') s s'" "list_all tx_fits cur'" "cur' \<noteq> []"
  shows "chan e mx s0 (closed @ [cur']) [] s'"
  using assms unfolding chan_def frame_closed_def
  by (auto simp: items_freed_def intro!: list_all2_appendI)

lemma chan_grown:
  assumes c: "chan e mx s0 closed cur s" and g: "frame_grown e mx (map (tx_item e) (cur @ [p])) s s'" and p: "tx_fits p"
  shows "\<exists>closed' cur'. chan e mx s0 closed' cur' s' \<and> concat closed' @ cur' = (concat closed @ cur) @ [p]
    \<and> (length (items_bytes (map (tx_item e) cur')), length cur')
        = close_if_full (unat mx) (unat (ee_threshold e)) (length (items_bytes (map (tx_item e) (cur @ [p])))) (Suc (length cur))"
proof (cases "unat mx - length (items_bytes (map (tx_item e) (cur @ [p]))) < unat (ee_threshold e)")
  case True
  then have "frame_closed e mx (map (tx_item e) (cur @ [p])) s s'" using g unfolding frame_grown_def by (simp only: if_True)
  from chan_closed [OF c this] have "chan e mx s0 (closed @ [cur @ [p]]) [] s'" using c p by (simp add: chan_def)
  then show ?thesis using True by (intro exI [of _ "closed @ [cur @ [p]]"] exI [of _ "[]"]) (simp add: close_if_full_def)
next
  case False
  then have "frame_open e mx (map (tx_item e) (cur @ [p])) s'" "es_sent s' = es_sent s" "es_freed s' = es_freed s"
    "initialBBHeader (es_frame_param s') = initialBBHeader (es_frame_param s)"
    using g unfolding frame_grown_def by (simp_all only: if_False)
  then have "chan e mx s0 closed (cur @ [p]) s'" using c p by (simp add: chan_def)
  then show ?thesis using False by (intro exI [of _ closed] exI [of _ "cur @ [p]"]) (simp add: close_if_full_def)
qed

lemma rx_steps_snoc:
  "rx_steps w (map f ps) = Some w1 \<Longrightarrow> rx_steps w (map f (ps @ [p])) = rx_step w1 (f p)"
  by (simp add: rx_steps_append split: option.split)

lemma length_last_fragment: "k \<le> unat (tm_data_len m) \<Longrightarrow> length (last_fragment e m k ID T) = 13 + (unat (tm_data_len m) - k)"
  by (simp add: last_fragment_def fragment_header_def gse_wire_header_def)

definition frag_waits :: "ENCAP_ENV \<Rightarrow> u16 \<Rightarrow> (TX_MBUF \<times> nat) option \<Rightarrow> rx_pending \<Rightarrow> ENCAP_STATE \<Rightarrow> bool" where
  "frag_waits e mid w pend s \<longleftrightarrow> (case w of
     None \<Rightarrow> pend = None \<and> no_fragment_waiting s
   | Some (m, k) \<Rightarrow> \<exists>ID E. pend = Some (ID, frag_counter (es_statics s) mid ID, pdu_type m, pdu_data e m, k)
       \<and> half_sent e m k ID E s \<and> statics_ok (es_statics s) \<and> \<not> new_frag_ID (es_statics s) mid ID
       \<and> sendable m \<and> unat (tm_data_len m) \<le> 1514)"

definition tx_inv :: "ENCAP_ENV \<Rightarrow> u16 \<Rightarrow> u16 \<Rightarrow> ENCAP_STATE \<Rightarrow> plan_state \<Rightarrow> TX_MBUF list \<Rightarrow> ENCAP_STATE \<Rightarrow> bool" where
  "tx_inv e mx mid s0 st out s \<longleftrightarrow> (\<exists>closed cur pend. chan e mx s0 closed cur s
     \<and> fst st = length (items_bytes (map (tx_item e) cur)) \<and> fst (snd st) = length cur
     \<and> rx_steps None (map (tx_rx e) (concat closed @ cur)) = Some pend \<and> finished (concat closed @ cur) = out
     \<and> frag_waits e mid (snd (snd st)) pend s)"

lemma tx_invI:
  assumes "chan e mx s0 closed cur s" "rx_steps None (map (tx_rx e) (concat closed @ cur)) = Some pend"
    "finished (concat closed @ cur) = out" "frag_waits e mid w pend s"
    "(length (items_bytes (map (tx_item e) cur)), length cur) = lc"
  shows "tx_inv e mx mid s0 (let (l, c) = lc in (l, c, w)) out s"
  using assms unfolding tx_inv_def by (intro exI [of _ closed] exI [of _ cur] exI [of _ pend]) auto

text \<open>The configuration the theorems are about.\<close>

definition chan_ok :: "ENCAP_ENV \<Rightarrow> u16 \<Rightarrow> u16 \<Rightarrow> bool" where
  "chan_ok e mx mid \<longleftrightarrow> env_ok e \<and> map_modcod_payload (ee_modcode e) = Inr mx \<and> 0 < mx \<and> 12 \<le> unat (ee_threshold e)
     \<and> unat mid < MAX_DEVICE_NUM \<and> port_to_pkt_type (ee_port e) = ENUM_FWD_Tx_FWD_Data"

lemma frag_waits_cong:
  "frag_state s' = frag_state s \<Longrightarrow> es_statics s' = es_statics s \<Longrightarrow> frag_waits e mid w pend s' = frag_waits e mid w pend s"
  by (simp add: frag_waits_def half_sent_def no_fragment_waiting_def split: option.split)

lemma tx_whole_step:
  assumes ok: "chan_ok e mx mid" and inv: "tx_inv e mx mid s0 (l, c, w) out s"
    and m: "sendable m" "ip_type (pdu_type m)" "c < 255" "l + 4 + unat (tm_data_len m) \<le> unat mx"
  shows "\<exists>s'. encapsulate_isl_bb e SUCCEED_FETCH_MODCOD mid (set_using (pdu_node e m) s) = Inr s'
    \<and> tx_inv e mx mid s0 (let (l', c') = close_if_full (unat mx) (unat (ee_threshold e)) (l + 4 + unat (tm_data_len m)) (Suc c)
        in (l', c', w)) (out @ [m]) s'"
proof -
  obtain closed cur pend where i: "chan e mx s0 closed cur s" "l = length (items_bytes (map (tx_item e) cur))" "c = length cur"
    "rx_steps None (map (tx_rx e) (concat closed @ cur)) = Some pend" "finished (concat closed @ cur) = out"
    "frag_waits e mid w pend s"
    using inv by (auto simp: tx_inv_def)
  have o: "frame_open e mx (map (tx_item e) cur) s" using i(1) by (simp add: chan_def)
  have e: "env_ok e" "map_modcod_payload (ee_modcode e) = Inr mx" "0 < mx" using ok by (simp_all add: chan_ok_def)
  have room: "length (items_bytes (map (tx_item e) cur)) + length (fst (whole_item e m)) \<le> unat mx"
    "length (map (tx_item e) cur) < 255"
    using m(3,4) i(2,3) by (simp_all add: whole_item_length)
  obtain s' where s': "encapsulate_isl_bb e SUCCEED_FETCH_MODCOD mid (set_using (pdu_node e m) s) = Inr s'"
    "frame_grown e mx (map (tx_item e) cur @ [whole_item e m]) s s'" "frag_state s' = frag_state s" "es_statics s' = es_statics s"
    using send_whole_pdu [OF e o m(1) room] by blast
  have g: "frame_grown e mx (map (tx_item e) (cur @ [TWhole m])) s s'" using s'(2) by simp
  obtain closed' cur' where c': "chan e mx s0 closed' cur' s'" "concat closed' @ cur' = (concat closed @ cur) @ [TWhole m]"
    "(length (items_bytes (map (tx_item e) cur')), length cur')
        = close_if_full (unat mx) (unat (ee_threshold e)) (l + 4 + unat (tm_data_len m)) (Suc c)"
    using chan_grown [OF i(1) g] i(2,3) by (auto simp: whole_item_length add.assoc)
  have "rx_steps None (map (tx_rx e) (concat closed' @ cur')) = Some pend"
    using m(1,2) unfolding c'(2) rx_steps_snoc [OF i(4)] by (simp add: sendable_def)
  moreover have "finished (concat closed' @ cur') = out @ [m]" using i(5) unfolding c'(2) by simp
  ultimately show ?thesis
    using s'(1) tx_invI [OF c'(1) _ _ _ c'(3)] i(6) frag_waits_cong [OF s'(3,4)] by blast
qed

lemma tx_split_step:
  assumes ok: "chan_ok e mx mid" and inv: "tx_inv e mx mid s0 (l, c, None) out s"
    and m: "sendable m" "ip_type (pdu_type m)" "c < 255" "unat mx < l + 4 + unat (tm_data_len m)"
      "unat (tm_data_len m) \<le> 1514" "unat (ee_threshold e) \<le> unat mx - l"
      "unat (tm_data_len m) + 15 - (unat mx - l) < middle_room mx"
  shows "\<exists>s'. encapsulate_isl_bb e SUCCEED_FETCH_MODCOD mid (set_using (pdu_node e m) s) = Inr s'
    \<and> tx_inv e mx mid s0 (0, 0, Some (m, unat mx - l - 11)) out s'"
proof -
  obtain closed cur where i: "chan e mx s0 closed cur s" "l = length (items_bytes (map (tx_item e) cur))" "c = length cur"
    "rx_steps None (map (tx_rx e) (concat closed @ cur)) = Some None" "finished (concat closed @ cur) = out"
    "no_fragment_waiting s"
    using inv by (auto simp: tx_inv_def frag_waits_def)
  have o: "frame_open e mx (map (tx_item e) cur) s" using i(1) by (simp add: chan_def)
  have e: "env_ok e" "map_modcod_payload (ee_modcode e) = Inr mx" "0 < mx" "unat mid < MAX_DEVICE_NUM"
    "12 \<le> unat (ee_threshold e)" using ok by (simp_all add: chan_ok_def)
  have num: "length (map (tx_item e) cur) < 255" using m(3) i(3) by simp
  have w: "frag_inv (frag_state s)" "cq_list (fs_queue (frag_state s)) = []" "queue_slots (frag_state s)" "statics_ok (es_statics s)"
    using i(6) by (simp_all add: no_fragment_waiting_def)
  define U where "U = unat mx - l"
  have U: "U = unat mx - length (items_bytes (map (tx_item e) cur))" "unat (ee_threshold e) \<le> U"
    "U < 4 + unat (tm_data_len m)" "unat (tm_data_len m) + 15 - U < middle_room mx"
    using i(2) m(4,6,7) e(5) by (simp_all add: U_def)
  obtain s' ID E where s': "encapsulate_isl_bb e SUCCEED_FETCH_MODCOD mid (set_using (pdu_node e m) s) = Inr s'"
    "half_sent e m (U - 11) ID E s'" "\<not> new_frag_ID (es_statics s') mid ID" "statics_ok (es_statics s')"
    "frame_closed e mx (map (tx_item e) cur @ [frag_item e (push_bit 3 (frag_counter (es_statics s') mid ID))
        (frag_nth E (ucast ID) (pdu_node e m) 0)]) s s'"
    using isl_bb_splits [OF e(1-3) o m(1) num w e(4) U(1) e(5) U(2-4)] by auto
  let ?T = "frag_counter (es_statics s') mid ID"
  let ?p = "TFirst m (U - 11) ID ?T"
  have k: "U - 11 \<le> unat (tm_data_len m)" using U(3) by linarith
  have "frame_closed e mx (map (tx_item e) (cur @ [?p])) s s'" using s'(5) unfolding half_sent_items(1) [OF s'(2)] by simp
  from chan_closed [OF i(1) this] have c': "chan e mx s0 (closed @ [cur @ [?p]]) [] s'"
    using i(1) k by (simp add: chan_def)
  have "?T < 8192" using statics_row(2) [OF s'(4) e(4)] by blast
  moreover have "U - 11 \<le> 1518" "unat (tm_data_len m) - (U - 11) + 4 \<le> 1518" using m(5) U(2,3) e(5) by linarith+
  ultimately have "frag_fits ?T (pdu_type m) (pdu_data e m) (U - 11)"
    using m(2) k by (simp add: frag_fits_def FRAG_MAX_LENGTH_def)
  then have "rx_steps None (map (tx_rx e) (concat (closed @ [cur @ [?p]]) @ []))
      = Some (Some (ID, ?T, pdu_type m, pdu_data e m, U - 11))"
    using rx_steps_snoc [OF i(4), of ?p] by simp
  moreover have "finished (concat (closed @ [cur @ [?p]]) @ []) = out" using i(5) by simp
  ultimately show ?thesis
    using s' c' m(1,5) unfolding U_def [symmetric]
    by (intro exI [of _ s'] conjI s'(1)) (unfold tx_inv_def, rule exI [of _ "closed @ [cur @ [?p]]"], rule exI [of _ "[]"], auto simp: frag_waits_def)
qed

lemma tx_drain_step:
  assumes ok: "chan_ok e mx mid" and inv: "tx_inv e mx mid s0 (l, c, w) out s"
    and pl: "plan_drain mx (unat (ee_threshold e)) (l, c, w) = Some (st', out')"
  shows "\<exists>s'. drain_fragments e mid s = Some (Inr s') \<and> tx_inv e mx mid s0 st' (out @ out') s'"
proof (cases w)
  case None
  have e: "env_ok e" using ok by (simp add: chan_ok_def)
  have w: "no_fragment_waiting s" using inv None by (auto simp: tx_inv_def frag_waits_def)
  then have "get_frag_pkt e s = Inr (SUCCEED_FETCH_MODCOD, set_using zero_pdu_node s)"
    using no_fragment [OF e] by (simp add: no_fragment_waiting_def)
  moreover have "SUCCEED_FETCH_MODCOD \<noteq> SUCCEED_FETCH_FRAGMENT" by (simp add: fetch_code_defs)
  ultimately have "drain_fragments e mid s = Some (Inr (set_using zero_pdu_node s))"
    by (subst drain_fragments.simps) simp
  moreover have "tx_inv e mx mid s0 (l, c, w) out (set_using zero_pdu_node s)"
  proof -
    have "chan e mx s0 closed cur (set_using zero_pdu_node s) = chan e mx s0 closed cur s" for closed cur
      by (simp add: chan_def set_using_def frame_open_def)
    moreover have "frag_waits e mid w pend (set_using zero_pdu_node s) = frag_waits e mid w pend s" for pend
      by (rule frag_waits_cong) simp_all
    ultimately show ?thesis using inv by (simp add: tx_inv_def)
  qed
  ultimately show ?thesis using pl None by (auto simp: plan_drain_def)
next
  case (Some mk)
  obtain m k where mk: "mk = (m, k)" by (cases mk)
  obtain closed cur ID E where i: "chan e mx s0 closed cur s" "l = length (items_bytes (map (tx_item e) cur))" "c = length cur"
    "rx_steps None (map (tx_rx e) (concat closed @ cur))
      = Some (Some (ID, frag_counter (es_statics s) mid ID, pdu_type m, pdu_data e m, k))"
    "finished (concat closed @ cur) = out"
    "half_sent e m k ID E s" "statics_ok (es_statics s)" "\<not> new_frag_ID (es_statics s) mid ID"
    "sendable m" "unat (tm_data_len m) \<le> 1514"
    using inv Some mk by (auto simp: tx_inv_def frag_waits_def)
  let ?T = "frag_counter (es_statics s) mid ID" and ?n = "unat (tm_data_len m)"
  let ?p = "TLast m k ID ?T"
  have p: "c < 255" "l + 13 + (?n - k) \<le> unat mx" "out' = [m]"
    "st' = (let (l', c') = close_if_full (unat mx) (unat (ee_threshold e)) (l + 13 + (?n - k)) (Suc c) in (l', c', None))"
    using pl Some mk by (auto simp: plan_drain_def Let_def split: prod.splits if_splits)
  have o: "frame_open e mx (map (tx_item e) cur) s" using i(1) by (simp add: chan_def)
  have e: "env_ok e" "map_modcod_payload (ee_modcode e) = Inr mx" "0 < mx" "unat mid < MAX_DEVICE_NUM"
    using ok by (simp_all add: chan_ok_def)
  have room: "length (map (tx_item e) cur) < 255"
    "length (items_bytes (map (tx_item e) cur)) + 13 + (?n - k) \<le> unat mx" "?n - k \<le> 4076"
    using p(1,2) i(2,3,10) by simp_all
  obtain s' where s': "drain_fragments e mid s = Some (Inr s')"
    "frame_grown e mx (map (tx_item e) cur @ [frag_item e (push_bit 3 ?T OR 1) (frag_nth E (ucast ID) zero_pdu_node 1)]) s s'"
    "no_fragment_waiting s'"
    using drain_half_sent [OF e(1-3) o i(9,6,7) e(4) i(8) room] by (auto simp: no_fragment_waiting_def)
  have k: "k \<le> ?n" using i(6) by (simp add: half_sent_def)
  have "frame_grown e mx (map (tx_item e) (cur @ [?p])) s s'" using s'(2) unfolding half_sent_items(2) [OF i(6)] by simp
  from chan_grown [OF i(1) this] obtain closed' cur' where c': "chan e mx s0 closed' cur' s'"
    "concat closed' @ cur' = (concat closed @ cur) @ [?p]"
    "(length (items_bytes (map (tx_item e) cur')), length cur')
        = close_if_full (unat mx) (unat (ee_threshold e)) (l + 13 + (?n - k)) (Suc c)"
    using k i(2,3) by (auto simp: length_last_fragment add.assoc)
  have "rx_steps None (map (tx_rx e) (concat closed' @ cur')) = Some None"
    unfolding c'(2) rx_steps_snoc [OF i(4)] by simp
  moreover have "finished (concat closed' @ cur') = out @ [m]" using i(5) unfolding c'(2) by simp
  ultimately show ?thesis
    using s'(1,3) tx_invI [OF c'(1) _ _ _ c'(3), of None _ mid None] p(3,4) by (auto simp: frag_waits_def)
qed

lemma tx_burst:
  assumes ok: "chan_ok e mx mid"
  shows "tx_inv e mx mid s0 st out s \<Longrightarrow> plan_burst mx (unat (ee_threshold e)) st ms = Some (st', out') \<Longrightarrow>
    \<exists>s'. encap_burst e mid ms s = Inr s' \<and> tx_inv e mx mid s0 st' (out @ out') s'"
proof (induction ms arbitrary: st out s out')
  case Nil
  then show ?case by (simp add: encap_burst_def)
next
  case (Cons m ms)
  let ?th = "unat (ee_threshold e)"
  obtain l c w where st: "st = (l, c, w)" by (cases st)
  obtain st1 out1 out2 where p: "plan_pdu mx ?th st m = Some (st1, out1)" "plan_burst mx ?th st1 ms = Some (st', out2)"
    "out' = out1 @ out2"
    using Cons.prems(2) by (auto split: option.splits)
  have "\<exists>s1. encapsulate_isl_bb e SUCCEED_FETCH_MODCOD mid (set_using (pdu_node e m) s) = Inr s1
      \<and> tx_inv e mx mid s0 st1 (out @ out1) s1"
  proof (cases "l + 4 + unat (tm_data_len m) \<le> unat mx")
    case True
    then have "sendable m" "ip_type (pdu_type m)" "c < 255" "out1 = [m]"
      "st1 = (let (l', c') = close_if_full (unat mx) ?th (l + 4 + unat (tm_data_len m)) (Suc c) in (l', c', w))"
      using p(1) by (auto simp: plan_pdu_def st Let_def split: if_splits prod.splits)
    then show ?thesis using tx_whole_step [OF ok Cons.prems(1) [unfolded st] _ _ _ True] by simp
  next
    case False
    then have g: "sendable m" "ip_type (pdu_type m)" "c < 255" "out1 = []" "w = None" "unat (tm_data_len m) \<le> 1514"
      "?th \<le> unat mx - l" "unat (tm_data_len m) + 15 - (unat mx - l) < middle_room mx"
      "st1 = (0, 0, Some (m, unat mx - l - 11))"
      using p(1) by (auto simp: plan_pdu_def st Let_def split: if_splits)
    have i: "tx_inv e mx mid s0 (l, c, None) out s" using Cons.prems(1) st g(5) by simp
    from tx_split_step [OF ok i g(1-3) _ g(6-8)] False g(4,9) show ?thesis by simp
  qed
  then obtain s1 where s1: "encapsulate_isl_bb e SUCCEED_FETCH_MODCOD mid (set_using (pdu_node e m) s) = Inr s1"
    "tx_inv e mx mid s0 st1 (out @ out1) s1" by blast
  have "encap_burst e mid (m # ms) s = encap_burst e mid ms s1"
    by (simp add: encap_burst_def get_whole_pkt_eq s1(1))
  then show ?case using Cons.IH [OF s1(2) p(2)] p(3) by simp
qed

lemma tx_force:
  assumes ok: "chan_ok e mx mid" and inv: "tx_inv e mx mid s0 (l, c, w) out s"
  shows "\<exists>s'. encapsulate_isl_bb e FAILED_FETCH_MODCOD mid s = Inr s' \<and> tx_inv e mx mid s0 (0, 0, w) out s'"
proof -
  obtain closed cur pend where i: "chan e mx s0 closed cur s"
    "rx_steps None (map (tx_rx e) (concat closed @ cur)) = Some pend" "finished (concat closed @ cur) = out"
    "frag_waits e mid w pend s"
    using inv by (auto simp: tx_inv_def)
  have o: "frame_open e mx (map (tx_item e) cur) s" "list_all tx_fits cur" using i(1) by (simp_all add: chan_def)
  have e: "env_ok e" "map_modcod_payload (ee_modcode e) = Inr mx" using ok by (simp_all add: chan_ok_def)
  obtain s' where s': "encapsulate_isl_bb e FAILED_FETCH_MODCOD mid s = Inr s'" "frag_state s' = frag_state s"
    "es_statics s' = es_statics s" "if map (tx_item e) cur = [] then s' = s else frame_closed e mx (map (tx_item e) cur) s s'"
    using force_send_open [OF e o(1) refl] by blast
  have fw: "frag_waits e mid w pend s'" using i(4) frag_waits_cong [OF s'(2,3)] by simp
  show ?thesis
  proof (cases "cur = []")
    case True
    have c: "chan e mx s0 closed [] s'" using i(1) s'(4) True by simp
    have r: "rx_steps None (map (tx_rx e) (concat closed @ [])) = Some pend" "finished (concat closed @ []) = out"
      using i(2,3) True by simp_all
    show ?thesis using s'(1) tx_invI [OF c r fw refl] by simp
  next
    case False
    have c: "chan e mx s0 (closed @ [cur]) [] s'" using chan_closed [OF i(1) _ o(2) False] s'(4) False by simp
    have r: "rx_steps None (map (tx_rx e) (concat (closed @ [cur]) @ [])) = Some pend" "finished (concat (closed @ [cur]) @ []) = out"
      using i(2,3) by simp_all
    show ?thesis using s'(1) tx_invI [OF c r fw refl] by simp
  qed
qed

lemma tx_pass:
  assumes ok: "chan_ok e mx mid" and inv: "tx_inv e mx mid s0 st out s"
    and pl: "plan_pass mx (unat (ee_threshold e)) st ms = Some (st', out')"
  shows "\<exists>s'. encap_pass_one e mid ms s = Some (Inr s') \<and> tx_inv e mx mid s0 st' (out @ out') s'"
proof -
  let ?th = "unat (ee_threshold e)"
  obtain st1 out1 l c w out2 where p: "plan_burst mx ?th st ms = Some (st1, out1)" "plan_drain mx ?th st1 = Some ((l, c, w), out2)"
    "st' = (if ms = [] then (0, 0, w) else (l, c, w))" "out' = out1 @ out2"
    using pl by (auto simp: plan_pass_def split: option.splits)
  obtain s1 where s1: "encap_burst e mid ms s = Inr s1" "tx_inv e mx mid s0 st1 (out @ out1) s1"
    using tx_burst [OF ok inv p(1)] by blast
  obtain l1 c1 w1 where st1: "st1 = (l1, c1, w1)" by (cases st1)
  obtain s2 where s2: "drain_fragments e mid s1 = Some (Inr s2)" "tx_inv e mx mid s0 (l, c, w) (out @ out') s2"
    using tx_drain_step [OF ok s1(2) [unfolded st1] p(2) [unfolded st1]] p(4) by auto
  show ?thesis
  proof (cases "ms = []")
    case True
    then show ?thesis using tx_force [OF ok s2(2)] s1(1) s2(1) p(3) by (auto simp: encap_pass_one_def)
  next
    case False
    then show ?thesis using s1(1) s2 p(3) by (auto simp: encap_pass_one_def)
  qed
qed

lemma tx_passes:
  assumes ok: "chan_ok e mx mid"
  shows "tx_inv e mx mid s0 st out s \<Longrightarrow> plan_passes mx (unat (ee_threshold e)) st mss = Some (st', out') \<Longrightarrow>
    \<exists>s'. encap_passes (encap_pass_one e mid) mss s = Some (Inr s') \<and> tx_inv e mx mid s0 st' (out @ out') s'"
proof (induction mss arbitrary: st out s out')
  case (Cons ms mss)
  obtain st1 out1 out2 where p: "plan_pass mx (unat (ee_threshold e)) st ms = Some (st1, out1)"
    "plan_passes mx (unat (ee_threshold e)) st1 mss = Some (st', out2)" "out' = out1 @ out2"
    using Cons.prems(2) by (auto split: option.splits)
  obtain s1 where s1: "encap_pass_one e mid ms s = Some (Inr s1)" "tx_inv e mx mid s0 st1 (out @ out1) s1"
    using tx_pass [OF ok Cons.prems(1) p(1)] by blast
  show ?case using Cons.IH [OF s1(2) p(2)] s1(1) p(3) by simp
qed simp

section \<open>What has been sent\<close>

text \<open>The channel after passes that have left nothing behind: the frames sent since \<open>s\<close> carry \<open>out\<close>.\<close>

definition all_sent :: "ENCAP_ENV \<Rightarrow> u16 \<Rightarrow> ENCAP_STATE \<Rightarrow> TX_MBUF list \<Rightarrow> ENCAP_STATE \<Rightarrow> bool" where
  "all_sent e mx s out s' \<longleftrightarrow> frame_open e mx [] s' \<and> no_fragment_waiting s' \<and> es_freed s' = es_freed s @ map tm_address out
     \<and> (\<exists>pss new. es_sent s' = es_sent s @ new \<and> (\<forall>ms. map mb_data ms = new \<longrightarrow> list_all2 bb_carries pss ms)
          \<and> rx_steps None (concat pss) = Some None \<and> delivered (concat pss) = map (pdu_desc e) out)"

lemma tx_inv_start:
  assumes "frame_open e mx [] s" "no_fragment_waiting s"
  shows "tx_inv e mx mid s (0, 0, None) [] s"
proof -
  have "chan e mx s [] [] s" using assms(1) by (simp add: chan_def)
  then show ?thesis
    using assms(2) tx_invI [of e mx s "[]" "[]" s None "[]" mid None "(0, 0)"] by (simp add: frag_waits_def)
qed

lemma tx_inv_end:
  assumes ok: "chan_ok e mx mid" and inv: "tx_inv e mx mid s (0, 0, None) out s'"
    and ts: "TS_GS (initialBBHeader (es_frame_param s)) = 0 \<or> TS_GS (initialBBHeader (es_frame_param s)) = 1"
  shows "all_sent e mx s out s'"
proof -
  obtain closed cur pend where i: "chan e mx s closed cur s'" "cur = []"
    "rx_steps None (map (tx_rx e) (concat closed @ cur)) = Some pend" "finished (concat closed @ cur) = out"
    "pend = None" "no_fragment_waiting s'"
    using inv by (auto simp: tx_inv_def frag_waits_def)
  obtain new where new: "es_sent s' = es_sent s @ new"
    "list_all2 (\<lambda>ps frame. ps \<noteq> [] \<and> list_all tx_fits ps \<and> carries (ee_port e) (initialBBHeader (es_frame_param s)) mx
            (items_bytes (map (tx_item e) ps)) frame) closed new"
    using i(1) by (auto simp: chan_def)
  have mx: "unat mx \<le> 7264" using ok modcod_payload_le by (auto simp: chan_ok_def)
  have t: "port_to_pkt_type (ee_port e) = ENUM_FWD_Tx_FWD_Data" using ok by (simp add: chan_ok_def)
  let ?pss = "map (map (tx_rx e)) closed"
  have "list_all2 bb_carries ?pss ms" if "map mb_data ms = new" for ms :: "MBUF list"
    unfolding list.rel_map
  proof (rule list_all2_mono)
    show "list_all2 (\<lambda>ps m. ps \<noteq> [] \<and> list_all tx_fits ps \<and> carries (ee_port e) (initialBBHeader (es_frame_param s)) mx
            (items_bytes (map (tx_item e) ps)) (mb_data m)) closed ms"
      using new(2) unfolding that [symmetric] by (simp add: list.rel_map)
  next
    fix ps and m :: MBUF
    assume "ps \<noteq> [] \<and> list_all tx_fits ps \<and> carries (ee_port e) (initialBBHeader (es_frame_param s)) mx
            (items_bytes (map (tx_item e) ps)) (mb_data m)"
    then show "bb_carries (map (tx_rx e) ps) m"
      using carries_bb_frame [OF _ mx t ts] by (auto simp: bb_carries_def)
  qed
  moreover have "concat ?pss = map (tx_rx e) (concat closed)" by (simp add: map_concat)
  moreover have "frame_open e mx [] s'" "es_freed s' = es_freed s @ map tm_address out"
    using i(1,2,4) by (simp_all add: chan_def finished_freed)
  ultimately show ?thesis
    using i new(1) finished_delivered [of e "concat closed"] unfolding all_sent_def
    by (intro conjI exI [of _ ?pss] exI [of _ new]) auto
qed

lemma channel_sends:
  assumes ok: "chan_ok e mx mid" and s: "frame_open e mx [] s" "no_fragment_waiting s"
    and ts: "TS_GS (initialBBHeader (es_frame_param s)) = 0 \<or> TS_GS (initialBBHeader (es_frame_param s)) = 1"
    and pl: "plan_passes mx (unat (ee_threshold e)) (0, 0, None) (mss @ [[]]) = Some (st, out)"
  shows "\<exists>s'. encap_passes (encap_pass_one e mid) (mss @ [[]]) s = Some (Inr s') \<and> all_sent e mx s out s'"
proof -
  let ?th = "unat (ee_threshold e)"
  obtain st1 out1 out2 where pm: "plan_passes mx ?th (0, 0, None) mss = Some (st1, out1)" "plan_pass mx ?th st1 [] = Some (st, out2)"
    using pl by (auto simp: plan_passes_append split: option.splits)
  obtain w where st: "st = (0, 0, w)" using pm(2) by (auto simp: plan_pass_def split: option.splits)
  have "w = None" using plan_pass_mset(2) [OF pm(2)] st by simp
  with st have st: "st = (0, 0, None)" by simp
  obtain s' where s': "encap_passes (encap_pass_one e mid) (mss @ [[]]) s = Some (Inr s')" "tx_inv e mx mid s (0, 0, None) out s'"
    using tx_passes [OF ok tx_inv_start [OF s] pl] st by auto
  from s'(1) tx_inv_end [OF ok s'(2) ts] show ?thesis by blast
qed

section \<open>One thread for all channels\<close>

text \<open>The passes of a single thread: the waiting fragment first, then the burst.\<close>

primrec plan_turns :: "u16 \<Rightarrow> nat \<Rightarrow> plan_state \<Rightarrow> TX_MBUF list list \<Rightarrow> (plan_state \<times> TX_MBUF list) option" where
  "plan_turns mx th st [] = plan_drain mx th st"
| "plan_turns mx th st (ms # rest) =
     (case plan_drain mx th st of
        None \<Rightarrow> None
      | Some (st1, out1) \<Rightarrow>
          (case plan_burst mx th st1 ms of
             None \<Rightarrow> None
           | Some (st2, out2) \<Rightarrow> map_option (\<lambda>(st', out'). (st', (out1 @ out2) @ out')) (plan_turns mx th st2 rest)))"

lemma plan_turns_mset:
  "plan_turns mx th st mss = Some (st', out) \<Longrightarrow> mset out + waiting_pdus st' = waiting_pdus st + mset (concat mss)
     \<and> snd (snd st') = None"
proof (induction mss arbitrary: st out)
  case Nil
  then have "plan_drain mx th st = Some (st', out)" by simp
  from plan_drain_mset [OF this] plan_drain_empties [OF this] show ?case by simp
next
  case (Cons ms mss)
  obtain st1 out1 st2 out2 out3 where p: "plan_drain mx th st = Some (st1, out1)" "plan_burst mx th st1 ms = Some (st2, out2)"
    "plan_turns mx th st2 mss = Some (st', out3)" "out = (out1 @ out2) @ out3"
    using Cons.prems by (auto split: option.splits)
  have "mset out1 + waiting_pdus st1 = waiting_pdus st + {#}" using plan_drain_mset [OF p(1)] by simp
  from mset_chain [OF this plan_burst_mset [OF p(2)]]
  have a: "mset (out1 @ out2) + waiting_pdus st2 = waiting_pdus st + mset ms" by simp
  show ?case
    using mset_chain [OF a conjunct1 [OF Cons.IH [OF p(3)]]] Cons.IH [OF p(3)] unfolding p(4) by (simp add: add.assoc)
qed

text \<open>Only the passes themselves touch the counter of idle passes.\<close>

lemma close_gse_count: "close_gse e s = Inr s' \<Longrightarrow> es_loop_count s' = es_loop_count s"
  by (auto simp: close_gse_def Let_def elim!: bind_okE)

lemma make_frame_count: "make_frame e s = Inr (r, s') \<Longrightarrow> es_loop_count s' = es_loop_count s"
  by (auto simp: make_frame_def Let_def elim!: bind_okE)

lemma group_pdu_count: "group_pdu l mid s = Inr s' \<Longrightarrow> es_loop_count s' = es_loop_count s"
  by (auto simp: group_pdu_def Let_def elim!: bind_okE)

lemma remember_label_count: "remember_label s = Inr s' \<Longrightarrow> es_loop_count s' = es_loop_count s"
  by (auto simp: remember_label_def Let_def elim!: bind_okE)

lemma open_payload_count: "open_payload k s = Inr s' \<Longrightarrow> es_loop_count s' = es_loop_count s"
  by (auto simp: open_payload_def elim!: bind_okE)

lemma set_count [simp]:
  "es_loop_count (set_using n s) = es_loop_count s" "es_loop_count (set_frag_state f s) = es_loop_count s"
  "es_loop_count (adopt_modcod s) = es_loop_count s"
  by (simp_all add: set_using_def set_frag_state_def adopt_modcod_def Let_def)

lemmas count_steps = close_gse_count make_frame_count group_pdu_count remember_label_count open_payload_count

lemma fragment_process_count: "fragment_process e l b mid s = Inr (r, s') \<Longrightarrow> es_loop_count s' = es_loop_count s"
  by (auto simp: fragment_process_def Let_def elim!: bind_okE dest!: count_steps)

lemma force_send_count: "force_send e b s = Inr s' \<Longrightarrow> es_loop_count s' = es_loop_count s"
  by (auto simp: force_send_def elim!: bind_okE dest!: count_steps split: if_split_asm)

lemma isl_bb_count: "encapsulate_isl_bb e r mid s = Inr s' \<Longrightarrow> es_loop_count s' = es_loop_count s"
  by (auto simp: encapsulate_isl_bb_def Let_def elim!: bind_okE dest!: count_steps fragment_process_count force_send_count
      split: if_split_asm)

lemma get_frag_pkt_count: "get_frag_pkt e s = Inr (r, s') \<Longrightarrow> es_loop_count s' = es_loop_count s"
  by (auto simp: get_frag_pkt_def elim!: bind_okE)

lemma drain_keeps:
  assumes get: "\<And>e m s' s. get_frag_pkt e s = Inr (m, s') \<Longrightarrow> f s' = f s"
    and st: "\<And>e r mid s' s. encapsulate_isl_bb e r mid s = Inr s' \<Longrightarrow> f s' = f s"
    and d: "drain_fragments e mid s = Some (Inr s')"
  shows "f s' = f s"
proof -
  have "\<forall>s'. y = Inr s' \<longrightarrow> f s' = f s" if "drain_fragments e mid s = Some y" for y
  proof (rule drain_fragments.raw_induct [where P = "\<lambda>e mid s y. \<forall>s'. y = Inr s' \<longrightarrow> f s' = f s", OF _ that])
    fix drain e mid s y
    assume ih: "\<And>e mid s y. drain e mid s = Some y \<Longrightarrow> \<forall>s'. y = Inr s' \<longrightarrow> f s' = f s"
      and y: "(case get_frag_pkt e s of Inl x \<Rightarrow> Some (Inl x)
              | Inr r \<Rightarrow> if fst r = SUCCEED_FETCH_FRAGMENT
                  then case encapsulate_isl_bb e SUCCEED_FETCH_FRAGMENT mid (snd r) of Inl x \<Rightarrow> Some (Inl x) | Inr s' \<Rightarrow> drain e mid s'
                  else Some (Inr (snd r))) = Some y"
    show "\<forall>s'. y = Inr s' \<longrightarrow> f s' = f s"
    proof (intro allI impI)
      fix s' assume "y = Inr s'"
      with y show "f s' = f s"
        by (auto split: sum.split_asm if_split_asm dest!: ih get st)
    qed
  qed
  with d show ?thesis by blast
qed
lemma drain_count: "drain_fragments e mid s = Some (Inr s') \<Longrightarrow> es_loop_count s' = es_loop_count s"
  by (rule drain_keeps [where f = es_loop_count]) (blast intro: get_frag_pkt_count isl_bb_count)+

lemma burst_count: "encap_burst e mid ms s = Inr s' \<Longrightarrow> es_loop_count s' = es_loop_count s"
  by (induction ms arbitrary: s) (auto simp: encap_burst_def get_whole_pkt_eq elim!: bind_okE dest!: isl_bb_count)

lemma tx_inv_loop_count [simp]: "tx_inv e mx mid s0 st out (s\<lparr>es_loop_count := n\<rparr>) = tx_inv e mx mid s0 st out s"
proof -
  have "frag_waits e mid w pend (s\<lparr>es_loop_count := n\<rparr>) = frag_waits e mid w pend s" for w pend
    by (rule frag_waits_cong) (simp_all add: frag_state_def)
  then show ?thesis by (simp add: tx_inv_def chan_def frame_open_def)
qed

lemma tx_turn:
  assumes ok: "chan_ok e mx mid" and inv: "tx_inv e mx mid s0 st out s" and ms: "ms \<noteq> []"
    and pl: "plan_drain mx (unat (ee_threshold e)) st = Some (st1, out1)"
      "plan_burst mx (unat (ee_threshold e)) st1 ms = Some (st2, out2)"
  shows "\<exists>s'. encap_pass e mid ms s = Some (Inr s') \<and> tx_inv e mx mid s0 st2 (out @ out1 @ out2) s' \<and> es_loop_count s' = 0"
proof -
  obtain l c w where st: "st = (l, c, w)" by (cases st)
  obtain s1 where s1: "drain_fragments e mid s = Some (Inr s1)" "tx_inv e mx mid s0 st1 (out @ out1) s1"
    using tx_drain_step [OF ok inv [unfolded st] pl(1) [unfolded st]] by blast
  have "tx_inv e mx mid s0 st1 (out @ out1) (s1\<lparr>es_loop_count := 0\<rparr>)" using s1(2) by simp
  then obtain s2 where s2: "encap_burst e mid ms (s1\<lparr>es_loop_count := 0\<rparr>) = Inr s2"
    "tx_inv e mx mid s0 st2 ((out @ out1) @ out2) s2"
    using tx_burst [OF ok _ pl(2)] by blast
  have "encap_pass e mid ms s = Some (Inr s2)" using s1(1) s2(1) ms by (simp add: encap_pass_def)
  with s2(2) burst_count [OF s2(1)] show ?thesis by simp
qed

text \<open>A pass without a burst, and no fragment waiting: the counter, and the frame at 100.\<close>

lemma tx_idle:
  assumes ok: "chan_ok e mx mid" and inv: "tx_inv e mx mid s0 (l, c, None) out s"
  shows "\<exists>s'. encap_pass e mid [] s = Some (Inr s')
    \<and> (if es_loop_count s + 1 = 100 then tx_inv e mx mid s0 (0, 0, None) out s'
       else tx_inv e mx mid s0 (l, c, None) out s' \<and> es_loop_count s' = es_loop_count s + 1)"
proof -
  have d: "plan_drain mx (unat (ee_threshold e)) (l, c, None) = Some ((l, c, None), [])" by (simp add: plan_drain_def)
  obtain s1 where s1: "drain_fragments e mid s = Some (Inr s1)" "tx_inv e mx mid s0 (l, c, None) out s1"
    using tx_drain_step [OF ok inv d] by auto
  have n: "es_loop_count s1 = es_loop_count s" by (rule drain_count [OF s1(1)])
  show ?thesis
  proof (cases "es_loop_count s + 1 = 100")
    case True
    have "tx_inv e mx mid s0 (l, c, None) out (s1\<lparr>es_loop_count := 0\<rparr>)" using s1(2) by simp
    from tx_force [OF ok this] s1(1) n True show ?thesis by (auto simp: encap_pass_def)
  next
    case False
    then show ?thesis using s1 n by (auto simp: encap_pass_def)
  qed
qed

lemma tx_idle_passes:
  assumes ok: "chan_ok e mx mid"
  shows "tx_inv e mx mid s0 (l, c, None) out s \<Longrightarrow> unat (es_loop_count s) + n = 100 \<Longrightarrow> 0 < n \<Longrightarrow>
    \<exists>s'. encap_passes (encap_pass e mid) (replicate n []) s = Some (Inr s') \<and> tx_inv e mx mid s0 (0, 0, None) out s'"
proof (induction n arbitrary: s)
  case (Suc n)
  obtain s1 where s1: "encap_pass e mid [] s = Some (Inr s1)"
    "if es_loop_count s + 1 = 100 then tx_inv e mx mid s0 (0, 0, None) out s1
       else tx_inv e mx mid s0 (l, c, None) out s1 \<and> es_loop_count s1 = es_loop_count s + 1"
    using tx_idle [OF ok Suc.prems(1)] by blast
  have u: "unat (es_loop_count s + 1) = unat (es_loop_count s) + 1" using Suc.prems(2) by (subst unat_add_lt) simp_all
  then have h: "es_loop_count s + 1 = 100 \<longleftrightarrow> n = 0" using Suc.prems(2) by (auto simp: word_unat_eq_iff)
  show ?case
  proof (cases "n = 0")
    case True
    then show ?thesis using s1 h by simp
  next
    case False
    then show ?thesis using Suc.IH [of s1] s1 h u Suc.prems(2) by simp
  qed
qed simp

text \<open>The last waiting fragment goes with the first idle pass; the frame with the hundredth.\<close>

lemma tx_last_turn:
  assumes ok: "chan_ok e mx mid" and inv: "tx_inv e mx mid s0 st out s" and z: "es_loop_count s = 0"
    and pl: "plan_drain mx (unat (ee_threshold e)) st = Some (st', out')"
  shows "\<exists>s'. encap_passes (encap_pass e mid) (replicate 100 []) s = Some (Inr s') \<and> tx_inv e mx mid s0 (0, 0, None) (out @ out') s'"
proof -
  obtain l c w where st: "st = (l, c, w)" by (cases st)
  obtain l' c' where st': "st' = (l', c', None)" using plan_drain_empties [OF pl] by (cases st') auto
  obtain s1 where s1: "drain_fragments e mid s = Some (Inr s1)" "tx_inv e mx mid s0 (l', c', None) (out @ out') s1"
    using tx_drain_step [OF ok inv [unfolded st] pl [unfolded st]] st' by blast
  let ?s = "s1\<lparr>es_loop_count := 1\<rparr>"
  have p: "encap_pass e mid [] s = Some (Inr ?s)"
    using s1(1) drain_count [OF s1(1)] z by (simp add: encap_pass_def)
  obtain s2 where "encap_passes (encap_pass e mid) (replicate 99 []) ?s = Some (Inr s2)"
    "tx_inv e mx mid s0 (0, 0, None) (out @ out') s2"
    using tx_idle_passes [OF ok, of s0 l' c' "out @ out'" ?s 99] s1(2) by auto
  moreover have "replicate 100 [] = [] # replicate 99 ([] :: TX_MBUF list)" by (simp add: numeral_eq_Suc)
  ultimately show ?thesis using p by simp
qed

lemma tx_turns:
  assumes ok: "chan_ok e mx mid"
  shows "tx_inv e mx mid s0 st out s \<Longrightarrow> es_loop_count s = 0 \<Longrightarrow> list_all (\<lambda>ms. ms \<noteq> []) mss \<Longrightarrow>
    plan_turns mx (unat (ee_threshold e)) st mss = Some (st', out') \<Longrightarrow>
    \<exists>s'. encap_passes (encap_pass e mid) (mss @ replicate 100 []) s = Some (Inr s') \<and> tx_inv e mx mid s0 (0, 0, None) (out @ out') s'"
proof (induction mss arbitrary: st out s out')
  case Nil
  then show ?case using tx_last_turn [OF ok Nil.prems(1,2)] by simp
next
  case (Cons ms mss)
  obtain st1 out1 st2 out2 out3 where p: "plan_drain mx (unat (ee_threshold e)) st = Some (st1, out1)"
    "plan_burst mx (unat (ee_threshold e)) st1 ms = Some (st2, out2)"
    "plan_turns mx (unat (ee_threshold e)) st2 mss = Some (st', out3)" "out' = (out1 @ out2) @ out3"
    using Cons.prems(4) by (auto split: option.splits)
  obtain s1 where s1: "encap_pass e mid ms s = Some (Inr s1)" "tx_inv e mx mid s0 st2 (out @ out1 @ out2) s1" "es_loop_count s1 = 0"
    using tx_turn [OF ok Cons.prems(1) _ p(1,2)] Cons.prems(3) by auto
  show ?case using Cons.IH [OF s1(2,3) _ p(3)] Cons.prems(3) s1(1) p(4) by simp
qed

lemma single_thread_sends:
  assumes ok: "chan_ok e mx mid" and s: "frame_open e mx [] s" "no_fragment_waiting s" "es_loop_count s = 0"
    and ts: "TS_GS (initialBBHeader (es_frame_param s)) = 0 \<or> TS_GS (initialBBHeader (es_frame_param s)) = 1"
    and ne: "list_all (\<lambda>ms. ms \<noteq> []) mss"
    and pl: "plan_turns mx (unat (ee_threshold e)) (0, 0, None) mss = Some (st, out)"
  shows "\<exists>s'. encap_passes (encap_pass e mid) (mss @ replicate 100 []) s = Some (Inr s') \<and> all_sent e mx s out s'"
proof -
  obtain s' where s': "encap_passes (encap_pass e mid) (mss @ replicate 100 []) s = Some (Inr s')" "tx_inv e mx mid s (0, 0, None) out s'"
    using tx_turns [OF ok tx_inv_start [OF s(1,2)] s(3) ne pl] by auto
  from s'(1) tx_inv_end [OF ok s'(2) ts] show ?thesis by blast
qed

section \<open>The two ends of the link\<close>

text \<open>What the receiver makes of the frames sent.\<close>

lemma sent_frames_received:
  assumes sent: "all_sent e mx s out s'" and r: "link_inv env junk mac q None r" and rcv: "\<forall>f. mb_data (rcv f) = f"
  shows "\<exists>new r' bs. es_sent s' = es_sent s @ new
    \<and> decap_burst env junk index0 mac pdu_packs fp q (map rcv new) r = Inr r' \<and> link_inv env junk mac q None r'
    \<and> ds_encap_ring r' = ds_encap_ring r @ bs \<and> map pdu_of bs = map (pdu_desc e) out
    \<and> map mb_data (ds_freed r') = map mb_data (ds_freed r) @ new"
proof -
  obtain pss new where c: "es_sent s' = es_sent s @ new" "\<forall>ms. map mb_data ms = new \<longrightarrow> list_all2 bb_carries pss ms"
    "rx_steps None (concat pss) = Some None" "delivered (concat pss) = map (pdu_desc e) out"
    using sent by (auto simp: all_sent_def)
  have d: "map mb_data (map rcv new) = new" using rcv by (simp add: o_def)
  then have "list_all2 bb_carries pss (map rcv new)" using c(2) by blast
  from burst_delivers [OF this r c(3)] show ?thesis unfolding d c(4) using c(1) by blast
qed

lemma plan_turns_sent:
  assumes "plan_turns mx th (0, 0, None) mss = Some (st, out)"
  shows "mset out = mset (concat mss)"
  using plan_turns_mset [OF assms] by (auto simp: waiting_pdus_def)

end
