(* ===== verification/RingQueue.thy ===== *)
theory RingQueue
  imports GseTypes
begin

text \<open>
  The rings between the threads: the lock-free ring of \<open>lib/include/rte_ring.h\<close> and
  \<open>rte_ring_generic.h\<close> as one thread at a time runs it, and the wrappers with their counters of
  \<open>src/ring_queue.c\<close>.  Indices are 32-bit words that are never reduced; only an access to a slot
  masks them.  \<open>rte_ring_create\<close> is a library function: what its documentation promises is
  \<open>ring_created\<close>.
\<close>

section \<open>State\<close>

record rte_ring_headtail =
  ht_head :: u32
  ht_tail :: u32
  ht_single :: bool

record 'a rte_ring =
  rr_size :: u32
  rr_mask :: u32
  rr_capacity :: u32
  rr_prod :: rte_ring_headtail
  rr_cons :: rte_ring_headtail
  rr_slots :: "'a list"

datatype rte_ring_queue_behavior = RTE_RING_QUEUE_FIXED | RTE_RING_QUEUE_VARIABLE

definition ENOBUFS :: int where "ENOBUFS = 105"

section \<open>Copying objects to and from the slots\<close>

text \<open>\<open>ring[idx++] = obj_table[i++]\<close> over the objects; the loop of the source takes four at a time.\<close>

fun store_run :: "u32 \<Rightarrow> 'a list \<Rightarrow> 'a list \<Rightarrow> 'a list outcome" where
  "store_run idx [] slots = Inr slots"
| "store_run idx (x # xs) slots = bind_ok (store_at slots (unat idx) x) (store_run (idx + 1) xs)"

fun store_by_four :: "u32 \<Rightarrow> 'a list \<Rightarrow> 'a list \<Rightarrow> 'a list outcome" where
  "store_by_four idx (a # b # c # d # xs) slots =
     bind_ok (store_at slots (unat idx) a) (\<lambda>s1. bind_ok (store_at s1 (unat (idx + 1)) b) (\<lambda>s2.
     bind_ok (store_at s2 (unat (idx + 2)) c) (\<lambda>s3. bind_ok (store_at s3 (unat (idx + 3)) d) (store_by_four (idx + 4) xs))))"
| "store_by_four idx xs slots = store_run idx xs slots"

definition ENQUEUE_PTRS :: "'a rte_ring \<Rightarrow> u32 \<Rightarrow> 'a list \<Rightarrow> 'a list outcome" where
  "ENQUEUE_PTRS r prod_head objs =
     (let size = rr_size r; idx = prod_head AND rr_mask r; n = word_of_nat (length objs) in
      if idx + n < size then store_by_four idx objs (rr_slots r)
      else let k = (if idx < size then unat (size - idx) else 0) in
           if length objs < k then Inl OutOfBounds
           else bind_ok (store_run idx (take k objs) (rr_slots r)) (store_run 0 (drop k objs)))"

fun load_run :: "u32 \<Rightarrow> nat \<Rightarrow> 'a list \<Rightarrow> 'a list outcome" where
  "load_run idx 0 slots = Inr []"
| "load_run idx (Suc n) slots =
     bind_ok (load_at slots (unat idx)) (\<lambda>x. bind_ok (load_run (idx + 1) n slots) (\<lambda>xs. Inr (x # xs)))"

fun load_by_four :: "u32 \<Rightarrow> nat \<Rightarrow> 'a list \<Rightarrow> 'a list outcome" where
  "load_by_four idx n slots =
     (if n < 4 then load_run idx n slots
      else bind_ok (load_at slots (unat idx)) (\<lambda>a. bind_ok (load_at slots (unat (idx + 1))) (\<lambda>b.
           bind_ok (load_at slots (unat (idx + 2))) (\<lambda>c. bind_ok (load_at slots (unat (idx + 3))) (\<lambda>d.
           bind_ok (load_by_four (idx + 4) (n - 4) slots) (\<lambda>xs. Inr (a # b # c # d # xs)))))))"

declare load_by_four.simps [simp del]

definition DEQUEUE_PTRS :: "'a rte_ring \<Rightarrow> u32 \<Rightarrow> u32 \<Rightarrow> 'a list outcome" where
  "DEQUEUE_PTRS r cons_head n =
     (let size = rr_size r; idx = cons_head AND rr_mask r in
      if idx + n < size then load_by_four idx (unat n) (rr_slots r)
      else let k = (if idx < size then unat (size - idx) else 0) in
           bind_ok (load_run idx k (rr_slots r)) (\<lambda>xs.
           bind_ok (load_run 0 (unat n - k) (rr_slots r)) (\<lambda>ys. Inr (xs @ ys))))"

section \<open>Moving the heads and the tails\<close>

definition rte_atomic32_cmpset :: "u32 \<Rightarrow> u32 \<Rightarrow> u32 \<Rightarrow> bool \<times> u32" where
  "rte_atomic32_cmpset dst expected src = (if dst = expected then (True, src) else (False, dst))"

text \<open>How many objects are moved: all or none, or as many as possible.\<close>

definition burst_size :: "u32 \<Rightarrow> u32 \<Rightarrow> rte_ring_queue_behavior \<Rightarrow> u32" where
  "burst_size n room behavior =
     (if room < n then (case behavior of RTE_RING_QUEUE_FIXED \<Rightarrow> 0 | RTE_RING_QUEUE_VARIABLE \<Rightarrow> room) else n)"

text \<open>The results are the number of objects, the old and the new head, and the free entries.\<close>

partial_function (option) move_prod_head ::
  "'a rte_ring \<Rightarrow> bool \<Rightarrow> u32 \<Rightarrow> rte_ring_queue_behavior \<Rightarrow> (u32 \<times> u32 \<times> u32 \<times> u32 \<times> 'a rte_ring) option" where
  "move_prod_head r is_sp n behavior =
     (let old_head = ht_head (rr_prod r);
          free_entries = rr_capacity r + ht_tail (rr_cons r) - old_head;
          n' = burst_size n free_entries behavior;
          new_head = old_head + n' in
      if n' = 0 then Some (0, old_head, new_head, free_entries, r)
      else if is_sp then Some (n', old_head, new_head, free_entries, r\<lparr>rr_prod := (rr_prod r)\<lparr>ht_head := new_head\<rparr>\<rparr>)
      else let (success, head) = rte_atomic32_cmpset (ht_head (rr_prod r)) old_head new_head;
               r' = r\<lparr>rr_prod := (rr_prod r)\<lparr>ht_head := head\<rparr>\<rparr> in
           if success then Some (n', old_head, new_head, free_entries, r') else move_prod_head r' is_sp n behavior)"

partial_function (option) move_cons_head ::
  "'a rte_ring \<Rightarrow> bool \<Rightarrow> u32 \<Rightarrow> rte_ring_queue_behavior \<Rightarrow> (u32 \<times> u32 \<times> u32 \<times> u32 \<times> 'a rte_ring) option" where
  "move_cons_head r is_sc n behavior =
     (let old_head = ht_head (rr_cons r);
          entries = ht_tail (rr_prod r) - old_head;
          n' = burst_size n entries behavior;
          new_head = old_head + n' in
      if n' = 0 then Some (0, old_head, new_head, entries, r)
      else if is_sc then Some (n', old_head, new_head, entries, r\<lparr>rr_cons := (rr_cons r)\<lparr>ht_head := new_head\<rparr>\<rparr>)
      else let (success, head) = rte_atomic32_cmpset (ht_head (rr_cons r)) old_head new_head;
               r' = r\<lparr>rr_cons := (rr_cons r)\<lparr>ht_head := head\<rparr>\<rparr> in
           if success then Some (n', old_head, new_head, entries, r') else move_cons_head r' is_sc n behavior)"

text \<open>A single thread that finds another tail waits for ever.\<close>

definition update_tail :: "rte_ring_headtail \<Rightarrow> u32 \<Rightarrow> u32 \<Rightarrow> bool \<Rightarrow> rte_ring_headtail option" where
  "update_tail ht old_val new_val single = (if single \<or> ht_tail ht = old_val then Some (ht\<lparr>ht_tail := new_val\<rparr>) else None)"

section \<open>Enqueue and dequeue\<close>

definition do_enqueue ::
  "'a rte_ring \<Rightarrow> 'a list \<Rightarrow> u32 \<Rightarrow> rte_ring_queue_behavior \<Rightarrow> bool \<Rightarrow> (u32 \<times> u32 \<times> 'a rte_ring) outcome option" where
  "do_enqueue r obj_table n behavior is_sp =
     (case move_prod_head r is_sp n behavior of
        None \<Rightarrow> None
      | Some (n', prod_head, prod_next, free_entries, r1) \<Rightarrow>
          if n' = 0 then Some (Inr (0, free_entries - 0, r1))
          else if length obj_table < unat n' then Some (Inl OutOfBounds)
          else (case ENQUEUE_PTRS r1 prod_head (take (unat n') obj_table) of
                  Inl e \<Rightarrow> Some (Inl e)
                | Inr slots \<Rightarrow>
                    (case update_tail (rr_prod r1) prod_head prod_next is_sp of
                       None \<Rightarrow> None
                     | Some ht \<Rightarrow> Some (Inr (n', free_entries - n', r1\<lparr>rr_prod := ht, rr_slots := slots\<rparr>)))))"

definition do_dequeue ::
  "'a rte_ring \<Rightarrow> u32 \<Rightarrow> rte_ring_queue_behavior \<Rightarrow> bool \<Rightarrow> ('a list \<times> u32 \<times> 'a rte_ring) outcome option" where
  "do_dequeue r n behavior is_sc =
     (case move_cons_head r is_sc n behavior of
        None \<Rightarrow> None
      | Some (n', cons_head, cons_next, entries, r1) \<Rightarrow>
          if n' = 0 then Some (Inr ([], entries - 0, r1))
          else (case DEQUEUE_PTRS r1 cons_head n' of
                  Inl e \<Rightarrow> Some (Inl e)
                | Inr objs \<Rightarrow>
                    (case update_tail (rr_cons r1) cons_head cons_next is_sc of
                       None \<Rightarrow> None
                     | Some ht \<Rightarrow> Some (Inr (objs, entries - n', r1\<lparr>rr_cons := ht\<rparr>)))))"

definition rte_ring_enqueue_bulk :: "'a rte_ring \<Rightarrow> 'a list \<Rightarrow> u32 \<Rightarrow> (u32 \<times> u32 \<times> 'a rte_ring) outcome option" where
  "rte_ring_enqueue_bulk r objs n = do_enqueue r objs n RTE_RING_QUEUE_FIXED (ht_single (rr_prod r))"

definition rte_ring_enqueue_burst :: "'a rte_ring \<Rightarrow> 'a list \<Rightarrow> u32 \<Rightarrow> (u32 \<times> u32 \<times> 'a rte_ring) outcome option" where
  "rte_ring_enqueue_burst r objs n = do_enqueue r objs n RTE_RING_QUEUE_VARIABLE (ht_single (rr_prod r))"

definition rte_ring_enqueue :: "'a rte_ring \<Rightarrow> 'a \<Rightarrow> (int \<times> 'a rte_ring) outcome option" where
  "rte_ring_enqueue r obj =
     map_option (\<lambda>x. bind_ok x (\<lambda>(n, free_space, r'). Inr (if n \<noteq> 0 then 0 else - ENOBUFS, r'))) (rte_ring_enqueue_bulk r [obj] 1)"

definition rte_ring_dequeue_bulk :: "'a rte_ring \<Rightarrow> u32 \<Rightarrow> ('a list \<times> u32 \<times> 'a rte_ring) outcome option" where
  "rte_ring_dequeue_bulk r n = do_dequeue r n RTE_RING_QUEUE_FIXED (ht_single (rr_cons r))"

definition rte_ring_dequeue_burst :: "'a rte_ring \<Rightarrow> u32 \<Rightarrow> ('a list \<times> u32 \<times> 'a rte_ring) outcome option" where
  "rte_ring_dequeue_burst r n = do_dequeue r n RTE_RING_QUEUE_VARIABLE (ht_single (rr_cons r))"

definition rte_ring_count :: "'a rte_ring \<Rightarrow> u32" where
  "rte_ring_count r =
     (let count = (ht_tail (rr_prod r) - ht_tail (rr_cons r)) AND rr_mask r in if rr_capacity r < count then rr_capacity r else count)"

definition rte_ring_free_count :: "'a rte_ring \<Rightarrow> u32" where
  "rte_ring_free_count r = rr_capacity r - rte_ring_count r"

definition rte_ring_full :: "'a rte_ring \<Rightarrow> bool" where
  "rte_ring_full r \<longleftrightarrow> rte_ring_free_count r = 0"

definition rte_ring_empty :: "'a rte_ring \<Rightarrow> bool" where
  "rte_ring_empty r \<longleftrightarrow> rte_ring_count r = 0"

section \<open>Masked indices\<close>

lemma unat_and_mask: "k < 32 \<Longrightarrow> unat (x AND (2 ^ k - 1) :: u32) = unat x mod 2 ^ k"
  unfolding mask_eq_exp_minus_1 [symmetric] take_bit_eq_mask [symmetric] unsigned_take_bit_eq
  by (rule take_bit_eq_mod)

lemma unat_add_mod: "k < 32 \<Longrightarrow> unat (x + y :: u32) mod 2 ^ k = (unat x + unat y) mod 2 ^ k"
proof -
  assume "k < 32"
  then have "(2 :: nat) ^ k dvd 2 ^ 32" by (intro le_imp_power_dvd) simp
  then show ?thesis by (simp add: unat_word_ariths mod_mod_cancel)
qed

lemma word_nat_cast: "word_of_nat (unat (w :: u32)) = w"
  by simp

section \<open>Runs of stores and loads\<close>

primrec ring_put :: "nat \<Rightarrow> 'a list \<Rightarrow> 'a list \<Rightarrow> 'a list" where
  "ring_put h [] v = v"
| "ring_put h (x # xs) v = ring_put (Suc h) xs (v[h mod length v := x])"

lemma length_ring_put [simp]: "length (ring_put h xs v) = length v"
  by (induction xs arbitrary: h v) simp_all

lemma ring_put_append: "ring_put h (xs @ ys) v = ring_put (h + length xs) ys (ring_put h xs v)"
  by (induction xs arbitrary: h v) simp_all

lemma ring_put_mod: "h mod length v = h' mod length v \<Longrightarrow> ring_put h xs v = ring_put h' xs v"
proof (induction xs arbitrary: h h' v)
  case (Cons x xs)
  have "Suc h mod length v = Suc h' mod length v" using Cons.prems by (metis mod_Suc_eq)
  then show ?case using Cons.prems Cons.IH [of "Suc h" "v[h mod length v := x]" "Suc h'"] by simp
qed simp

lemma ring_mod: "h mod length v = h' mod length v \<Longrightarrow> ring v h n = ring v h' n"
  unfolding ring_def by (metis mod_add_left_eq)

lemma ring_put_items: "n + length xs \<le> length v \<Longrightarrow> ring (ring_put (h + n) xs v) h (n + length xs) = ring v h n @ xs"
proof (induction xs arbitrary: n v)
  case (Cons x xs)
  have "ring (v[(h + n) mod length v := x]) h (Suc n) = ring v h n @ [x]"
    by (rule ring_snoc) (use Cons.prems in simp)
  then show ?case using Cons.IH [of "Suc n" "v[(h + n) mod length v := x]"] Cons.prems by simp
qed simp

lemma ring_add: "ring v h (a + b) = ring v h a @ ring v (h + a) b"
  by (rule nth_equalityI) (simp_all add: nth_ring nth_append)

lemma take_ring: "a \<le> n \<Longrightarrow> take a (ring v h n) = ring v h a"
  using ring_add [of v h a "n - a"] by simp

lemma drop_ring: "a \<le> n \<Longrightarrow> drop a (ring v h n) = ring v (h + a) (n - a)"
  using ring_add [of v h a "n - a"] by simp

lemma unat_Suc: "unat (idx :: u32) < 2147483648 \<Longrightarrow> unat (idx + 1) = Suc (unat idx)"
  by (subst unat_add_lt) simp_all

lemma store_run_put:
  "unat idx + length xs \<le> length v \<Longrightarrow> length v \<le> 2147483648 \<Longrightarrow> store_run idx xs v = Inr (ring_put (unat idx) xs v)"
proof (induction xs arbitrary: idx v)
  case (Cons x xs)
  then show ?case using Cons.IH [of "idx + 1"] by (simp add: unat_Suc)
qed simp

lemma store_by_four_run: "store_by_four idx xs v = store_run idx xs v"
  by (induction idx xs v rule: store_by_four.induct) (simp_all add: bind_ok_assoc add.assoc cong: bind_ok_cong)

lemma load_run_ring:
  "unat idx + n \<le> length v \<Longrightarrow> length v \<le> 2147483648 \<Longrightarrow> load_run idx n v = Inr (ring v (unat idx) n)"
proof (induction n arbitrary: idx)
  case 0
  then show ?case by (simp add: ring_def)
next
  case (Suc n)
  have "ring v (unat idx) (Suc n) = v ! unat idx # ring v (Suc (unat idx)) n"
    using ring_add [of v "unat idx" 1 n] Suc.prems by (simp add: ring_def)
  then show ?case using Suc.IH [of "idx + 1"] Suc.prems by (simp add: unat_Suc)
qed

lemma load_by_four_run: "load_by_four idx n v = load_run idx n v"
proof (induction n arbitrary: idx rule: less_induct)
  case (less n)
  show ?case
  proof (cases "n < 4")
    case False
    define m where "m = n - 4"
    with False have n: "n = Suc (Suc (Suc (Suc m)))" by simp
    then show ?thesis using less [of m "idx + 4"]
      by (subst load_by_four.simps) (simp add: bind_ok_assoc add.assoc cong: bind_ok_cong)
  qed (simp add: load_by_four.simps)
qed

section \<open>Quiescent rings\<close>

text \<open>
  No operation is under way: the heads equal the tails, the slots are a power of two and one more than the
  capacity.
\<close>

definition ring_wf :: "nat \<Rightarrow> 'a rte_ring \<Rightarrow> bool" where
  "ring_wf k r \<longleftrightarrow> k < 32 \<and> rr_size r = 2 ^ k \<and> rr_mask r = 2 ^ k - 1 \<and> rr_capacity r = 2 ^ k - 1 \<and> length (rr_slots r) = 2 ^ k
     \<and> ht_head (rr_prod r) = ht_tail (rr_prod r) \<and> ht_head (rr_cons r) = ht_tail (rr_cons r)
     \<and> unat (ht_tail (rr_prod r) - ht_tail (rr_cons r)) < 2 ^ k"

definition ring_items :: "'a rte_ring \<Rightarrow> 'a list" where
  "ring_items r = ring (rr_slots r) (unat (ht_tail (rr_cons r))) (unat (ht_tail (rr_prod r) - ht_tail (rr_cons r)))"

definition ring_created :: "nat \<Rightarrow> 'a rte_ring \<Rightarrow> bool" where
  "ring_created k r \<longleftrightarrow> rr_size r = 2 ^ k \<and> rr_mask r = 2 ^ k - 1 \<and> rr_capacity r = 2 ^ k - 1 \<and> length (rr_slots r) = 2 ^ k
     \<and> rr_prod r = \<lparr>ht_head = 0, ht_tail = 0, ht_single = False\<rparr> \<and> rr_cons r = \<lparr>ht_head = 0, ht_tail = 0, ht_single = False\<rparr>"

lemma unat_small: "n < 4294967296 \<Longrightarrow> unat (word_of_nat n :: u32) = n"
  by (simp add: unsigned_of_nat take_bit_nat_eq_self_iff)

lemma unat_pow2: "k < 32 \<Longrightarrow> unat (2 ^ k :: u32) = 2 ^ k"
proof -
  assume "k < 32"
  then have "(2 :: nat) ^ k < 2 ^ 32" by (intro power_strict_increasing) simp_all
  then show ?thesis using unat_small [of "2 ^ k"] by simp
qed

lemma pow2_le: "k < 32 \<Longrightarrow> (2 :: nat) ^ k \<le> 2147483648"
proof -
  assume "k < 32"
  then have "(2 :: nat) ^ k \<le> 2 ^ 31" by (intro power_increasing) simp_all
  then show ?thesis by simp
qed

lemma unat_pow2_pred: "k < 32 \<Longrightarrow> unat (2 ^ k - 1 :: u32) = 2 ^ k - 1"
  by (simp add: unat_minus_one unat_pow2)

lemma ENQUEUE_PTRS_put:
  assumes k: "k < 32" "rr_size r = 2 ^ k" "rr_mask r = 2 ^ k - 1" "length (rr_slots r) = 2 ^ k" and n: "length objs < 2 ^ k"
  shows "ENQUEUE_PTRS r h objs = Inr (ring_put (unat h) objs (rr_slots r))"
proof -
  let ?v = "rr_slots r" and ?idx = "h AND rr_mask r" and ?n = "word_of_nat (length objs) :: u32"
  have m: "(2 :: nat) ^ k \<le> 2147483648" by (rule pow2_le [OF k(1)])
  have i: "unat ?idx = unat h mod 2 ^ k" using unat_and_mask [OF k(1)] k(3) by simp
  then have lt: "unat ?idx < 2 ^ k" by simp
  have un: "unat ?n = length objs" using n m by (intro unat_small) simp
  have s: "unat (rr_size r) = 2 ^ k" using k(1,2) by (simp add: unat_pow2)
  have add: "unat (?idx + ?n) = unat ?idx + length objs" using lt n m un by (subst unat_add_lt) simp_all
  have same: "ring_put (unat ?idx) objs ?v = ring_put (unat h) objs ?v" by (rule ring_put_mod) (simp add: i k(4))
  show ?thesis
  proof (cases "?idx + ?n < rr_size r")
    case True
    then have "unat ?idx + length objs < 2 ^ k" using add s by (simp add: word_less_nat_alt)
    then show ?thesis using True m k(4) same by (simp add: ENQUEUE_PTRS_def Let_def store_by_four_run store_run_put)
  next
    case False
    then have ge: "2 ^ k \<le> unat ?idx + length objs" using add s by (simp add: word_less_nat_alt)
    let ?k = "2 ^ k - unat ?idx"
    have c: "?idx < rr_size r" "unat (rr_size r - ?idx) = ?k"
      using lt s by (simp_all add: word_less_nat_alt) (subst unat_sub, simp_all add: word_le_nat_alt)
    have "store_run ?idx (take ?k objs) ?v = Inr (ring_put (unat ?idx) (take ?k objs) ?v)"
      using ge lt m k(4) by (intro store_run_put) simp_all
    moreover have "store_run 0 (drop ?k objs) (ring_put (unat ?idx) (take ?k objs) ?v)
        = Inr (ring_put 0 (drop ?k objs) (ring_put (unat ?idx) (take ?k objs) ?v))"
      using n m k(4) by (subst store_run_put) simp_all
    moreover have "ring_put 0 (drop ?k objs) (ring_put (unat ?idx) (take ?k objs) ?v) = ring_put (unat ?idx) objs ?v"
    proof -
      have "ring_put (unat ?idx) (take ?k objs @ drop ?k objs) ?v
          = ring_put (unat ?idx + ?k) (drop ?k objs) (ring_put (unat ?idx) (take ?k objs) ?v)"
        using ge by (simp only: ring_put_append length_take) simp
      also have "\<dots> = ring_put 0 (drop ?k objs) (ring_put (unat ?idx) (take ?k objs) ?v)"
        by (rule ring_put_mod) (use lt k(4) in simp)
      finally show ?thesis by simp
    qed
    ultimately show ?thesis using False ge c same by (simp add: ENQUEUE_PTRS_def Let_def)
  qed
qed

lemma DEQUEUE_PTRS_ring:
  assumes k: "k < 32" "rr_size r = 2 ^ k" "rr_mask r = 2 ^ k - 1" "length (rr_slots r) = 2 ^ k" and n: "unat n < 2 ^ k"
  shows "DEQUEUE_PTRS r h n = Inr (ring (rr_slots r) (unat h) (unat n))"
proof -
  let ?v = "rr_slots r" and ?idx = "h AND rr_mask r"
  have m: "(2 :: nat) ^ k \<le> 2147483648" by (rule pow2_le [OF k(1)])
  have i: "unat ?idx = unat h mod 2 ^ k" using unat_and_mask [OF k(1)] k(3) by simp
  then have lt: "unat ?idx < 2 ^ k" by simp
  have s: "unat (rr_size r) = 2 ^ k" using k(1,2) by (simp add: unat_pow2)
  have add: "unat (?idx + n) = unat ?idx + unat n" using lt n m by (subst unat_add_lt) simp_all
  have same: "ring ?v (unat ?idx) (unat n) = ring ?v (unat h) (unat n)" by (rule ring_mod) (simp add: i k(4))
  show ?thesis
  proof (cases "?idx + n < rr_size r")
    case True
    then have "unat ?idx + unat n < 2 ^ k" using add s by (simp add: word_less_nat_alt)
    then show ?thesis using True m k(4) same by (simp add: DEQUEUE_PTRS_def Let_def load_by_four_run load_run_ring)
  next
    case False
    then have ge: "2 ^ k \<le> unat ?idx + unat n" using add s by (simp add: word_less_nat_alt)
    let ?k = "2 ^ k - unat ?idx"
    have c: "?idx < rr_size r" "unat (rr_size r - ?idx) = ?k"
      using lt s by (simp_all add: word_less_nat_alt) (subst unat_sub, simp_all add: word_le_nat_alt)
    have "load_run ?idx ?k ?v = Inr (ring ?v (unat ?idx) ?k)" using lt m k(4) by (intro load_run_ring) simp_all
    moreover have "load_run 0 (unat n - ?k) ?v = Inr (ring ?v 0 (unat n - ?k))"
      using n m k(4) by (subst load_run_ring) simp_all
    moreover have "ring ?v (unat ?idx) ?k @ ring ?v 0 (unat n - ?k) = ring ?v (unat ?idx) (unat n)"
    proof -
      have "ring ?v 0 (unat n - ?k) = ring ?v (unat ?idx + ?k) (unat n - ?k)"
        by (rule ring_mod) (use lt k(4) in simp)
      then show ?thesis using ring_add [of ?v "unat ?idx" ?k "unat n - ?k"] ge by simp
    qed
    ultimately show ?thesis using False c same by (simp add: DEQUEUE_PTRS_def Let_def)
  qed
qed

section \<open>A burst appends, a burst removes\<close>

lemma length_ring_items: "length (ring_items r) = unat (ht_tail (rr_prod r) - ht_tail (rr_cons r))"
  by (simp add: ring_items_def)

lemma ring_wf_items: "ring_wf k r \<Longrightarrow> length (ring_items r) < 2 ^ k"
  by (simp add: ring_wf_def length_ring_items)

lemma free_entries_unat:
  assumes "ring_wf k r"
  shows "unat (rr_capacity r + ht_tail (rr_cons r) - ht_head (rr_prod r)) = 2 ^ k - 1 - length (ring_items r)"
proof -
  let ?used = "ht_tail (rr_prod r) - ht_tail (rr_cons r)"
  have w: "k < 32" "rr_capacity r = 2 ^ k - 1" "ht_head (rr_prod r) = ht_tail (rr_prod r)" "unat ?used < 2 ^ k"
    using assms by (simp_all add: ring_wf_def)
  have "rr_capacity r + ht_tail (rr_cons r) - ht_head (rr_prod r) = (2 ^ k - 1) - ?used" using w(2,3) by simp
  moreover have "unat ((2 ^ k - 1) - ?used) = unat (2 ^ k - 1 :: u32) - unat ?used"
    using w(1,4) by (intro unat_sub) (simp add: word_le_nat_alt unat_pow2_pred)
  ultimately have "unat (rr_capacity r + ht_tail (rr_cons r) - ht_head (rr_prod r)) = unat (2 ^ k - 1 :: u32) - unat ?used"
    by (simp only:)
  then show ?thesis unfolding length_ring_items unat_pow2_pred [OF w(1)] .
qed

definition burst_nat :: "nat \<Rightarrow> nat \<Rightarrow> rte_ring_queue_behavior \<Rightarrow> nat" where
  "burst_nat n room behavior =
     (if room < n then (case behavior of RTE_RING_QUEUE_FIXED \<Rightarrow> 0 | RTE_RING_QUEUE_VARIABLE \<Rightarrow> room) else n)"

lemma burst_size_nat: "unat (burst_size n room b) = burst_nat (unat n) (unat room) b"
  by (simp add: burst_size_def burst_nat_def word_less_nat_alt split: rte_ring_queue_behavior.split)

lemma burst_nat_le: "burst_nat n room b \<le> room" "burst_nat n room b \<le> n"
  by (auto simp: burst_nat_def split: rte_ring_queue_behavior.split)

lemma move_prod_head_quiet:
  fixes r :: "'a rte_ring"
  defines "free_entries \<equiv> rr_capacity r + ht_tail (rr_cons r) - ht_head (rr_prod r)"
  shows "move_prod_head r sp n b = Some (burst_size n free_entries b, ht_head (rr_prod r), ht_head (rr_prod r) + burst_size n free_entries b,
     free_entries, r\<lparr>rr_prod := (rr_prod r)\<lparr>ht_head := ht_head (rr_prod r) + burst_size n free_entries b\<rparr>\<rparr>)"
  unfolding free_entries_def by (subst move_prod_head.simps) (simp add: Let_def rte_atomic32_cmpset_def)

lemma move_cons_head_quiet:
  fixes r :: "'a rte_ring"
  defines "entries \<equiv> ht_tail (rr_prod r) - ht_head (rr_cons r)"
  shows "move_cons_head r sc n b = Some (burst_size n entries b, ht_head (rr_cons r), ht_head (rr_cons r) + burst_size n entries b,
     entries, r\<lparr>rr_cons := (rr_cons r)\<lparr>ht_head := ht_head (rr_cons r) + burst_size n entries b\<rparr>\<rparr>)"
  unfolding entries_def by (subst move_cons_head.simps) (simp add: Let_def rte_atomic32_cmpset_def)

lemma do_enqueue_items:
  fixes b :: rte_ring_queue_behavior
  assumes wf: "ring_wf k r" and n: "length objs < 4294967296" and sp: "sp = ht_single (rr_prod r)"
  defines "m \<equiv> burst_nat (length objs) (2 ^ k - 1 - length (ring_items r)) b"
  shows "\<exists>r'. do_enqueue r objs (word_of_nat (length objs)) b sp
        = Some (Inr (word_of_nat m, word_of_nat (2 ^ k - 1 - length (ring_items r) - m), r'))
    \<and> ring_wf k r' \<and> ring_items r' = ring_items r @ take m objs"
proof -
  let ?free = "rr_capacity r + ht_tail (rr_cons r) - ht_head (rr_prod r)" and ?h = "ht_tail (rr_prod r)"
  let ?c = "ht_tail (rr_cons r)" and ?v = "rr_slots r"
  have w: "k < 32" "rr_size r = 2 ^ k" "rr_mask r = 2 ^ k - 1" "length ?v = 2 ^ k" "ht_head (rr_prod r) = ?h"
    using wf by (simp_all add: ring_wf_def)
  have fr: "unat ?free = 2 ^ k - 1 - length (ring_items r)" by (rule free_entries_unat [OF wf])
  define n' where "n' = burst_size (word_of_nat (length objs)) ?free b"
  have n': "unat n' = m" using n by (simp add: n'_def burst_size_nat fr unat_small m_def)
  then have wn: "n' = word_of_nat m" by (metis word_nat_cast)
  have le: "m \<le> 2 ^ k - 1 - length (ring_items r)" "m \<le> length objs" by (simp_all add: m_def burst_nat_le)
  have sub: "?free - n' = word_of_nat (2 ^ k - 1 - length (ring_items r) - m)"
    using le(1) fr n' by (metis unat_sub word_le_nat_alt word_nat_cast)
  have "0 < (2 :: nat) ^ k" by simp
  with le(1) have ml: "m < 2 ^ k" by linarith
  note mv = move_prod_head_quiet [of r sp "word_of_nat (length objs)" b, folded n'_def]
  show ?thesis
  proof (cases "m = 0")
    case True
    then have "n' = 0" using wn by simp
    then show ?thesis using mv wf sub True by (simp add: do_enqueue_def)
  next
    case False
    then have nz: "n' \<noteq> 0" using n' by auto
    let ?r1 = "r\<lparr>rr_prod := (rr_prod r)\<lparr>ht_head := ?h + n'\<rparr>\<rparr>"
    let ?r' = "?r1\<lparr>rr_prod := \<lparr>ht_head = ?h + n', ht_tail = ?h + n', ht_single = sp\<rparr>, rr_slots := ring_put (unat ?h) (take m objs) ?v\<rparr>"
    have e: "ENQUEUE_PTRS ?r1 ?h (take m objs) = Inr (ring_put (unat ?h) (take m objs) ?v)"
      using ENQUEUE_PTRS_put [of k ?r1 "take m objs" ?h] w le(2) ml by simp
    have "do_enqueue r objs (word_of_nat (length objs)) b sp = Some (Inr (n', ?free - n', ?r'))"
      using mv nz e n' le(2) w(5) sp by (simp add: do_enqueue_def update_tail_def)
    moreover have used: "unat (?h + n' - ?c) = length (ring_items r) + m"
    proof -
      have "?h + n' - ?c = (?h - ?c) + n'" by simp
      moreover have "unat ((?h - ?c) + n') = unat (?h - ?c) + unat n'"
        using le(1) n' pow2_le [OF w(1)] ring_wf_items [OF wf] by (intro unat_add_lt) (simp add: length_ring_items)
      ultimately show ?thesis by (simp only: n' length_ring_items)
    qed
    moreover have "ring_wf k ?r'" using wf le(1) used ring_wf_items [OF wf] by (simp add: ring_wf_def)
    moreover have "ring_items ?r' = ring_items r @ take m objs"
    proof -
      have m: "(unat ?c + length (ring_items r)) mod 2 ^ k = unat ?h mod 2 ^ k"
        using unat_add_mod [OF w(1), of ?c "?h - ?c"] by (simp add: length_ring_items)
      have "ring_put (unat ?h) (take m objs) ?v = ring_put (unat ?c + length (ring_items r)) (take m objs) ?v"
        by (rule ring_put_mod) (simp add: w(4) m)
      then have "ring_items ?r' = ring (ring_put (unat ?c + length (ring_items r)) (take m objs) ?v) (unat ?c)
          (length (ring_items r) + length (take m objs))"
        using used le(2) by (subst ring_items_def) simp
      also have "\<dots> = ring ?v (unat ?c) (length (ring_items r)) @ take m objs"
        by (rule ring_put_items) (use le w(4) ring_wf_items [OF wf] in simp)
      finally show ?thesis by (simp add: ring_items_def)
    qed
    ultimately show ?thesis using wn sub by auto
  qed
qed

lemma do_dequeue_items:
  fixes n :: u32 and b :: rte_ring_queue_behavior
  assumes wf: "ring_wf k r" and sc: "sc = ht_single (rr_cons r)"
  defines "m \<equiv> burst_nat (unat n) (length (ring_items r)) b"
  shows "\<exists>r'. do_dequeue r n b sc = Some (Inr (take m (ring_items r), word_of_nat (length (ring_items r) - m), r'))
    \<and> ring_wf k r' \<and> ring_items r' = drop m (ring_items r)"
proof -
  let ?h = "ht_tail (rr_prod r)" and ?c = "ht_tail (rr_cons r)" and ?v = "rr_slots r"
  have w: "k < 32" "rr_size r = 2 ^ k" "rr_mask r = 2 ^ k - 1" "length ?v = 2 ^ k" "ht_head (rr_cons r) = ?c"
    using wf by (simp_all add: ring_wf_def)
  define n' where "n' = burst_size n (?h - ?c) b"
  have n': "unat n' = m" by (simp add: n'_def burst_size_nat m_def length_ring_items)
  then have wn: "n' = word_of_nat m" by (metis word_nat_cast)
  have le: "m \<le> length (ring_items r)" by (simp add: m_def burst_nat_le)
  have sub: "unat (?h - ?c - n') = length (ring_items r) - m"
    using le n' by (subst unat_sub) (simp_all add: word_le_nat_alt length_ring_items)
  then have sub': "?h - ?c - n' = word_of_nat (length (ring_items r) - m)" by (metis word_nat_cast)
  note mv = move_cons_head_quiet [of r sc n b, unfolded w(5), folded n'_def]
  show ?thesis
  proof (cases "m = 0")
    case True
    then have z: "n' = 0" using wn by simp
    have "r\<lparr>rr_cons := (rr_cons r)\<lparr>ht_head := ?c\<rparr>\<rparr> = r" using w(5) by (cases r; cases "rr_cons r") simp
    then have "do_dequeue r n b sc = Some (Inr ([], ?h - ?c - n', r))" using mv z by (simp add: do_dequeue_def)
    then show ?thesis unfolding sub' using wf True by simp
  next
    case False
    then have nz: "n' \<noteq> 0" using n' by auto
    let ?r1 = "r\<lparr>rr_cons := (rr_cons r)\<lparr>ht_head := ?c + n'\<rparr>\<rparr>"
    let ?r' = "?r1\<lparr>rr_cons := \<lparr>ht_head = ?c + n', ht_tail = ?c + n', ht_single = sc\<rparr>\<rparr>"
    have "DEQUEUE_PTRS ?r1 ?c n' = Inr (ring ?v (unat ?c) m)"
      using DEQUEUE_PTRS_ring [of k ?r1 n' ?c] w le n' ring_wf_items [OF wf] by simp
    also have "ring ?v (unat ?c) m = take m (ring_items r)" using le by (simp add: ring_items_def take_ring length_ring_items)
    finally have "do_dequeue r n b sc = Some (Inr (take m (ring_items r), ?h - ?c - n', ?r'))"
      using mv nz sc by (simp add: do_dequeue_def update_tail_def)
    moreover have used: "unat (?h - (?c + n')) = length (ring_items r) - m" using sub by (simp add: diff_diff_eq)
    moreover have "ring_wf k ?r'" using wf used ring_wf_items [OF wf] by (simp add: ring_wf_def)
    moreover have "ring_items ?r' = drop m (ring_items r)"
    proof -
      have "ring_items ?r' = ring ?v (unat (?c + n')) (length (ring_items r) - m)" using used by (subst ring_items_def) simp
      also have "\<dots> = ring ?v (unat ?c + m) (length (ring_items r) - m)"
        by (rule ring_mod) (use unat_add_mod [OF w(1), of ?c n'] in \<open>simp add: w(4) n'\<close>)
      also have "\<dots> = drop m (ring_items r)" using le by (simp add: ring_items_def drop_ring length_ring_items)
      finally show ?thesis .
    qed
    ultimately show ?thesis using sub' by auto
  qed
qed

section \<open>The wrappers of \<open>ring_queue.c\<close>\<close>

text \<open>
  The rings of one direction, one for each device, and the counters of \<open>ut_statis_debug\<close> that belong to them.  A ring that could
  not be created is a null pointer.
\<close>

record 'a ring_side =
  rq_ring :: "'a rte_ring option list"
  rq_enqueue_num :: "u64 list"
  rq_drop_num :: "u64 list"
  rq_dequeue_num :: "u64 list"

record 'a RINGS =
  rcv_ring :: "'a ring_side"
  encap_ring :: "'a ring_side"
  snd_bb_ring :: "'a ring_side"

definition RING_SIZE :: u32 where "RING_SIZE = 8192 * 64"

definition count_one :: "u64 list \<Rightarrow> nat \<Rightarrow> u64 \<Rightarrow> u64 list outcome" where
  "count_one nums i n = bind_ok (load_at nums i) (\<lambda>c. store_at nums i (c + n))"

definition pointed_ring :: "'a ring_side \<Rightarrow> nat \<Rightarrow> 'a rte_ring outcome" where
  "pointed_ring s i = bind_ok (load_at (rq_ring s) i) (\<lambda>p. case p of None \<Rightarrow> Inl NullDeref | Some r \<Rightarrow> Inr r)"

text \<open>The loops of \<open>create_ring\<close>, over the rings of one side.\<close>

definition create_rings :: "(nat \<Rightarrow> u32 \<Rightarrow> 'a rte_ring option) \<Rightarrow> nat \<Rightarrow> 'a ring_side \<Rightarrow> 'a ring_side outcome" where
  "create_rings rte_ring_create n s =
     for_each [0..<n] (\<lambda>i s. bind_ok (store_at (rq_ring s) i (rte_ring_create i RING_SIZE)) (\<lambda>rs. Inr (s\<lparr>rq_ring := rs\<rparr>))) s"

definition create_ring :: "(nat \<Rightarrow> nat \<Rightarrow> u32 \<Rightarrow> 'a rte_ring option) \<Rightarrow> nat \<Rightarrow> nat \<Rightarrow> 'a RINGS \<Rightarrow> 'a RINGS outcome" where
  "create_ring rte_ring_create rcv_ring_queue_num encap_ring_queue_num R =
     bind_ok (create_rings (rte_ring_create 0) rcv_ring_queue_num (rcv_ring R)) (\<lambda>a.
     bind_ok (create_rings (rte_ring_create 1) encap_ring_queue_num (encap_ring R)) (\<lambda>b.
     bind_ok (create_rings (rte_ring_create 2) encap_ring_queue_num (snd_bb_ring R)) (\<lambda>c.
     Inr (R\<lparr>rcv_ring := a, encap_ring := b, snd_bb_ring := c\<rparr>))))"

text \<open>The body that the three enqueue functions share, and that of the dequeue functions.\<close>

definition enqueue_side :: "'a option \<Rightarrow> u16 \<Rightarrow> 'a ring_side \<Rightarrow> (bool \<times> 'a ring_side) outcome option" where
  "enqueue_side mbuf ring_id s =
     (case mbuf of
        None \<Rightarrow> Some (Inr (False, s))
      | Some obj \<Rightarrow>
          (case pointed_ring s (unat ring_id) of
             Inl e \<Rightarrow> Some (Inl e)
           | Inr r \<Rightarrow> map_option (\<lambda>x. bind_ok x (\<lambda>(ret, r').
               let s1 = s\<lparr>rq_ring := (rq_ring s)[unat ring_id := Some r']\<rparr> in
               if ret = 0
               then bind_ok (count_one (rq_enqueue_num s1) (unat ring_id) 1) (\<lambda>n. Inr (True, s1\<lparr>rq_enqueue_num := n\<rparr>))
               else bind_ok (count_one (rq_drop_num s1) (unat ring_id) 1) (\<lambda>n. Inr (False, s1\<lparr>rq_drop_num := n\<rparr>))))
               (rte_ring_enqueue r obj)))"

definition dequeue_side :: "bool \<Rightarrow> u32 \<Rightarrow> u16 \<Rightarrow> 'a ring_side \<Rightarrow> ('a list \<times> 'a ring_side) outcome option" where
  "dequeue_side buf max_num ring_id s =
     (if \<not> buf \<or> max_num = 0 then Some (Inr ([], s))
      else
        (case pointed_ring s (unat ring_id) of
           Inl e \<Rightarrow> Some (Inl e)
         | Inr r \<Rightarrow> map_option (\<lambda>x. bind_ok x (\<lambda>(objs, available, r').
             let s1 = s\<lparr>rq_ring := (rq_ring s)[unat ring_id := Some r']\<rparr> in
             bind_ok (count_one (rq_dequeue_num s1) (unat ring_id) (word_of_nat (length objs))) (\<lambda>n. Inr (objs, s1\<lparr>rq_dequeue_num := n\<rparr>))))
             (rte_ring_dequeue_burst r max_num)))"

definition on_side :: "('a ring_side \<Rightarrow> 'a RINGS) \<Rightarrow> ('b \<times> 'a ring_side) outcome option \<Rightarrow> ('b \<times> 'a RINGS) outcome option" where
  "on_side put = map_option (\<lambda>x. bind_ok x (\<lambda>(b, s). Inr (b, put s)))"

definition enqueue_snd_bb_ring :: "'a option \<Rightarrow> u16 \<Rightarrow> 'a RINGS \<Rightarrow> (bool \<times> 'a RINGS) outcome option" where
  "enqueue_snd_bb_ring mbuf ring_id R = on_side (\<lambda>s. R\<lparr>snd_bb_ring := s\<rparr>) (enqueue_side mbuf ring_id (snd_bb_ring R))"

definition dequeue_snd_bb_ring :: "bool \<Rightarrow> u32 \<Rightarrow> u16 \<Rightarrow> 'a RINGS \<Rightarrow> ('a list \<times> 'a RINGS) outcome option" where
  "dequeue_snd_bb_ring buf max_num ring_id R = on_side (\<lambda>s. R\<lparr>snd_bb_ring := s\<rparr>) (dequeue_side buf max_num ring_id (snd_bb_ring R))"

definition snd_bb_ring_is_null :: "u16 \<Rightarrow> 'a RINGS \<Rightarrow> int outcome" where
  "snd_bb_ring_is_null ring_id R = bind_ok (pointed_ring (snd_bb_ring R) (unat ring_id)) (\<lambda>r. Inr (if rte_ring_empty r then 1 else 0))"

definition enqueue_encap_ring :: "'a option \<Rightarrow> u16 \<Rightarrow> 'a RINGS \<Rightarrow> (bool \<times> 'a RINGS) outcome option" where
  "enqueue_encap_ring mbuf ring_id R = on_side (\<lambda>s. R\<lparr>encap_ring := s\<rparr>) (enqueue_side mbuf ring_id (encap_ring R))"

definition dequeue_encap_ring :: "bool \<Rightarrow> u32 \<Rightarrow> u16 \<Rightarrow> 'a RINGS \<Rightarrow> ('a list \<times> 'a RINGS) outcome option" where
  "dequeue_encap_ring buf max_num ring_id R = on_side (\<lambda>s. R\<lparr>encap_ring := s\<rparr>) (dequeue_side buf max_num ring_id (encap_ring R))"

definition enqueue_rcv_ring :: "'a option \<Rightarrow> u16 \<Rightarrow> 'a RINGS \<Rightarrow> (bool \<times> 'a RINGS) outcome option" where
  "enqueue_rcv_ring mbuf ring_id R = on_side (\<lambda>s. R\<lparr>rcv_ring := s\<rparr>) (enqueue_side mbuf ring_id (rcv_ring R))"

definition dequeue_rcv_ring :: "bool \<Rightarrow> u32 \<Rightarrow> u16 \<Rightarrow> 'a RINGS \<Rightarrow> ('a list \<times> 'a RINGS) outcome option" where
  "dequeue_rcv_ring buf max_num ring_id R = on_side (\<lambda>s. R\<lparr>rcv_ring := s\<rparr>) (dequeue_side buf max_num ring_id (rcv_ring R))"

section \<open>A ring and its counters as a bounded queue\<close>

text \<open>The specification: a queue of bounded length and three counters.\<close>

datatype 'a ring_op = Put 'a | Get u32

datatype 'a ring_result = Taken bool | Got "'a list"

record 'a queue_spec =
  qs_items :: "'a list"
  qs_enqueued :: u64
  qs_dropped :: u64
  qs_dequeued :: u64

fun queue_step :: "nat \<Rightarrow> 'a ring_op \<Rightarrow> 'a queue_spec \<Rightarrow> 'a ring_result \<times> 'a queue_spec" where
  "queue_step cap (Put x) q =
     (if length (qs_items q) < cap then (Taken True, q\<lparr>qs_items := qs_items q @ [x], qs_enqueued := qs_enqueued q + 1\<rparr>)
      else (Taken False, q\<lparr>qs_dropped := qs_dropped q + 1\<rparr>))"
| "queue_step cap (Get n) q =
     (Got (take (unat n) (qs_items q)),
      q\<lparr>qs_items := drop (unat n) (qs_items q),
        qs_dequeued := qs_dequeued q + word_of_nat (min (unat n) (length (qs_items q)))\<rparr>)"

fun side_step :: "u16 \<Rightarrow> 'a ring_op \<Rightarrow> 'a ring_side \<Rightarrow> ('a ring_result \<times> 'a ring_side) outcome option" where
  "side_step ring_id (Put x) s = map_option (\<lambda>r. bind_ok r (\<lambda>(b, s'). Inr (Taken b, s'))) (enqueue_side (Some x) ring_id s)"
| "side_step ring_id (Get n) s = map_option (\<lambda>r. bind_ok r (\<lambda>(xs, s'). Inr (Got xs, s'))) (dequeue_side True n ring_id s)"

primrec queue_run :: "nat \<Rightarrow> 'a ring_op list \<Rightarrow> 'a queue_spec \<Rightarrow> 'a ring_result list \<times> 'a queue_spec" where
  "queue_run cap [] q = ([], q)"
| "queue_run cap (p # ps) q = (let (x, q1) = queue_step cap p q; (xs, q2) = queue_run cap ps q1 in (x # xs, q2))"

primrec side_run :: "u16 \<Rightarrow> 'a ring_op list \<Rightarrow> 'a ring_side \<Rightarrow> ('a ring_result list \<times> 'a ring_side) outcome option" where
  "side_run ring_id [] s = Some (Inr ([], s))"
| "side_run ring_id (p # ps) s =
     (case side_step ring_id p s of
        None \<Rightarrow> None
      | Some (Inl e) \<Rightarrow> Some (Inl e)
      | Some (Inr (x, s1)) \<Rightarrow> map_option (\<lambda>r. bind_ok r (\<lambda>(xs, s2). Inr (x # xs, s2))) (side_run ring_id ps s1))"

text \<open>What the side of a ring abstracts to.\<close>

definition side_abs :: "nat \<Rightarrow> nat \<Rightarrow> 'a ring_side \<Rightarrow> 'a queue_spec \<Rightarrow> bool" where
  "side_abs k i s q \<longleftrightarrow> i < length (rq_ring s) \<and> i < length (rq_enqueue_num s) \<and> i < length (rq_drop_num s)
     \<and> i < length (rq_dequeue_num s)
     \<and> (\<exists>r. rq_ring s ! i = Some r \<and> ring_wf k r \<and> ring_items r = qs_items q)
     \<and> rq_enqueue_num s ! i = qs_enqueued q \<and> rq_drop_num s ! i = qs_dropped q \<and> rq_dequeue_num s ! i = qs_dequeued q"

lemma rte_ring_enqueue_queue:
  assumes "ring_wf k r"
  shows "\<exists>r'. rte_ring_enqueue r x = Some (Inr (if length (ring_items r) < 2 ^ k - 1 then 0 else - ENOBUFS, r')) \<and> ring_wf k r'
    \<and> ring_items r' = (if length (ring_items r) < 2 ^ k - 1 then ring_items r @ [x] else ring_items r)"
proof -
  have "(0 :: nat) < 2 ^ k" by simp
  then have m: "burst_nat (Suc 0) (2 ^ k - 1 - length (ring_items r)) RTE_RING_QUEUE_FIXED = (if length (ring_items r) < 2 ^ k - 1 then 1 else 0)"
    using ring_wf_items [OF assms] by (auto simp: burst_nat_def)
  show ?thesis
    using do_enqueue_items [OF assms, of "[x]" "ht_single (rr_prod r)" RTE_RING_QUEUE_FIXED] m
    by (auto simp: rte_ring_enqueue_def rte_ring_enqueue_bulk_def split: if_splits)
qed

lemma burst_variable: "burst_nat n room RTE_RING_QUEUE_VARIABLE = min n room"
  by (simp add: burst_nat_def)

lemma rte_ring_dequeue_queue:
  assumes "ring_wf k r"
  shows "\<exists>r' a. rte_ring_dequeue_burst r n = Some (Inr (take (unat n) (ring_items r), a, r')) \<and> ring_wf k r'
    \<and> ring_items r' = drop (unat n) (ring_items r)"
proof -
  have "take (min (unat n) (length (ring_items r))) (ring_items r) = take (unat n) (ring_items r)"
    "drop (min (unat n) (length (ring_items r))) (ring_items r) = drop (unat n) (ring_items r)"
    by (simp_all add: min_def)
  then show ?thesis
    using do_dequeue_items [OF assms refl, of n RTE_RING_QUEUE_VARIABLE]
    by (auto simp: rte_ring_dequeue_burst_def burst_variable)
qed

lemma side_step_queue:
  assumes "side_abs k (unat i) s q"
  shows "\<exists>s'. side_step i p s = Some (Inr (fst (queue_step (2 ^ k - 1) p q), s')) \<and> side_abs k (unat i) s' (snd (queue_step (2 ^ k - 1) p q))"
proof -
  obtain r where r: "rq_ring s ! unat i = Some r" "ring_wf k r" "ring_items r = qs_items q"
    using assms by (auto simp: side_abs_def)
  have l: "unat i < length (rq_ring s)" "unat i < length (rq_enqueue_num s)" "unat i < length (rq_drop_num s)"
    "unat i < length (rq_dequeue_num s)"
    "rq_enqueue_num s ! unat i = qs_enqueued q" "rq_drop_num s ! unat i = qs_dropped q" "rq_dequeue_num s ! unat i = qs_dequeued q"
    using assms by (auto simp: side_abs_def)
  have p: "pointed_ring s (unat i) = Inr r" using l r by (simp add: pointed_ring_def)
  show ?thesis
  proof (cases p)
    case (Put x)
    from rte_ring_enqueue_queue [OF r(2), of x] obtain r' where
      "rte_ring_enqueue r x = Some (Inr (if length (qs_items q) < 2 ^ k - 1 then 0 else - ENOBUFS, r'))" "ring_wf k r'"
      "ring_items r' = (if length (qs_items q) < 2 ^ k - 1 then qs_items q @ [x] else qs_items q)"
      unfolding r(3) by blast
    then show ?thesis using Put p l by (auto simp: enqueue_side_def side_abs_def count_one_def ENOBUFS_def Let_def)
  next
    case (Get n)
    show ?thesis
    proof (cases "n = 0")
      case True
      then show ?thesis using Get assms by (simp add: dequeue_side_def)
    next
      case False
      from rte_ring_dequeue_queue [OF r(2), of n] obtain r' a where
        "rte_ring_dequeue_burst r n = Some (Inr (take (unat n) (qs_items q), a, r'))" "ring_wf k r'"
        "ring_items r' = drop (unat n) (qs_items q)"
        unfolding r(3) by blast
      then show ?thesis using Get False p l by (auto simp: dequeue_side_def side_abs_def count_one_def Let_def min.commute)
    qed
  qed
qed

lemma side_run_queue:
  "side_abs k (unat i) s q \<Longrightarrow> \<exists>s'. side_run i ps s = Some (Inr (fst (queue_run (2 ^ k - 1) ps q), s'))
     \<and> side_abs k (unat i) s' (snd (queue_run (2 ^ k - 1) ps q))"
proof (induction ps arbitrary: s q)
  case (Cons p ps)
  obtain x q1 where q1: "queue_step (2 ^ k - 1) p q = (x, q1)" by fastforce
  obtain s1 where s1: "side_step i p s = Some (Inr (x, s1))" "side_abs k (unat i) s1 q1"
    using side_step_queue [OF Cons.prems, of p] q1 by auto
  from Cons.IH [OF s1(2)] s1(1) q1 show ?case by (auto split: prod.split)
qed simp

lemma ring_count_items:
  assumes "ring_wf k r"
  shows "rte_ring_count r = word_of_nat (length (ring_items r))"
proof -
  let ?u = "ht_tail (rr_prod r) - ht_tail (rr_cons r)"
  have w: "k < 32" "rr_mask r = 2 ^ k - 1" "rr_capacity r = 2 ^ k - 1" "unat ?u < 2 ^ k" using assms by (simp_all add: ring_wf_def)
  have "unat (?u AND rr_mask r) = unat ?u" using unat_and_mask [OF w(1), of ?u] w(2,4) by simp
  then have "?u AND rr_mask r = ?u" by (simp add: word_unat_eq_iff)
  moreover have "\<not> rr_capacity r < ?u" using w(1,3,4) by (simp add: word_less_nat_alt unat_pow2_pred)
  ultimately show ?thesis by (simp add: rte_ring_count_def length_ring_items)
qed

lemma ring_created_wf: "k < 32 \<Longrightarrow> ring_created k r \<Longrightarrow> ring_wf k r \<and> ring_items r = []"
  by (simp add: ring_created_def ring_wf_def ring_items_def ring_def)

definition balanced :: "'a queue_spec \<Rightarrow> bool" where
  "balanced q \<longleftrightarrow> qs_enqueued q = qs_dequeued q + word_of_nat (length (qs_items q))"

lemma queue_step_balanced:
  assumes "balanced q"
  shows "balanced (snd (queue_step cap p q))"
proof (cases p)
  case (Get n)
  have "length (qs_items q) = min (unat n) (length (qs_items q)) + (length (qs_items q) - unat n)" by simp
  then have "(word_of_nat (length (qs_items q)) :: u64)
      = word_of_nat (min (unat n) (length (qs_items q))) + word_of_nat (length (qs_items q) - unat n)"
    by (metis of_nat_add)
  then show ?thesis using assms Get by (simp add: balanced_def add.assoc)
qed (use assms in \<open>simp add: balanced_def\<close>)

lemma queue_run_balanced: "balanced q \<Longrightarrow> balanced (snd (queue_run cap ps q))"
proof (induction ps arbitrary: q)
  case (Cons p ps)
  obtain x q1 where q1: "queue_step cap p q = (x, q1)" by fastforce
  then have "balanced q1" using queue_step_balanced [OF Cons.prems, of cap p] by simp
  from Cons.IH [OF this] q1 show ?case by (auto split: prod.split)
qed simp

section \<open>Properties\<close>

text \<open>C15: every sequence of enqueues and dequeues on a ring that \<open>rte_ring_create\<close> made
  returns what a first-in-first-out queue of \<open>2 ^ k - 1\<close> places would return, for ever (the 32-bit indices may wrap): an
  enqueue fails exactly when the queue is full, a dequeue takes the oldest objects; and the
  counters account for every object: those enqueued are those dequeued and those in the ring.\<close>

theorem ring_queue_refines_fifo:
  assumes "k < 32" "ring_created k r" "rq_ring s ! unat i = Some r" "unat i < length (rq_ring s)"
    "rq_enqueue_num s = replicate (length (rq_ring s)) 0" "rq_drop_num s = replicate (length (rq_ring s)) 0"
    "rq_dequeue_num s = replicate (length (rq_ring s)) 0"
    "queue_run (2 ^ k - 1) ps \<lparr>qs_items = [], qs_enqueued = 0, qs_dropped = 0, qs_dequeued = 0\<rparr> = (results, q)"
  shows "\<exists>s' r'. side_run i ps s = Some (Inr (results, s')) \<and> rq_ring s' ! unat i = Some r' \<and> ring_wf k r' \<and> ring_items r' = qs_items q
    \<and> rte_ring_count r' = word_of_nat (length (qs_items q))
    \<and> rq_enqueue_num s' ! unat i = rq_dequeue_num s' ! unat i + word_of_nat (length (qs_items q))
    \<and> rq_drop_num s' ! unat i = qs_dropped q"
proof -
  let ?q = "\<lparr>qs_items = [], qs_enqueued = 0, qs_dropped = 0, qs_dequeued = 0\<rparr>"
  have "side_abs k (unat i) s ?q" using assms(3-7) ring_created_wf [OF assms(1,2)] by (simp add: side_abs_def)
  from side_run_queue [OF this, of ps] assms(8) obtain s' where
    s': "side_run i ps s = Some (Inr (results, s'))" "side_abs k (unat i) s' q" by auto
  then obtain r' where "rq_ring s' ! unat i = Some r'" "ring_wf k r'" "ring_items r' = qs_items q"
    by (auto simp: side_abs_def)
  moreover have "balanced q"
    using queue_run_balanced [of ?q "2 ^ k - 1" ps] assms(8) by (simp add: balanced_def)
  ultimately show ?thesis using s' ring_count_items [of k r'] by (auto simp: side_abs_def balanced_def)
qed

definition sample_ring :: "nat rte_ring" where
  "sample_ring = \<lparr>rr_size = 4, rr_mask = 3, rr_capacity = 3, rr_prod = \<lparr>ht_head = 0, ht_tail = 0, ht_single = False\<rparr>,
     rr_cons = \<lparr>ht_head = 0, ht_tail = 0, ht_single = False\<rparr>, rr_slots = [0, 0, 0, 0]\<rparr>"

definition sample_side :: "nat ring_side" where
  "sample_side = \<lparr>rq_ring = [None, Some sample_ring], rq_enqueue_num = [0, 0], rq_drop_num = [0, 0], rq_dequeue_num = [0, 0]\<rparr>"

theorem ring_queue_refines_fifo_witness:
  "\<exists>s' r'. side_run 1 [Put 7, Put 8, Put 9, Put 10, Get 2, Put 11, Get 5] sample_side
      = Some (Inr ([Taken True, Taken True, Taken True, Taken False, Got [7, 8], Taken True, Got [9, 11]], s'))
    \<and> rq_ring s' ! 1 = Some r' \<and> rte_ring_count r' = 0 \<and> rq_enqueue_num s' ! 1 = rq_dequeue_num s' ! 1 \<and> rq_drop_num s' ! 1 = 1"
proof -
  have "ring_created 2 sample_ring" by (simp add: ring_created_def sample_ring_def)
  moreover have "queue_run (2 ^ 2 - 1) [Put 7, Put 8, Put 9, Put 10, Get 2, Put 11, Get 5]
      \<lparr>qs_items = [] :: nat list, qs_enqueued = 0, qs_dropped = 0, qs_dequeued = 0\<rparr>
    = ([Taken True, Taken True, Taken True, Taken False, Got [7, 8], Taken True, Got [9, 11]],
       \<lparr>qs_items = [], qs_enqueued = 4, qs_dropped = 1, qs_dequeued = 4\<rparr>)"
    by simp
  moreover have "rq_ring sample_side ! unat (1 :: u16) = Some sample_ring" "unat (1 :: u16) < length (rq_ring sample_side)"
    "rq_enqueue_num sample_side = replicate (length (rq_ring sample_side)) 0"
    "rq_drop_num sample_side = replicate (length (rq_ring sample_side)) 0"
    "rq_dequeue_num sample_side = replicate (length (rq_ring sample_side)) 0"
    by (simp_all add: sample_side_def)
  ultimately obtain s' r' where "side_run 1 [Put 7, Put 8, Put 9, Put 10, Get 2, Put 11, Get 5] sample_side
      = Some (Inr ([Taken True, Taken True, Taken True, Taken False, Got [7, 8], Taken True, Got [9, 11]], s'))"
    "rq_ring s' ! unat (1 :: u16) = Some r'" "rte_ring_count r' = word_of_nat (length ([] :: nat list))"
    "rq_enqueue_num s' ! unat (1 :: u16) = rq_dequeue_num s' ! unat (1 :: u16) + word_of_nat (length ([] :: nat list))"
    "rq_drop_num s' ! unat (1 :: u16) = 1"
    using ring_queue_refines_fifo [of 2 sample_ring sample_side 1] by (force simp del: side_run.simps)
  then show ?thesis by auto
qed

end
