(* ===== verification/RingThreads.thy ===== *)
theory RingThreads
  imports RingQueue
begin

text \<open>
  The ring between threads (\<open>lib/include/rte_ring.h\<close>, \<open>rte_ring_generic.h\<close>): any number of producers and
  consumers that interleave at every access to shared memory.  The program moves one object at a time: it
  enqueues with \<open>rte_ring_enqueue\<close> and dequeues bursts of \<open>MAX_PKT_BURST\<close>, which is 1.  An x86
  processor keeps the order of the accesses where the code has its barriers, so that a step is one access.

  Ghost fields record positions as unbounded naturals; no step reads them.
\<close>

section \<open>Threads\<close>

text \<open>Where a thread is, and its locals; the naturals are ghosts (the position of the index before).\<close>

datatype 'a ring_pc =
    Idle
  | ProdHead 'a
  | ProdRoom 'a u32 nat
  | ProdCas 'a u32 nat
  | ProdStore 'a u32 nat
  | ProdTail 'a u32 nat
  | ConsHead
  | ConsRoom u32 nat
  | ConsCas u32 nat
  | ConsLoad u32 nat
  | ConsTail u32 nat 'a

record 'a shared_ring =
  sr_ring :: "'a rte_ring"
  sr_threads :: "'a ring_pc list"
  sr_enq :: "'a list"
  sr_published :: nat
  sr_claimed :: nat
  sr_deq :: "'a list"

text \<open>\<open>sr_enq\<close> is the sequence of the objects by the position their enqueue reserved, \<open>sr_deq\<close> that of the
  objects whose dequeue has returned.\<close>

definition at_pc :: "nat \<Rightarrow> 'a ring_pc \<Rightarrow> 'a shared_ring \<Rightarrow> 'a shared_ring" where
  "at_pc i pc s = s\<lparr>sr_threads := (sr_threads s)[i := pc]\<rparr>"

definition set_ring :: "'a rte_ring \<Rightarrow> 'a shared_ring \<Rightarrow> 'a shared_ring" where
  "set_ring r s = s\<lparr>sr_ring := r\<rparr>"

abbreviation runs_at :: "'a shared_ring \<Rightarrow> nat \<Rightarrow> 'a ring_pc \<Rightarrow> bool" where
  "runs_at s i pc \<equiv> i < length (sr_threads s) \<and> sr_threads s ! i = pc"

inductive ring_step :: "'a shared_ring \<Rightarrow> 'a shared_ring \<Rightarrow> bool" where
  enqueue_call: "runs_at s i Idle \<Longrightarrow> ring_step s (at_pc i (ProdHead x) s)"
| prod_read: "runs_at s i (ProdHead x) \<Longrightarrow>
    ring_step s (at_pc i (ProdRoom x (ht_head (rr_prod (sr_ring s))) (length (sr_enq s))) s)"
| prod_full: "runs_at s i (ProdRoom x h g) \<Longrightarrow>
    burst_size 1 (rr_capacity (sr_ring s) + ht_tail (rr_cons (sr_ring s)) - h) RTE_RING_QUEUE_FIXED = 0 \<Longrightarrow>
    ring_step s (at_pc i Idle s)"
| prod_room: "runs_at s i (ProdRoom x h g) \<Longrightarrow>
    burst_size 1 (rr_capacity (sr_ring s) + ht_tail (rr_cons (sr_ring s)) - h) RTE_RING_QUEUE_FIXED \<noteq> 0 \<Longrightarrow>
    ring_step s (at_pc i (ProdCas x h g) s)"
| prod_cas: "runs_at s i (ProdCas x h g) \<Longrightarrow>
    rte_atomic32_cmpset (ht_head (rr_prod (sr_ring s))) h (h + 1) = (True, h') \<Longrightarrow>
    ring_step s (at_pc i (ProdStore x h (length (sr_enq s)))
      (s\<lparr>sr_ring := (sr_ring s)\<lparr>rr_prod := (rr_prod (sr_ring s))\<lparr>ht_head := h'\<rparr>\<rparr>, sr_enq := sr_enq s @ [x]\<rparr>))"
| prod_retry: "runs_at s i (ProdCas x h g) \<Longrightarrow>
    fst (rte_atomic32_cmpset (ht_head (rr_prod (sr_ring s))) h (h + 1)) = False \<Longrightarrow> ring_step s (at_pc i (ProdHead x) s)"
| prod_store: "runs_at s i (ProdStore x h p) \<Longrightarrow> ENQUEUE_PTRS (sr_ring s) h [x] = Inr slots \<Longrightarrow>
    ring_step s (at_pc i (ProdTail x h p) (s\<lparr>sr_ring := (sr_ring s)\<lparr>rr_slots := slots\<rparr>\<rparr>))"
| prod_tail: "runs_at s i (ProdTail x h p) \<Longrightarrow> update_tail (rr_prod (sr_ring s)) h (h + 1) False = Some ht \<Longrightarrow>
    ring_step s (at_pc i Idle (s\<lparr>sr_ring := (sr_ring s)\<lparr>rr_prod := ht\<rparr>, sr_published := Suc (sr_published s)\<rparr>))"
| dequeue_call: "runs_at s i Idle \<Longrightarrow> ring_step s (at_pc i ConsHead s)"
| cons_read: "runs_at s i ConsHead \<Longrightarrow>
    ring_step s (at_pc i (ConsRoom (ht_head (rr_cons (sr_ring s))) (sr_claimed s)) s)"
| cons_empty: "runs_at s i (ConsRoom h g) \<Longrightarrow>
    burst_size 1 (ht_tail (rr_prod (sr_ring s)) - h) RTE_RING_QUEUE_VARIABLE = 0 \<Longrightarrow> ring_step s (at_pc i Idle s)"
| cons_room: "runs_at s i (ConsRoom h g) \<Longrightarrow>
    burst_size 1 (ht_tail (rr_prod (sr_ring s)) - h) RTE_RING_QUEUE_VARIABLE \<noteq> 0 \<Longrightarrow> ring_step s (at_pc i (ConsCas h g) s)"
| cons_cas: "runs_at s i (ConsCas h g) \<Longrightarrow>
    rte_atomic32_cmpset (ht_head (rr_cons (sr_ring s))) h (h + 1) = (True, h') \<Longrightarrow>
    ring_step s (at_pc i (ConsLoad h (sr_claimed s))
      (s\<lparr>sr_ring := (sr_ring s)\<lparr>rr_cons := (rr_cons (sr_ring s))\<lparr>ht_head := h'\<rparr>\<rparr>, sr_claimed := Suc (sr_claimed s)\<rparr>))"
| cons_retry: "runs_at s i (ConsCas h g) \<Longrightarrow>
    fst (rte_atomic32_cmpset (ht_head (rr_cons (sr_ring s))) h (h + 1)) = False \<Longrightarrow> ring_step s (at_pc i ConsHead s)"
| cons_load: "runs_at s i (ConsLoad h p) \<Longrightarrow> DEQUEUE_PTRS (sr_ring s) h 1 = Inr [v] \<Longrightarrow>
    ring_step s (at_pc i (ConsTail h p v) s)"
| cons_tail: "runs_at s i (ConsTail h p v) \<Longrightarrow> update_tail (rr_cons (sr_ring s)) h (h + 1) False = Some ht \<Longrightarrow>
    ring_step s (at_pc i Idle (s\<lparr>sr_ring := (sr_ring s)\<lparr>rr_cons := ht\<rparr>, sr_deq := sr_deq s @ [v]\<rparr>))"

inductive_cases ring_stepE: "ring_step s s'"

text \<open>
  A thread that sleeps between reading a head and its compare-and-set while the head goes once around the
  32-bit numbers cannot notice; the runs considered are those where no thread is lapped.
\<close>

fun not_lapped :: "nat \<Rightarrow> nat \<Rightarrow> 'a ring_pc \<Rightarrow> bool" where
  "not_lapped PH CH (ProdRoom x h g) \<longleftrightarrow> PH < g + 2 ^ 32"
| "not_lapped PH CH (ProdCas x h g) \<longleftrightarrow> PH < g + 2 ^ 32"
| "not_lapped PH CH (ConsRoom h g) \<longleftrightarrow> CH < g + 2 ^ 32"
| "not_lapped PH CH (ConsCas h g) \<longleftrightarrow> CH < g + 2 ^ 32"
| "not_lapped PH CH _ \<longleftrightarrow> True"

definition none_lapped :: "'a shared_ring \<Rightarrow> bool" where
  "none_lapped s \<longleftrightarrow> list_all (not_lapped (length (sr_enq s)) (sr_claimed s)) (sr_threads s)"

definition ring_start :: "'a rte_ring \<Rightarrow> nat \<Rightarrow> 'a shared_ring" where
  "ring_start r n = \<lparr>sr_ring = r, sr_threads = replicate n Idle, sr_enq = [], sr_published = 0, sr_claimed = 0, sr_deq = []\<rparr>"

inductive ring_reach :: "'a rte_ring \<Rightarrow> nat \<Rightarrow> 'a shared_ring \<Rightarrow> bool" for r n where
  start: "ring_reach r n (ring_start r n)"
| step: "ring_reach r n s \<Longrightarrow> ring_step s s' \<Longrightarrow> none_lapped s' \<Longrightarrow> ring_reach r n s'"

section \<open>The invariant\<close>

text \<open>Positions a thread has reserved and not yet published, or claimed and not yet released.\<close>

fun prod_pos :: "'a ring_pc \<Rightarrow> nat option" where
  "prod_pos (ProdStore x h p) = Some p"
| "prod_pos (ProdTail x h p) = Some p"
| "prod_pos _ = None"

fun cons_pos :: "'a ring_pc \<Rightarrow> nat option" where
  "cons_pos (ConsLoad h p) = Some p"
| "cons_pos (ConsTail h p v) = Some p"
| "cons_pos _ = None"

text \<open>What holds of a thread: \<open>CT\<close>, \<open>CH\<close>, \<open>PT\<close> are the positions of the indices, \<open>enq\<close> the objects
  by position, \<open>v\<close> the slots.\<close>

fun pc_ok :: "nat \<Rightarrow> nat \<Rightarrow> nat \<Rightarrow> 'a list \<Rightarrow> 'a list \<Rightarrow> 'a ring_pc \<Rightarrow> bool" where
  "pc_ok CT CH PT enq v (ProdRoom x h g) \<longleftrightarrow> h = word_of_nat g \<and> g \<le> length enq"
| "pc_ok CT CH PT enq v (ProdCas x h g) \<longleftrightarrow> h = word_of_nat g \<and> g \<le> length enq
     \<and> (g = length enq \<longrightarrow> Suc (length enq) < CT + length v)"
| "pc_ok CT CH PT enq v (ProdStore x h p) \<longleftrightarrow> h = word_of_nat p \<and> PT \<le> p \<and> p < length enq \<and> enq ! p = x"
| "pc_ok CT CH PT enq v (ProdTail x h p) \<longleftrightarrow> h = word_of_nat p \<and> PT \<le> p \<and> p < length enq \<and> enq ! p = x
     \<and> v ! (p mod length v) = x"
| "pc_ok CT CH PT enq v (ConsRoom h g) \<longleftrightarrow> h = word_of_nat g \<and> g \<le> CH"
| "pc_ok CT CH PT enq v (ConsCas h g) \<longleftrightarrow> h = word_of_nat g \<and> g \<le> CH \<and> (g = CH \<longrightarrow> CH < PT)"
| "pc_ok CT CH PT enq v (ConsLoad h p) \<longleftrightarrow> h = word_of_nat p \<and> CT \<le> p \<and> p < CH"
| "pc_ok CT CH PT enq v (ConsTail h p x) \<longleftrightarrow> h = word_of_nat p \<and> CT \<le> p \<and> p < CH \<and> enq ! p = x"
| "pc_ok CT CH PT enq v _ \<longleftrightarrow> True"

definition ring_shape :: "nat \<Rightarrow> 'a rte_ring \<Rightarrow> bool" where
  "ring_shape k r \<longleftrightarrow> k < 32 \<and> rr_size r = 2 ^ k \<and> rr_mask r = 2 ^ k - 1 \<and> rr_capacity r = 2 ^ k - 1 \<and> length (rr_slots r) = 2 ^ k"

definition indices_at :: "nat \<Rightarrow> nat \<Rightarrow> nat \<Rightarrow> nat \<Rightarrow> 'a rte_ring \<Rightarrow> bool" where
  "indices_at CT CH PT PH r \<longleftrightarrow> ht_head (rr_prod r) = word_of_nat PH \<and> ht_tail (rr_prod r) = word_of_nat PT
     \<and> ht_head (rr_cons r) = word_of_nat CH \<and> ht_tail (rr_cons r) = word_of_nat CT"

definition owners :: "('a ring_pc \<Rightarrow> nat option) \<Rightarrow> nat \<Rightarrow> nat \<Rightarrow> 'a ring_pc list \<Rightarrow> bool" where
  "owners pos lo hi ts \<longleftrightarrow> (\<forall>i < length ts. \<forall>p. pos (ts ! i) = Some p \<longrightarrow> lo \<le> p \<and> p < hi)
     \<and> (\<forall>i < length ts. \<forall>j < length ts. \<forall>p. pos (ts ! i) = Some p \<longrightarrow> pos (ts ! j) = Some p \<longrightarrow> i = j)
     \<and> (\<forall>p. lo \<le> p \<and> p < hi \<longrightarrow> (\<exists>i < length ts. pos (ts ! i) = Some p))"

definition ring_inv :: "nat \<Rightarrow> 'a shared_ring \<Rightarrow> bool" where
  "ring_inv k s \<longleftrightarrow> (let CT = length (sr_deq s); CH = sr_claimed s; PT = sr_published s; PH = length (sr_enq s);
       v = rr_slots (sr_ring s) in
     ring_shape k (sr_ring s) \<and> indices_at CT CH PT PH (sr_ring s)
     \<and> CT \<le> CH \<and> CH \<le> PT \<and> PT \<le> PH \<and> PH < CT + 2 ^ k
     \<and> sr_deq s = take CT (sr_enq s)
     \<and> (\<forall>p. CT \<le> p \<and> p < PT \<longrightarrow> v ! (p mod 2 ^ k) = sr_enq s ! p)
     \<and> owners prod_pos PT PH (sr_threads s) \<and> owners cons_pos CT CH (sr_threads s)
     \<and> list_all (pc_ok CT CH PT (sr_enq s) v) (sr_threads s))"

section \<open>What one access leaves of the other threads\<close>

lemma owners_same:
  assumes "owners pos lo hi ts" "i < length ts" "pos pc = pos (ts ! i)"
  shows "owners pos lo hi (ts[i := pc])"
proof -
  have "pos (ts[i := pc] ! j) = pos (ts ! j)" for j using assms(2,3) by (cases "j = i") simp_all
  then show ?thesis using assms(1) by (simp add: owners_def)
qed

lemma owners_add:
  assumes "owners pos lo hi ts" "i < length ts" "pos (ts ! i) = None" "pos pc = Some hi" "lo \<le> hi"
  shows "owners pos lo (Suc hi) (ts[i := pc])"
proof -
  have n: "pos (ts[i := pc] ! j) = (if j = i then Some hi else pos (ts ! j))" for j
    using assms(2,4) by simp
  have "\<exists>j < length ts. pos (ts[i := pc] ! j) = Some p" if "lo \<le> p" "p < Suc hi" for p
  proof (cases "p = hi")
    case True
    then show ?thesis using assms(2,4) by (intro exI [of _ i]) simp
  next
    case False
    with that have "p < hi" by simp
    with that(1) have "\<exists>j < length ts. pos (ts ! j) = Some p" using assms(1) by (simp add: owners_def)
    then obtain j where "j < length ts" "pos (ts ! j) = Some p" by blast
    moreover then have "j \<noteq> i" using assms(3) by auto
    ultimately show ?thesis using n by (intro exI [of _ j]) simp
  qed
  then show ?thesis using assms(1,5) unfolding owners_def n length_list_update
    by (auto split: if_split_asm)
qed

lemma owners_drop:
  assumes "owners pos lo hi ts" "i < length ts" "pos (ts ! i) = Some lo" "pos pc = None"
  shows "owners pos (Suc lo) hi (ts[i := pc])"
proof -
  have n: "pos (ts[i := pc] ! j) = (if j = i then None else pos (ts ! j))" for j
    using assms(2,4) by simp
  have "\<exists>j < length ts. pos (ts[i := pc] ! j) = Some p" if p: "Suc lo \<le> p" "p < hi" for p
  proof -
    have "lo \<le> p" using p(1) by simp
    then obtain j where j: "j < length ts" "pos (ts ! j) = Some p" using assms(1) p(2) unfolding owners_def by blast
    then have "j \<noteq> i" using assms(3) p by auto
    then show ?thesis using n j by (intro exI [of _ j]) simp
  qed
  moreover have "Suc lo \<le> p" if "j < length ts" "j \<noteq> i" "pos (ts ! j) = Some p" for j p
  proof -
    have "lo \<le> p" "p \<noteq> lo" using assms(1-3) that unfolding owners_def by blast+
    then show ?thesis by simp
  qed
  ultimately show ?thesis using assms(1) unfolding owners_def n length_list_update
    by (auto split: if_split_asm)
qed

lemma pc_ok_reserve: "pc_ok CT CH PT enq v pc \<Longrightarrow> CH \<le> length enq \<Longrightarrow> pc_ok CT CH PT (enq @ [x]) v pc"
  by (cases pc) (auto simp: nth_append)

lemma pc_ok_publish: "pc_ok CT CH PT enq v pc \<Longrightarrow> prod_pos pc \<noteq> Some PT \<Longrightarrow> pc_ok CT CH (Suc PT) enq v pc"
  by (cases pc) auto

lemma pc_ok_claim: "pc_ok CT CH PT enq v pc \<Longrightarrow> pc_ok CT (Suc CH) PT enq v pc"
  by (cases pc) auto

lemma pc_ok_release: "pc_ok CT CH PT enq v pc \<Longrightarrow> cons_pos pc \<noteq> Some CT \<Longrightarrow> pc_ok (Suc CT) CH PT enq v pc"
  by (cases pc) auto

text \<open>Positions less than the size apart have different slots.\<close>

lemma mod_distinct:
  fixes p q m c :: nat
  assumes "c \<le> p" "c \<le> q" "p < c + m" "q < c + m" "p \<noteq> q"
  shows "p mod m \<noteq> q mod m"
proof
  assume "p mod m = q mod m"
  then have "(c + (p - c)) mod m = (c + (q - c)) mod m" using assms(1,2) by simp
  moreover have "p - c < m" "q - c < m" using assms(1-4) by auto
  ultimately have "p - c = q - c" using mod_add_inj [of "p - c" m "q - c" c] by blast
  then show False using assms(1,2,5) by simp
qed

lemma pc_ok_store:
  assumes "pc_ok CT CH PT enq v pc" "prod_pos pc \<noteq> Some p" "CT \<le> PT" "length enq < CT + length v" "PT \<le> p" "p < length enq"
  shows "pc_ok CT CH PT enq (v[p mod length v := x]) pc"
proof (cases pc)
  case (ProdTail y h q)
  then have "q mod length v \<noteq> p mod length v" using assms by (intro mod_distinct [of CT]) auto
  then show ?thesis using assms ProdTail by simp
qed (use assms in auto)

section \<open>One access at a time\<close>

lemma word_pos_eq: "(word_of_nat a :: u32) = word_of_nat b \<Longrightarrow> a \<le> b \<Longrightarrow> b < a + 2 ^ 32 \<Longrightarrow> a = b"
proof -
  assume a: "(word_of_nat a :: u32) = word_of_nat b" "a \<le> b" "b < a + 2 ^ 32"
  have "(word_of_nat (b - a) :: u32) = 0" using a(1,2) by (simp add: of_nat_diff)
  moreover have "unat (word_of_nat (b - a) :: u32) = b - a" using a(3) by (intro unat_small) simp
  ultimately show "a = b" using a(2) by simp
qed

lemma burst_one: "burst_size 1 room b \<noteq> 0 \<longleftrightarrow> room \<noteq> 0"
proof -
  have "room < 1 \<longleftrightarrow> room = 0" by (metis less_one unat_1 unat_eq_zero word_less_nat_alt)
  then show ?thesis by (auto simp: burst_size_def split: rte_ring_queue_behavior.split)
qed

lemma unat_position: "k < 32 \<Longrightarrow> unat (word_of_nat p :: u32) mod 2 ^ k = p mod 2 ^ k"
proof -
  assume "k < 32"
  then have "(2 :: nat) ^ k dvd 2 ^ 32" by (intro le_imp_power_dvd) simp
  then show ?thesis by (simp add: unsigned_of_nat take_bit_eq_mod mod_mod_cancel)
qed

lemma store_one:
  assumes "ring_shape k r" "1 < (2 :: nat) ^ k"
  shows "ENQUEUE_PTRS r (word_of_nat p) [x] = Inr ((rr_slots r)[p mod 2 ^ k := x])"
proof -
  have k: "k < 32" "rr_size r = 2 ^ k" "rr_mask r = 2 ^ k - 1" "length (rr_slots r) = 2 ^ k"
    using assms(1) by (simp_all add: ring_shape_def)
  have "length [x] < 2 ^ k" using assms(2) by simp
  from ENQUEUE_PTRS_put [OF k this, of "word_of_nat p"] show ?thesis using unat_position [OF k(1), of p] by (simp add: k(4))
qed

lemma load_one:
  assumes "ring_shape k r" "1 < (2 :: nat) ^ k"
  shows "DEQUEUE_PTRS r (word_of_nat p) 1 = Inr [rr_slots r ! (p mod 2 ^ k)]"
proof -
  have k: "k < 32" "rr_size r = 2 ^ k" "rr_mask r = 2 ^ k - 1" "length (rr_slots r) = 2 ^ k"
    using assms(1) by (simp_all add: ring_shape_def)
  have "unat (1 :: u32) < 2 ^ k" using assms(2) by simp
  from DEQUEUE_PTRS_ring [OF k this, of "word_of_nat p"] show ?thesis
    using unat_position [OF k(1), of p] by (simp add: ring_def k(4))
qed

text \<open>The invariant, field by field.\<close>

lemma ring_invI:
  assumes "ring_shape k r" "indices_at (length dq) CH PT (length eq) r"
    "length dq \<le> CH" "CH \<le> PT" "PT \<le> length eq" "length eq < length dq + 2 ^ k" "dq = take (length dq) eq"
    "\<And>p. length dq \<le> p \<Longrightarrow> p < PT \<Longrightarrow> rr_slots r ! (p mod 2 ^ k) = eq ! p"
    "owners prod_pos PT (length eq) ts" "owners cons_pos (length dq) CH ts"
    "\<And>j. j < length ts \<Longrightarrow> pc_ok (length dq) CH PT eq (rr_slots r) (ts ! j)"
  shows "ring_inv k \<lparr>sr_ring = r, sr_threads = ts, sr_enq = eq, sr_published = PT, sr_claimed = CH, sr_deq = dq\<rparr>"
  using assms by (simp add: ring_inv_def list_all_length)

lemma ring_invE:
  assumes "ring_inv k s"
  obtains r ts eq PT CH dq where
    "s = \<lparr>sr_ring = r, sr_threads = ts, sr_enq = eq, sr_published = PT, sr_claimed = CH, sr_deq = dq\<rparr>"
    "ring_shape k r \<and> indices_at (length dq) CH PT (length eq) r"
    "length dq \<le> CH \<and> CH \<le> PT \<and> PT \<le> length eq \<and> length eq < length dq + 2 ^ k" "dq = take (length dq) eq"
    "\<forall>p. length dq \<le> p \<and> p < PT \<longrightarrow> rr_slots r ! (p mod 2 ^ k) = eq ! p"
    "owners prod_pos PT (length eq) ts" "owners cons_pos (length dq) CH ts"
    "\<forall>j < length ts. pc_ok (length dq) CH PT eq (rr_slots r) (ts ! j)"
proof (cases s)
  case (fields r ts eq PT CH dq)
  show ?thesis
    by (rule that [OF fields]) (use assms in \<open>simp_all add: fields ring_inv_def list_all_length Let_def\<close>)
qed

text \<open>A step that only moves a thread on, without taking or giving up a position.\<close>

lemma ring_inv_local:
  assumes inv: "ring_inv k s" and i: "i < length (sr_threads s)"
    and pos: "prod_pos pc = prod_pos (sr_threads s ! i)" "cons_pos pc = cons_pos (sr_threads s ! i)"
    and ok: "pc_ok (length (sr_deq s)) (sr_claimed s) (sr_published s) (sr_enq s) (rr_slots (sr_ring s)) pc"
  shows "ring_inv k (at_pc i pc s)"
  using inv i ok owners_same [OF _ i pos(1)] owners_same [OF _ i pos(2)]
  by (auto simp: ring_inv_def at_pc_def Let_def list_all_length nth_list_update)

lemma pc_at: "ring_inv k s \<Longrightarrow> runs_at s i pc \<Longrightarrow>
    pc_ok (length (sr_deq s)) (sr_claimed s) (sr_published s) (sr_enq s) (rr_slots (sr_ring s)) pc"
  by (auto simp: ring_inv_def list_all_length Let_def)

lemma indices_of: "ring_inv k s \<Longrightarrow>
    ring_shape k (sr_ring s) \<and> indices_at (length (sr_deq s)) (sr_claimed s) (sr_published s) (length (sr_enq s)) (sr_ring s)
    \<and> length (sr_deq s) \<le> sr_claimed s \<and> sr_claimed s \<le> sr_published s \<and> sr_published s \<le> length (sr_enq s)
    \<and> length (sr_enq s) < length (sr_deq s) + 2 ^ k"
  by (simp add: ring_inv_def Let_def)

lemma prod_room_inv:
  assumes inv: "ring_inv k s" and i: "runs_at s i (ProdRoom x h g)"
    and room: "burst_size 1 (rr_capacity (sr_ring s) + ht_tail (rr_cons (sr_ring s)) - h) RTE_RING_QUEUE_FIXED \<noteq> 0"
  shows "ring_inv k (at_pc i (ProdCas x h g) s)"
proof (rule ring_inv_local [OF inv])
  let ?CT = "length (sr_deq s)" and ?PH = "length (sr_enq s)"
  note f = indices_of [OF inv]
  have p: "h = word_of_nat g" "g \<le> ?PH" using pc_at [OF inv i] by simp_all
  have l: "length (rr_slots (sr_ring s)) = 2 ^ k" using f by (simp add: ring_shape_def)
  have "Suc ?PH < ?CT + 2 ^ k" if g: "g = ?PH"
  proof (rule ccontr)
    assume "\<not> Suc ?PH < ?CT + 2 ^ k"
    then have e: "?CT + 2 ^ k = Suc ?PH" using f by simp
    have "rr_capacity (sr_ring s) + ht_tail (rr_cons (sr_ring s)) - h = 2 ^ k - 1 + word_of_nat ?CT - word_of_nat ?PH"
      using f p(1) g by (simp add: ring_shape_def indices_at_def)
    also have "(2 ^ k - 1 + word_of_nat ?CT :: u32) = word_of_nat (?CT + 2 ^ k) - 1" by simp
    also have "\<dots> - word_of_nat ?PH = 0" unfolding e by simp
    finally show False using room by (simp add: burst_one)
  qed
  then show "pc_ok ?CT (sr_claimed s) (sr_published s) (sr_enq s) (rr_slots (sr_ring s)) (ProdCas x h g)"
    using p l by simp
qed (use i in simp_all)

lemma cons_room_inv:
  assumes inv: "ring_inv k s" and i: "runs_at s i (ConsRoom h g)"
    and room: "burst_size 1 (ht_tail (rr_prod (sr_ring s)) - h) RTE_RING_QUEUE_VARIABLE \<noteq> 0"
  shows "ring_inv k (at_pc i (ConsCas h g) s)"
proof (rule ring_inv_local [OF inv])
  note f = indices_of [OF inv]
  have p: "h = word_of_nat g" "g \<le> sr_claimed s" using pc_at [OF inv i] by simp_all
  have "sr_claimed s < sr_published s" if "g = sr_claimed s"
  proof (rule ccontr)
    assume "\<not> sr_claimed s < sr_published s"
    then have "sr_published s = sr_claimed s" using f by simp
    then show False using room f p(1) that by (simp add: burst_one indices_at_def)
  qed
  then show "pc_ok (length (sr_deq s)) (sr_claimed s) (sr_published s) (sr_enq s) (rr_slots (sr_ring s)) (ConsCas h g)"
    using p by simp
qed (use i in simp_all)

lemma prod_cas_inv:
  assumes inv: "ring_inv k s" and i: "runs_at s i (ProdCas x h g)" and lap: "none_lapped s"
    and cas: "rte_atomic32_cmpset (ht_head (rr_prod (sr_ring s))) h (h + 1) = (True, h')"
  shows "ring_inv k (at_pc i (ProdStore x h (length (sr_enq s)))
      (s\<lparr>sr_ring := (sr_ring s)\<lparr>rr_prod := (rr_prod (sr_ring s))\<lparr>ht_head := h'\<rparr>\<rparr>, sr_enq := sr_enq s @ [x]\<rparr>))"
proof -
  have ok: "h = word_of_nat g" "g \<le> length (sr_enq s)" "g = length (sr_enq s) \<longrightarrow> Suc (length (sr_enq s)) < length (sr_deq s) + length (rr_slots (sr_ring s))"
    using pc_at [OF inv i] by simp_all
  have h: "ht_head (rr_prod (sr_ring s)) = h" "h' = h + 1" using cas by (auto simp: rte_atomic32_cmpset_def split: if_splits)
  have "length (sr_enq s) < g + 2 ^ 32" using lap i by (auto simp: none_lapped_def list_all_length)
  moreover have "(word_of_nat g :: u32) = word_of_nat (length (sr_enq s))"
    using indices_of [OF inv] h(1) ok(1) by (simp add: indices_at_def)
  ultimately have g: "g = length (sr_enq s)" using word_pos_eq ok(2) by blast
  obtain r ts eq PT CH dq where s: "s = \<lparr>sr_ring = r, sr_threads = ts, sr_enq = eq, sr_published = PT, sr_claimed = CH, sr_deq = dq\<rparr>"
    and e: "ring_shape k r \<and> indices_at (length dq) CH PT (length eq) r"
    "length dq \<le> CH \<and> CH \<le> PT \<and> PT \<le> length eq \<and> length eq < length dq + 2 ^ k" "dq = take (length dq) eq"
    "\<forall>p. length dq \<le> p \<and> p < PT \<longrightarrow> rr_slots r ! (p mod 2 ^ k) = eq ! p"
    "owners prod_pos PT (length eq) ts" "owners cons_pos (length dq) CH ts"
    "\<forall>j < length ts. pc_ok (length dq) CH PT eq (rr_slots r) (ts ! j)" using inv by (rule ring_invE)
  have l: "length (rr_slots r) = 2 ^ k" using e(1) by (simp add: ring_shape_def)
  let ?pc = "ProdStore x h (length eq)"
  have "ring_inv k \<lparr>sr_ring = r\<lparr>rr_prod := (rr_prod r)\<lparr>ht_head := h'\<rparr>\<rparr>, sr_threads = ts[i := ?pc], sr_enq = eq @ [x],
      sr_published = PT, sr_claimed = CH, sr_deq = dq\<rparr>"
  proof (rule ring_invI)
    show "owners prod_pos PT (length (eq @ [x])) (ts[i := ?pc])"
      using owners_add [OF e(5), of i ?pc] i e(2) by (simp add: s)
    show "owners cons_pos (length dq) CH (ts[i := ?pc])" by (rule owners_same [OF e(6)]) (use i in \<open>simp_all add: s\<close>)
    show "dq = take (length dq) (eq @ [x])" using e(2,3) by simp
    show "length (eq @ [x]) < length dq + 2 ^ k" using ok(3) g l by (simp add: s)
    fix j assume j: "j < length (ts[i := ?pc])"
    show "pc_ok (length dq) CH PT (eq @ [x]) (rr_slots (r\<lparr>rr_prod := (rr_prod r)\<lparr>ht_head := h'\<rparr>\<rparr>)) (ts[i := ?pc] ! j)"
      using pc_ok_reserve [of "length dq" CH PT eq "rr_slots r" "ts ! j" x] e(7) j e(2) i ok(1) g by (simp add: s nth_list_update)
  qed (use e(1,2,4) h ok(1) g in \<open>simp_all add: s ring_shape_def indices_at_def nth_append add.commute\<close>)
  then show ?thesis by (simp add: s at_pc_def)
qed

text \<open>A position that is owned is owned by one thread.\<close>

lemma owner_unique:
  "owners pos lo hi ts \<Longrightarrow> i < length ts \<Longrightarrow> pos (ts ! i) = Some p \<Longrightarrow> j < length ts \<Longrightarrow> j \<noteq> i \<Longrightarrow> pos (ts ! j) \<noteq> Some p"
  unfolding owners_def by blast

lemma prod_store_inv:
  assumes inv: "ring_inv k s" and i: "runs_at s i (ProdStore x h p)" and st: "ENQUEUE_PTRS (sr_ring s) h [x] = Inr slots"
  shows "ring_inv k (at_pc i (ProdTail x h p) (s\<lparr>sr_ring := (sr_ring s)\<lparr>rr_slots := slots\<rparr>\<rparr>))"
proof -
  obtain r ts eq PT CH dq where s: "s = \<lparr>sr_ring = r, sr_threads = ts, sr_enq = eq, sr_published = PT, sr_claimed = CH, sr_deq = dq\<rparr>"
    and e: "ring_shape k r \<and> indices_at (length dq) CH PT (length eq) r"
    "length dq \<le> CH \<and> CH \<le> PT \<and> PT \<le> length eq \<and> length eq < length dq + 2 ^ k" "dq = take (length dq) eq"
    "\<forall>p. length dq \<le> p \<and> p < PT \<longrightarrow> rr_slots r ! (p mod 2 ^ k) = eq ! p"
    "owners prod_pos PT (length eq) ts" "owners cons_pos (length dq) CH ts"
    "\<forall>j < length ts. pc_ok (length dq) CH PT eq (rr_slots r) (ts ! j)" using inv by (rule ring_invE)
  have l: "length (rr_slots r) = 2 ^ k" using e(1) by (simp add: ring_shape_def)
  have ok: "h = word_of_nat p" "PT \<le> p" "p < length eq" "eq ! p = x" using pc_at [OF inv i] by (simp_all add: s)
  have "1 < (2 :: nat) ^ k" using ok e(2) by simp
  then have sl: "slots = (rr_slots r)[p mod 2 ^ k := x]" using st store_one [of k r p x] e(1) ok(1) by (simp add: s)
  let ?pc = "ProdTail x h p"
  have "ring_inv k \<lparr>sr_ring = r\<lparr>rr_slots := slots\<rparr>, sr_threads = ts[i := ?pc], sr_enq = eq,
      sr_published = PT, sr_claimed = CH, sr_deq = dq\<rparr>"
  proof (rule ring_invI)
    show "owners prod_pos PT (length eq) (ts[i := ?pc])" by (rule owners_same [OF e(5)]) (use i in \<open>simp_all add: s\<close>)
    show "owners cons_pos (length dq) CH (ts[i := ?pc])" by (rule owners_same [OF e(6)]) (use i in \<open>simp_all add: s\<close>)
    fix q assume q: "length dq \<le> q" "q < PT"
    then have "q mod 2 ^ k \<noteq> p mod 2 ^ k" using ok e(2) by (intro mod_distinct [of "length dq"]) simp_all
    then show "rr_slots (r\<lparr>rr_slots := slots\<rparr>) ! (q mod 2 ^ k) = eq ! q" using e(4) q by (simp add: sl)
  next
    fix j assume j: "j < length (ts[i := ?pc])"
    show "pc_ok (length dq) CH PT eq (rr_slots (r\<lparr>rr_slots := slots\<rparr>)) (ts[i := ?pc] ! j)"
    proof (cases "j = i")
      case True
      then show ?thesis using ok i l by (simp add: s sl)
    next
      case False
      have "prod_pos (ts ! j) \<noteq> Some p" using owner_unique [OF e(5), of i p j] i j False by (simp add: s)
      then show ?thesis using pc_ok_store [of "length dq" CH PT eq "rr_slots r" "ts ! j" p x] e(2,7) j False l ok by (simp add: sl)
    qed
  qed (use e(1-3) l in \<open>simp_all add: ring_shape_def indices_at_def sl\<close>)
  then show ?thesis by (simp add: s at_pc_def)
qed

lemma prod_tail_inv:
  assumes inv: "ring_inv k s" and i: "runs_at s i (ProdTail x h p)" and ut: "update_tail (rr_prod (sr_ring s)) h (h + 1) False = Some ht"
  shows "ring_inv k (at_pc i Idle (s\<lparr>sr_ring := (sr_ring s)\<lparr>rr_prod := ht\<rparr>, sr_published := Suc (sr_published s)\<rparr>))"
proof -
  obtain r ts eq PT CH dq where s: "s = \<lparr>sr_ring = r, sr_threads = ts, sr_enq = eq, sr_published = PT, sr_claimed = CH, sr_deq = dq\<rparr>"
    and e: "ring_shape k r \<and> indices_at (length dq) CH PT (length eq) r"
    "length dq \<le> CH \<and> CH \<le> PT \<and> PT \<le> length eq \<and> length eq < length dq + 2 ^ k" "dq = take (length dq) eq"
    "\<forall>p. length dq \<le> p \<and> p < PT \<longrightarrow> rr_slots r ! (p mod 2 ^ k) = eq ! p"
    "owners prod_pos PT (length eq) ts" "owners cons_pos (length dq) CH ts"
    "\<forall>j < length ts. pc_ok (length dq) CH PT eq (rr_slots r) (ts ! j)" using inv by (rule ring_invE)
  have l: "length (rr_slots r) = 2 ^ k" "k < 32" using e(1) by (simp_all add: ring_shape_def)
  have ok: "h = word_of_nat p" "PT \<le> p" "p < length eq" "eq ! p = x" "rr_slots r ! (p mod 2 ^ k) = x"
    using pc_at [OF inv i] l by (simp_all add: s)
  have ht: "ht = (rr_prod r)\<lparr>ht_tail := h + 1\<rparr>" "word_of_nat PT = (word_of_nat p :: u32)"
    using ut e(1) ok(1) by (auto simp: s update_tail_def indices_at_def split: if_splits)
  have p: "p = PT"
    using word_pos_eq [OF ht(2) ok(2)] ok(3) e(2) pow2_le [OF l(2)] by simp
  let ?pc = "Idle :: 'a ring_pc"
  have "ring_inv k \<lparr>sr_ring = r\<lparr>rr_prod := ht\<rparr>, sr_threads = ts[i := ?pc], sr_enq = eq,
      sr_published = Suc PT, sr_claimed = CH, sr_deq = dq\<rparr>"
  proof (rule ring_invI)
    show "owners prod_pos (Suc PT) (length eq) (ts[i := ?pc])" using owners_drop [OF e(5), of i ?pc] i p by (simp add: s)
    show "owners cons_pos (length dq) CH (ts[i := ?pc])" by (rule owners_same [OF e(6)]) (use i in \<open>simp_all add: s\<close>)
    fix q assume q: "length dq \<le> q" "q < Suc PT"
    then show "rr_slots (r\<lparr>rr_prod := ht\<rparr>) ! (q mod 2 ^ k) = eq ! q" using e(4) ok p by (cases "q = PT") simp_all
  next
    fix j assume j: "j < length (ts[i := ?pc])"
    show "pc_ok (length dq) CH (Suc PT) eq (rr_slots (r\<lparr>rr_prod := ht\<rparr>)) (ts[i := ?pc] ! j)"
    proof (cases "j = i")
      case True
      then show ?thesis using i by (simp add: s)
    next
      case False
      have "prod_pos (ts ! j) \<noteq> Some PT" using owner_unique [OF e(5), of i p j] i j False p by (simp add: s)
      then show ?thesis using pc_ok_publish [of "length dq" CH PT eq "rr_slots r" "ts ! j"] e(7) j False by simp
    qed
  qed (use e(1-3) ok(1,3) p ht(1) in \<open>simp_all add: ring_shape_def indices_at_def add.commute\<close>)
  then show ?thesis by (simp add: s at_pc_def)
qed

lemma cons_cas_inv:
  assumes inv: "ring_inv k s" and i: "runs_at s i (ConsCas h g)" and lap: "none_lapped s"
    and cas: "rte_atomic32_cmpset (ht_head (rr_cons (sr_ring s))) h (h + 1) = (True, h')"
  shows "ring_inv k (at_pc i (ConsLoad h (sr_claimed s))
      (s\<lparr>sr_ring := (sr_ring s)\<lparr>rr_cons := (rr_cons (sr_ring s))\<lparr>ht_head := h'\<rparr>\<rparr>, sr_claimed := Suc (sr_claimed s)\<rparr>))"
proof -
  obtain r ts eq PT CH dq where s: "s = \<lparr>sr_ring = r, sr_threads = ts, sr_enq = eq, sr_published = PT, sr_claimed = CH, sr_deq = dq\<rparr>"
    and e: "ring_shape k r \<and> indices_at (length dq) CH PT (length eq) r"
    "length dq \<le> CH \<and> CH \<le> PT \<and> PT \<le> length eq \<and> length eq < length dq + 2 ^ k" "dq = take (length dq) eq"
    "\<forall>p. length dq \<le> p \<and> p < PT \<longrightarrow> rr_slots r ! (p mod 2 ^ k) = eq ! p"
    "owners prod_pos PT (length eq) ts" "owners cons_pos (length dq) CH ts"
    "\<forall>j < length ts. pc_ok (length dq) CH PT eq (rr_slots r) (ts ! j)" using inv by (rule ring_invE)
  have ok: "h = word_of_nat g" "g \<le> CH" "g = CH \<longrightarrow> CH < PT" using pc_at [OF inv i] by (simp_all add: s)
  have h: "ht_head (rr_cons r) = h" "h' = h + 1" using cas by (auto simp: s rte_atomic32_cmpset_def split: if_splits)
  have "CH < g + 2 ^ 32" using lap i by (auto simp: s none_lapped_def list_all_length)
  moreover have "(word_of_nat g :: u32) = word_of_nat CH" using e(1) h(1) ok(1) by (simp add: indices_at_def)
  ultimately have g: "g = CH" using word_pos_eq ok(2) by blast
  let ?pc = "ConsLoad h CH :: 'a ring_pc"
  have "ring_inv k \<lparr>sr_ring = r\<lparr>rr_cons := (rr_cons r)\<lparr>ht_head := h'\<rparr>\<rparr>, sr_threads = ts[i := ?pc], sr_enq = eq,
      sr_published = PT, sr_claimed = Suc CH, sr_deq = dq\<rparr>"
  proof (rule ring_invI)
    show "owners prod_pos PT (length eq) (ts[i := ?pc])" by (rule owners_same [OF e(5)]) (use i in \<open>simp_all add: s\<close>)
    show "owners cons_pos (length dq) (Suc CH) (ts[i := ?pc])" using owners_add [OF e(6), of i ?pc] i e(2) by (simp add: s)
    fix j assume j: "j < length (ts[i := ?pc])"
    show "pc_ok (length dq) (Suc CH) PT eq (rr_slots (r\<lparr>rr_cons := (rr_cons r)\<lparr>ht_head := h'\<rparr>\<rparr>)) (ts[i := ?pc] ! j)"
      using pc_ok_claim [of "length dq" CH PT eq "rr_slots r" "ts ! j"] e(2,7) j i ok(1) g by (simp add: s nth_list_update)
  qed (use e(1-4) h ok g in \<open>simp_all add: ring_shape_def indices_at_def add.commute\<close>)
  then show ?thesis by (simp add: s at_pc_def)
qed

lemma cons_load_inv:
  assumes inv: "ring_inv k s" and i: "runs_at s i (ConsLoad h p)" and ld: "DEQUEUE_PTRS (sr_ring s) h 1 = Inr [v]"
  shows "ring_inv k (at_pc i (ConsTail h p v) s)"
proof (rule ring_inv_local [OF inv])
  note f = indices_of [OF inv]
  have ok: "h = word_of_nat p" "length (sr_deq s) \<le> p" "p < sr_claimed s" using pc_at [OF inv i] by simp_all
  have "1 < (2 :: nat) ^ k" using f ok by simp
  then have "v = rr_slots (sr_ring s) ! (p mod 2 ^ k)" using ld load_one [of k "sr_ring s" p] f ok(1) by simp
  moreover have "rr_slots (sr_ring s) ! (p mod 2 ^ k) = sr_enq s ! p" using inv ok f by (simp add: ring_inv_def Let_def)
  ultimately show "pc_ok (length (sr_deq s)) (sr_claimed s) (sr_published s) (sr_enq s) (rr_slots (sr_ring s)) (ConsTail h p v)"
    using ok by simp
qed (use i in simp_all)

lemma cons_tail_inv:
  assumes inv: "ring_inv k s" and i: "runs_at s i (ConsTail h p v)" and ut: "update_tail (rr_cons (sr_ring s)) h (h + 1) False = Some ht"
  shows "ring_inv k (at_pc i Idle (s\<lparr>sr_ring := (sr_ring s)\<lparr>rr_cons := ht\<rparr>, sr_deq := sr_deq s @ [v]\<rparr>))"
proof -
  obtain r ts eq PT CH dq where s: "s = \<lparr>sr_ring = r, sr_threads = ts, sr_enq = eq, sr_published = PT, sr_claimed = CH, sr_deq = dq\<rparr>"
    and e: "ring_shape k r \<and> indices_at (length dq) CH PT (length eq) r"
    "length dq \<le> CH \<and> CH \<le> PT \<and> PT \<le> length eq \<and> length eq < length dq + 2 ^ k" "dq = take (length dq) eq"
    "\<forall>p. length dq \<le> p \<and> p < PT \<longrightarrow> rr_slots r ! (p mod 2 ^ k) = eq ! p"
    "owners prod_pos PT (length eq) ts" "owners cons_pos (length dq) CH ts"
    "\<forall>j < length ts. pc_ok (length dq) CH PT eq (rr_slots r) (ts ! j)" using inv by (rule ring_invE)
  have l: "length (rr_slots r) = 2 ^ k" "k < 32" using e(1) by (simp_all add: ring_shape_def)
  have ok: "h = word_of_nat p" "length dq \<le> p" "p < CH" "eq ! p = v" using pc_at [OF inv i] by (simp_all add: s)
  have ht: "ht = (rr_cons r)\<lparr>ht_tail := h + 1\<rparr>" "word_of_nat (length dq) = (word_of_nat p :: u32)"
    using ut e(1) ok(1) by (auto simp: s update_tail_def indices_at_def split: if_splits)
  have p: "p = length dq"
    using word_pos_eq [OF ht(2) ok(2)] ok(3) e(2) pow2_le [OF l(2)] by simp
  let ?pc = "Idle :: 'a ring_pc"
  have "ring_inv k \<lparr>sr_ring = r\<lparr>rr_cons := ht\<rparr>, sr_threads = ts[i := ?pc], sr_enq = eq,
      sr_published = PT, sr_claimed = CH, sr_deq = dq @ [v]\<rparr>"
  proof (rule ring_invI)
    show "owners prod_pos PT (length eq) (ts[i := ?pc])" by (rule owners_same [OF e(5)]) (use i in \<open>simp_all add: s\<close>)
    show "owners cons_pos (length (dq @ [v])) CH (ts[i := ?pc])" using owners_drop [OF e(6), of i ?pc] i p by (simp add: s)
    show "dq @ [v] = take (length (dq @ [v])) eq" using e(2,3) ok(3,4) p by (simp add: take_Suc_conv_app_nth)
    fix j assume j: "j < length (ts[i := ?pc])"
    show "pc_ok (length (dq @ [v])) CH PT eq (rr_slots (r\<lparr>rr_cons := ht\<rparr>)) (ts[i := ?pc] ! j)"
    proof (cases "j = i")
      case True
      then show ?thesis using i by (simp add: s)
    next
      case False
      have "cons_pos (ts ! j) \<noteq> Some (length dq)" using owner_unique [OF e(6), of i p j] i j False p by (simp add: s)
      then show ?thesis using pc_ok_release [of "length dq" CH PT eq "rr_slots r" "ts ! j"] e(7) j False by simp
    qed
  qed (use e(1,2,4) ok(1,3) p ht(1) in \<open>simp_all add: ring_shape_def indices_at_def add.commute\<close>)
  then show ?thesis by (simp add: s at_pc_def)
qed

section \<open>Every run\<close>

lemma ring_step_inv:
  assumes "ring_step s s'" "none_lapped s" "ring_inv k s"
  shows "ring_inv k s'"
  using assms
proof (induction rule: ring_step.induct)
  case (enqueue_call s i x)
  then show ?case by (intro ring_inv_local) simp_all
next
  case (prod_read s i x)
  then show ?case using indices_of [of k s] by (intro ring_inv_local) (simp_all add: indices_at_def)
next
  case (prod_full s i x h g)
  then show ?case by (intro ring_inv_local) simp_all
next
  case (prod_room s i x h g)
  then show ?case by (intro prod_room_inv) simp_all
next
  case (prod_cas s i x h g h')
  then show ?case by (intro prod_cas_inv) simp_all
next
  case (prod_retry s i x h g)
  then show ?case by (intro ring_inv_local) simp_all
next
  case (prod_store s i x h p slots)
  then show ?case by (intro prod_store_inv) simp_all
next
  case (prod_tail s i x h p ht)
  show ?case by (rule prod_tail_inv [OF prod_tail(4,1,2)])
next
  case (dequeue_call s i)
  then show ?case by (intro ring_inv_local) simp_all
next
  case (cons_read s i)
  then show ?case using indices_of [of k s] by (intro ring_inv_local) (simp_all add: indices_at_def)
next
  case (cons_empty s i h g)
  then show ?case by (intro ring_inv_local) simp_all
next
  case (cons_room s i h g)
  then show ?case by (intro cons_room_inv) simp_all
next
  case (cons_cas s i h g h')
  show ?case by (rule cons_cas_inv [OF cons_cas(4,1,3,2)])
next
  case (cons_retry s i h g)
  then show ?case by (intro ring_inv_local) simp_all
next
  case (cons_load s i h p v)
  show ?case by (rule cons_load_inv [OF cons_load(4,1,2)])
next
  case (cons_tail s i h p v ht)
  show ?case by (rule cons_tail_inv [OF cons_tail(4,1,2)])
qed

lemma ring_start_inv: "k < 32 \<Longrightarrow> ring_created k r \<Longrightarrow> ring_inv k (ring_start r n)"
  by (simp add: ring_created_def ring_inv_def ring_start_def ring_shape_def indices_at_def owners_def list_all_length)

lemma ring_reach_none_lapped: "ring_reach r n s \<Longrightarrow> none_lapped s"
  by (induction rule: ring_reach.induct) (simp_all add: none_lapped_def ring_start_def list_all_length)

lemma ring_reach_inv:
  assumes "k < 32" "ring_created k r"
  shows "ring_reach r n s \<Longrightarrow> ring_inv k s"
proof (induction rule: ring_reach.induct)
  case start
  show ?case by (rule ring_start_inv [OF assms])
next
  case (step s s')
  then show ?case using ring_step_inv ring_reach_none_lapped by blast
qed

section \<open>No thread waits for ever on threads that all wait\<close>

text \<open>A thread in the middle of an operation can make its next access, unless it waits for its turn
  to move the tail.\<close>

definition can_move :: "nat \<Rightarrow> 'a shared_ring \<Rightarrow> bool" where
  "can_move i s \<longleftrightarrow> i < length (sr_threads s) \<and> sr_threads s ! i \<noteq> Idle
     \<and> (\<exists>s'. ring_step s s' \<and> sr_threads s' ! i \<noteq> sr_threads s ! i)"

lemma can_moveI: "ring_step s (at_pc i pc s1) \<Longrightarrow> sr_threads s1 = sr_threads s \<Longrightarrow> i < length (sr_threads s) \<Longrightarrow>
    sr_threads s ! i \<noteq> Idle \<Longrightarrow> pc \<noteq> sr_threads s ! i \<Longrightarrow> can_move i s"
  by (auto simp: can_move_def at_pc_def)

lemma cmpset_cases: "(\<exists>h'. rte_atomic32_cmpset d e n = (True, h')) \<or> fst (rte_atomic32_cmpset d e n) = False"
  by (simp add: rte_atomic32_cmpset_def)

lemma prod_tail_turn:
  assumes inv: "ring_inv k s" and p: "sr_published s < length (sr_enq s)"
  shows "\<exists>i. can_move i s"
proof -
  note f = indices_of [OF inv]
  have "owners prod_pos (sr_published s) (length (sr_enq s)) (sr_threads s)" using inv by (simp add: ring_inv_def Let_def)
  then obtain i where i: "i < length (sr_threads s)" "prod_pos (sr_threads s ! i) = Some (sr_published s)"
    using p unfolding owners_def by blast
  have k: "1 < (2 :: nat) ^ k" using f p by simp
  show ?thesis
  proof (cases "sr_threads s ! i")
    case (ProdStore x h q)
    then have r: "runs_at s i (ProdStore x h q)" using i(1) by simp
    then have "h = word_of_nat q" using pc_at [OF inv r] by simp
    then have "ENQUEUE_PTRS (sr_ring s) h [x] = Inr ((rr_slots (sr_ring s))[q mod 2 ^ k := x])"
      using store_one [of k "sr_ring s" q x] f k by simp
    from can_moveI [OF ring_step.prod_store [OF r this]] ProdStore i(1) show ?thesis by auto
  next
    case (ProdTail x h q)
    then have r: "runs_at s i (ProdTail x h q)" using i(1) by simp
    have "ht_tail (rr_prod (sr_ring s)) = h" using pc_at [OF inv r] ProdTail i(2) f by (simp add: indices_at_def)
    then have "update_tail (rr_prod (sr_ring s)) h (h + 1) False = Some ((rr_prod (sr_ring s))\<lparr>ht_tail := h + 1\<rparr>)"
      by (simp add: update_tail_def)
    from can_moveI [OF ring_step.prod_tail [OF r this]] ProdTail i(1) show ?thesis by auto
  qed (use i(2) in simp_all)
qed

lemma cons_load_moves:
  assumes inv: "ring_inv k s" and r: "runs_at s i (ConsLoad h q)"
  shows "can_move i s"
proof -
  note f = indices_of [OF inv]
  have q: "h = word_of_nat q" "length (sr_deq s) \<le> q" "q < sr_claimed s" using pc_at [OF inv r] by simp_all
  have "1 < (2 :: nat) ^ k" using f q by simp
  then have "DEQUEUE_PTRS (sr_ring s) h 1 = Inr [rr_slots (sr_ring s) ! (q mod 2 ^ k)]"
    using load_one [of k "sr_ring s" q] f q(1) by simp
  from can_moveI [OF ring_step.cons_load [OF r this]] r show ?thesis by auto
qed

lemma cons_tail_turn:
  assumes inv: "ring_inv k s" and p: "length (sr_deq s) < sr_claimed s"
  shows "\<exists>i. can_move i s"
proof -
  note f = indices_of [OF inv]
  have "owners cons_pos (length (sr_deq s)) (sr_claimed s) (sr_threads s)" using inv by (simp add: ring_inv_def Let_def)
  then obtain i where i: "i < length (sr_threads s)" "cons_pos (sr_threads s ! i) = Some (length (sr_deq s))"
    using p unfolding owners_def by blast
  show ?thesis
  proof (cases "sr_threads s ! i")
    case (ConsLoad h q)
    then show ?thesis using cons_load_moves [OF inv, of i h q] i(1) by blast
  next
    case (ConsTail h q v)
    then have r: "runs_at s i (ConsTail h q v)" using i(1) by simp
    have "ht_tail (rr_cons (sr_ring s)) = h" using pc_at [OF inv r] ConsTail i(2) f by (simp add: indices_at_def)
    then have "update_tail (rr_cons (sr_ring s)) h (h + 1) False = Some ((rr_cons (sr_ring s))\<lparr>ht_tail := h + 1\<rparr>)"
      by (simp add: update_tail_def)
    from can_moveI [OF ring_step.cons_tail [OF r this]] ConsTail i(1) show ?thesis by auto
  qed (use i(2) in simp_all)
qed

lemma some_thread_moves:
  assumes inv: "ring_inv k s" and i: "i < length (sr_threads s)" "sr_threads s ! i \<noteq> Idle"
  shows "\<exists>j. can_move j s"
proof (cases "sr_threads s ! i")
  case (ProdHead x)
  then have r: "runs_at s i (ProdHead x)" using i by simp
  from can_moveI [OF ring_step.prod_read [OF r]] r show ?thesis by auto
next
  case (ProdRoom x h g)
  then have r: "runs_at s i (ProdRoom x h g)" using i by simp
  from can_moveI [OF ring_step.prod_full [OF r]] can_moveI [OF ring_step.prod_room [OF r]] r show ?thesis by auto
next
  case (ProdCas x h g)
  then have r: "runs_at s i (ProdCas x h g)" using i by simp
  from cmpset_cases [of "ht_head (rr_prod (sr_ring s))" h "h + 1"] show ?thesis
  proof (elim disjE exE)
    fix h' assume "rte_atomic32_cmpset (ht_head (rr_prod (sr_ring s))) h (h + 1) = (True, h')"
    from can_moveI [OF ring_step.prod_cas [OF r this]] r show ?thesis by auto
  next
    assume "fst (rte_atomic32_cmpset (ht_head (rr_prod (sr_ring s))) h (h + 1)) = False"
    from can_moveI [OF ring_step.prod_retry [OF r this]] r show ?thesis by auto
  qed
next
  case (ProdStore x h p)
  then have "runs_at s i (ProdStore x h p)" using i by simp
  from pc_at [OF inv this] have "sr_published s < length (sr_enq s)" by simp
  then show ?thesis by (rule prod_tail_turn [OF inv])
next
  case (ProdTail x h p)
  then have "runs_at s i (ProdTail x h p)" using i by simp
  from pc_at [OF inv this] have "sr_published s < length (sr_enq s)" by simp
  then show ?thesis by (rule prod_tail_turn [OF inv])
next
  case ConsHead
  then have r: "runs_at s i ConsHead" using i by simp
  from can_moveI [OF ring_step.cons_read [OF r]] r show ?thesis by auto
next
  case (ConsRoom h g)
  then have r: "runs_at s i (ConsRoom h g)" using i by simp
  from can_moveI [OF ring_step.cons_empty [OF r]] can_moveI [OF ring_step.cons_room [OF r]] r show ?thesis by auto
next
  case (ConsCas h g)
  then have r: "runs_at s i (ConsCas h g)" using i by simp
  from cmpset_cases [of "ht_head (rr_cons (sr_ring s))" h "h + 1"] show ?thesis
  proof (elim disjE exE)
    fix h' assume "rte_atomic32_cmpset (ht_head (rr_cons (sr_ring s))) h (h + 1) = (True, h')"
    from can_moveI [OF ring_step.cons_cas [OF r this]] r show ?thesis by auto
  next
    assume "fst (rte_atomic32_cmpset (ht_head (rr_cons (sr_ring s))) h (h + 1)) = False"
    from can_moveI [OF ring_step.cons_retry [OF r this]] r show ?thesis by auto
  qed
next
  case (ConsLoad h p)
  then show ?thesis using cons_load_moves [OF inv, of i h p] i by blast
next
  case (ConsTail h p v)
  then have "runs_at s i (ConsTail h p v)" using i by simp
  from pc_at [OF inv this] have "length (sr_deq s) < sr_claimed s" by simp
  then show ?thesis by (rule cons_tail_turn [OF inv])
qed (use i in simp)

section \<open>Between the operations\<close>

lemma idle_ring:
  assumes inv: "ring_inv k s" and idle: "list_all (\<lambda>pc. pc = Idle) (sr_threads s)"
  shows "ring_wf k (sr_ring s)" "ring_items (sr_ring s) = drop (length (sr_deq s)) (sr_enq s)"
proof -
  let ?CT = "length (sr_deq s)" and ?PH = "length (sr_enq s)" and ?r = "sr_ring s"
  have f: "ring_shape k ?r" "indices_at ?CT (sr_claimed s) (sr_published s) ?PH ?r"
    "?CT \<le> sr_claimed s" "sr_claimed s \<le> sr_published s" "sr_published s \<le> ?PH" "?PH < ?CT + 2 ^ k"
    using indices_of [OF inv] by auto
  have n: "sr_threads s ! j = Idle" if "j < length (sr_threads s)" for j using idle that by (simp add: list_all_length)
  have o: "owners prod_pos (sr_published s) ?PH (sr_threads s)" "owners cons_pos ?CT (sr_claimed s) (sr_threads s)"
    using inv by (simp_all add: ring_inv_def Let_def)
  have e: "sr_published s = ?PH" "sr_claimed s = ?CT"
    using o n f(3,5) unfolding owners_def by (metis le_neq_implies_less order_refl option.distinct(1) prod_pos.simps(3),
      metis le_neq_implies_less order_refl option.distinct(1) cons_pos.simps(3))
  have k: "k < 32" using f(1) by (simp add: ring_shape_def)
  have "(word_of_nat ?PH - word_of_nat ?CT :: u32) = word_of_nat (?PH - ?CT)" using f(3-5) by (simp add: of_nat_diff)
  moreover have "unat (word_of_nat (?PH - ?CT) :: u32) = ?PH - ?CT" using f(6) pow2_le [OF k] by (intro unat_small) simp
  ultimately have u: "unat (ht_tail (rr_prod ?r) - ht_tail (rr_cons ?r)) = ?PH - ?CT" using f(2) e by (simp add: indices_at_def)
  have "?CT \<le> ?PH" using f(3-5) by simp
  then show "ring_wf k ?r" using f(1,2,6) e u by (simp add: ring_wf_def ring_shape_def indices_at_def)
  have l: "length (rr_slots ?r) = 2 ^ k" using f(1) by (simp add: ring_shape_def)
  show "ring_items ?r = drop ?CT (sr_enq s)"
  proof (rule nth_equalityI)
    fix i assume "i < length (ring_items ?r)"
    then have i: "i < ?PH - ?CT" by (simp add: length_ring_items u)
    have "(unat (ht_tail (rr_cons ?r)) + i) mod 2 ^ k = (?CT + i) mod 2 ^ k"
      using f(2) unat_position [OF k, of ?CT] by (simp add: indices_at_def) (metis mod_add_left_eq)
    moreover have "rr_slots ?r ! ((?CT + i) mod 2 ^ k) = sr_enq s ! (?CT + i)"
      using inv i e(1) by (simp add: ring_inv_def Let_def)
    ultimately show "ring_items ?r ! i = drop ?CT (sr_enq s) ! i" using i by (simp add: ring_items_def u nth_ring l)
  qed (simp add: length_ring_items u)
qed

section \<open>Schedules\<close>

text \<open>The next access of thread \<open>i\<close>, executable; an idle thread makes the call \<open>c\<close>.\<close>

definition next_access :: "nat \<Rightarrow> 'a ring_pc \<Rightarrow> 'a shared_ring \<Rightarrow> 'a shared_ring option" where
  "next_access i c s =
     (let r = sr_ring s in
      if length (sr_threads s) \<le> i then None else
      case sr_threads s ! i of
        Idle \<Rightarrow> (case c of ProdHead x \<Rightarrow> Some (at_pc i c s) | ConsHead \<Rightarrow> Some (at_pc i c s) | _ \<Rightarrow> None)
      | ProdHead x \<Rightarrow> Some (at_pc i (ProdRoom x (ht_head (rr_prod r)) (length (sr_enq s))) s)
      | ProdRoom x h g \<Rightarrow>
          Some (at_pc i (if burst_size 1 (rr_capacity r + ht_tail (rr_cons r) - h) RTE_RING_QUEUE_FIXED = 0 then Idle else ProdCas x h g) s)
      | ProdCas x h g \<Rightarrow>
          (case rte_atomic32_cmpset (ht_head (rr_prod r)) h (h + 1) of
             (True, h') \<Rightarrow> Some (at_pc i (ProdStore x h (length (sr_enq s)))
               (s\<lparr>sr_ring := r\<lparr>rr_prod := (rr_prod r)\<lparr>ht_head := h'\<rparr>\<rparr>, sr_enq := sr_enq s @ [x]\<rparr>))
           | (False, _) \<Rightarrow> Some (at_pc i (ProdHead x) s))
      | ProdStore x h p \<Rightarrow>
          (case ENQUEUE_PTRS r h [x] of
             Inr slots \<Rightarrow> Some (at_pc i (ProdTail x h p) (s\<lparr>sr_ring := r\<lparr>rr_slots := slots\<rparr>\<rparr>)) | Inl _ \<Rightarrow> None)
      | ProdTail x h p \<Rightarrow>
          map_option (\<lambda>ht. at_pc i Idle (s\<lparr>sr_ring := r\<lparr>rr_prod := ht\<rparr>, sr_published := Suc (sr_published s)\<rparr>))
            (update_tail (rr_prod r) h (h + 1) False)
      | ConsHead \<Rightarrow> Some (at_pc i (ConsRoom (ht_head (rr_cons r)) (sr_claimed s)) s)
      | ConsRoom h g \<Rightarrow>
          Some (at_pc i (if burst_size 1 (ht_tail (rr_prod r) - h) RTE_RING_QUEUE_VARIABLE = 0 then Idle else ConsCas h g) s)
      | ConsCas h g \<Rightarrow>
          (case rte_atomic32_cmpset (ht_head (rr_cons r)) h (h + 1) of
             (True, h') \<Rightarrow> Some (at_pc i (ConsLoad h (sr_claimed s))
               (s\<lparr>sr_ring := r\<lparr>rr_cons := (rr_cons r)\<lparr>ht_head := h'\<rparr>\<rparr>, sr_claimed := Suc (sr_claimed s)\<rparr>))
           | (False, _) \<Rightarrow> Some (at_pc i ConsHead s))
      | ConsLoad h p \<Rightarrow> (case DEQUEUE_PTRS r h 1 of Inr [v] \<Rightarrow> Some (at_pc i (ConsTail h p v) s) | _ \<Rightarrow> None)
      | ConsTail h p v \<Rightarrow>
          map_option (\<lambda>ht. at_pc i Idle (s\<lparr>sr_ring := r\<lparr>rr_cons := ht\<rparr>, sr_deq := sr_deq s @ [v]\<rparr>))
            (update_tail (rr_cons r) h (h + 1) False))"

lemma next_access_step:
  assumes "next_access i c s = Some s'"
  shows "ring_step s s'"
proof -
  have i: "i < length (sr_threads s)" using assms by (auto simp: next_access_def Let_def split: if_splits)
  show ?thesis
  proof (cases "sr_threads s ! i")
    case Idle
    then have r: "runs_at s i Idle" using i by simp
    show ?thesis using assms Idle i
      by (cases c) (auto simp: next_access_def Let_def intro: ring_step.enqueue_call [OF r] ring_step.dequeue_call [OF r])
  next
    case ConsHead
    then have r: "runs_at s i ConsHead" using i by simp
    show ?thesis using assms ConsHead i by (auto simp: next_access_def Let_def intro: ring_step.cons_read [OF r])
  next
    case (ProdHead x)
    then have r: "runs_at s i (ProdHead x)" using i by simp
    from assms ProdHead i show ?thesis
      by (auto simp: next_access_def Let_def split: if_splits intro: ring_step.prod_read [OF r])
  next
    case (ProdRoom x h g)
    then have r: "runs_at s i (ProdRoom x h g)" using i by simp
    from assms ProdRoom i show ?thesis
      by (auto simp: next_access_def Let_def split: if_splits intro: ring_step.prod_full [OF r] ring_step.prod_room [OF r])
  next
    case (ProdCas x h g)
    then have r: "runs_at s i (ProdCas x h g)" using i by simp
    from assms ProdCas i show ?thesis
      by (auto simp: next_access_def Let_def split: if_splits prod.splits bool.splits intro: ring_step.prod_cas [OF r] ring_step.prod_retry [OF r])
  next
    case (ProdStore x h p)
    then have r: "runs_at s i (ProdStore x h p)" using i by simp
    from assms ProdStore i show ?thesis
      by (auto simp: next_access_def Let_def split: if_splits sum.splits intro: ring_step.prod_store [OF r])
  next
    case (ProdTail x h p)
    then have r: "runs_at s i (ProdTail x h p)" using i by simp
    from assms ProdTail i show ?thesis
      by (auto simp: next_access_def Let_def split: if_splits intro: ring_step.prod_tail [OF r])
  next
    case (ConsRoom h g)
    then have r: "runs_at s i (ConsRoom h g)" using i by simp
    from assms ConsRoom i show ?thesis
      by (auto simp: next_access_def Let_def split: if_splits intro: ring_step.cons_empty [OF r] ring_step.cons_room [OF r])
  next
    case (ConsCas h g)
    then have r: "runs_at s i (ConsCas h g)" using i by simp
    from assms ConsCas i show ?thesis
      by (auto simp: next_access_def Let_def split: if_splits prod.splits bool.splits intro: ring_step.cons_cas [OF r] ring_step.cons_retry [OF r])
  next
    case (ConsLoad h p)
    then have r: "runs_at s i (ConsLoad h p)" using i by simp
    from assms ConsLoad i show ?thesis
      by (auto simp: next_access_def Let_def split: if_splits sum.splits list.splits intro: ring_step.cons_load [OF r])
  next
    case (ConsTail h p v)
    then have r: "runs_at s i (ConsTail h p v)" using i by simp
    from assms ConsTail i show ?thesis
      by (auto simp: next_access_def Let_def split: if_splits intro: ring_step.cons_tail [OF r])
  qed
qed

fun run_schedule :: "(nat \<times> 'a ring_pc) list \<Rightarrow> 'a shared_ring \<Rightarrow> 'a shared_ring option" where
  "run_schedule [] s = Some s"
| "run_schedule ((i, c) # cs) s =
     (case next_access i c s of None \<Rightarrow> None | Some s' \<Rightarrow> if none_lapped s' then run_schedule cs s' else None)"

lemma run_schedule_reach: "ring_reach r n s \<Longrightarrow> run_schedule cs s = Some s' \<Longrightarrow> ring_reach r n s'"
  by (induction cs s rule: run_schedule.induct)
    (auto split: option.splits if_splits intro: ring_reach.step next_access_step)

section \<open>Properties\<close>

text \<open>C4: however the accesses of the producers and the consumers of a ring interleave, the objects
  dequeued are a prefix of those enqueued, in the order of their positions: none is lost, doubled, or overtaken, and
  at most the capacity is in the ring; when all operations are over the ring holds exactly the rest; and
  whenever an operation is under way, some thread can make its next access (no deadlock).  The hypothesis of \<open>ring_reach\<close> is that no
  thread sleeps in an operation while a head goes once around the 32-bit numbers.\<close>

theorem ring_threads_fifo:
  assumes "k < 32" "ring_created k r" "ring_reach r n s"
  shows "(\<exists>rest. sr_enq s = sr_deq s @ rest \<and> length rest < 2 ^ k)
    \<and> (list_all (\<lambda>pc. pc = Idle) (sr_threads s) \<longrightarrow> ring_wf k (sr_ring s) \<and> sr_enq s = sr_deq s @ ring_items (sr_ring s))
    \<and> (\<not> list_all (\<lambda>pc. pc = Idle) (sr_threads s) \<longrightarrow> (\<exists>i. can_move i s))"
proof -
  have inv: "ring_inv k s" by (rule ring_reach_inv [OF assms])
  then have d: "sr_deq s = take (length (sr_deq s)) (sr_enq s)" "length (sr_enq s) < length (sr_deq s) + 2 ^ k"
    "length (sr_deq s) \<le> length (sr_enq s)" by (simp_all add: ring_inv_def Let_def)
  then have e: "sr_enq s = sr_deq s @ drop (length (sr_deq s)) (sr_enq s)" by (metis append_take_drop_id)
  moreover have "length (drop (length (sr_deq s)) (sr_enq s)) < 2 ^ k" using d(2,3) by simp
  moreover have "\<exists>i. can_move i s" if "\<not> list_all (\<lambda>pc. pc = Idle) (sr_threads s)"
    using that some_thread_moves [OF inv] by (auto simp: list_all_length)
  ultimately show ?thesis using idle_ring [OF inv] by auto
qed

theorem ring_threads_fifo_witness:
  "\<exists>s. run_schedule [(0, ProdHead 7), (1, ProdHead 8), (0, Idle), (1, Idle), (1, Idle), (0, Idle), (1, Idle), (0, Idle), (1, Idle), (1, Idle),
      (1, ConsHead), (1, Idle), (1, Idle), (1, Idle), (1, Idle), (1, Idle)] (ring_start sample_ring 2) = Some s
    \<and> sr_deq s = [8] \<and> (\<exists>rest. sr_enq s = [8] @ rest) \<and> (\<exists>i. can_move i s)"
proof -
  let ?cs = "[(0, ProdHead 7), (1, ProdHead 8), (0, Idle), (1, Idle), (1, Idle), (0, Idle), (1, Idle), (0, Idle), (1, Idle), (1, Idle),
      (1, ConsHead), (1, Idle), (1, Idle), (1, Idle), (1, Idle), (1, Idle)] :: (nat \<times> nat ring_pc) list"
  let ?s = "\<lparr>sr_ring = sample_ring\<lparr>rr_prod := \<lparr>ht_head = 1, ht_tail = 1, ht_single = False\<rparr>,
      rr_cons := \<lparr>ht_head = 1, ht_tail = 1, ht_single = False\<rparr>, rr_slots := [8, 0, 0, 0]\<rparr>,
    sr_threads = [ProdHead 7, Idle], sr_enq = [8], sr_published = 1, sr_claimed = 1, sr_deq = [8]\<rparr>"
  have st: "ring_start sample_ring 2 = \<lparr>sr_ring = sample_ring, sr_threads = [Idle, Idle], sr_enq = [], sr_published = 0,
      sr_claimed = 0, sr_deq = []\<rparr>"
    by (simp add: ring_start_def numeral_2_eq_2)
  have run: "run_schedule ?cs (ring_start sample_ring 2) = Some ?s"
    unfolding st by (simp add: next_access_def sample_ring_def at_pc_def none_lapped_def burst_size_def rte_atomic32_cmpset_def
        ENQUEUE_PTRS_def DEQUEUE_PTRS_def update_tail_def store_at_def load_at_def load_by_four.simps Let_def)
  have c: "ring_created 2 sample_ring" by (simp add: ring_created_def sample_ring_def)
  have "ring_reach sample_ring 2 ?s" by (rule run_schedule_reach [OF ring_reach.start run])
  from ring_threads_fifo [OF _ c this] show ?thesis using run by auto
qed

end
