(* ===== verification/Config.thy ===== *)
theory Config
  imports DecapGse
begin

text \<open>
  The configuration files (\<open>src/general_module.c\<close>): \<open>base.conf\<close> with one setting in a line, \<open>mapping_tbl.conf\<close> with
  the channels and \<open>router.conf\<close> with the paths of the router.  \<open>fgets\<close>, \<open>strsep\<close> and \<open>atoi\<close> are those of the C library (GNU), \<open>inet_pton\<close> is a
  parameter.  The structure \<open>App_Conf\<close> is not in the repository: a field that is only stored and
  compared is an \<open>int\<close>, an array is a list of the array's length.  Strings are without their terminating zero.
\<close>

section \<open>The C library\<close>

definition fgets_rest :: "nat \<Rightarrow> string \<Rightarrow> string \<times> string" where
  "fgets_rest n content =
     (let line = take (n - 1) content; k = length (takeWhile (\<lambda>c. c \<noteq> CHR 0x0A) line) in
      if k < length line then (take (k + 1) content, drop (k + 1) content) else (line, drop (n - 1) content))"

lemma fgets_rest_less: "1 < n \<Longrightarrow> content \<noteq> [] \<Longrightarrow> length (snd (fgets_rest n content)) < length content"
  by (cases content) (auto simp: fgets_rest_def Let_def)

text \<open>The lines \<open>fgets (text, 100, pFile)\<close> returns until the end of the file.\<close>

function fgets_lines :: "string \<Rightarrow> string list" where
  "fgets_lines content = (if content = [] then [] else fst (fgets_rest 100 content) # fgets_lines (snd (fgets_rest 100 content)))"
  by pat_completeness auto
termination by (relation "measure length") (simp_all add: fgets_rest_less)

declare fgets_lines.simps [simp del]

definition strsep :: "string \<Rightarrow> string option \<Rightarrow> string option \<times> string option" where
  "strsep delim s =
     (case s of
        None \<Rightarrow> (None, None)
      | Some t \<Rightarrow>
          (case dropWhile (\<lambda>c. c \<notin> set delim) t of
             [] \<Rightarrow> (Some t, None)
           | c # rest \<Rightarrow> (Some (takeWhile (\<lambda>c. c \<notin> set delim) t), Some rest)))"

text \<open>The tokens that repeated calls return before the null pointer.\<close>

fun tokens :: "string \<Rightarrow> string \<Rightarrow> string list" where
  "tokens delim [] = [[]]"
| "tokens delim (c # t) = (if c \<in> set delim then [] # tokens delim t
     else case tokens delim t of [] \<Rightarrow> [[c]] | w # ws \<Rightarrow> (c # w) # ws)"

lemma tokens_ne [simp]: "tokens delim t \<noteq> []"
  by (induction t) (auto split: list.split)

lemma tokens_strsep:
  "tokens delim t = (case strsep delim (Some t) of
     (Some p, Some rest) \<Rightarrow> p # tokens delim rest | (Some p, None) \<Rightarrow> [p] | _ \<Rightarrow> [])"
proof (induction t)
  case (Cons c t)
  show ?case
  proof (cases "c \<in> set delim")
    case False
    then show ?thesis using Cons.IH by (cases "dropWhile (\<lambda>c. c \<notin> set delim) t") (simp_all add: strsep_def del: dropWhile_eq_Nil_conv)
  qed (simp add: strsep_def)
qed (simp add: strsep_def)

definition is_space :: "char \<Rightarrow> bool" where
  "is_space c \<longleftrightarrow> c = CHR '' '' \<or> (9 \<le> (of_char c :: nat) \<and> (of_char c :: nat) \<le> 13)"

definition digit_value :: "char \<Rightarrow> int option" where
  "digit_value c = (let n = of_char c :: int in
     if 48 \<le> n \<and> n \<le> 57 then Some (n - 48) else if 65 \<le> n \<and> n \<le> 90 then Some (n - 55)
     else if 97 \<le> n \<and> n \<le> 122 then Some (n - 87) else None)"

fun read_digits :: "int \<Rightarrow> int \<Rightarrow> string \<Rightarrow> int" where
  "read_digits base acc [] = acc"
| "read_digits base acc (c # cs) =
     (case digit_value c of
        Some d \<Rightarrow> if d < base then read_digits base (acc * base + d) cs else acc
      | None \<Rightarrow> acc)"

definition clamp_long :: "int \<Rightarrow> int" where
  "clamp_long v = (if v < - (2 ^ 63) then - (2 ^ 63) else if 2 ^ 63 \<le> v then 2 ^ 63 - 1 else v)"

text \<open>\<open>strtol\<close> with the bases the code uses, 10 and 16.\<close>

definition strtol :: "string \<Rightarrow> int \<Rightarrow> int" where
  "strtol s base =
     (let t = dropWhile is_space s;
          neg = (case t of c # _ \<Rightarrow> c = CHR ''-'' | [] \<Rightarrow> False);
          u = (case t of c # r \<Rightarrow> if c = CHR ''-'' \<or> c = CHR ''+'' then r else t | [] \<Rightarrow> t);
          v = (case u of a # b # c # r \<Rightarrow>
                 if base = 16 \<and> a = CHR ''0'' \<and> (b = CHR ''x'' \<or> b = CHR ''X'') \<and> (case digit_value c of Some d \<Rightarrow> d < 16 | None \<Rightarrow> False) then c # r else u
               | _ \<Rightarrow> u)
      in clamp_long (if neg then - read_digits base 0 v else read_digits base 0 v))"

definition atoi :: "string \<Rightarrow> int" where
  "atoi s = sint (word_of_int (strtol s 10) :: u32)"

text \<open>\<open>atoi (p)\<close> with the pointer of the last \<open>strsep\<close>.\<close>

definition atoi_p :: "string option \<Rightarrow> int outcome" where
  "atoi_p p = (case p of None \<Rightarrow> Inl NullDeref | Some t \<Rightarrow> Inr (atoi t))"

section \<open>The configuration\<close>

record APP_CONF =
  decap_thread_num :: int
  recv_thread_num :: int
  encap_thread_num :: int
  check_frag_timeout_period :: int
  rcv_ring_queue_num :: int
  encap_ring_queue_num :: int
  pcie_flag :: int
  padding_threshold :: int
  cf_modcode :: int
  cf_dst_id :: "int list"
  dst_ip :: "u32 list"
  router_id :: int
  cur_entry :: int
  local_id :: int
  netcard_num :: u8
  if_name :: "string list"
  local_mac :: "u8 list list"
  next_hop_id :: "int list"
  port_id :: "u8 list"
  dst_mac :: "u8 list list"
  dst_mac_flag :: "int list"
  cf_protocol_type :: "int list"
  port_to_pkt_type :: "u16 list"
  router_table :: "int list list"
  router_table_entry_num :: "int list"
  router_table_num :: int
  mapping_table_entry_num :: u8
  router_row :: u8
  mapping_row :: u8

text \<open>The last two fields are the static counters \<open>i\<close> of \<open>read_router_string\<close> and \<open>read_mapping_tbl_string\<close>.\<close>

section \<open>\<open>router.conf\<close>\<close>

text \<open>The remaining tokens of a line go to an array from entry \<open>j\<close> on.\<close>

fun store_numbers :: "string list \<Rightarrow> u8 \<Rightarrow> int list \<Rightarrow> (u8 \<times> int list) outcome" where
  "store_numbers [] j row = Inr (j, row)"
| "store_numbers (p # ps) j row = bind_ok (store_at row (unat j) (atoi p)) (store_numbers ps (j + 1))"

definition ROUTER_DELIM :: string where "ROUTER_DELIM = '',:-'' @ [CHR 0x09, CHR '' '']"

definition read_router_string :: "string \<Rightarrow> APP_CONF \<Rightarrow> APP_CONF outcome" where
  "read_router_string string g =
     (let ps = tokens ROUTER_DELIM string; i = router_row g in
      if uint (word_of_int (atoi (hd ps)) :: u16) \<noteq> local_id g then Inr g
      else bind_ok (load_at (router_table g) (unat i)) (\<lambda>row.
           bind_ok (store_numbers ps 0 row) (\<lambda>(j, row').
           bind_ok (store_at (router_table_entry_num g) (unat i) (uint j)) (\<lambda>nums.
           Inr (g\<lparr>router_table := (router_table g)[unat i := row'], router_table_entry_num := nums,
                  router_row := i + 1, router_table_num := uint (i + 1)\<rparr>)))))"

definition read_router_tbl_config :: "string option \<Rightarrow> APP_CONF \<Rightarrow> APP_CONF outcome option" where
  "read_router_tbl_config file g = map_option (\<lambda>content. for_each (fgets_lines content) read_router_string g) file"

section \<open>\<open>base.conf\<close>\<close>

definition is_alnum :: "char \<Rightarrow> bool" where
  "is_alnum c \<longleftrightarrow> (let n = of_char c :: nat in (48 \<le> n \<and> n \<le> 57) \<or> (97 \<le> n \<and> n \<le> 122) \<or> (65 \<le> n \<and> n \<le> 90))"

text \<open>The names of the network cards: \<open>data\<close> has 20 characters, the terminating zero included, an element of \<open>if_name\<close> 32.\<close>

fun read_if_names :: "string list \<Rightarrow> u8 \<Rightarrow> string list \<Rightarrow> (u8 \<times> string list) outcome" where
  "read_if_names [] j names = Inr (j, names)"
| "read_if_names (p # ps) j names =
     (if 20 \<le> length p then Inl OutOfBounds
      else bind_ok (store_at names (unat j) (takeWhile is_alnum p)) (read_if_names ps (j + 1)))"

text \<open>An address \<open>inet_pton\<close> rejects leaves the variable \<open>ip\<close> as it is.\<close>

fun read_ips :: "(string \<Rightarrow> u32 option) \<Rightarrow> string list \<Rightarrow> u8 \<Rightarrow> u32 option \<Rightarrow> u32 list \<Rightarrow> u32 list outcome" where
  "read_ips inet_pton [] i ip ips = Inr ips"
| "read_ips inet_pton (p # ps) i ip ips =
     (case (case inet_pton p of Some v \<Rightarrow> Some v | None \<Rightarrow> ip) of
        None \<Rightarrow> Inl UninitRead
      | Some v \<Rightarrow> bind_ok (store_at ips (unat i) (bswap32 v)) (read_ips inet_pton ps (i + 1) (Some v)))"

definition second :: "string list \<Rightarrow> string option" where
  "second ps = (case tl ps of [] \<Rightarrow> None | q # _ \<Rightarrow> Some q)"

text \<open>The result is the type, 1 for the line with the names, and the configuration.\<close>

definition read_string :: "(string \<Rightarrow> u32 option) \<Rightarrow> string \<Rightarrow> APP_CONF \<Rightarrow> (u8 \<times> APP_CONF) outcome" where
  "read_string inet_pton string g =
     (if string = [] then Inl OutOfBounds
      else let ps = tokens ('':-'' @ [CHR 0x09]) (butlast string); p = hd ps;
               num = (\<lambda>set. bind_ok (atoi_p (second ps)) (\<lambda>v. Inr (0, set v))) in
        if p = ''if_name'' then bind_ok (read_if_names (tl ps) 0 (if_name g)) (\<lambda>(j, names).
          Inr (if tl ps = [] then 0 else 1, g\<lparr>if_name := names, netcard_num := j\<rparr>))
        else if p = ''decap_thread_num'' then num (\<lambda>v. g\<lparr>decap_thread_num := v\<rparr>)
        else if p = ''recv_thread_num'' then num (\<lambda>v. g\<lparr>recv_thread_num := v\<rparr>)
        else if p = ''encap_thread_num'' then num (\<lambda>v. g\<lparr>encap_thread_num := v\<rparr>)
        else if p = ''check_frag_timeout_period'' then num (\<lambda>v. g\<lparr>check_frag_timeout_period := v\<rparr>)
        else if p = ''rcv_ring_queue_num'' then num (\<lambda>v. g\<lparr>rcv_ring_queue_num := v\<rparr>)
        else if p = ''encap_ring_queue_num'' then num (\<lambda>v. g\<lparr>encap_ring_queue_num := v\<rparr>)
        else if p = ''pcie_flag'' then num (\<lambda>v. g\<lparr>pcie_flag := v\<rparr>)
        else if p = ''padding_threshold'' then num (\<lambda>v. g\<lparr>padding_threshold := v\<rparr>)
        else if p = ''modcode'' then num (\<lambda>v. g\<lparr>cf_modcode := v\<rparr>)
        else if p = ''dst_id'' then bind_ok (store_numbers (tl ps) 0 (cf_dst_id g)) (\<lambda>(j, ids). Inr (0, g\<lparr>cf_dst_id := ids\<rparr>))
        else if p = ''dst_ip'' then bind_ok (read_ips inet_pton (tl ps) 0 None (dst_ip g)) (\<lambda>ips. Inr (0, g\<lparr>dst_ip := ips\<rparr>))
        else if p = ''router_id'' then num (\<lambda>v. g\<lparr>router_id := v\<rparr>)
        else if p = ''cur_entry'' then num (\<lambda>v. g\<lparr>cur_entry := v\<rparr>)
        else if p = ''local_id'' then num (\<lambda>v. g\<lparr>local_id := v\<rparr>)
        else Inr (0, g))"

text \<open>\<open>get_mac_addr\<close> asks the operating system: \<open>macs\<close> are the addresses it reports.\<close>

definition read_nic_config ::
  "(string \<Rightarrow> u32 option) \<Rightarrow> (APP_CONF \<Rightarrow> u8 list list) \<Rightarrow> string option \<Rightarrow> APP_CONF \<Rightarrow> APP_CONF outcome option" where
  "read_nic_config inet_pton macs file g =
     map_option (\<lambda>content.
       bind_ok (for_each (fgets_lines content) (\<lambda>text g. bind_ok (read_string inet_pton text g) (\<lambda>(type, g'). Inr g')) g)
         (\<lambda>g'. Inr (g'\<lparr>local_mac := macs g'\<rparr>))) file"

section \<open>\<open>mapping_tbl.conf\<close>\<close>

text \<open>The loop over the cards: \<open>strncmp\<close> compares as many characters as the card's name has.\<close>

fun find_card :: "string \<Rightarrow> u8 list \<Rightarrow> string list \<Rightarrow> u8 option outcome" where
  "find_card p [] names = Inr None"
| "find_card p (j # js) names =
     bind_ok (load_at names (unat j)) (\<lambda>name. if take (length name) p = name then Inr (Some j) else find_card p js names)"

definition pkt_type_of :: "string \<Rightarrow> u8 option" where
  "pkt_type_of p =
     (if p = ''isl'' then Some ISL_PACK
      else if p = ''bb'' then Some BBFRAME_PACK
      else if p = ''m_fwd_pdu'' then Some MULTI_FWD_PDU_PACK
      else if p = ''m_rtn_pdu'' then Some MULTI_FWD_PDU_PACK
      else if p = ''fwd_pdu'' then Some FWD_TUNNEL_PDU
      else if p = ''rtn_pdu'' then Some RTN_TUNNEL_PDU
      else if p = ''fwd_bb'' then Some ENUM_FWD_Tx_FWD_Data
      else None)"

text \<open>The pieces of the MAC address are joined in \<open>text[20]\<close> until there are 12 characters.\<close>

fun join_mac :: "string list \<Rightarrow> u8 \<Rightarrow> string \<Rightarrow> string outcome" where
  "join_mac [] j text = Inr text"
| "join_mac (p # ps) j text =
     (if 20 \<le> unat j + length p then Inl OutOfBounds
      else let text' = take (unat j) text @ p; j' = j + of_nat (length p) in
           if j' = 12 then Inr text' else join_mac ps j' text')"

definition store_opt :: "'a list \<Rightarrow> nat \<Rightarrow> 'a option \<Rightarrow> 'a list outcome" where
  "store_opt a i x = (case x of None \<Rightarrow> Inr a | Some v \<Rightarrow> store_at a i v)"

text \<open>\<open>junk\<close> is what the uninitialised \<open>data[20]\<close> holds.\<close>

definition read_mapping_tbl_string :: "u8 list \<Rightarrow> string \<Rightarrow> APP_CONF \<Rightarrow> APP_CONF outcome" where
  "read_mapping_tbl_string junk string g =
     (let ps = tokens ROUTER_DELIM string; i = unat (mapping_row g); tok = (\<lambda>k. if k < length ps then Some (ps ! k) else None) in
      if uint (word_of_int (atoi (hd ps)) :: u16) \<noteq> local_id g then Inr g
      else bind_ok (store_opt (next_hop_id g) i (map_option atoi (tok 1))) (\<lambda>hops.
           bind_ok (case tok 2 of None \<Rightarrow> Inr None | Some p \<Rightarrow> find_card p (map of_nat [0..<unat (netcard_num g)]) (if_name g)) (\<lambda>card.
           bind_ok (store_opt (port_id g) i card) (\<lambda>ports.
           bind_ok (load_at hops i) (\<lambda>hop.
           bind_ok (if hop = local_id g
                    then bind_ok (load_at ports i) (\<lambda>port. bind_ok (load_at (local_mac g) (unat port)) (\<lambda>mac.
                         bind_ok (store_at (dst_mac g) i mac) (\<lambda>macs. bind_ok (store_at (dst_mac_flag g) i 3) (\<lambda>flags. Inr (macs, flags)))))
                    else Inr (dst_mac g, dst_mac_flag g)) (\<lambda>(macs, flags).
           bind_ok (store_opt (cf_protocol_type g) i (map_option (\<lambda>p. strtol p 16) (tok 3))) (\<lambda>protos.
           bind_ok (store_opt (port_to_pkt_type g) i (map_option ucast (case tok 4 of None \<Rightarrow> None | Some p \<Rightarrow> pkt_type_of p))) (\<lambda>types.
           bind_ok (if drop 5 ps = [] then Inl UninitRead else join_mac (drop 5 ps) 0 []) (\<lambda>text.
           bind_ok (StrToHex (map of_char text) junk) (\<lambda>data.
           bind_ok (store_at macs i (take 6 data)) (\<lambda>macs'.
           Inr (g\<lparr>next_hop_id := hops, port_id := ports, dst_mac := macs', dst_mac_flag := flags, cf_protocol_type := protos,
                  port_to_pkt_type := types, mapping_row := mapping_row g + 1, mapping_table_entry_num := mapping_row g + 1\<rparr>))))))))))))"

text \<open>The first line is a heading.\<close>

definition read_mapping_tbl_config :: "u8 list \<Rightarrow> string option \<Rightarrow> APP_CONF \<Rightarrow> APP_CONF outcome option" where
  "read_mapping_tbl_config junk file g =
     map_option (\<lambda>content. for_each (tl (fgets_lines content)) (read_mapping_tbl_string junk) g) file"

section \<open>Printing\<close>

text \<open>What a line looks like: numbers in decimal, separated by one character.\<close>

fun dec :: "nat \<Rightarrow> string" where
  "dec n = (if n < 10 then [char_of (48 + n)] else dec (n div 10) @ [char_of (48 + n mod 10)])"

declare dec.simps [simp del]

fun print_row :: "char \<Rightarrow> nat list \<Rightarrow> string" where
  "print_row sep [] = []"
| "print_row sep [n] = dec n"
| "print_row sep (n # ns) = dec n @ [sep] @ print_row sep ns"

definition is_dec :: "char \<Rightarrow> bool" where
  "is_dec c \<longleftrightarrow> (\<exists>d < 10. c = char_of (48 + d :: nat))"

lemma dec_chars: "list_all is_dec (dec n) \<and> dec n \<noteq> []"
proof (induction n rule: dec.induct)
  case (1 n)
  show ?case
  proof (cases "n < 10")
    case True
    then show ?thesis by (auto simp: is_dec_def dec.simps [of n])
  next
    case False
    then show ?thesis using 1 by (auto simp: dec.simps [of n]) (auto simp: is_dec_def intro!: exI [of _ "n mod 10"])
  qed
qed

lemma of_char_dec: "d < 10 \<Longrightarrow> (of_char (char_of (48 + d :: nat)) :: nat) = 48 + d"
  by (simp add: of_char_of)

lemma digit_value_dec: "d < 10 \<Longrightarrow> digit_value (char_of (48 + d :: nat)) = Some (int d)"
proof -
  assume d: "d < 10"
  have "(of_char (char_of (48 + d :: nat)) :: int) = of_nat (of_char (char_of (48 + d :: nat)) :: nat)"
    by (rule of_nat_of_char [symmetric])
  then have "(of_char (char_of (48 + d :: nat)) :: int) = int (48 + d)" using of_char_dec [OF d] by simp
  then show ?thesis using d by (simp add: digit_value_def)
qed

lemma read_digits_append:
  "list_all is_dec ds \<Longrightarrow> read_digits 10 acc (ds @ rest) = read_digits 10 (read_digits 10 acc ds) rest"
proof (induction ds arbitrary: acc)
  case (Cons c ds)
  then obtain d where "d < 10" "c = char_of (48 + d :: nat)" by (auto simp: is_dec_def)
  then show ?case using Cons by (simp add: digit_value_dec del: char_of_nat)
qed simp

lemma read_digits_dec: "read_digits 10 0 (dec n) = int n"
proof (induction n rule: dec.induct)
  case (1 n)
  show ?case
  proof (cases "n < 10")
    case True
    then show ?thesis by (simp add: dec.simps [of n] digit_value_dec)
  next
    case False
    have "int (n div 10 * 10 + n mod 10) = int n" by (simp only: div_mult_mod_eq)
    then have "int (n div 10) * 10 + int (n mod 10) = int n" by (simp only: of_nat_add of_nat_mult of_nat_numeral)
    then show ?thesis
      using False 1 dec_chars [of "n div 10"] by (simp add: dec.simps [of n] read_digits_append digit_value_dec)
  qed
qed

text \<open>A character that ends a number.\<close>

definition ends_number :: "string \<Rightarrow> bool" where
  "ends_number rest \<longleftrightarrow> (case rest of [] \<Rightarrow> True | c # _ \<Rightarrow> digit_value c = None)"

lemma strtol_10:
  "strtol s 10 =
     (let t = dropWhile is_space s; neg = (case t of c # _ \<Rightarrow> c = CHR ''-'' | [] \<Rightarrow> False);
          u = (case t of c # r \<Rightarrow> if c = CHR ''-'' \<or> c = CHR ''+'' then r else t | [] \<Rightarrow> t)
      in clamp_long (if neg then - read_digits 10 0 u else read_digits 10 0 u))"
proof -
  have "(case u of a # b # c # r \<Rightarrow> if (10 :: int) = 16 \<and> P a b c then c # r else u | _ \<Rightarrow> u) = u" for u :: string and P
    by (simp split: list.split)
  then show ?thesis by (simp add: strtol_def Let_def)
qed

lemma strtol_dec:
  assumes "ends_number rest" "int n < 2 ^ 63"
  shows "strtol (dec n @ rest) 10 = int n"
proof -
  obtain c cs where c: "dec n = c # cs" using dec_chars [of n] by (cases "dec n") auto
  then obtain d where d: "d < 10" "c = char_of (48 + d :: nat)" using dec_chars [of n] by (auto simp: is_dec_def)
  have o: "(of_char c :: nat) = 48 + d" using of_char_dec d by simp
  have nc: "\<not> is_space c" "c \<noteq> CHR ''-''" "c \<noteq> CHR ''+''"
    using o d(1) by (auto simp: is_space_def)
  have "read_digits 10 (int n) rest = int n"
    using assms(1) by (cases rest) (auto simp: ends_number_def)
  then have "read_digits 10 0 (dec n @ rest) = int n" using dec_chars [of n] by (simp add: read_digits_append read_digits_dec)
  then show ?thesis using nc assms(2) by (simp add: strtol_10 c Let_def clamp_long_def del: read_digits.simps)
qed

lemma atoi_dec:
  assumes "ends_number rest" "n < 2 ^ 31"
  shows "atoi (dec n @ rest) = int n"
proof -
  have "strtol (dec n @ rest) 10 = int n" using assms by (intro strtol_dec) auto
  moreover have "sint (word_of_int (int n) :: u32) = int n" using assms(2)
    by (simp add: signed_of_nat signed_take_bit_int_eq_self_iff)
  ultimately show ?thesis by (simp add: atoi_def)
qed

section \<open>Lines and tokens of what was printed\<close>

lemma tokens_plain: "\<forall>c \<in> set w. c \<notin> set delim \<Longrightarrow> tokens delim w = [w]"
  by (induction w) auto

lemma tokens_sep: "\<forall>c \<in> set w. c \<notin> set delim \<Longrightarrow> sep \<in> set delim \<Longrightarrow> tokens delim (w @ sep # t) = w # tokens delim t"
  by (induction w) auto

lemma is_dec_plain: "is_dec c \<Longrightarrow> c \<notin> set ROUTER_DELIM \<and> c \<noteq> CHR 0x0A"
proof -
  assume "is_dec c"
  then obtain d where d: "d < 10" "c = char_of (48 + d :: nat)" by (auto simp: is_dec_def)
  then have "(of_char c :: nat) = 48 + d" using of_char_dec by simp
  then have "48 \<le> (of_char c :: nat)" "(of_char c :: nat) \<le> 57" using d(1) by simp_all
  then show ?thesis by (auto simp: ROUTER_DELIM_def)
qed

lemma dec_plain: "c \<in> set (dec n) \<Longrightarrow> c \<notin> set ROUTER_DELIM \<and> c \<noteq> CHR 0x0A"
  using dec_chars [of n] is_dec_plain by (auto simp: list_all_iff)

text \<open>A line of a file of numbers.\<close>

definition row_line :: "char \<Rightarrow> nat list \<Rightarrow> string" where
  "row_line sep ns = print_row sep ns @ [CHR 0x0A]"

lemma row_tokens:
  "sep \<in> set ROUTER_DELIM \<Longrightarrow> ns \<noteq> [] \<Longrightarrow> tokens ROUTER_DELIM (row_line sep ns) = map dec (butlast ns) @ [dec (last ns) @ [CHR 0x0A]]"
proof (induction sep ns rule: print_row.induct)
  case (2 sep n)
  have "\<forall>c \<in> set (dec n @ [CHR 0x0A]). c \<notin> set ROUTER_DELIM" using dec_plain by (auto simp: ROUTER_DELIM_def)
  from tokens_plain [OF this] show ?case by (simp add: row_line_def)
next
  case (3 sep' n m ns)
  have "\<forall>c \<in> set (dec n). c \<notin> set ROUTER_DELIM" using dec_plain by blast
  from tokens_sep [OF this, of sep'] 3 show ?case by (simp add: row_line_def)
qed simp

lemma row_atoi:
  assumes "sep \<in> set ROUTER_DELIM" "ns \<noteq> []" "\<forall>n \<in> set ns. n < 2 ^ 31"
  shows "map atoi (tokens ROUTER_DELIM (row_line sep ns)) = map int ns"
proof -
  have e: "ends_number []" "ends_number [CHR 0x0A]" by (simp_all add: ends_number_def digit_value_def)
  have "atoi (dec n) = int n" if "n < 2 ^ 31" for n using atoi_dec [OF e(1) that] by simp
  then have "map (atoi \<circ> dec) (butlast ns) = map int (butlast ns)" using assms(3) by (auto dest: in_set_butlastD)
  moreover have "atoi (dec (last ns) @ [CHR 0x0A]) = int (last ns)"
    using assms(2,3) by (intro atoi_dec [OF e(2)]) simp
  ultimately have "map atoi (tokens ROUTER_DELIM (row_line sep ns)) = map int (butlast ns @ [last ns])"
    unfolding row_tokens [OF assms(1,2)] map_append map_map by simp
  then show ?thesis unfolding append_butlast_last_id [OF assms(2)] .
qed

lemma store_numbers_row:
  "unat j + length ps < 256 \<Longrightarrow> unat j + length ps \<le> length row \<Longrightarrow>
   store_numbers ps j row = Inr (j + of_nat (length ps), take (unat j) row @ map atoi ps @ drop (unat j + length ps) row)"
proof (induction ps arbitrary: j row)
  case (Cons p ps)
  then have u: "unat (j + 1) = unat j + 1" by (subst unat_add_lt) auto
  have "store_numbers (p # ps) j row = store_numbers ps (j + 1) (row[unat j := atoi p])" using Cons.prems by simp
  also have "\<dots> = Inr (j + 1 + of_nat (length ps), take (unat j + 1) (row[unat j := atoi p]) @ map atoi ps
      @ drop (unat j + 1 + length ps) (row[unat j := atoi p]))"
    using Cons.prems u by (subst Cons.IH) auto
  also have "take (unat j + 1) (row[unat j := atoi p]) = take (unat j) row @ [atoi p]"
    using Cons.prems by (simp add: take_Suc_conv_app_nth)
  finally show ?case by (simp add: add.assoc)
qed simp

lemma line_plain: "c \<in> set (print_row sep ns) \<Longrightarrow> c = sep \<or> c \<noteq> CHR 0x0A"
  by (induction sep ns rule: print_row.induct) (auto dest: dec_plain)

lemma fgets_one:
  assumes "\<forall>c \<in> set w. c \<noteq> CHR 0x0A" "length w + 1 \<le> 99"
  shows "fgets_rest 100 (w @ CHR 0x0A # rest) = (w @ [CHR 0x0A], rest)"
proof -
  have "takeWhile (\<lambda>c. c \<noteq> CHR 0x0A) (take 99 (w @ CHR 0x0A # rest)) = w"
    using assms by (simp add: takeWhile_append2 take_Cons')
  then show ?thesis using assms(2) by (simp add: fgets_rest_def Let_def take_Cons')
qed

lemma fgets_lines_rows:
  assumes "sep \<noteq> CHR 0x0A"
  shows "\<forall>ns \<in> set rows. length (row_line sep ns) \<le> 99 \<Longrightarrow> fgets_lines (concat (map (row_line sep) rows)) = map (row_line sep) rows"
proof (induction rows)
  case Nil
  then show ?case by (simp add: fgets_lines.simps)
next
  case (Cons ns rows)
  have "fgets_rest 100 (print_row sep ns @ CHR 0x0A # concat (map (row_line sep) rows))
      = (row_line sep ns, concat (map (row_line sep) rows))"
    using fgets_one [of "print_row sep ns"] line_plain [of _ sep ns] assms Cons.prems by (auto simp: row_line_def)
  moreover have "concat (map (row_line sep) (ns # rows)) = print_row sep ns @ CHR 0x0A # concat (map (row_line sep) rows)"
    by (simp add: row_line_def)
  moreover have "fgets_lines (concat (map (row_line sep) rows)) = map (row_line sep) rows" using Cons by simp
  ultimately show ?case by (subst fgets_lines.simps) simp
qed

section \<open>The table after reading\<close>

text \<open>The paths of the router's own lines are in the first rows; \<open>C\<close> is the number of columns.\<close>

definition table_holds :: "nat \<Rightarrow> nat list list \<Rightarrow> APP_CONF \<Rightarrow> bool" where
  "table_holds C own g \<longleftrightarrow> router_row g = of_nat (length own) \<and> router_table_num g = int (length own)
     \<and> length own \<le> length (router_table g) \<and> length (router_table g) \<le> length (router_table_entry_num g)
     \<and> list_all (\<lambda>row. length row = C) (router_table g)
     \<and> (\<forall>k < length own. take (length (own ! k)) (router_table g ! k) = map int (own ! k)
          \<and> router_table_entry_num g ! k = int (length (own ! k)))"

lemma read_router_line:
  assumes t: "table_holds C own g" and sep: "sep \<in> set ROUTER_DELIM"
    and ns: "ns \<noteq> []" "\<forall>n \<in> set ns. n < 65536" "length ns \<le> C" "C < 256"
    and room: "int (hd ns) = local_id g \<longrightarrow> length own < length (router_table g)" "length (router_table g) < 256"
  shows "\<exists>g'. read_router_string (row_line sep ns) g = Inr g' \<and> local_id g' = local_id g \<and> length (router_table g') = length (router_table g)
    \<and> table_holds C (if int (hd ns) = local_id g then own @ [ns] else own) g'"
proof -
  let ?ps = "tokens ROUTER_DELIM (row_line sep ns)"
  have m: "map atoi ?ps = map int ns" by (rule row_atoi [OF sep ns(1)]) (use ns(2) in auto)
  then have l: "length ?ps = length ns" by (metis length_map)
  have "atoi (hd ?ps) = hd (map atoi ?ps)" by (simp add: hd_map)
  then have h: "atoi (hd ?ps) = int (hd ns)" using m ns(1) by (simp add: hd_map)
  have "hd ns < 65536" using ns(1,2) by simp
  then have u: "uint (word_of_int (atoi (hd ?ps)) :: u16) = int (hd ns)" unfolding h
    by (simp add: unsigned_of_nat take_bit_nat_eq_self_iff)
  show ?thesis
  proof (cases "int (hd ns) = local_id g")
    case False
    then show ?thesis using t u by (simp add: read_router_string_def)
  next
    case True
    let ?k = "length own"
    let ?row = "map int ns @ drop (length ns) (router_table g ! ?k)"
    have lt: "?k < 255" using room True by simp
    have i: "unat (router_row g) = ?k" using t lt by (simp add: table_holds_def unsigned_of_nat take_bit_nat_eq_self_iff)
    have k: "?k < length (router_table g)" "?k < length (router_table_entry_num g)" using room(1) True t by (auto simp: table_holds_def)
    have row: "length (router_table g ! ?k) = C" using t k(1) by (simp add: table_holds_def list_all_length)
    have "store_numbers ?ps 0 (router_table g ! ?k) = Inr (of_nat (length ns), ?row)"
      using store_numbers_row [of 0 ?ps "router_table g ! ?k"] l row ns(3,4) m by simp
    moreover have "uint (of_nat (length ns) :: u8) = int (length ns)"
      using ns(3,4) by (simp add: unsigned_of_nat take_bit_nat_eq_self_iff)
    ultimately have r: "read_router_string (row_line sep ns) g = Inr (g\<lparr>router_table := (router_table g)[?k := ?row],
        router_table_entry_num := (router_table_entry_num g)[?k := int (length ns)],
        router_row := router_row g + 1, router_table_num := uint (router_row g + 1)\<rparr>)" (is "_ = Inr ?g'")
      using True u i k by (simp add: read_router_string_def Let_def)
    have n: "router_row g + 1 = of_nat (length (own @ [ns]))" using t by (simp add: table_holds_def add.commute)
    have un: "uint (of_nat (Suc ?k) :: u8) = int (Suc ?k)"
    proof -
      have "take_bit 8 (Suc ?k) = Suc ?k" by (rule take_bit_nat_eq_self) (use lt in simp)
      then show ?thesis by (simp only: uint_nat unsigned_of_nat) simp
    qed
    have "table_holds C (own @ [ns]) ?g'"
      using t k row ns(3) n un
      by (simp add: table_holds_def nth_append list_all_length nth_list_update less_Suc_eq add.commute)
    then show ?thesis using r True by auto
  qed
qed

lemma read_router_lines:
  assumes sep: "sep \<in> set ROUTER_DELIM" and C: "C < 256"
  shows "table_holds C own g \<Longrightarrow> \<forall>ns \<in> set rows. ns \<noteq> [] \<and> (\<forall>n \<in> set ns. n < 65536) \<and> length ns \<le> C \<Longrightarrow>
    length (own @ filter (\<lambda>ns. int (hd ns) = local_id g) rows) \<le> length (router_table g) \<Longrightarrow> length (router_table g) < 256 \<Longrightarrow>
    \<exists>g'. for_each (map (row_line sep) rows) read_router_string g = Inr g'
      \<and> table_holds C (own @ filter (\<lambda>ns. int (hd ns) = local_id g) rows) g'"
proof (induction rows arbitrary: own g)
  case (Cons ns rows)
  let ?own = "if int (hd ns) = local_id g then own @ [ns] else own"
  have n: "ns \<noteq> []" "\<forall>n \<in> set ns. n < 65536" "length ns \<le> C" using Cons.prems(2) by simp_all
  have "int (hd ns) = local_id g \<longrightarrow> length own < length (router_table g)" using Cons.prems(3) by auto
  from read_router_line [OF Cons.prems(1) sep n C this Cons.prems(4)] obtain g1 where
    g1: "read_router_string (row_line sep ns) g = Inr g1" "local_id g1 = local_id g"
      "length (router_table g1) = length (router_table g)" "table_holds C ?own g1" by blast
  have o: "own @ filter (\<lambda>ns. int (hd ns) = local_id g) (ns # rows) = ?own @ filter (\<lambda>ns. int (hd ns) = local_id g1) rows"
    using g1(2) by simp
  show ?case using Cons.IH [OF g1(4)] Cons.prems(2-4) g1(1,3) unfolding o by simp
qed simp

section \<open>Lines of the repository's files\<close>

definition empty_conf :: APP_CONF where
  "empty_conf = \<lparr>decap_thread_num = 0, recv_thread_num = 0, encap_thread_num = 0, check_frag_timeout_period = 0, rcv_ring_queue_num = 0,
     encap_ring_queue_num = 0, pcie_flag = 0, padding_threshold = 0, cf_modcode = 0, cf_dst_id = replicate 8 0, dst_ip = replicate 8 0,
     router_id = 0, cur_entry = 0, local_id = 0, netcard_num = 0, if_name = replicate 4 [], local_mac = replicate 4 (replicate 6 0),
     next_hop_id = replicate 8 0, port_id = replicate 8 0, dst_mac = replicate 8 (replicate 6 0), dst_mac_flag = replicate 8 0,
     cf_protocol_type = replicate 8 0, port_to_pkt_type = replicate 8 0, router_table = replicate 8 (replicate 8 0),
     router_table_entry_num = replicate 8 0, router_table_num = 0, mapping_table_entry_num = 0, router_row = 0, mapping_row = 0\<rparr>"

definition node_conf :: APP_CONF where
  "node_conf = empty_conf\<lparr>local_id := 181, netcard_num := 3, if_name := [''enp1s0f1'', ''enp6s0'', ''enp3s0'', []],
     local_mac := [[1, 1, 1, 1, 1, 1], [2, 2, 2, 2, 2, 2], [3, 3, 3, 3, 3, 3], replicate 6 0]\<rparr>"

lemma mapping_line:
  "read_mapping_tbl_string (replicate 20 0) (''181,180,enp1s0f1,0x9101,fwd_bb,00:1b:21:81:a8:27'' @ [CHR 0x0A]) node_conf
   = Inr (node_conf\<lparr>next_hop_id := 180 # replicate 7 0, port_id := replicate 8 0,
       dst_mac := [0x00, 0x1b, 0x21, 0x81, 0xa8, 0x27] # replicate 7 (replicate 6 0),
       cf_protocol_type := 0x9101 # replicate 7 0, port_to_pkt_type := 6 # replicate 7 0, mapping_row := 1, mapping_table_entry_num := 1\<rparr>)"
  by code_simp

section \<open>Properties\<close>

text \<open>C40: reading \<open>router.conf\<close> gives back what was written: for a file of rows of node numbers,
  separated by any of the separators the code knows, the routing table holds exactly the rows that begin with the router's own
  number, in the order of the file, each with its length.\<close>

theorem router_conf_read_back:
  assumes "sep \<in> set ROUTER_DELIM" "\<forall>ns \<in> set rows. ns \<noteq> [] \<and> (\<forall>n \<in> set ns. n < 65536) \<and> length ns \<le> C"
    "\<forall>ns \<in> set rows. length (row_line sep ns) \<le> 99" "C < 256"
    "own = filter (\<lambda>ns. int (hd ns) = local_id g) rows" "length own \<le> length (router_table g)"
    "router_row g = 0" "router_table_num g = 0" "length (router_table g) < 256"
    "length (router_table g) \<le> length (router_table_entry_num g)" "\<forall>row \<in> set (router_table g). length row = C"
  shows "\<exists>g'. read_router_tbl_config (Some (concat (map (row_line sep) rows))) g = Some (Inr g')
    \<and> router_table_num g' = int (length own)
    \<and> (\<forall>k < length own. take (length (own ! k)) (router_table g' ! k) = map int (own ! k)
          \<and> router_table_entry_num g' ! k = int (length (own ! k)))"
proof -
  have nl: "sep \<noteq> CHR 0x0A" using assms(1) by (auto simp: ROUTER_DELIM_def)
  have "table_holds C [] g" using assms(7,8,10,11) by (simp add: table_holds_def list_all_iff)
  from read_router_lines [OF assms(1,4) this assms(2)] assms(5,6,9) obtain g' where
    "for_each (map (row_line sep) rows) read_router_string g = Inr g'" "table_holds C own g'" by auto
  then show ?thesis using fgets_lines_rows [OF nl assms(3)] by (auto simp: read_router_tbl_config_def table_holds_def)
qed

text \<open>The file of the repository, \<open>180:181\<close> and \<open>181:180\<close>, for node 181.\<close>

theorem router_conf_read_back_witness:
  "\<exists>g'. read_router_tbl_config (Some (concat (map (row_line CHR '':'') [[180, 181], [181, 180]]))) (empty_conf\<lparr>local_id := 181\<rparr>) = Some (Inr g')
    \<and> router_table_num g' = 1 \<and> take 2 (router_table g' ! 0) = [181, 180]"
proof -
  let ?g = "empty_conf\<lparr>local_id := 181\<rparr>"
  have d: "dec 180 = ''180''" "dec 181 = ''181''" by code_simp+
  have "\<exists>g'. read_router_tbl_config (Some (concat (map (row_line CHR '':'') [[180, 181], [181, 180]]))) ?g = Some (Inr g')
    \<and> router_table_num g' = int (length [[181 :: nat, 180]])
    \<and> (\<forall>k < length [[181 :: nat, 180]]. take (length ([[181 :: nat, 180]] ! k)) (router_table g' ! k) = map int ([[181, 180]] ! k)
          \<and> router_table_entry_num g' ! k = int (length ([[181 :: nat, 180]] ! k)))"
    by (rule router_conf_read_back [where C = 8]) (simp_all add: ROUTER_DELIM_def empty_conf_def row_line_def d)
  then show ?thesis by (auto simp: numeral_2_eq_2)
qed

end
