(* ===== verification/Threads.thy ===== *)
theory Threads
  imports RingQueue ReceiveStream Config
begin

text \<open>
  The threads of the receiving side (\<open>receive_msg_thread\<close> of \<open>src/receive.c\<close> without the delay
  measurement, \<open>decapsulate_thread\<close> of \<open>src/decapsulate.c\<close>) around the rings of received packets.
  One iteration of the receiving loop and one poll of a ring are the steps of an interleaving; the
  schedule says in which order the threads take them, what the network delivers (\<open>read_pcap\<close>) and
  what the clocks show.
\<close>

section \<open>State and steps\<close>

text \<open>A call that may fault (\<open>Inl\<close>) or wait for ever (\<open>None\<close>), followed by another.\<close>

fun and_then :: "'a outcome option \<Rightarrow> ('a \<Rightarrow> 'b outcome option) \<Rightarrow> 'b outcome option" where
  "and_then None f = None"
| "and_then (Some (Inl e)) f = Some (Inl e)"
| "and_then (Some (Inr x)) f = f x"

lemma and_then_Some: "and_then (Some r) (\<lambda>x. Some (f x)) = Some (bind_ok r f)"
  by (cases r) simp_all

text \<open>
  The local variables of \<open>decapsulate_thread\<close>: the loop variable of the round over the rings, the time
  of the last search for timeouts and the number of empty polls.
\<close>

record DECAP_THREAD =
  dt_ring :: int
  dt_pre_time :: u32
  dt_loop_count :: u8

text \<open>
  The rings, the counters \<open>rcv_pkt_num\<close>, the packets the receiving threads freed, the state of the
  reassembly, what was put on the rings to the encapsulation with the number of its queue,
  \<open>available_fpga_buff\<close>, and the variables of the threads.
\<close>

record RX_SYSTEM =
  sy_rings :: "MBUF RINGS"
  sy_rcv_pkt_num :: "u64 list list"
  sy_refused :: "MBUF list"
  sy_decap :: DECAP_STATE
  sy_tunnel :: "(nat \<times> MBUF) list"
  sy_fpga_buff :: u32
  sy_thread :: "u16 \<Rightarrow> DECAP_THREAD"

definition MAX_PKT_BURST :: u32 where "MAX_PKT_BURST = 1"

definition count_rcv_pkt :: "u64 list list \<Rightarrow> nat \<Rightarrow> nat \<Rightarrow> u64 list list outcome" where
  "count_rcv_pkt nums i j = bind_ok (load_at nums i) (\<lambda>row. bind_ok (count_one row j 1) (store_at nums i))"

text \<open>One iteration of \<open>receive_msg_thread\<close>; \<open>mbuf\<close> is what \<open>read_pcap\<close> returns.\<close>

definition receive_msg :: "u16 \<Rightarrow> MBUF option \<Rightarrow> RX_SYSTEM \<Rightarrow> RX_SYSTEM outcome option" where
  "receive_msg us_serial_number mbuf sy =
     (case mbuf of
        None \<Rightarrow> Some (Inr sy)
      | Some m \<Rightarrow>
          and_then (Some (load16 (mb_data m) 12)) (\<lambda>w. let m_cType = bswap16 w in
          if us_serial_number = 0 \<and> m_cType \<noteq> 0x9101
          then Some (Inr (sy\<lparr>sy_refused := sy_refused sy @ [m]\<rparr>))
          else
            let ring_id = us_serial_number in
            and_then (Some (count_rcv_pkt (sy_rcv_pkt_num sy) (unat us_serial_number) (unat ring_id))) (\<lambda>nums.
            and_then (enqueue_rcv_ring (Some m) us_serial_number (sy_rings sy)) (\<lambda>(ret, R).
              let sy1 = sy\<lparr>sy_rcv_pkt_num := nums, sy_rings := R\<rparr> in
              Some (Inr (if ret then sy1 else sy1\<lparr>sy_refused := sy_refused sy1 @ [m]\<rparr>))))))"

text \<open>
  One poll of the ring \<open>queue_id\<close>: at most \<open>MAX_PKT_BURST\<close> packets are taken and dispatched.
  \<open>dispatch\<close> is \<open>dispatch_decap_pkt\<close> in its environment.
\<close>

type_synonym dispatcher = "MBUF \<Rightarrow> nat \<Rightarrow> DECAP_STATE \<Rightarrow> (DECAP_STATE \<times> (nat \<times> MBUF) option \<times> u32 option) outcome"

definition dispatch_pkts :: "dispatcher \<Rightarrow> u16 \<Rightarrow> MBUF list \<Rightarrow> RX_SYSTEM \<Rightarrow> RX_SYSTEM outcome" where
  "dispatch_pkts dispatch queue_id pkts_burst sy =
     for_each pkts_burst (\<lambda>m sy. bind_ok (dispatch m (unat queue_id) (sy_decap sy)) (\<lambda>(s, t, avail).
       Inr (sy\<lparr>sy_decap := s,
               sy_tunnel := sy_tunnel sy @ (case t of None \<Rightarrow> [] | Some x \<Rightarrow> [x]),
               sy_fpga_buff := (case avail of None \<Rightarrow> sy_fpga_buff sy | Some b \<Rightarrow> b)\<rparr>))) sy"

definition poll_rcv_ring :: "dispatcher \<Rightarrow> u16 \<Rightarrow> RX_SYSTEM \<Rightarrow> (nat \<times> RX_SYSTEM) outcome option" where
  "poll_rcv_ring dispatch queue_id sy =
     and_then (dequeue_rcv_ring True MAX_PKT_BURST queue_id (sy_rings sy)) (\<lambda>(pkts_burst, R).
     Some (bind_ok (dispatch_pkts dispatch queue_id pkts_burst (sy\<lparr>sy_rings := R\<rparr>))
       (\<lambda>sy1. Inr (length pkts_burst, sy1))))"

definition set_thread :: "u16 \<Rightarrow> DECAP_THREAD \<Rightarrow> RX_SYSTEM \<Rightarrow> RX_SYSTEM" where
  "set_thread us_serial_number th sy = sy\<lparr>sy_thread := (sy_thread sy)(us_serial_number := th)\<rparr>"

text \<open>What is done at the end of a round: the search for timeouts, when the period is over.\<close>

definition check_timeout :: "APP_CONF \<Rightarrow> u16 \<Rightarrow> u32 \<Rightarrow> u64 \<Rightarrow> RX_SYSTEM \<Rightarrow> RX_SYSTEM outcome" where
  "check_timeout conf us_serial_number cur_time t_us sy =
     (let th = sy_thread sy us_serial_number;
          check_time = word_of_int (check_frag_timeout_period conf);
          diff_time = cur_time - dt_pre_time th
      in if check_time < diff_time
         then bind_ok (fragment_timeout t_us (sy_decap sy)) (\<lambda>s.
                Inr (set_thread us_serial_number (th\<lparr>dt_pre_time := cur_time, dt_ring := 0\<rparr>) (sy\<lparr>sy_decap := s\<rparr>)))
         else Inr (set_thread us_serial_number (th\<lparr>dt_ring := 0\<rparr>) sy))"

text \<open>
  One step of \<open>decapsulate_thread\<close>: the next poll of the round (of all rings with one thread, of its
  own ring with several), or what follows the last one.
\<close>

definition decap_step :: "dispatcher \<Rightarrow> APP_CONF \<Rightarrow> u16 \<Rightarrow> u32 \<Rightarrow> u64 \<Rightarrow> RX_SYSTEM \<Rightarrow> RX_SYSTEM outcome option" where
  "decap_step dispatch conf us_serial_number cur_time t_us sy =
     (let th = sy_thread sy us_serial_number; i = dt_ring th in
      if decap_thread_num conf = 1 \<and> i < rcv_ring_queue_num conf
      then and_then (poll_rcv_ring dispatch (word_of_int i) sy) (\<lambda>(nb_rx, sy1).
             let n = (if nb_rx \<noteq> 0 then 0 else if dt_loop_count th + 1 = 10 then 0 else dt_loop_count th + 1) in
             Some (Inr (set_thread us_serial_number (th\<lparr>dt_ring := i + 1, dt_loop_count := n\<rparr>) sy1)))
      else if 1 < decap_thread_num conf \<and> i = 0
      then and_then (poll_rcv_ring dispatch us_serial_number sy) (\<lambda>(nb_rx, sy1).
             Some (Inr (set_thread us_serial_number (th\<lparr>dt_ring := 1\<rparr>) sy1)))
      else Some (check_timeout conf us_serial_number cur_time t_us sy))"

datatype rx_event =
    Arrive u16 "MBUF option"
  | DecapStep u16 u32 u64

fun rx_event_step :: "dispatcher \<Rightarrow> APP_CONF \<Rightarrow> rx_event \<Rightarrow> RX_SYSTEM \<Rightarrow> RX_SYSTEM outcome option" where
  "rx_event_step dispatch conf (Arrive us_serial_number mbuf) sy = receive_msg us_serial_number mbuf sy"
| "rx_event_step dispatch conf (DecapStep us_serial_number cur_time t_us) sy =
     decap_step dispatch conf us_serial_number cur_time t_us sy"

primrec rx_run :: "dispatcher \<Rightarrow> APP_CONF \<Rightarrow> rx_event list \<Rightarrow> RX_SYSTEM \<Rightarrow> RX_SYSTEM outcome option" where
  "rx_run dispatch conf [] sy = Some (Inr sy)"
| "rx_run dispatch conf (e # es) sy = and_then (rx_event_step dispatch conf e sy) (rx_run dispatch conf es)"

lemma and_then_assoc: "and_then (and_then x f) g = and_then x (\<lambda>a. and_then (f a) g)"
  by (cases "(x, f)" rule: and_then.cases) simp_all

lemma rx_run_append: "rx_run d c (es @ fs) sy = and_then (rx_run d c es sy) (rx_run d c fs)"
proof (induction es arbitrary: sy)
  case (Cons e es)
  then have "rx_run d c (es @ fs) = (\<lambda>sy. and_then (rx_run d c es sy) (rx_run d c fs))" by blast
  then show ?case by (simp add: and_then_assoc)
qed simp

section \<open>The rings of different devices\<close>

text \<open>An operation on one ring of a side leaves the others alone.\<close>

lemma side_step_other:
  assumes "side_step j p s = Some (Inr (x, s'))" "unat j \<noteq> i" "side_abs k i s q"
  shows "side_abs k i s' q"
  using assms
  by (cases p) (auto simp: enqueue_side_def dequeue_side_def pointed_ring_def count_one_def load_at_def store_at_def
      side_abs_def Let_def elim!: bind_okE split: if_split_asm option.split_asm sum.split_asm)

text \<open>The rings of received packets, seen as queues; \<open>qs i\<close> is what waits on ring \<open>i\<close>.\<close>

definition rcv_queues :: "nat \<Rightarrow> nat \<Rightarrow> RX_SYSTEM \<Rightarrow> (nat \<Rightarrow> MBUF list) \<Rightarrow> bool" where
  "rcv_queues k n sy qs \<longleftrightarrow> (\<forall>i < n. \<exists>q. side_abs k i (rcv_ring (sy_rings sy)) q \<and> qs_items q = qs i)"

lemma rcv_queues_fields [simp]:
  "rcv_queues k n (sy\<lparr>sy_rcv_pkt_num := a\<rparr>) qs = rcv_queues k n sy qs"
  "rcv_queues k n (sy\<lparr>sy_refused := b\<rparr>) qs = rcv_queues k n sy qs"
  "rcv_queues k n (sy\<lparr>sy_decap := d\<rparr>) qs = rcv_queues k n sy qs"
  "rcv_queues k n (sy\<lparr>sy_tunnel := t\<rparr>) qs = rcv_queues k n sy qs"
  "rcv_queues k n (sy\<lparr>sy_fpga_buff := f\<rparr>) qs = rcv_queues k n sy qs"
  "rcv_queues k n (set_thread us th sy) qs = rcv_queues k n sy qs"
  by (simp_all add: rcv_queues_def set_thread_def)

lemma rcv_queues_step:
  assumes "rcv_queues k n sy qs" "side_step j p (rcv_ring (sy_rings sy)) = Some (Inr (x, s'))" "side_abs k (unat j) s' q"
  shows "rcv_queues k n (sy\<lparr>sy_rings := (sy_rings sy)\<lparr>rcv_ring := s'\<rparr>\<rparr>) (qs(unat j := qs_items q))"
  unfolding rcv_queues_def
proof (intro allI impI)
  fix i assume i: "i < n"
  obtain q0 where q0: "side_abs k i (rcv_ring (sy_rings sy)) q0" "qs_items q0 = qs i"
    using assms(1) i by (auto simp: rcv_queues_def)
  have "unat j \<noteq> i \<Longrightarrow> side_abs k i s' q0" using side_step_other [OF assms(2) _ q0(1)] by simp
  then show "\<exists>q'. side_abs k i (rcv_ring (sy_rings (sy\<lparr>sy_rings := (sy_rings sy)\<lparr>rcv_ring := s'\<rparr>\<rparr>))) q'
      \<and> qs_items q' = (qs(unat j := qs_items q)) i"
    using assms(3) q0(2) by (cases "unat j = i") auto
qed

lemma enqueue_rcv_queue:
  assumes "rcv_queues k n sy qs" "unat j < n"
  shows "\<exists>R. enqueue_rcv_ring (Some m) j (sy_rings sy) = Some (Inr (length (qs (unat j)) < 2 ^ k - 1, R))
    \<and> rcv_queues k n (sy\<lparr>sy_rings := R\<rparr>)
        (if length (qs (unat j)) < 2 ^ k - 1 then qs(unat j := qs (unat j) @ [m]) else qs)"
proof -
  obtain q where q: "side_abs k (unat j) (rcv_ring (sy_rings sy)) q" "qs_items q = qs (unat j)"
    using assms by (auto simp: rcv_queues_def)
  obtain s' where s': "side_step j (Put m) (rcv_ring (sy_rings sy)) = Some (Inr (fst (queue_step (2 ^ k - 1) (Put m) q), s'))"
    "side_abs k (unat j) s' (snd (queue_step (2 ^ k - 1) (Put m) q))"
    using side_step_queue [OF q(1)] by blast
  have e: "enqueue_side (Some m) j (rcv_ring (sy_rings sy)) = Some (Inr (length (qs (unat j)) < 2 ^ k - 1, s'))"
    using s'(1) q(2) by (auto elim!: bind_okE split: if_split_asm)
  have "qs_items (snd (queue_step (2 ^ k - 1) (Put m) q))
      = (if length (qs (unat j)) < 2 ^ k - 1 then qs (unat j) @ [m] else qs (unat j))"
    using q(2) by simp
  then show ?thesis
    using rcv_queues_step [OF assms(1) s'] e by (auto simp: enqueue_rcv_ring_def on_side_def split: if_splits)
qed

lemma dequeue_rcv_queue:
  assumes "rcv_queues k n sy qs" "unat j < n"
  shows "\<exists>R. dequeue_rcv_ring True MAX_PKT_BURST j (sy_rings sy) = Some (Inr (take 1 (qs (unat j)), R))
    \<and> rcv_queues k n (sy\<lparr>sy_rings := R\<rparr>) (qs(unat j := drop 1 (qs (unat j))))"
proof -
  obtain q where q: "side_abs k (unat j) (rcv_ring (sy_rings sy)) q" "qs_items q = qs (unat j)"
    using assms by (auto simp: rcv_queues_def)
  obtain s' where s': "side_step j (Get 1) (rcv_ring (sy_rings sy)) = Some (Inr (fst (queue_step (2 ^ k - 1) (Get 1) q), s'))"
    "side_abs k (unat j) s' (snd (queue_step (2 ^ k - 1) (Get 1) q))"
    using side_step_queue [OF q(1)] by blast
  have e: "dequeue_side True MAX_PKT_BURST j (rcv_ring (sy_rings sy)) = Some (Inr (take 1 (qs (unat j)), s'))"
    using s'(1) q(2) by (auto simp: MAX_PKT_BURST_def elim!: bind_okE)
  have "qs_items (snd (queue_step (2 ^ k - 1) (Get 1) q)) = drop 1 (qs (unat j))" using q(2) by simp
  then show ?thesis using rcv_queues_step [OF assms(1) s'] e by (simp add: dequeue_rcv_ring_def on_side_def)
qed

section \<open>Well-formed systems\<close>

text \<open>
  The rings of the \<open>n\<close> devices in use exist and are queues of capacity \<open>2 ^ k - 1\<close>, the counters have
  their places, and the round of every thread is at a ring.
\<close>

definition rx_table_ok :: "RX_SYSTEM \<Rightarrow> bool" where
  "rx_table_ok sy \<longleftrightarrow> length (sy_rcv_pkt_num sy) = MAX_DEVICE_NUM
     \<and> (\<forall>row \<in> set (sy_rcv_pkt_num sy). length row = MAX_DEVICE_NUM)"

definition rx_wf :: "nat \<Rightarrow> nat \<Rightarrow> RX_SYSTEM \<Rightarrow> bool" where
  "rx_wf k n sy \<longleftrightarrow> n \<le> MAX_DEVICE_NUM \<and> (\<exists>qs. rcv_queues k n sy qs) \<and> rx_table_ok sy
     \<and> (\<forall>t. 0 \<le> dt_ring (sy_thread sy t))"

lemma count_rcv_pkt_ok:
  assumes "rx_table_ok sy" "i < MAX_DEVICE_NUM" "j < MAX_DEVICE_NUM"
  shows "\<exists>nums. count_rcv_pkt (sy_rcv_pkt_num sy) i j = Inr nums \<and> rx_table_ok (sy\<lparr>sy_rcv_pkt_num := nums\<rparr>)"
proof -
  have "sy_rcv_pkt_num sy ! i \<in> set (sy_rcv_pkt_num sy)" using assms(1,2) by (simp add: rx_table_ok_def)
  then have "length (sy_rcv_pkt_num sy ! i) = MAX_DEVICE_NUM" using assms(1) by (simp add: rx_table_ok_def)
  then show ?thesis
    using assms by (auto simp: count_rcv_pkt_def count_one_def rx_table_ok_def load_at_def store_at_def
        dest!: subsetD [OF set_update_subset_insert])
qed

lemma rx_table_ok_fields [simp]:
  "rx_table_ok (sy\<lparr>sy_rings := a\<rparr>) = rx_table_ok sy" "rx_table_ok (sy\<lparr>sy_refused := b\<rparr>) = rx_table_ok sy"
  "rx_table_ok (sy\<lparr>sy_decap := d\<rparr>) = rx_table_ok sy" "rx_table_ok (sy\<lparr>sy_tunnel := t\<rparr>) = rx_table_ok sy"
  "rx_table_ok (sy\<lparr>sy_fpga_buff := f\<rparr>) = rx_table_ok sy" "rx_table_ok (set_thread us th sy) = rx_table_ok sy"
  by (simp_all add: rx_table_ok_def set_thread_def)

lemma rx_wf_fields [simp]:
  "rx_wf k n (sy\<lparr>sy_refused := b\<rparr>) = rx_wf k n sy" "rx_wf k n (sy\<lparr>sy_decap := d\<rparr>) = rx_wf k n sy"
  "rx_wf k n (sy\<lparr>sy_tunnel := t\<rparr>) = rx_wf k n sy" "rx_wf k n (sy\<lparr>sy_fpga_buff := f\<rparr>) = rx_wf k n sy"
  by (simp_all add: rx_wf_def)

lemma rx_wf_set_thread: "rx_wf k n sy \<Longrightarrow> 0 \<le> dt_ring th \<Longrightarrow> rx_wf k n (set_thread us th sy)"
  by (simp add: rx_wf_def) (simp add: set_thread_def)

lemma receive_msg_wf:
  assumes "rx_wf k n sy" "unat j < n"
  shows "\<exists>r. receive_msg j mbuf sy = Some r \<and> (\<forall>sy'. r = Inr sy' \<longrightarrow> rx_wf k n sy')"
proof (cases mbuf)
  case (Some m)
  have n: "n \<le> MAX_DEVICE_NUM" "rx_table_ok sy" using assms(1) by (simp_all add: rx_wf_def)
  obtain nums where c: "count_rcv_pkt (sy_rcv_pkt_num sy) (unat j) (unat j) = Inr nums" "rx_table_ok (sy\<lparr>sy_rcv_pkt_num := nums\<rparr>)"
    using count_rcv_pkt_ok [OF n(2), of "unat j" "unat j"] assms(2) n(1) by auto
  obtain qs where "rcv_queues k n sy qs" using assms(1) by (auto simp: rx_wf_def)
  from enqueue_rcv_queue [OF this assms(2), of m] obtain b R where
    e: "enqueue_rcv_ring (Some m) j (sy_rings sy) = Some (Inr (b, R))" "\<exists>qs. rcv_queues k n (sy\<lparr>sy_rings := R\<rparr>) qs"
    by blast
  then obtain qs' where "rcv_queues k n (sy\<lparr>sy_rings := R\<rparr>) qs'" by blast
  then have "rcv_queues k n (sy\<lparr>sy_rcv_pkt_num := nums, sy_rings := R\<rparr>) qs'" by (simp add: rcv_queues_def)
  then have "rx_wf k n (sy\<lparr>sy_rcv_pkt_num := nums, sy_rings := R\<rparr>)"
    using assms(1) c(2) by (auto simp: rx_wf_def)
  then show ?thesis
    using Some assms(1) c(1) e(1) by (cases "load16 (mb_data m) 12") (auto simp: receive_msg_def Let_def)
qed (simp add: receive_msg_def assms)

lemma dispatch_pkts_keeps:
  "dispatch_pkts d j ms sy = Inr sy' \<Longrightarrow> sy_rings sy' = sy_rings sy \<and> sy_rcv_pkt_num sy' = sy_rcv_pkt_num sy
     \<and> sy_refused sy' = sy_refused sy \<and> sy_thread sy' = sy_thread sy"
proof (induction ms arbitrary: sy)
  case (Cons m ms)
  then show ?case by (fastforce simp: dispatch_pkts_def elim!: bind_okE)
qed (simp add: dispatch_pkts_def)

lemma poll_rcv_ring_wf:
  assumes "rx_wf k n sy" "unat j < n"
  shows "\<exists>r. poll_rcv_ring d j sy = Some r \<and> (\<forall>c sy'. r = Inr (c, sy') \<longrightarrow> rx_wf k n sy' \<and> sy_thread sy' = sy_thread sy)"
proof -
  obtain qs where "rcv_queues k n sy qs" using assms(1) by (auto simp: rx_wf_def)
  from dequeue_rcv_queue [OF this assms(2)] obtain ms R where
    e: "dequeue_rcv_ring True MAX_PKT_BURST j (sy_rings sy) = Some (Inr (ms, R))" "\<exists>qs. rcv_queues k n (sy\<lparr>sy_rings := R\<rparr>) qs"
    by blast
  have w: "rx_wf k n (sy\<lparr>sy_rings := R\<rparr>)" using assms(1) e(2) by (simp add: rx_wf_def)
  have "rx_wf k n sy'" if "dispatch_pkts d j ms (sy\<lparr>sy_rings := R\<rparr>) = Inr sy'" for sy'
    using dispatch_pkts_keeps [OF that] w by (simp add: rx_wf_def rcv_queues_def rx_table_ok_def)
  then show ?thesis using e(1) dispatch_pkts_keeps by (fastforce simp: poll_rcv_ring_def elim!: bind_okE)
qed

lemma check_timeout_wf:
  "rx_wf k n sy \<Longrightarrow> check_timeout conf us t u sy = Inr sy' \<Longrightarrow> rx_wf k n sy'"
  by (auto simp: check_timeout_def Let_def intro!: rx_wf_set_thread elim!: bind_okE split: if_split_asm)

lemma decap_step_wf:
  assumes "rx_wf k n sy" "unat j < n" "rcv_ring_queue_num conf = int n"
  shows "\<exists>r. decap_step d conf j t u sy = Some r \<and> (\<forall>sy'. r = Inr sy' \<longrightarrow> rx_wf k n sy')"
proof -
  let ?i = "dt_ring (sy_thread sy j)"
  have n: "n \<le> 8" "0 \<le> ?i" using assms(1) by (simp_all add: rx_wf_def MAX_DEVICE_NUM_def)
  have step: "\<exists>r. and_then (poll_rcv_ring d i sy) (\<lambda>(c, sy1). Some (Inr (set_thread j (f c) sy1))) = Some r
      \<and> (\<forall>sy'. r = Inr sy' \<longrightarrow> rx_wf k n sy')" if i: "unat i < n" and f: "\<And>c. 0 \<le> dt_ring (f c)" for i f
  proof -
    obtain r where r: "poll_rcv_ring d i sy = Some r" "\<forall>c sy'. r = Inr (c, sy') \<longrightarrow> rx_wf k n sy'"
      using poll_rcv_ring_wf [OF assms(1) i] by blast
    then show ?thesis by (cases r) (auto simp: f intro!: rx_wf_set_thread)
  qed
  have "unat (word_of_int ?i :: u16) = nat ?i" if "?i < int n"
    using that n unat_of_nat_lt [of "nat ?i", where 'a = 16] by simp
  then have "?i < int n \<Longrightarrow> unat (word_of_int ?i :: u16) < n" using n by simp
  then show ?thesis
    using step [of "word_of_int ?i"] step [of j] assms n check_timeout_wf [OF assms(1)]
    unfolding decap_step_def Let_def by (auto split: if_splits)
qed

fun event_device_ok :: "nat \<Rightarrow> rx_event \<Rightarrow> bool" where
  "event_device_ok n (Arrive j mbuf) = (unat j < n)"
| "event_device_ok n (DecapStep j t u) = (unat j < n)"

lemma rx_event_step_wf:
  assumes "rx_wf k n sy" "event_device_ok n e" "rcv_ring_queue_num conf = int n"
  shows "\<exists>r. rx_event_step d conf e sy = Some r \<and> (\<forall>sy'. r = Inr sy' \<longrightarrow> rx_wf k n sy')"
  using receive_msg_wf decap_step_wf assms by (cases e) auto

section \<open>What the threads have done so far\<close>

text \<open>The packets that arrive for the ring \<open>i\<close> in a schedule.\<close>

fun arriving :: "nat \<Rightarrow> rx_event \<Rightarrow> MBUF list" where
  "arriving i (Arrive j (Some m)) = (if unat j = i then [m] else [])"
| "arriving i e = []"

definition arrivals :: "nat \<Rightarrow> rx_event list \<Rightarrow> MBUF list" where
  "arrivals i es = concat (map (arriving i) es)"

lemma arrivals_simps [simp]: "arrivals i [] = []" "arrivals i (e # es) = arriving i e @ arrivals i es"
  "arrivals i (es @ fs) = arrivals i es @ arrivals i fs"
  by (simp_all add: arrivals_def)

text \<open>
  The traffic considered: BBFRAMEs from device 0, whose packets are a stream, and ARP or IPv4 packets
  from the others, which are put on the ring of their device without the Ethernet header.
\<close>

definition tunnel_out :: "MBUF \<Rightarrow> MBUF" where
  "tunnel_out m = (rte_pktmbuf_adj m ETHER_HDR_SIZE)\<lparr>mb_protocol_type :=
     (case load16 (mb_data m) 12 of Inl e \<Rightarrow> 0 | Inr w \<Rightarrow> ucast (bswap16 w))\<rparr>"

definition tunnel_pkt :: "MBUF \<Rightarrow> bool" where
  "tunnel_pkt m \<longleftrightarrow> (\<exists>w. load16 (mb_data m) 12 = Inr w \<and> bswap16 w \<in> {PROTOCOL_ARP, PROTOCOL_IPV4})"

text \<open>The reassembly after the first \<open>j\<close> frames \<open>frames\<close>, which carry the packets \<open>pss\<close>.\<close>

definition frames_done :: "(nat \<Rightarrow> RX_ENV) \<Rightarrow> (nat \<Rightarrow> GSE_VARIABLE_HEADER_VALUE) \<Rightarrow> u8 list \<Rightarrow> rx_pkt list list \<Rightarrow> MBUF list
    \<Rightarrow> DECAP_STATE \<Rightarrow> nat \<Rightarrow> DECAP_STATE \<Rightarrow> bool" where
  "frames_done env junk mac pss frames s0 j s \<longleftrightarrow> (\<exists>w bs. rx_steps None (concat (take j pss)) = Some w
     \<and> link_inv env junk mac 0 w s \<and> ds_encap_ring s = ds_encap_ring s0 @ bs
     \<and> map pdu_of bs = delivered (concat (take j pss))
     \<and> map mb_data (ds_freed s) = map mb_data (ds_freed s0) @ map mb_data (take j frames))"

lemma frames_done_dispatch:
  assumes d: "frames_done env junk mac pss frames s0 j s" and c: "list_all2 bb_carries pss frames" "j < length frames"
    and st: "rx_steps None (concat pss) = Some w'"
  shows "\<exists>s'. dispatch_decap_pkt env junk index0 mac pdu_packs fp (frames ! j) 0 s = Inr (s', None, None)
    \<and> frames_done env junk mac pss frames s0 (Suc j) s'"
proof -
  obtain w bs where s: "rx_steps None (concat (take j pss)) = Some w" "link_inv env junk mac 0 w s"
    "ds_encap_ring s = ds_encap_ring s0 @ bs" "map pdu_of bs = delivered (concat (take j pss))"
    "map mb_data (ds_freed s) = map mb_data (ds_freed s0) @ map mb_data (take j frames)"
    using d by (auto simp: frames_done_def)
  have l: "length pss = length frames" "j < length pss" using c list_all2_lengthD by force+
  then have tk: "take (Suc j) pss = take j pss @ [pss ! j]" "take (Suc j) frames = take j frames @ [frames ! j]"
    using c(2) by (simp_all add: take_Suc_conv_app_nth)
  have "concat pss = concat (take (Suc j) pss) @ concat (drop (Suc j) pss)"
    using concat_append [of "take (Suc j) pss" "drop (Suc j) pss"] by simp
  then obtain w1 where w1: "rx_steps None (concat (take (Suc j) pss)) = Some w1"
    using st by (auto simp: rx_steps_append split: option.splits)
  then have sj: "rx_steps w (pss ! j) = Some w1" using s(1) by (simp add: tk(1) rx_steps_append)
  obtain fs post where f: "bb_frame fs (map rx_packet (pss ! j)) post (mb_data (frames ! j))" "pss ! j \<noteq> []"
    using list_all2_nthD [OF c(1) l(2)] by (auto simp: bb_carries_def)
  have e: "\<And>pos. rx_ready (env pos)" "\<And>pos. length (v_label (junk pos)) = 6" "length mac = 6"
    and r: "rx_inv 0 w s" "length (pm_mac_address (ds_previous_mac s)) = 6"
    using s(2) by (simp_all add: link_inv_def rx_env_ok_def)
  obtain s' bs' m' where s': "dispatch_decap_pkt env junk index0 mac pdu_packs fp (frames ! j) 0 s = Inr (s', None, None)"
    "rx_inv 0 w1 s'" "length (pm_mac_address (ds_previous_mac s')) = 6"
    "ds_encap_ring s' = ds_encap_ring s @ bs'" "map pdu_of bs' = delivered (pss ! j)"
    "ds_freed s' = ds_freed s @ [m']" "mb_data m' = mb_data (frames ! j)"
    using dispatch_stream [where env = env and junk = junk and ?index0.0 = index0 and pdu_packs = pdu_packs and fp = fp,
        OF f sj r e] by blast
  have "frames_done env junk mac pss frames s0 (Suc j) s'"
    unfolding frames_done_def using s w1 s'(2-7) tk
    by (intro exI [of _ w1] exI [of _ "bs @ bs'"]) (simp add: link_inv_def)
  then show ?thesis using s'(1) by blast
qed

lemma dispatch_tunnel:
  assumes "tunnel_pkt m" "rx_ring_ok (env 0)"
  shows "dispatch_decap_pkt env junk index0 mac pdu_packs fp m i s = Inr (s, Some (i, tunnel_out m), None)"
proof -
  obtain w where w: "load16 (mb_data m) 12 = Inr w" "bswap16 w = PROTOCOL_ARP \<or> bswap16 w = PROTOCOL_IPV4"
    using assms(1) by (auto simp: tunnel_pkt_def)
  have ne: "PROTOCOL_ARP \<noteq> 0x9101" "PROTOCOL_IPV4 \<noteq> 0x9101" by (simp_all add: PROTOCOL_ARP_def PROTOCOL_IPV4_def)
  have "process_frame_header m fp = Inr (0, fp\<lparr>fp_pack_type := RTN_TUNNEL_PDU\<rparr>, Some (tunnel_out m), None, None)"
    unfolding process_frame_header_def Let_def w(1) bind_ok.simps using w(2) ne
    by (auto simp: tunnel_out_def w(1) PROTOCOL_ARP_def PROTOCOL_IPV4_def)
  then show ?thesis using assms(2)
    by (simp add: dispatch_decap_pkt_def free_pdu_def RTN_TUNNEL_PDU_def MULTI_FWD_PDU_PACK_def MULTI_RTN_PDU_PACK_def
        ISL_PACK_def ENUM_FWD_Tx_FWD_Data_def ENUM_FWD_Rx_FWD_Data_def)
qed

lemma bb_carries_type: "bb_carries ps m \<Longrightarrow> load16 (mb_data m) 12 = Inr (bswap16 0x9101)"
  unfolding bb_carries_def bb_frame_def by (auto simp: header_size_defs intro!: load16_in)

definition of_queue :: "nat \<Rightarrow> (nat \<times> MBUF) list \<Rightarrow> MBUF list" where
  "of_queue i ts = map snd (filter (\<lambda>x. fst x = i) ts)"

lemma of_queue_simps [simp]: "of_queue i [] = []" "of_queue i (x # ts) = (if fst x = i then [snd x] else []) @ of_queue i ts"
  "of_queue i (ts @ us) = of_queue i ts @ of_queue i us"
  by (simp_all add: of_queue_def)

text \<open>
  \<open>F i\<close> is all that will have arrived for ring \<open>i\<close>, of which \<open>a i\<close> packets have arrived and \<open>c i\<close> have
  been dispatched.
\<close>

definition rx_traffic :: "nat \<Rightarrow> nat \<Rightarrow> rx_pkt list list \<Rightarrow> (nat \<Rightarrow> MBUF list) \<Rightarrow> bool" where
  "rx_traffic k n pss F \<longleftrightarrow> list_all2 bb_carries pss (F 0) \<and> rx_steps None (concat pss) \<noteq> None
     \<and> (\<forall>i. 0 < i \<and> i < n \<longrightarrow> list_all tunnel_pkt (F i)) \<and> (\<forall>i < n. length (F i) < 2 ^ k)"

definition rx_progress :: "nat \<Rightarrow> nat \<Rightarrow> (nat \<Rightarrow> RX_ENV) \<Rightarrow> (nat \<Rightarrow> GSE_VARIABLE_HEADER_VALUE) \<Rightarrow> u8 list \<Rightarrow> rx_pkt list list
    \<Rightarrow> (nat \<Rightarrow> MBUF list) \<Rightarrow> RX_SYSTEM \<Rightarrow> (nat \<Rightarrow> nat) \<Rightarrow> (nat \<Rightarrow> nat) \<Rightarrow> RX_SYSTEM \<Rightarrow> bool" where
  "rx_progress k n env junk mac pss F sy0 a c sy \<longleftrightarrow> n \<le> MAX_DEVICE_NUM
     \<and> rcv_queues k n sy (\<lambda>i. drop (c i) (take (a i) (F i))) \<and> (\<forall>i < n. c i \<le> a i \<and> a i \<le> length (F i))
     \<and> rx_table_ok sy \<and> sy_refused sy = sy_refused sy0
     \<and> dt_pre_time (sy_thread sy 0) = dt_pre_time (sy_thread sy0 0)
     \<and> 0 \<le> dt_ring (sy_thread sy 0) \<and> dt_ring (sy_thread sy 0) \<le> int n
     \<and> frames_done env junk mac pss (F 0) (sy_decap sy0) (c 0) (sy_decap sy)
     \<and> (\<forall>i. 0 < i \<and> i < n \<longrightarrow>
          of_queue i (sy_tunnel sy) = of_queue i (sy_tunnel sy0) @ map tunnel_out (take (c i) (F i)))"

lemma traffic_type:
  assumes "rx_traffic k n pss F" "i < n" "j < length (F i)"
  shows "\<exists>w. load16 (mb_data (F i ! j)) 12 = Inr w \<and> (i = 0 \<longrightarrow> bswap16 w = 0x9101)"
proof (cases "i = 0")
  case True
  then have c: "list_all2 bb_carries pss (F 0)" "j < length (F 0)" using assms by (simp_all add: rx_traffic_def)
  then have "bb_carries (pss ! j) (F 0 ! j)" using list_all2_nthD2 by blast
  from bb_carries_type [OF this] show ?thesis using True by simp
next
  case False
  then have "tunnel_pkt (F i ! j)" using assms by (simp add: rx_traffic_def list_all_length)
  then show ?thesis using False by (auto simp: tunnel_pkt_def)
qed

lemma receive_progress:
  assumes P: "rx_progress k n env junk mac pss F sy0 a c sy" and t: "rx_traffic k n pss F"
    and j: "unat j < n" "a (unat j) < length (F (unat j))"
  shows "\<exists>sy'. receive_msg j (Some (F (unat j) ! a (unat j))) sy = Some (Inr sy')
    \<and> rx_progress k n env junk mac pss F sy0 (a(unat j := Suc (a (unat j)))) c sy'
    \<and> sy_thread sy' = sy_thread sy"
proof -
  let ?i = "unat j" and ?m = "F (unat j) ! a (unat j)"
  let ?qs = "\<lambda>i. drop (c i) (take (a i) (F i))" and ?a = "a(unat j := Suc (a (unat j)))"
  have n: "n \<le> MAX_DEVICE_NUM" "rx_table_ok sy" "rcv_queues k n sy ?qs" "c ?i \<le> a ?i"
    using P j by (simp_all add: rx_progress_def)
  obtain nums where u: "count_rcv_pkt (sy_rcv_pkt_num sy) ?i ?i = Inr nums" "rx_table_ok (sy\<lparr>sy_rcv_pkt_num := nums\<rparr>)"
    using count_rcv_pkt_ok [OF n(2), of ?i ?i] j n(1) by auto
  have l: "length (?qs ?i) < 2 ^ k - 1" using t j n(4) by (fastforce simp: rx_traffic_def)
  obtain R where R: "enqueue_rcv_ring (Some ?m) j (sy_rings sy) = Some (Inr (True, R))"
    "rcv_queues k n (sy\<lparr>sy_rings := R\<rparr>) (?qs(?i := ?qs ?i @ [?m]))"
    using enqueue_rcv_queue [OF n(3) j(1), of ?m] l by auto
  have q: "?qs(?i := ?qs ?i @ [?m]) = (\<lambda>i. drop (c i) (take (?a i) (F i)))"
    using j n(4) by (auto simp: fun_eq_iff take_Suc_conv_app_nth)
  from traffic_type [OF t j] obtain w where w: "load16 (mb_data ?m) 12 = Inr w" "?i = 0 \<longrightarrow> bswap16 w = 0x9101"
    by (elim exE conjE)
  have r: "receive_msg j (Some ?m) sy = Some (Inr (sy\<lparr>sy_rcv_pkt_num := nums, sy_rings := R\<rparr>))"
  proof -
    have "\<not> (j = 0 \<and> bswap16 w \<noteq> 0x9101)" using w(2) by (auto simp: unat_eq_0)
    note d = if_not_P [OF this]
    show ?thesis using u(1) R(1) unfolding receive_msg_def Let_def option.case w(1) and_then.simps d by simp
  qed
  have "rcv_queues k n (sy\<lparr>sy_rcv_pkt_num := nums, sy_rings := R\<rparr>) (\<lambda>i. drop (c i) (take (?a i) (F i)))"
    using R(2) unfolding q by (simp add: rcv_queues_def)
  moreover have "\<forall>i < n. c i \<le> ?a i \<and> ?a i \<le> length (F i)" using P j by (auto simp: rx_progress_def)
  ultimately have "rx_progress k n env junk mac pss F sy0 ?a c (sy\<lparr>sy_rcv_pkt_num := nums, sy_rings := R\<rparr>)"
    using P u(2) unfolding rx_progress_def by simp
  then show ?thesis using r by simp
qed

lemma poll_progress:
  assumes P: "rx_progress k n env junk mac pss F sy0 a c sy" and t: "rx_traffic k n pss F" and j: "unat j < n"
  shows "\<exists>m sy'. poll_rcv_ring (dispatch_decap_pkt env junk index0 mac pdu_packs fp) j sy = Some (Inr (m, sy'))
    \<and> rx_progress k n env junk mac pss F sy0 a (if c (unat j) < a (unat j) then c(unat j := Suc (c (unat j))) else c) sy'
    \<and> sy_thread sy' = sy_thread sy"
proof -
  let ?i = "unat j" let ?m = "F ?i ! c ?i"
  let ?qs = "\<lambda>i. drop (c i) (take (a i) (F i))" and ?c = "c(unat j := Suc (c (unat j)))"
  have n: "rcv_queues k n sy ?qs" "c ?i \<le> a ?i" "a ?i \<le> length (F ?i)"
    and fd: "frames_done env junk mac pss (F 0) (sy_decap sy0) (c 0) (sy_decap sy)"
    using P j by (simp_all add: rx_progress_def)
  obtain R where R: "dequeue_rcv_ring True MAX_PKT_BURST j (sy_rings sy) = Some (Inr (take 1 (?qs ?i), R))"
    "rcv_queues k n (sy\<lparr>sy_rings := R\<rparr>) (?qs(?i := drop 1 (?qs ?i)))"
    using dequeue_rcv_queue [OF n(1) j] by blast
  show ?thesis
  proof (cases "c ?i < a ?i")
    case False
    then have e: "?qs ?i = []" by simp
    have "?qs(?i := drop 1 (?qs ?i)) = ?qs" using False by (auto simp: fun_eq_iff)
    then show ?thesis
      using R False P e by (simp add: poll_rcv_ring_def dispatch_pkts_def) (simp add: rx_progress_def)
  next
    case True
    then have h: "take 1 (?qs ?i) = [?m]" using n(3) by (simp add: take_Suc_conv_app_nth hd_drop_conv_nth take_Suc)
    have q: "?qs(?i := drop 1 (?qs ?i)) = (\<lambda>i. drop (?c i) (take (a i) (F i)))" by (auto simp: fun_eq_iff)
    have tk: "take (Suc (c ?i)) (F ?i) = take (c ?i) (F ?i) @ [?m]" using True n(3) by (simp add: take_Suc_conv_app_nth)
    show ?thesis
    proof (cases "?i = 0")
      case zero: True
      obtain w' where "list_all2 bb_carries pss (F 0)" "rx_steps None (concat pss) = Some w'"
        using t by (auto simp: rx_traffic_def)
      from frames_done_dispatch [where ?index0.0 = index0 and pdu_packs = pdu_packs and fp = fp, OF fd this(1) _ this(2)]
      obtain s' where s': "dispatch_decap_pkt env junk index0 mac pdu_packs fp ?m 0 (sy_decap sy) = Inr (s', None, None)"
        "frames_done env junk mac pss (F 0) (sy_decap sy0) (Suc (c 0)) s'"
        using True n(3) zero by auto
      let ?sy = "sy\<lparr>sy_rings := R, sy_decap := s'\<rparr>"
      have "rcv_queues k n ?sy (\<lambda>i. drop (?c i) (take (a i) (F i)))" using R(2) unfolding q by (simp add: rcv_queues_def)
      moreover have "\<forall>i < n. ?c i \<le> a i \<and> a i \<le> length (F i)" using P True by (auto simp: rx_progress_def)
      ultimately have "rx_progress k n env junk mac pss F sy0 a ?c ?sy"
        using P s'(2) zero unfolding rx_progress_def by simp
      then show ?thesis
        using R(1) s'(1) zero True unfolding h by (simp add: poll_rcv_ring_def dispatch_pkts_def)
    next
      case False
      have r: "rx_ring_ok (env 0)"
        using fd by (auto simp: frames_done_def link_inv_def rx_env_ok_def rx_ready_def)
      have "tunnel_pkt ?m" using t False j True n(3) by (simp add: rx_traffic_def list_all_length)
      note d = dispatch_tunnel [where env = env, OF this r]
      let ?sy = "sy\<lparr>sy_rings := R, sy_tunnel := sy_tunnel sy @ [(?i, tunnel_out ?m)]\<rparr>"
      have "rcv_queues k n ?sy (\<lambda>i. drop (?c i) (take (a i) (F i)))" using R(2) unfolding q by (simp add: rcv_queues_def)
      moreover have "of_queue i (sy_tunnel ?sy) = of_queue i (sy_tunnel sy0) @ map tunnel_out (take (?c i) (F i))"
        if "0 < i" "i < n" for i
        using P that tk by (cases "i = ?i") (simp_all add: rx_progress_def)
      moreover have "\<forall>i < n. ?c i \<le> a i \<and> a i \<le> length (F i)" using P True by (auto simp: rx_progress_def)
      ultimately have "rx_progress k n env junk mac pss F sy0 a ?c ?sy"
        using P False unfolding rx_progress_def by simp
      then show ?thesis
        using R(1) d True unfolding h by (simp add: poll_rcv_ring_def dispatch_pkts_def)
    qed
  qed
qed

section \<open>The single decapsulating thread\<close>

text \<open>The schedules considered: thread 0 decapsulates, and its period of timeouts does not end.\<close>

fun schedule_ok :: "nat \<Rightarrow> APP_CONF \<Rightarrow> u32 \<Rightarrow> rx_event \<Rightarrow> bool" where
  "schedule_ok n conf pre (Arrive j mbuf) = (unat j < n)"
| "schedule_ok n conf pre (DecapStep j t u) = (j = 0 \<and> t - pre \<le> word_of_int (check_frag_timeout_period conf))"

definition single_conf :: "nat \<Rightarrow> APP_CONF \<Rightarrow> bool" where
  "single_conf n conf \<longleftrightarrow> decap_thread_num conf = 1 \<and> rcv_ring_queue_num conf = int n"

lemma rx_progress_set_thread:
  "rx_progress k n env junk mac pss F sy0 a c sy \<Longrightarrow> dt_pre_time th = dt_pre_time (sy_thread sy0 0) \<Longrightarrow>
   0 \<le> dt_ring th \<Longrightarrow> dt_ring th \<le> int n \<Longrightarrow> rx_progress k n env junk mac pss F sy0 a c (set_thread 0 th sy)"
  unfolding rx_progress_def by simp (simp add: set_thread_def)

lemma decap_progress:
  assumes P: "rx_progress k n env junk mac pss F sy0 a c sy" and t: "rx_traffic k n pss F"
    and conf: "single_conf n conf" and ok: "schedule_ok n conf (dt_pre_time (sy_thread sy0 0)) (DecapStep 0 t' u)"
  defines "r \<equiv> nat (dt_ring (sy_thread sy 0))"
  shows "\<exists>sy'. decap_step (dispatch_decap_pkt env junk index0 mac pdu_packs fp) conf 0 t' u sy = Some (Inr sy')
    \<and> rx_progress k n env junk mac pss F sy0 a (if r < n \<and> c r < a r then c(r := Suc (c r)) else c) sy'
    \<and> dt_ring (sy_thread sy' 0) = (if r < n then int r + 1 else 0)"
proof -
  let ?th = "sy_thread sy 0"
  have b: "0 \<le> dt_ring ?th" "dt_ring ?th \<le> int n" "n \<le> 8" "dt_pre_time ?th = dt_pre_time (sy_thread sy0 0)"
    using P by (simp_all add: rx_progress_def MAX_DEVICE_NUM_def)
  have c1: "decap_thread_num conf = 1" "rcv_ring_queue_num conf = int n" using conf by (simp_all add: single_conf_def)
  show ?thesis
  proof (cases "r < n")
    case True
    have i: "dt_ring ?th = int r" "dt_ring ?th < int n" using True b by (simp_all add: r_def)
    have j: "unat (word_of_int (dt_ring ?th) :: u16) = r"
      using True b(3) unat_of_nat_lt [of r, where 'a = 16] unfolding i(1) by simp
    obtain m sy1 where p: "poll_rcv_ring (dispatch_decap_pkt env junk index0 mac pdu_packs fp) (word_of_int (dt_ring ?th)) sy
        = Some (Inr (m, sy1))" "rx_progress k n env junk mac pss F sy0 a (if c r < a r then c(r := Suc (c r)) else c) sy1"
      using poll_progress [where j = "word_of_int (dt_ring ?th)" and ?index0.0 = index0 and pdu_packs = pdu_packs and fp = fp, OF P t]
      True unfolding j by blast
    define th where "th = ?th\<lparr>dt_ring := dt_ring ?th + 1,
      dt_loop_count := (if m \<noteq> 0 then 0 else if dt_loop_count ?th + 1 = 10 then 0 else dt_loop_count ?th + 1)\<rparr>"
    have "decap_step (dispatch_decap_pkt env junk index0 mac pdu_packs fp) conf 0 t' u sy = Some (Inr (set_thread 0 th sy1))"
      unfolding decap_step_def Let_def p(1) th_def using c1 i(2) by simp
    moreover have "rx_progress k n env junk mac pss F sy0 a (if r < n \<and> c r < a r then c(r := Suc (c r)) else c) (set_thread 0 th sy1)"
      using p(2) True b i by (intro rx_progress_set_thread) (simp_all add: th_def)
    ultimately show ?thesis using True i(1) by (simp add: set_thread_def th_def)
  next
    case False
    then have i: "dt_ring ?th = int n" using b by (simp add: r_def)
    have "\<not> word_of_int (check_frag_timeout_period conf) < t' - dt_pre_time ?th" using ok b(4) by (simp add: not_less)
    then have "decap_step (dispatch_decap_pkt env junk index0 mac pdu_packs fp) conf 0 t' u sy
        = Some (Inr (set_thread 0 (?th\<lparr>dt_ring := 0\<rparr>) sy))"
      unfolding decap_step_def check_timeout_def Let_def using c1 i by simp
    moreover have "rx_progress k n env junk mac pss F sy0 a c (set_thread 0 (?th\<lparr>dt_ring := 0\<rparr>) sy)"
      using P b by (intro rx_progress_set_thread) simp_all
    ultimately show ?thesis using False by (simp add: set_thread_def)
  qed
qed

text \<open>A whole schedule: everything has arrived, and part of it has been dispatched.\<close>

lemma schedule_progress:
  assumes t: "rx_traffic k n pss F" and conf: "single_conf n conf"
  shows "rx_progress k n env junk mac pss F sy0 a c sy \<Longrightarrow>
    list_all (schedule_ok n conf (dt_pre_time (sy_thread sy0 0))) es \<Longrightarrow>
    \<forall>i < n. drop (a i) (F i) = arrivals i es @ rest i \<Longrightarrow>
    \<exists>a' c' sy'. rx_run (dispatch_decap_pkt env junk index0 mac pdu_packs fp) conf es sy = Some (Inr sy')
      \<and> rx_progress k n env junk mac pss F sy0 a' c' sy' \<and> (\<forall>i < n. drop (a' i) (F i) = rest i)"
proof (induction es arbitrary: a c sy)
  case Nil
  then show ?case by auto
next
  case (Cons e es)
  have rest: "list_all (schedule_ok n conf (dt_pre_time (sy_thread sy0 0))) es"
    "schedule_ok n conf (dt_pre_time (sy_thread sy0 0)) e" using Cons.prems(2) by simp_all
  obtain a1 c1 sy1 where s: "rx_event_step (dispatch_decap_pkt env junk index0 mac pdu_packs fp) conf e sy = Some (Inr sy1)"
    "rx_progress k n env junk mac pss F sy0 a1 c1 sy1" "\<forall>i < n. drop (a1 i) (F i) = arrivals i es @ rest i"
  proof (cases e)
    case (DecapStep j t' u)
    then have j: "j = 0" "schedule_ok n conf (dt_pre_time (sy_thread sy0 0)) (DecapStep 0 t' u)" using rest(2) by simp_all
    from decap_progress [where ?index0.0 = index0 and pdu_packs = pdu_packs and fp = fp, OF Cons.prems(1) t conf j(2)]
    show ?thesis using that Cons.prems(3) DecapStep j(1) by auto
  next
    case (Arrive j mbuf)
    then have j: "unat j < n" using rest(2) by simp
    show ?thesis
    proof (cases mbuf)
      case None
      then show ?thesis using that [of sy a c] Cons.prems Arrive by (simp add: receive_msg_def)
    next
      case (Some m)
      have d: "drop (a (unat j)) (F (unat j)) = m # arrivals (unat j) es @ rest (unat j)"
        using Cons.prems(3) j Arrive Some by simp
      then have l: "a (unat j) < length (F (unat j))" by (metis drop_all list.distinct(1) not_le)
      have m: "F (unat j) ! a (unat j) = m" "drop (Suc (a (unat j))) (F (unat j)) = arrivals (unat j) es @ rest (unat j)"
        using d l by (simp_all add: Cons_nth_drop_Suc [symmetric])
      have "drop ((a(unat j := Suc (a (unat j)))) i) (F i) = arrivals i es @ rest i" if "i < n" for i
        using Cons.prems(3) that m(2) Arrive Some by simp
      moreover from receive_progress [OF Cons.prems(1) t j l] obtain sy' where
        "receive_msg j (Some m) sy = Some (Inr sy')" "rx_progress k n env junk mac pss F sy0 (a(unat j := Suc (a (unat j)))) c sy'"
        unfolding m(1) by blast
      ultimately show ?thesis using that Arrive Some by simp
    qed
  qed
  from Cons.IH [OF s(2) rest(1) s(3)] s(1) show ?case by simp
qed

text \<open>
  With no more arrivals every ring gets empty: each packet on ring \<open>i\<close> costs at most one round, after the steps
  until the round comes to the ring.
\<close>

definition ring_gap :: "nat \<Rightarrow> nat \<Rightarrow> nat \<Rightarrow> nat" where
  "ring_gap n r i = (if r \<le> i then i - r else i + Suc n - r)"

definition rx_debt :: "nat \<Rightarrow> (nat \<Rightarrow> nat) \<Rightarrow> (nat \<Rightarrow> nat) \<Rightarrow> nat \<Rightarrow> nat \<Rightarrow> nat" where
  "rx_debt n a c r i = Suc n * (a i - c i) + ring_gap n r i"

lemma rx_debt_step:
  assumes "i < n" "r \<le> n" "c i < a i"
  defines "c' \<equiv> if r < n \<and> c r < a r then c(r := Suc (c r)) else c"
    and "r' \<equiv> if r < n then Suc r else 0"
  shows "Suc (rx_debt n a c' r' i) \<le> rx_debt n a c r i"
proof (cases "r = i")
  case True
  obtain d where d: "a i - c i = Suc d" "a i - Suc (c i) = d" using assms(3) by (cases "a i - c i") auto
  have "r < n" "c r < a r" using True assms(1,3) by simp_all
  then show ?thesis using True d by (simp add: rx_debt_def ring_gap_def c'_def r'_def)
next
  case False
  then have "c' i = c i" by (simp add: c'_def)
  moreover have "Suc (ring_gap n r' i) \<le> ring_gap n r i" using False assms(1,2) by (auto simp: ring_gap_def r'_def)
  ultimately show ?thesis by (simp add: rx_debt_def)
qed

fun decap_event :: "rx_event \<Rightarrow> bool" where
  "decap_event (Arrive j mbuf) = False"
| "decap_event (DecapStep j t u) = True"

lemma drain_progress:
  assumes t: "rx_traffic k n pss F" and conf: "single_conf n conf"
  shows "rx_progress k n env junk mac pss F sy0 a c sy \<Longrightarrow>
    list_all (schedule_ok n conf (dt_pre_time (sy_thread sy0 0))) es \<Longrightarrow> list_all decap_event es \<Longrightarrow>
    \<exists>c' sy'. rx_run (dispatch_decap_pkt env junk index0 mac pdu_packs fp) conf es sy = Some (Inr sy')
      \<and> rx_progress k n env junk mac pss F sy0 a c' sy'
      \<and> (\<forall>i < n. c i \<le> c' i) \<and> (\<forall>i < n. c' i = a i \<or> length es \<le> rx_debt n a c (nat (dt_ring (sy_thread sy 0))) i)"
proof (induction es arbitrary: c sy)
  case Nil
  then show ?case by auto
next
  case (Cons e es)
  obtain t' u where e: "e = DecapStep 0 t' u" "schedule_ok n conf (dt_pre_time (sy_thread sy0 0)) (DecapStep 0 t' u)"
    using Cons.prems(2,3) by (cases e) auto
  define r where "r = nat (dt_ring (sy_thread sy 0))"
  define c1 where "c1 = (if r < n \<and> c r < a r then c(r := Suc (c r)) else c)"
  have P: "r \<le> n" "\<forall>i < n. c i \<le> a i" using Cons.prems(1) by (auto simp: rx_progress_def r_def nat_le_iff)
  from decap_progress [where ?index0.0 = index0 and pdu_packs = pdu_packs and fp = fp, OF Cons.prems(1) t conf e(2)]
  obtain sy1 where s1: "decap_step (dispatch_decap_pkt env junk index0 mac pdu_packs fp) conf 0 t' u sy = Some (Inr sy1)"
    "rx_progress k n env junk mac pss F sy0 a c1 sy1" "dt_ring (sy_thread sy1 0) = (if r < n then int r + 1 else 0)"
    unfolding r_def [symmetric] c1_def [symmetric] by blast
  have r1: "nat (dt_ring (sy_thread sy1 0)) = (if r < n then Suc r else 0)" using s1(3) by (simp add: nat_add_distrib)
  from Cons.IH [OF s1(2)] Cons.prems(2,3) obtain c' sy' where
    s': "rx_run (dispatch_decap_pkt env junk index0 mac pdu_packs fp) conf es sy1 = Some (Inr sy')"
    "rx_progress k n env junk mac pss F sy0 a c' sy'"
    "\<forall>i < n. c1 i \<le> c' i" "\<forall>i < n. c' i = a i \<or> length es \<le> rx_debt n a c1 (if r < n then Suc r else 0) i"
    unfolding r1 by auto
  have c': "\<forall>i < n. c' i \<le> a i" using s'(2) by (simp add: rx_progress_def)
  have "c i \<le> c1 i" for i by (simp add: c1_def)
  then have mono: "\<forall>i < n. c i \<le> c' i" using s'(3) le_trans by blast
  have "c' i = a i \<or> length (e # es) \<le> rx_debt n a c r i" if i: "i < n" for i
  proof (cases "c i < a i")
    case True
    from rx_debt_step [where c = c and a = a, OF i P(1) True, folded c1_def] s'(4) i show ?thesis by auto
  next
    case False
    then show ?thesis using mono c' P(2) i by (metis le_antisym not_le)
  qed
  then show ?case using s1(1) s'(1,2) mono e(1) by (auto simp: r_def)
qed

lemma rx_debt_bound: "c i \<le> a i \<Longrightarrow> r \<le> n \<Longrightarrow> i < n \<Longrightarrow> a i \<le> N \<Longrightarrow> rx_debt n a c r i < Suc n * Suc N"
proof -
  assume c: "c i \<le> a i" "r \<le> n" "i < n" "a i \<le> N"
  then have "Suc n * (a i - c i) \<le> Suc n * N" by (intro mult_le_mono2) simp
  moreover have "ring_gap n r i \<le> n" using c unfolding ring_gap_def by (cases "r \<le> i") auto
  ultimately show ?thesis by (simp add: rx_debt_def)
qed

section \<open>Properties\<close>

definition rx_start :: "nat \<Rightarrow> nat \<Rightarrow> (nat \<Rightarrow> RX_ENV) \<Rightarrow> (nat \<Rightarrow> GSE_VARIABLE_HEADER_VALUE) \<Rightarrow> u8 list \<Rightarrow> RX_SYSTEM \<Rightarrow> bool" where
  "rx_start k n env junk mac sy \<longleftrightarrow> 0 < n \<and> n \<le> MAX_DEVICE_NUM \<and> rcv_queues k n sy (\<lambda>_. []) \<and> rx_table_ok sy
     \<and> 0 \<le> dt_ring (sy_thread sy 0) \<and> dt_ring (sy_thread sy 0) \<le> int n \<and> link_inv env junk mac 0 None (sy_decap sy)"

lemma rx_start_progress:
  "rx_start k n env junk mac sy \<Longrightarrow> rx_progress k n env junk mac pss F sy (\<lambda>_. 0) (\<lambda>_. 0) sy"
  by (simp add: rx_start_def rx_progress_def frames_done_def)

lemma arrivals_length: "length (arrivals i es) \<le> length es"
proof (induction es)
  case (Cons e es)
  have "length (arriving i e) \<le> 1" by (cases "(i, e)" rule: arriving.cases) simp_all
  then show ?case using Cons by simp
qed simp

lemma rx_threads_delivered:
  assumes "rx_start k n env junk mac sy" "single_conf n conf"
    "list_all2 bb_carries pss (arrivals 0 evs)" "rx_steps None (concat pss) = Some w"
    "\<forall>i. 0 < i \<and> i < n \<longrightarrow> list_all tunnel_pkt (arrivals i evs)" "\<forall>i < n. length (arrivals i evs) < 2 ^ k"
    "list_all (schedule_ok n conf (dt_pre_time (sy_thread sy 0))) (evs @ polls)" "list_all decap_event polls"
    "Suc n * Suc (length evs) \<le> length polls"
  shows "\<exists>sy' bs. rx_run (dispatch_decap_pkt env junk index0 mac pdu_packs fp) conf (evs @ polls) sy = Some (Inr sy')
    \<and> rcv_queues k n sy' (\<lambda>_. []) \<and> sy_refused sy' = sy_refused sy
    \<and> ds_encap_ring (sy_decap sy') = ds_encap_ring (sy_decap sy) @ bs \<and> map pdu_of bs = delivered (concat pss)
    \<and> map mb_data (ds_freed (sy_decap sy')) = map mb_data (ds_freed (sy_decap sy)) @ map mb_data (arrivals 0 evs)
    \<and> (\<forall>i. 0 < i \<and> i < n \<longrightarrow>
         of_queue i (sy_tunnel sy') = of_queue i (sy_tunnel sy) @ map tunnel_out (arrivals i evs))"
proof -
  let ?F = "\<lambda>i. arrivals i evs" and ?d = "dispatch_decap_pkt env junk index0 mac pdu_packs fp"
  have t: "rx_traffic k n pss ?F" using assms(3-6) by (simp add: rx_traffic_def)
  have ok: "list_all (schedule_ok n conf (dt_pre_time (sy_thread sy 0))) evs"
    "list_all (schedule_ok n conf (dt_pre_time (sy_thread sy 0))) polls" using assms(7) by simp_all
  obtain a c sy1 where s1: "rx_run ?d conf evs sy = Some (Inr sy1)" "rx_progress k n env junk mac pss ?F sy a c sy1"
    "\<forall>i < n. drop (a i) (?F i) = []"
    using schedule_progress [where ?index0.0 = index0 and pdu_packs = pdu_packs and fp = fp and rest = "\<lambda>_. []",
        OF t assms(2) rx_start_progress [OF assms(1)] ok(1)] by auto
  have p: "\<forall>i < n. c i \<le> a i \<and> a i \<le> length (?F i)" "nat (dt_ring (sy_thread sy1 0)) \<le> n"
    using s1(2) by (auto simp: rx_progress_def nat_le_iff)
  have all: "a i = length (?F i)" if "i < n" for i using s1(3) p(1) that by (simp add: le_antisym)
  obtain c' sy' where s': "rx_run ?d conf polls sy1 = Some (Inr sy')" "rx_progress k n env junk mac pss ?F sy a c' sy'"
    "\<forall>i < n. c' i = a i \<or> length polls \<le> rx_debt n a c (nat (dt_ring (sy_thread sy1 0))) i"
    using drain_progress [where ?index0.0 = index0 and pdu_packs = pdu_packs and fp = fp, OF t assms(2) s1(2) ok(2) assms(8)]
    by blast
  have c': "c' i = length (?F i)" if i: "i < n" for i
  proof -
    have "a i \<le> length evs" using all [OF i] arrivals_length [of i evs] by simp
    from rx_debt_bound [where a = a and c = c, OF _ p(2) i this] p(1) i have "rx_debt n a c (nat (dt_ring (sy_thread sy1 0))) i < length polls"
      using assms(9) by fastforce
    then show ?thesis using s'(3) i all [OF i] by auto
  qed
  have n: "0 < n" using assms(1) by (simp add: rx_start_def)
  have q: "rcv_queues k n sy' (\<lambda>_. [])" using s'(2) c' all by (simp add: rx_progress_def rcv_queues_def)
  have r: "rx_run ?d conf (evs @ polls) sy = Some (Inr sy')" using s1(1) s'(1) by (simp add: rx_run_append)
  have f: "frames_done env junk mac pss (?F 0) (sy_decap sy) (length (?F 0)) (sy_decap sy')" "sy_refused sy' = sy_refused sy"
    "\<forall>i. 0 < i \<and> i < n \<longrightarrow> of_queue i (sy_tunnel sy') = of_queue i (sy_tunnel sy) @ map tunnel_out (?F i)"
    using s'(2) c' n by (simp_all add: rx_progress_def)
  have "length pss = length (?F 0)" using assms(3) by (rule list_all2_lengthD)
  then show ?thesis using r q f by (auto simp: frames_done_def)
qed

definition empty_ring :: "MBUF rte_ring" where
  "empty_ring = \<lparr>rr_size = 8, rr_mask = 7, rr_capacity = 7, rr_prod = \<lparr>ht_head = 0, ht_tail = 0, ht_single = False\<rparr>,
     rr_cons = \<lparr>ht_head = 0, ht_tail = 0, ht_single = False\<rparr>, rr_slots = replicate 8 (frame_mbuf [])\<rparr>"

definition empty_side :: "MBUF ring_side" where
  "empty_side = \<lparr>rq_ring = [Some empty_ring, Some empty_ring], rq_enqueue_num = [0, 0], rq_drop_num = [0, 0],
     rq_dequeue_num = [0, 0]\<rparr>"

definition started_system :: RX_SYSTEM where
  "started_system = \<lparr>sy_rings = \<lparr>rcv_ring = empty_side, encap_ring = empty_side, snd_bb_ring = empty_side\<rparr>,
     sy_rcv_pkt_num = replicate 8 (replicate 8 0), sy_refused = [], sy_decap = start_decap_state, sy_tunnel = [],
     sy_fpga_buff = 0, sy_thread = (\<lambda>_. \<lparr>dt_ring = 0, dt_pre_time = 0, dt_loop_count = 0\<rparr>)\<rparr>"

definition two_device_conf :: APP_CONF where
  "two_device_conf = node_conf\<lparr>decap_thread_num := 1, rcv_ring_queue_num := 2, check_frag_timeout_period := 5\<rparr>"

lemma start_ring_empty: "ds_encap_ring start_decap_state = []"
  by (simp add: start_decap_state_def init_decap_mem_def boot_decap_state_def)

lemma started_queues: "rcv_queues 3 2 started_system (\<lambda>_. [])"
proof -
  have "ring_created 3 empty_ring" by (simp add: ring_created_def empty_ring_def)
  then have r: "ring_wf 3 empty_ring \<and> ring_items empty_ring = []" by (intro ring_created_wf) simp_all
  have "side_abs 3 i empty_side \<lparr>qs_items = [], qs_enqueued = 0, qs_dropped = 0, qs_dequeued = 0\<rparr>" if "i < 2" for i
    using that r by (auto simp: side_abs_def empty_side_def less_2_cases_iff)
  then show ?thesis by (fastforce simp: rcv_queues_def started_system_def)
qed

lemma started_ok: "rx_start 3 2 (\<lambda>_. roomy_rx_env) (\<lambda>_. junk_header) [2, 0, 0, 0, 0, 1] started_system"
  "single_conf 2 two_device_conf"
proof -
  have "rx_env_ok (\<lambda>_. roomy_rx_env) (\<lambda>_. junk_header) [2, 0, 0, 0, 0, 1]"
    by (simp add: rx_env_ok_def rx_ready_def roomy_rx_env_def junk_header_def)
  from start_link [OF _ this, of 0] show "rx_start 3 2 (\<lambda>_. roomy_rx_env) (\<lambda>_. junk_header) [2, 0, 0, 0, 0, 1] started_system"
    using started_queues by (simp add: rx_start_def MAX_DEVICE_NUM_def rx_table_ok_def started_system_def)
qed (simp add: single_conf_def two_device_conf_def)

text \<open>A PDU split over two frames from device 0, with another PDU in the first, and a packet from device 1.\<close>

definition split_frame :: "rx_pkt list \<Rightarrow> MBUF" where
  "split_frame ps = frame_mbuf (plain_frame 200 (map rx_packet ps) [])"

definition first_packets :: "rx_pkt list" where
  "first_packets = [PWhole PROTOCOL_IPV4 [0x45, 7], PFirst 5 9 PROTOCOL_IPV4 [0x45, 1, 2, 3, 4, 5] 3]"

definition last_packets :: "rx_pkt list" where
  "last_packets = [PLast 5 9 PROTOCOL_IPV4 [0x45, 1, 2, 3, 4, 5] 3]"

definition ground_packet :: MBUF where
  "ground_packet = frame_mbuf (replicate 12 0 @ [0x08, 0x00, 0x45, 9])"

definition mixed_events :: "rx_event list" where
  "mixed_events = [Arrive 0 (Some (split_frame first_packets)), DecapStep 0 3 0, Arrive 1 (Some ground_packet),
     Arrive 0 (Some (split_frame last_packets))]"

lemma split_frames:
  "bb_carries first_packets (split_frame first_packets)" "bb_carries last_packets (split_frame last_packets)"
proof -
  have "length (concat (map pkt_bytes (map rx_packet first_packets))) \<le> 100"
    "length (concat (map pkt_bytes (map rx_packet last_packets))) \<le> 100"
    by (simp_all add: first_packets_def last_packets_def length_pkt_bytes length_wire_gse_header length_wire_frag_fields)
  then have "bb_frame 200 (map rx_packet first_packets) [] (plain_frame 200 (map rx_packet first_packets) [])"
    "bb_frame 200 (map rx_packet last_packets) [] (plain_frame 200 (map rx_packet last_packets) [])"
    by (simp_all add: plain_frame_ok)
  then show "bb_carries first_packets (split_frame first_packets)" "bb_carries last_packets (split_frame last_packets)"
    by (auto simp: bb_carries_def split_frame_def frame_mbuf_def first_packets_def last_packets_def)
qed

text \<open>C3: the threads of the receiving side: however the arrivals and the polls interleave, when no more packets arrive and the
  thread goes on for long enough, every PDU of the frames from device 0 has been put on the ring to the
  encapsulation once, in order and unchanged, every packet of another device has been put on the ring of its device in order,
  nothing was refused, the rings are empty and exactly the frames have been freed.\<close>

theorem rx_threads_deliver:
  assumes "rx_start k n env junk mac sy" "single_conf n conf"
    "list_all2 bb_carries pss (arrivals 0 evs)" "rx_steps None (concat pss) = Some w"
    "\<forall>i. 0 < i \<and> i < n \<longrightarrow> list_all tunnel_pkt (arrivals i evs)" "\<forall>i < n. length (arrivals i evs) < 2 ^ k"
    "list_all (schedule_ok n conf (dt_pre_time (sy_thread sy 0))) (evs @ polls)" "list_all decap_event polls"
    "Suc n * Suc (length evs) \<le> length polls"
  shows "\<exists>sy' bs. rx_run (dispatch_decap_pkt env junk index0 mac pdu_packs fp) conf (evs @ polls) sy = Some (Inr sy')
    \<and> rcv_queues k n sy' (\<lambda>_. []) \<and> sy_refused sy' = sy_refused sy
    \<and> ds_encap_ring (sy_decap sy') = ds_encap_ring (sy_decap sy) @ bs \<and> map pdu_of bs = delivered (concat pss)
    \<and> map mb_data (ds_freed (sy_decap sy')) = map mb_data (ds_freed (sy_decap sy)) @ map mb_data (arrivals 0 evs)
    \<and> (\<forall>i. 0 < i \<and> i < n \<longrightarrow>
         of_queue i (sy_tunnel sy') = of_queue i (sy_tunnel sy) @ map tunnel_out (arrivals i evs))"
  by (rule rx_threads_delivered [OF assms])

theorem rx_threads_deliver_witness:
  "\<forall>fp. \<exists>sy' bs. rx_run (dispatch_decap_pkt (\<lambda>_. roomy_rx_env) (\<lambda>_. junk_header) 0 [2, 0, 0, 0, 0, 1] (\<lambda>_ _. Inr) fp)
       two_device_conf (mixed_events @ replicate 15 (DecapStep 0 5 0)) started_system = Some (Inr sy')
    \<and> ds_encap_ring (sy_decap sy') = bs \<and> map pdu_of bs = [(0x0800, [0x45, 7]), (0x0800, [0x45, 1, 2, 3, 4, 5])]
    \<and> of_queue 1 (sy_tunnel sy') = [tunnel_out ground_packet] \<and> mb_data (tunnel_out ground_packet) = [0x45, 9]"
proof
  fix fp :: FRAME_PARAM
  let ?polls = "replicate 15 (DecapStep 0 5 0)"
  have a: "arrivals 0 mixed_events = [split_frame first_packets, split_frame last_packets]"
    "arrivals 1 mixed_events = [ground_packet]"
    by (simp_all add: mixed_events_def)
  have c: "list_all2 bb_carries [first_packets, last_packets] (arrivals 0 mixed_events)"
    using split_frames by (simp add: a)
  have st: "rx_steps None (concat [first_packets, last_packets]) = Some None"
    by (simp add: first_packets_def last_packets_def frag_fits_def ip_type_def FRAG_MAX_LENGTH_def)
  have g: "tunnel_pkt ground_packet"
    unfolding tunnel_pkt_def ground_packet_def frame_mbuf_def
    by (intro exI [of _ 8]) (simp add: load16_def get_bytes_def of_le16_def bswap16_def PROTOCOL_IPV4_def PROTOCOL_ARP_def)
  have i: "i < 2 \<Longrightarrow> i = 0 \<or> i = 1" for i :: nat by arith
  have t: "\<forall>i. 0 < i \<and> i < 2 \<longrightarrow> list_all tunnel_pkt (arrivals i mixed_events)"
    "\<forall>i < 2. length (arrivals i mixed_events) < 2 ^ 3"
    using a g i by fastforce+
  have ok: "list_all (schedule_ok 2 two_device_conf (dt_pre_time (sy_thread started_system 0))) (mixed_events @ ?polls)"
    by (simp add: mixed_events_def started_system_def two_device_conf_def list_all_iff)
  have l: "Suc 2 * Suc (length mixed_events) \<le> length ?polls" by (simp add: mixed_events_def)
  have p: "list_all decap_event ?polls" by (simp add: list_all_iff)
  have "mb_data (tunnel_out ground_packet) = [0x45, 9]"
    by (simp add: tunnel_out_def ground_packet_def frame_mbuf_def rte_pktmbuf_adj_def ETHER_HDR_SIZE_def)
  then show "\<exists>sy' bs. rx_run (dispatch_decap_pkt (\<lambda>_. roomy_rx_env) (\<lambda>_. junk_header) 0 [2, 0, 0, 0, 0, 1] (\<lambda>_ _. Inr) fp)
       two_device_conf (mixed_events @ ?polls) started_system = Some (Inr sy')
    \<and> ds_encap_ring (sy_decap sy') = bs \<and> map pdu_of bs = [(0x0800, [0x45, 7]), (0x0800, [0x45, 1, 2, 3, 4, 5])]
    \<and> of_queue 1 (sy_tunnel sy') = [tunnel_out ground_packet] \<and> mb_data (tunnel_out ground_packet) = [0x45, 9]"
    using rx_threads_deliver [OF started_ok c st t ok p l, of 0 "\<lambda>_ _. Inr" fp] a(2)
    by (auto simp: started_system_def start_ring_empty first_packets_def last_packets_def PROTOCOL_IPV4_def)
qed

text \<open>C16: type safety of the receiving side: from a well-formed system every schedule of arrivals and polls on the
  devices in use runs without waiting, and whatever packets arrive and whatever their dispatching does, the rings are
  queues of bounded length, the counters have their places and the rounds of the threads are at a ring afterwards.\<close>

theorem rx_threads_type_safe:
  assumes "rx_wf k n sy" "list_all (event_device_ok n) es" "rcv_ring_queue_num conf = int n"
  shows "\<exists>r. rx_run dispatch conf es sy = Some r \<and> (\<forall>sy'. r = Inr sy' \<longrightarrow> rx_wf k n sy')"
  using assms
proof (induction es arbitrary: sy)
  case (Cons e es)
  obtain r where r: "rx_event_step dispatch conf e sy = Some r" "\<forall>sy'. r = Inr sy' \<longrightarrow> rx_wf k n sy'"
    using rx_event_step_wf [OF Cons.prems(1) _ Cons.prems(3), of e dispatch] Cons.prems(2) by auto
  show ?case using r Cons.IH Cons.prems(2,3) by (cases r) auto
qed simp

theorem rx_threads_type_safe_witness:
  "\<forall>dispatch. \<exists>r. rx_run dispatch two_device_conf [Arrive 1 (Some ground_packet), DecapStep 0 9 9, Arrive 0 None, DecapStep 1 9 9]
       started_system = Some r \<and> (\<forall>sy'. r = Inr sy' \<longrightarrow> rx_wf 3 2 sy')"
proof
  fix dispatch :: dispatcher
  have w: "rx_wf 3 2 started_system"
    using started_queues by (auto simp: rx_wf_def MAX_DEVICE_NUM_def rx_table_ok_def started_system_def)
  have e: "list_all (event_device_ok 2) [Arrive 1 (Some ground_packet), DecapStep 0 9 9, Arrive 0 None, DecapStep 1 9 9]" by simp
  have c: "rcv_ring_queue_num two_device_conf = int 2" by (simp add: two_device_conf_def)
  show "\<exists>r. rx_run dispatch two_device_conf [Arrive 1 (Some ground_packet), DecapStep 0 9 9, Arrive 0 None, DecapStep 1 9 9]
       started_system = Some r \<and> (\<forall>sy'. r = Inr sy' \<longrightarrow> rx_wf 3 2 sy')"
    using rx_threads_type_safe [OF w e c, of dispatch] .
qed

end
