(* ===== verification/SendThreads.thy ===== *)
theory SendThreads
  imports Threads
begin

text \<open>
  The transmitting loops: \<open>snd_pkt\<close> of \<open>src/rcv_send.c\<close>; \<open>snd_single_pdu\<close> of \<open>src/encapsulate.c\<close> and the part
  of \<open>encapsulate_thread\<close> that takes the received PDUs from encapsulation ring 0 to the ground network;
  \<open>fc_bbframe_send_ignore_interval\<close> of \<open>src/encapsulate_frame.c\<close>, which sends the frames at the speed of
  the link.
\<close>

section \<open>State\<close>

text \<open>
  The rings, what went out on which socket, the mbufs of PDUs and frames freed, how many mbufs of the sending pool are out
  (taken and not yet given back), the counters, the local variable \<open>send_bytes\<close> of
  the frame loop, and what the environment will answer: the results of \<open>send\<close>
  (\<open>-1\<close> when it fails) and the readings of the clock.
\<close>

record SND_SYSTEM =
  ss_rings :: "MBUF RINGS"
  ss_wire :: "(u8 \<times> u8 list) list"
  ss_freed :: "MBUF list"
  ss_send_out :: int
  ss_sent_pkt_num :: "u64 list"
  ss_resent_pkt_num :: u64
  ss_total_bb_bytes :: u64
  ss_send_bytes :: u32
  ss_answers :: "u32 list"
  ss_clock :: "u64 list"

definition ETHER_HEADER_LEN :: nat where "ETHER_HEADER_LEN = 14"
definition PDU_BUFFER_SIZE :: nat where "PDU_BUFFER_SIZE = 8192 - 256"
definition PKT_OVER_HEAD :: u16 where "PKT_OVER_HEAD = 24"

section \<open>\<open>snd_pkt\<close>\<close>

text \<open>The call of \<open>send\<close> is repeated until the whole packet went out.\<close>

primrec send_until :: "u32 \<Rightarrow> u32 list \<Rightarrow> u64 \<Rightarrow> (u32 list \<times> u64) option" where
  "send_until pkt_len [] resent = None"
| "send_until pkt_len (send_len # rest) resent =
     (if send_len \<noteq> pkt_len then send_until pkt_len rest (resent + 1) else Some (rest, resent))"

definition snd_pkt :: "u8 list \<Rightarrow> u8 \<Rightarrow> SND_SYSTEM \<Rightarrow> SND_SYSTEM outcome option" where
  "snd_pkt pkt sock_id s =
     (case send_until (of_nat (length pkt)) (ss_answers s) (ss_resent_pkt_num s) of
        None \<Rightarrow> None
      | Some (rest, resent) \<Rightarrow>
          Some (bind_ok (count_one (ss_sent_pkt_num s) (unat sock_id) 1) (\<lambda>nums.
            Inr (s\<lparr>ss_answers := rest, ss_resent_pkt_num := resent, ss_sent_pkt_num := nums,
                   ss_wire := ss_wire s @ [(sock_id, pkt)]\<rparr>))))"

definition snd_free :: "MBUF \<Rightarrow> SND_SYSTEM \<Rightarrow> SND_SYSTEM" where
  "snd_free m s = s\<lparr>ss_freed := ss_freed s @ [m]\<rparr>"

text \<open>Taking an mbuf from the pool and giving it back.\<close>

definition send_take :: "SND_SYSTEM \<Rightarrow> SND_SYSTEM" where
  "send_take s = s\<lparr>ss_send_out := ss_send_out s + 1\<rparr>"

definition send_free :: "SND_SYSTEM \<Rightarrow> SND_SYSTEM" where
  "send_free s = s\<lparr>ss_send_out := ss_send_out s - 1\<rparr>"

section \<open>The received PDUs to the ground network\<close>

text \<open>
  \<open>send_mbuf\<close> is what the pool returns.  The Ethernet header is written at the start of its data
  before \<open>rte_pktmbuf_append\<close>; a message without room in it would be copied to a null
  pointer.
\<close>

definition build_packet :: "APP_CONF \<Rightarrow> u8 \<Rightarrow> MBUF \<Rightarrow> MBUF \<Rightarrow> u8 list outcome" where
  "build_packet conf port mbuf send_mbuf =
     bind_ok (load_at (local_mac conf) 2) (\<lambda>d_addr.
     bind_ok (load_at (local_mac conf) (unat port)) (\<lambda>s_addr.
     let msg_len = length (mb_data mbuf) + ETHER_HEADER_LEN;
         off = length (mb_data send_mbuf) in
     bind_ok (put_bytes (mb_data send_mbuf @ mb_tail send_mbuf) 0
                (take 6 d_addr @ take 6 s_addr @ le16 (bswap16 (ucast (mb_protocol_type mbuf))))) (\<lambda>room.
     if length (mb_tail send_mbuf) < msg_len then Inl NullDeref
     else bind_ok (put_bytes room (off + ETHER_HEADER_LEN) (mb_data mbuf)) (\<lambda>room'.
            get_bytes room' off msg_len))))"

definition snd_single_pdu :: "APP_CONF \<Rightarrow> MBUF option \<Rightarrow> MBUF option \<Rightarrow> u8 \<Rightarrow> SND_SYSTEM \<Rightarrow> SND_SYSTEM outcome option" where
  "snd_single_pdu conf pool mbuf port s =
     (case mbuf of
        None \<Rightarrow> Some (Inr s)
      | Some m \<Rightarrow>
          if PDU_BUFFER_SIZE \<le> length (mb_data m) then Some (Inr (snd_free m s))
          else case pool of
            None \<Rightarrow> Some (Inr (snd_free m s))
          | Some send_mbuf \<Rightarrow>
              if port = 1
              then and_then (Some (build_packet conf port m send_mbuf)) (\<lambda>pkt.
                   and_then (snd_pkt pkt port (send_take s)) (\<lambda>s1. Some (Inr (snd_free m (send_free s1)))))
              else Some (Inr (snd_free m (send_free (send_take s)))))"

text \<open>The loop over the packets of a burst, and the turn of encapsulation ring 0 in \<open>encapsulate_thread\<close>.\<close>

primrec run_each :: "'i list \<Rightarrow> ('i \<Rightarrow> 's \<Rightarrow> 's outcome option) \<Rightarrow> 's \<Rightarrow> 's outcome option" where
  "run_each [] f s = Some (Inr s)"
| "run_each (i # is) f s = and_then (f i s) (run_each is f)"

definition ground_turn :: "APP_CONF \<Rightarrow> MBUF option \<Rightarrow> SND_SYSTEM \<Rightarrow> SND_SYSTEM outcome option" where
  "ground_turn conf pool s =
     and_then (dequeue_encap_ring True MAX_PKT_BURST 0 (ss_rings s)) (\<lambda>(pkts_burst, R).
     run_each pkts_burst (\<lambda>m. snd_single_pdu conf pool (Some m) 1) (s\<lparr>ss_rings := R\<rparr>))"

section \<open>The frames to the satellite link\<close>

text \<open>The time on the wire of a frame, in microseconds, as the loop computes it.\<close>

definition link_speed_bps :: u64 where "link_speed_bps = 560 * 1000000"

definition wire_size :: "u16 \<Rightarrow> u64" where "wire_size mbuf_len = (ucast mbuf_len + ucast PKT_OVER_HEAD) * 8"

definition tx_cycles :: "u16 \<Rightarrow> u64 outcome" where
  "tx_cycles mbuf_len =
     (if wire_size mbuf_len = 0 then Inl DivByZero
      else let pps = link_speed_bps div wire_size mbuf_len in
           if pps = 0 then Inl DivByZero else Inr (1000000 div pps))"

text \<open>The busy wait: the clock is read until it shows the end of the time.\<close>

primrec wait_until :: "u64 \<Rightarrow> u64 list \<Rightarrow> u64 list option" where
  "wait_until limit [] = None"
| "wait_until limit (t # ts) = (if t < limit then wait_until limit ts else Some ts)"

text \<open>One iteration of the loop over the rings.\<close>

definition bb_send_turn :: "u16 \<Rightarrow> SND_SYSTEM \<Rightarrow> SND_SYSTEM outcome option" where
  "bb_send_turn i s =
     and_then (dequeue_snd_bb_ring True 1 i (ss_rings s)) (\<lambda>(pkts_burst, R).
     let s1 = s\<lparr>ss_rings := R\<rparr> in
     case pkts_burst of
       [] \<Rightarrow> Some (Inr s1)
     | m # _ \<Rightarrow>
         let send_bytes = ss_send_bytes s1 + of_nat (length (mb_data m)) in
         and_then (snd_pkt (mb_data m) 0 (s1\<lparr>ss_send_bytes := send_bytes\<rparr>)) (\<lambda>s2.
         let mbuf_len = of_nat (length (mb_data m));
             s3 = (snd_free m s2)\<lparr>ss_total_bb_bytes := ss_total_bb_bytes s2 + ucast send_bytes\<rparr> in
         and_then (Some (tx_cycles mbuf_len)) (\<lambda>cpp.
         case ss_clock s3 of
           [] \<Rightarrow> None
         | cur_indication_tsc # ts \<Rightarrow>
             map_option (\<lambda>rest. Inr (s3\<lparr>ss_clock := rest\<rparr>)) (wait_until (cur_indication_tsc + cpp) ts))))"

section \<open>The pacing of the frames\<close>

lemma unat_wire_size: "unat (wire_size n) = 8 * (unat n + 24)"
proof -
  have n: "unat (ucast n + 24 :: u64) = unat n + 24"
    using unat_u16_lt [of n] by (simp add: unat_word_ariths unat_ucast_up)
  have w: "wire_size n = (ucast n + 24) * 8" by (simp add: wire_size_def PKT_OVER_HEAD_def)
  show ?thesis unfolding w unat_word_ariths(2) n using unat_u16_lt [of n] by simp
qed

text \<open>
  The wait is \<open>10\<^sup>6 div (5.6 * 10\<^sup>8 div bits)\<close> microseconds for a frame of \<open>bits\<close> on the wire: both
  divisions round down.
\<close>

lemma pacing_bounds:
  fixes bits :: nat
  assumes "0 < bits" "bits \<le> 560000000"
  shows "bits < 560 * (1000000 div (560000000 div bits) + 1)" "560 \<le> bits \<Longrightarrow> 0 < 1000000 div (560000000 div bits)"
    "bits < 560 \<Longrightarrow> 1000000 div (560000000 div bits) = 0"
proof -
  let ?pps = "560000000 div bits"
  have p: "0 < ?pps" using assms by (simp add: div_greater_zero_iff)
  have "1000000 < ?pps * (1000000 div ?pps + 1)"
    using dividend_less_times_div [OF p, of 1000000] by (simp add: algebra_simps)
  then have "bits * 1000000 < bits * (?pps * (1000000 div ?pps + 1))" using assms(1) by simp
  also have "\<dots> = (bits * ?pps) * (1000000 div ?pps + 1)" by (simp add: algebra_simps)
  also have "\<dots> \<le> 560000000 * (1000000 div ?pps + 1)" by (intro mult_le_mono1) simp
  finally show "bits < 560 * (1000000 div ?pps + 1)" by simp
  show "0 < 1000000 div ?pps" if "560 \<le> bits"
  proof -
    have "?pps \<le> 560000000 div 560" using that by (intro div_le_mono2) simp_all
    then show ?thesis using p by (simp add: div_greater_zero_iff)
  qed
  show "1000000 div ?pps = 0" if "bits < 560"
  proof -
    have "1000000 * bits + bits \<le> 560000000" using that by arith
    then have "1000001 \<le> ?pps" using assms(1) by (simp add: less_eq_div_iff_mult_less_eq)
    then show ?thesis by simp
  qed
qed

lemma tx_cycles_value:
  "\<exists>cpp. tx_cycles n = Inr cpp \<and> unat cpp = 1000000 div (560000000 div (8 * (unat n + 24)))"
proof -
  let ?b = "8 * (unat n + 24)"
  have b: "0 < ?b" "?b \<le> 560000000" using unat_u16_lt [of n] by simp_all
  have z: "wire_size n \<noteq> 0" using unat_wire_size [of n] by auto
  have s: "unat link_speed_bps = 560000000" by (simp add: link_speed_bps_def)
  have p: "unat (link_speed_bps div wire_size n) = 560000000 div ?b" by (simp only: unat_div s unat_wire_size)
  have "0 < 560000000 div ?b" using b by (simp only: div_greater_zero_iff)
  then have "link_speed_bps div wire_size n \<noteq> 0" using p by (metis less_irrefl unat_0)
  moreover have "unat (1000000 div (link_speed_bps div wire_size n)) = 1000000 div (560000000 div ?b)"
    by (subst unat_div) (simp only: p, simp)
  ultimately show ?thesis using z by (simp add: tx_cycles_def Let_def)
qed

text \<open>A packet that is sent after some failures.\<close>

lemma send_until_after:
  "pkt_len \<notin> set fails \<Longrightarrow> send_until pkt_len (fails @ pkt_len # rest) n = Some (rest, n + of_nat (length fails))"
  by (induction fails arbitrary: n) (auto simp: add.assoc)

lemma wait_until_after:
  "\<forall>t \<in> set early. t < limit \<Longrightarrow> limit \<le> late \<Longrightarrow> wait_until limit (early @ late # ts) = Some ts"
  by (induction early) auto

lemma dequeue_side_one:
  assumes "side_abs k (unat i) s q"
  shows "\<exists>s'. dequeue_side True 1 i s = Some (Inr (take 1 (qs_items q), s'))
    \<and> side_abs k (unat i) s' (snd (queue_step (2 ^ k - 1) (Get 1) q))"
  using side_step_queue [OF assms, of "Get 1"] by (auto elim!: bind_okE)

lemma snd_pkt_after:
  assumes "ss_answers s = fails @ of_nat (length pkt) # rest" "of_nat (length pkt) \<notin> set fails"
    "unat sock < length (ss_sent_pkt_num s)"
  shows "\<exists>s'. snd_pkt pkt sock s = Some (Inr s') \<and> ss_wire s' = ss_wire s @ [(sock, pkt)] \<and> ss_answers s' = rest
    \<and> length (ss_sent_pkt_num s') = length (ss_sent_pkt_num s) \<and> ss_freed s' = ss_freed s \<and> ss_rings s' = ss_rings s
    \<and> ss_clock s' = ss_clock s \<and> ss_send_bytes s' = ss_send_bytes s \<and> ss_total_bb_bytes s' = ss_total_bb_bytes s
    \<and> ss_send_out s' = ss_send_out s"
  using assms send_until_after [OF assms(2), of rest "ss_resent_pkt_num s"]
  by (auto simp: snd_pkt_def count_one_def)

section \<open>The PDUs on the ground network\<close>

text \<open>The Ethernet packet a PDU becomes.\<close>

fun eth_packet :: "APP_CONF \<Rightarrow> u32 \<times> u8 list \<Rightarrow> u8 list" where
  "eth_packet conf (ptype, pdu) = take 6 (local_mac conf ! 2) @ take 6 (local_mac conf ! 1) @ le16 (bswap16 (ucast ptype)) @ pdu"

definition macs_ok :: "APP_CONF \<Rightarrow> bool" where
  "macs_ok conf \<longleftrightarrow> 2 < length (local_mac conf) \<and> length (local_mac conf ! 2) = 6 \<and> length (local_mac conf ! 1) = 6"

definition roomy_pool :: "MBUF option \<Rightarrow> bool" where
  "roomy_pool pool \<longleftrightarrow> (\<exists>m. pool = Some m \<and> mb_data m = [] \<and> PDU_BUFFER_SIZE + ETHER_HEADER_LEN \<le> length (mb_tail m))"

lemma length_eth_packet: "macs_ok conf \<Longrightarrow> length (eth_packet conf d) = length (snd d) + ETHER_HEADER_LEN"
  by (cases d) (simp add: macs_ok_def ETHER_HEADER_LEN_def)

lemma build_packet_eth:
  assumes "macs_ok conf" "mb_data f = []" "length (mb_data m) + ETHER_HEADER_LEN \<le> length (mb_tail f)"
  shows "build_packet conf 1 m f = Inr (eth_packet conf (pdu_of m))"
proof -
  define h where "h = take 6 (local_mac conf ! 2) @ take 6 (local_mac conf ! 1) @ le16 (bswap16 (ucast (mb_protocol_type m)))"
  have h: "length h = 14" "2 < length (local_mac conf)" "1 < length (local_mac conf)"
    using assms(1) by (simp_all add: macs_ok_def h_def)
  have l: "length h \<le> length (mb_tail f)" using h(1) assms(3) by (simp add: ETHER_HEADER_LEN_def)
  have p1: "put_bytes ([] @ mb_tail f) 0 h = Inr (h @ drop 14 (mb_tail f))"
    using l h(1) by (simp add: put_bytes_def)
  have p2: "put_bytes (h @ drop 14 (mb_tail f)) 14 (mb_data m)
      = Inr (h @ mb_data m @ drop (length (mb_data m)) (drop 14 (mb_tail f)))"
    using assms(3) h(1) by (intro put_bytes_at_end) (simp_all add: ETHER_HEADER_LEN_def)
  have g: "get_bytes (h @ mb_data m @ r) 0 (length (mb_data m) + 14) = Inr (h @ mb_data m)" for r
    using h(1) by (simp add: get_bytes_def)
  have z: "0 + 14 = (14 :: nat)" "\<not> length (mb_tail f) < length (mb_data m) + 14" using assms(3) by (simp_all add: ETHER_HEADER_LEN_def)
  show ?thesis
    unfolding build_packet_def Let_def load_at_ok [OF h(2)] unat_1 load_at_ok [OF h(3)] bind_ok.simps h_def [symmetric] p1
      ETHER_HEADER_LEN_def if_not_P [OF z(2)] list.size(3) assms(2) z(1) p2 g
    by (simp add: pdu_of_def h_def)
qed

lemma snd_single_pdu_eth:
  assumes "macs_ok conf" "roomy_pool pool" "length (mb_data m) < PDU_BUFFER_SIZE" "1 < length (ss_sent_pkt_num s)"
    "ss_answers s = of_nat (length (mb_data m) + ETHER_HEADER_LEN) # rest"
  shows "\<exists>s'. snd_single_pdu conf pool (Some m) 1 s = Some (Inr s') \<and> ss_wire s' = ss_wire s @ [(1, eth_packet conf (pdu_of m))]
    \<and> ss_freed s' = ss_freed s @ [m] \<and> ss_rings s' = ss_rings s \<and> ss_answers s' = rest
    \<and> length (ss_sent_pkt_num s') = length (ss_sent_pkt_num s) \<and> ss_send_out s' = ss_send_out s"
proof -
  obtain f where f: "pool = Some f" "mb_data f = []" "PDU_BUFFER_SIZE + ETHER_HEADER_LEN \<le> length (mb_tail f)"
    using assms(2) by (auto simp: roomy_pool_def)
  have b: "build_packet conf 1 m f = Inr (eth_packet conf (pdu_of m))"
    using assms(1,3) f by (intro build_packet_eth) simp_all
  have l: "length (eth_packet conf (pdu_of m)) = length (mb_data m) + ETHER_HEADER_LEN"
    using length_eth_packet [OF assms(1), of "pdu_of m"] by (simp add: pdu_of_def del: eth_packet.simps)
  obtain s1 where s1: "snd_pkt (eth_packet conf (pdu_of m)) 1 (send_take s) = Some (Inr s1)"
    "ss_wire s1 = ss_wire s @ [(1, eth_packet conf (pdu_of m))]" "ss_answers s1 = rest"
    "length (ss_sent_pkt_num s1) = length (ss_sent_pkt_num s)" "ss_freed s1 = ss_freed s" "ss_rings s1 = ss_rings s"
    "ss_send_out s1 = ss_send_out s + 1"
    using snd_pkt_after [of "send_take s" "[]" "eth_packet conf (pdu_of m)" rest 1] assms(4,5) unfolding l by (auto simp: send_take_def)
  have "\<not> PDU_BUFFER_SIZE \<le> length (mb_data m)" using assms(3) by simp
  then have "snd_single_pdu conf pool (Some m) 1 s = Some (Inr (snd_free m (send_free s1)))"
    using f(1) b s1(1) by (simp add: snd_single_pdu_def)
  then show ?thesis using s1 by (simp add: snd_free_def send_free_def)
qed

lemma ground_turn_step:
  assumes "macs_ok conf" "roomy_pool pool" "1 < length (ss_sent_pkt_num s)"
    "side_abs k 0 (encap_ring (ss_rings s)) q" "qs_items q = m # ms" "length (mb_data m) < PDU_BUFFER_SIZE"
    "ss_answers s = of_nat (length (mb_data m) + ETHER_HEADER_LEN) # rest"
  shows "\<exists>s' q'. ground_turn conf pool s = Some (Inr s') \<and> ss_wire s' = ss_wire s @ [(1, eth_packet conf (pdu_of m))]
    \<and> ss_freed s' = ss_freed s @ [m] \<and> side_abs k 0 (encap_ring (ss_rings s')) q' \<and> qs_items q' = ms \<and> ss_answers s' = rest
    \<and> length (ss_sent_pkt_num s') = length (ss_sent_pkt_num s) \<and> ss_send_out s' = ss_send_out s"
proof -
  have a: "side_abs k (unat (0 :: u16)) (encap_ring (ss_rings s)) q" using assms(4) by simp
  obtain r where r: "dequeue_side True 1 0 (encap_ring (ss_rings s)) = Some (Inr ([m], r))"
    "side_abs k 0 r (snd (queue_step (2 ^ k - 1) (Get 1) q))"
    using dequeue_side_one [OF a] assms(5) by auto
  let ?s = "s\<lparr>ss_rings := (ss_rings s)\<lparr>encap_ring := r\<rparr>\<rparr>"
  obtain s' where "snd_single_pdu conf pool (Some m) 1 ?s = Some (Inr s')" "ss_wire s' = ss_wire s @ [(1, eth_packet conf (pdu_of m))]"
    "ss_freed s' = ss_freed s @ [m]" "ss_rings s' = ss_rings ?s" "ss_answers s' = rest"
    "length (ss_sent_pkt_num s') = length (ss_sent_pkt_num s)" "ss_send_out s' = ss_send_out s"
    using snd_single_pdu_eth [OF assms(1,2,6), of ?s rest] assms(3,7) by auto
  then show ?thesis
    using r assms(5)
    by (intro exI [of _ s'] exI [of _ "snd (queue_step (2 ^ k - 1) (Get 1) q)"])
      (simp add: ground_turn_def dequeue_encap_ring_def on_side_def MAX_PKT_BURST_def)
qed

section \<open>Properties\<close>

text \<open>C18: the frame loop: a frame waiting on the ring is sent on socket 0 as it is, however often \<open>send\<close>
  has to be repeated, its mbuf is freed, and the loop waits for the time of the frame before it looks for the
  next.  The divisions never fault; the rate stays below 560 MBit/s but for the rounding to a microsecond, and
  a frame of less than 46 bytes is not paced at all.\<close>

theorem bb_frame_paced:
  assumes "side_abs k (unat i) (snd_bb_ring (ss_rings s)) q" "qs_items q = m # ms" "length (mb_data m) \<le> 65535"
    "ss_answers s = fails @ of_nat (length (mb_data m)) # rest" "of_nat (length (mb_data m)) \<notin> set fails"
    "0 < length (ss_sent_pkt_num s)" "ss_clock s = cur # early @ late # ts"
    "\<forall>cpp. tx_cycles (of_nat (length (mb_data m))) = Inr cpp \<longrightarrow> (\<forall>t \<in> set early. t < cur + cpp) \<and> cur + cpp \<le> late"
  shows "\<exists>s' q' cpp. bb_send_turn i s = Some (Inr s') \<and> ss_wire s' = ss_wire s @ [(0, mb_data m)]
    \<and> ss_freed s' = ss_freed s @ [m] \<and> side_abs k (unat i) (snd_bb_ring (ss_rings s')) q' \<and> qs_items q' = ms
    \<and> ss_answers s' = rest \<and> ss_clock s' = ts \<and> tx_cycles (of_nat (length (mb_data m))) = Inr cpp
    \<and> 8 * (length (mb_data m) + 24) < 560 * (unat cpp + 1) \<and> (0 < unat cpp \<longleftrightarrow> 46 \<le> length (mb_data m))
    \<and> ss_total_bb_bytes s' = ss_total_bb_bytes s + ucast (ss_send_bytes s + of_nat (length (mb_data m)))"
proof -
  define n where "n = (of_nat (length (mb_data m)) :: u16)"
  let ?l = "length (mb_data m)" and ?b = "8 * (length (mb_data m) + 24)"
  have n: "unat n = ?l" using assms(3) unfolding n_def by (intro unat_of_nat_lt) simp
  obtain cpp where c: "tx_cycles n = Inr cpp" "unat cpp = 1000000 div (560000000 div ?b)"
    using tx_cycles_value [of n] unfolding n by blast
  have b: "0 < ?b" "?b \<le> 560000000" using assms(3) by simp_all
  obtain r where r: "dequeue_side True 1 i (snd_bb_ring (ss_rings s)) = Some (Inr ([m], r))"
    "side_abs k (unat i) r (snd (queue_step (2 ^ k - 1) (Get 1) q))"
    using dequeue_side_one [OF assms(1)] assms(2) by auto
  define s1 where "s1 = s\<lparr>ss_rings := (ss_rings s)\<lparr>snd_bb_ring := r\<rparr>, ss_send_bytes := ss_send_bytes s + of_nat ?l\<rparr>"
  obtain s2 where s2: "snd_pkt (mb_data m) 0 s1 = Some (Inr s2)" "ss_wire s2 = ss_wire s1 @ [(0, mb_data m)]" "ss_answers s2 = rest"
    "ss_freed s2 = ss_freed s1" "ss_rings s2 = ss_rings s1" "ss_clock s2 = ss_clock s1" "ss_total_bb_bytes s2 = ss_total_bb_bytes s1"
    using snd_pkt_after [of s1 fails "mb_data m" rest 0] assms(4-6) by (auto simp: s1_def)
  have w: "wait_until (cur + cpp) (early @ late # ts) = Some ts"
    using assms(8) c(1) by (intro wait_until_after) (auto simp: n_def)
  define s3 where "s3 = (snd_free m s2)\<lparr>ss_total_bb_bytes := ss_total_bb_bytes s2 + ucast (ss_send_bytes s + of_nat ?l), ss_clock := ts\<rparr>"
  have "bb_send_turn i s = Some (Inr s3)"
    using r(1) s2(1,6) assms(7) w c(1)
    by (simp add: bb_send_turn_def dequeue_snd_bb_ring_def on_side_def s1_def Let_def snd_free_def s3_def n_def)
  moreover have "?b < 560 * (unat cpp + 1)" using pacing_bounds(1) [OF b] unfolding c(2) .
  moreover have "0 < unat cpp \<longleftrightarrow> 46 \<le> ?l"
    using pacing_bounds(2,3) [OF b] unfolding c(2) by (cases "46 \<le> ?l") simp_all
  ultimately show ?thesis
    using s2 r(2) assms(2) c(1) unfolding n_def
    by (intro exI [of _ s3] exI [of _ "snd (queue_step (2 ^ k - 1) (Get 1) q)"] exI [of _ cpp]) (simp add: s3_def snd_free_def s1_def)
qed

definition side_holding :: "MBUF \<Rightarrow> MBUF ring_side" where
  "side_holding m = empty_side\<lparr>rq_ring := [Some (empty_ring\<lparr>rr_prod := \<lparr>ht_head = 1, ht_tail = 1, ht_single = False\<rparr>,
     rr_slots := m # replicate 7 (frame_mbuf [])\<rparr>), Some empty_ring], rq_enqueue_num := [1, 0]\<rparr>"

lemma side_holding_abs: "side_abs 3 0 (side_holding m) \<lparr>qs_items = [m], qs_enqueued = 1, qs_dropped = 0, qs_dequeued = 0\<rparr>"
proof -
  let ?r = "empty_ring\<lparr>rr_prod := \<lparr>ht_head = 1, ht_tail = 1, ht_single = False\<rparr>, rr_slots := m # replicate 7 (frame_mbuf [])\<rparr>"
  have "ring_wf 3 ?r" by (simp add: ring_wf_def empty_ring_def)
  moreover have "ring_items ?r = [m]" by (subst ring_items_def) (simp add: empty_ring_def ring_def)
  ultimately show ?thesis by (simp add: side_abs_def side_holding_def empty_side_def)
qed

definition frame_waiting :: SND_SYSTEM where
  "frame_waiting = \<lparr>ss_rings = \<lparr>rcv_ring = empty_side, encap_ring = empty_side,
       snd_bb_ring = side_holding (frame_mbuf (replicate 2046 7))\<rparr>,
     ss_wire = [], ss_freed = [], ss_send_out = 0, ss_sent_pkt_num = [0, 0], ss_resent_pkt_num = 0, ss_total_bb_bytes = 0, ss_send_bytes = 0,
     ss_answers = [0xFFFFFFFF, 2046], ss_clock = [1000, 1010, 1020, 1030]\<rparr>"

theorem bb_frame_paced_witness:
  "\<exists>s' cpp. bb_send_turn 0 frame_waiting = Some (Inr s') \<and> ss_wire s' = [(0, replicate 2046 7)] \<and> ss_clock s' = []
    \<and> tx_cycles 2046 = Inr cpp \<and> unat cpp = 29"
proof -
  let ?m = "frame_mbuf (replicate 2046 (7 :: u8))"
  have a: "side_abs 3 (unat (0 :: u16)) (snd_bb_ring (ss_rings frame_waiting)) \<lparr>qs_items = [?m], qs_enqueued = 1, qs_dropped = 0, qs_dequeued = 0\<rparr>"
    using side_holding_abs by (simp add: frame_waiting_def)
  have l: "length (mb_data ?m) = 2046" by (simp add: frame_mbuf_def)
  obtain cpp where c: "tx_cycles 2046 = Inr cpp" "unat cpp = 1000000 div (560000000 div (8 * (unat (2046 :: u16) + 24)))"
    using tx_cycles_value [of 2046] by blast
  then have c29: "unat cpp = 29" by simp
  have e: "\<forall>x. tx_cycles (of_nat (length (mb_data ?m))) = Inr x \<longrightarrow> (\<forall>t \<in> set [1010, 1020]. t < 1000 + x) \<and> 1000 + x \<le> 1030"
  proof -
    have "cpp = 29" by (simp add: word_unat_eq_iff c29)
    then show ?thesis using c(1) unfolding l by simp
  qed
  show ?thesis
    using bb_frame_paced [where m = ?m and i = 0 and s = frame_waiting and k = 3 and ms = "[]" and fails = "[0xFFFFFFFF]"
        and rest = "[]" and cur = 1000 and early = "[1010, 1020]" and late = 1030 and ts = "[]", OF a] e l c c29
    by (simp add: frame_waiting_def frame_mbuf_def) blast
qed

text \<open>C17: the PDUs on encapsulation ring 0 reach the ground network: as many turns as there are PDUs send each as an
  Ethernet packet with its protocol type on socket 1, in order and unchanged, free its mbuf, give the mbuf of the packet back to the pool and empty the ring.\<close>

theorem pdus_reach_ground:
  assumes "macs_ok conf" "roomy_pool pool" "1 < length (ss_sent_pkt_num s)"
    "side_abs k 0 (encap_ring (ss_rings s)) q" "list_all (\<lambda>m. length (mb_data m) < PDU_BUFFER_SIZE) (qs_items q)"
    "ss_answers s = map (\<lambda>m. of_nat (length (mb_data m) + ETHER_HEADER_LEN)) (qs_items q) @ rest"
  shows "\<exists>s' q'. run_each (qs_items q) (\<lambda>_. ground_turn conf pool) s = Some (Inr s')
    \<and> ss_wire s' = ss_wire s @ map (\<lambda>d. (1, eth_packet conf d)) (map pdu_of (qs_items q))
    \<and> ss_freed s' = ss_freed s @ qs_items q \<and> side_abs k 0 (encap_ring (ss_rings s')) q' \<and> qs_items q' = []
    \<and> ss_answers s' = rest \<and> ss_send_out s' = ss_send_out s"
  using assms(3-6)
proof (induction "qs_items q" arbitrary: s q)
  case Nil
  then show ?case using Nil.hyps [symmetric] by auto
next
  case (Cons m ms)
  note q = Cons.hyps(2) [symmetric]
  obtain s1 q1 where s1: "ground_turn conf pool s = Some (Inr s1)" "ss_wire s1 = ss_wire s @ [(1, eth_packet conf (pdu_of m))]"
    "ss_freed s1 = ss_freed s @ [m]" "side_abs k 0 (encap_ring (ss_rings s1)) q1" "qs_items q1 = ms"
    "ss_answers s1 = map (\<lambda>m. of_nat (length (mb_data m) + ETHER_HEADER_LEN)) ms @ rest"
    "length (ss_sent_pkt_num s1) = length (ss_sent_pkt_num s)" "ss_send_out s1 = ss_send_out s"
    using ground_turn_step [OF assms(1,2) Cons.prems(1,2) q] Cons.prems(3,4) unfolding q by auto
  show ?case
    using Cons.hyps(1) [OF s1(5) [symmetric] _ s1(4)] s1 Cons.prems(1,3) unfolding q by auto
qed

definition waiting_pdu :: MBUF where
  "waiting_pdu = (frame_mbuf [0x45, 9])\<lparr>mb_protocol_type := 0x0800\<rparr>"

definition pdu_waiting :: SND_SYSTEM where
  "pdu_waiting = frame_waiting\<lparr>ss_rings := \<lparr>rcv_ring = empty_side, encap_ring = side_holding waiting_pdu,
     snd_bb_ring = empty_side\<rparr>, ss_answers := [16]\<rparr>"

definition mac_conf :: APP_CONF where
  "mac_conf = two_device_conf\<lparr>local_mac := [replicate 6 0xA, replicate 6 0xB, replicate 6 0xC]\<rparr>"

theorem pdus_reach_ground_witness:
  "\<exists>s'. run_each [waiting_pdu] (\<lambda>_. ground_turn mac_conf (rx_alloc roomy_rx_env)) pdu_waiting = Some (Inr s')
    \<and> ss_wire s' = [(1, replicate 6 0xC @ replicate 6 0xB @ [0x08, 0x00, 0x45, 9])]"
proof -
  let ?m = waiting_pdu
  let ?q = "\<lparr>qs_items = [?m], qs_enqueued = 1, qs_dropped = 0, qs_dequeued = 0\<rparr>"
  have a: "side_abs 3 0 (encap_ring (ss_rings pdu_waiting)) ?q" using side_holding_abs by (simp add: pdu_waiting_def)
  have c: "macs_ok mac_conf" by (simp add: macs_ok_def mac_conf_def)
  have p: "roomy_pool (rx_alloc roomy_rx_env)"
    by (simp add: roomy_pool_def roomy_rx_env_def PDU_BUFFER_SIZE_def ETHER_HEADER_LEN_def)
  have l: "list_all (\<lambda>m. length (mb_data m) < PDU_BUFFER_SIZE) (qs_items ?q)" by (simp add: waiting_pdu_def frame_mbuf_def PDU_BUFFER_SIZE_def)
  have n: "1 < length (ss_sent_pkt_num pdu_waiting)" by (simp add: pdu_waiting_def frame_waiting_def)
  have an: "ss_answers pdu_waiting = map (\<lambda>m. of_nat (length (mb_data m) + ETHER_HEADER_LEN)) (qs_items ?q) @ []"
    by (simp add: pdu_waiting_def waiting_pdu_def frame_mbuf_def ETHER_HEADER_LEN_def)
  have e: "eth_packet mac_conf (pdu_of ?m) = replicate 6 0xC @ replicate 6 0xB @ [0x08, 0x00, 0x45, 9]"
    by (simp add: pdu_of_def mac_conf_def waiting_pdu_def frame_mbuf_def byte_simps)
  show ?thesis
    using pdus_reach_ground [OF c p n a l an] e by (auto simp: pdu_waiting_def frame_waiting_def)
qed

end
