(* ===== verification/Spec2Isabelle.thy ===== *)
theory Spec2Isabelle
  imports Crc CircularQueue GeneralModule EncapGse Fragment EncapFrame DecapHeader Reassembly LinkedList DecapGse Encapsulate
    ReceiveStream Channel RingQueue RingThreads Config Threads SendThreads
begin

text \<open>
  The satellite router of \<open>src/\<close> carries IP packets (PDUs) over a DVB-S2 link: PDUs are cut and packed into GSE
  packets, GSE packets into BBFRAMEs or inter-satellite (ISL) frames, and on the other side frames are taken apart
  and the PDUs put together again.  This development translates that data path, the data structures
  below it and the rings between its threads, function by function, and proves what makes it
  correct; \<open>link_delivers_pdus\<close> and \<open>threads_deliver_pdus\<close> at the end of this theory compose the parts: what is put on the
  ring of the sender arrives on the ring of the receiver, however its threads interleave.

  The parts, and how they interact (receiving threads and \<open>encapsulate_thread\<close>, \<open>decapsulate_thread\<close> are connected by rings):
  \<^item> \<open>Prelude\<close>: C integers as words of their width, byte order and memory of the x86 target, array accesses that
    fault outside of the array (\<open>fault\<close>, \<open>outcome\<close>, \<open>bind_ok\<close>), loops over indices.
  \<^item> \<open>GseTypes\<close>: the structures of \<open>include/define_struct.h\<close> as records and the constants of
    \<open>include/define_const.h\<close>.
  \<^item> \<open>CircularQueue\<close> (\<open>src/circular_queue.c\<close>): the queue of the fragment IDs in use; it interprets the
    contract of a bounded FIFO (locale \<open>bounded_fifo\<close>).
  \<^item> \<open>LinkedList\<close> (\<open>src/list_template.c\<close>): doubly linked lists on an explicit heap; two lists of reassembly buffers
    interpret the contract of a round robin (locale \<open>round_robin\<close>).
  \<^item> \<open>Crc\<close> and \<open>GeneralModule\<close> (\<open>src/general_module.c\<close>): CRC-8 and CRC-32, table-driven and
    bit-serial; MODCOD payloads, MAC addresses, hexadecimal text, windows of samples.
  \<^item> \<open>EncapGse\<close> (\<open>src/encapsulate_gse.c\<close>): grouping PDUs, extension headers, labels, the GSE header and
    its lengths.
  \<^item> \<open>Fragment\<close> (\<open>src/fragment.c\<close> and \<open>fetch_pdu_fragment\<close> of \<open>src/encapsulate.c\<close>): allocation of fragment IDs, the plan of
    the fragments of a PDU and reading them one by one.
  \<^item> \<open>EncapFrame\<close> (\<open>src/encapsulate_frame.c\<close>): BBFRAME and ISL headers, \<open>write_codeblock\<close>, padding.
  \<^item> \<open>Encapsulate\<close> (\<open>src/encapsulate.c\<close>): one channel of the sender, \<open>ENCAP_STATE\<close>: reading a PDU, deciding between
    grouping, fragmenting and sending, and the passes of \<open>encapsulate_thread\<close>.
  \<^item> \<open>DecapHeader\<close>, \<open>Reassembly\<close>, \<open>DecapGse\<close> (\<open>src/decapsulate.c\<close>): reading headers and the address filter; the
    buffers of a fragmented PDU, \<open>DECAP_STATE\<close>, and the timeout; the loop over the packets of a
    frame up to delivery.
  \<^item> \<open>ReceiveStream\<close> and \<open>Channel\<close>: the two ends of the link over many frames.  The locale \<open>frame_link\<close> states
    what a receiver promises for one frame, \<open>decap_link\<close> interprets it on the model of the decapsulator, and
    \<open>Channel\<close> shows that the sender's passes produce such frames.
  \<^item> \<open>RingQueue\<close> (\<open>src/ring_queue.c\<close>, \<open>lib/include/rte_ring.h\<close>): the rings between the threads and their
    counters, as one thread runs them; \<open>RingThreads\<close>: the same ring with any number of producers and consumers that interleave at
    every access, a step relation with its reachable states.
  \<^item> \<open>Threads\<close> (\<open>src/receive.c\<close>, \<open>decapsulate_thread\<close> of \<open>src/decapsulate.c\<close>): the receiving threads and the decapsulating
    thread around the receive rings, \<open>RX_SYSTEM\<close>; a schedule is a list of events (an arrival, a poll), each of them one
    step of one thread.
  \<^item> \<open>SendThreads\<close> (\<open>snd_pkt\<close> of \<open>src/rcv_send.c\<close>, \<open>snd_single_pdu\<close> of \<open>src/encapsulate.c\<close>,
    \<open>fc_bbframe_send_ignore_interval\<close> of \<open>src/encapsulate_frame.c\<close>): the loops that take PDUs to the ground
    network and frames to the link, \<open>SND_SYSTEM\<close>, with the pacing of the frames.
  \<^item> \<open>Config\<close> (\<open>src/general_module.c\<close>): reading \<open>base.conf\<close>, \<open>mapping_tbl.conf\<close> and \<open>router.conf\<close> into
    the configuration.

  Conventions.  A function of the code is a definition of the same name that takes the state it reads and returns the
  state it leaves; \<open>Inl\<close> is undefined behaviour of C (an access outside an array, a null pointer, a division by zero,
  a read of an uninitialised variable), and \<open>None\<close>, where an \<open>option\<close> is around the
  outcome, a call that never returns.  An error code of the code is a value.  A body is split where a lemma
  speaks about its part; the part's name is not one of the source, its lines are in the manifest.
  Static variables are fields of the state; what an uninitialised local or a fresh mbuf holds is
  a parameter (\<open>junk\<close>).  Time, the results of the mbuf pools and the values that the hardware
  reports are parameters too (\<open>ENCAP_ENV\<close>, the receiver's environment), one for each call, so that the
  theorems hold for all of them that satisfy the hypotheses named in the statements.

  Groups of lemmas.  Each theory gives its definitions first, then what the definitions do on each branch,
  then the invariants, and its properties (marked with a claim number) at the end.  The invariants are
  \<open>cq_wf\<close> (queue), \<open>frag_inv\<close> (the queue holds the IDs in use, each once), \<open>job_inv\<close> (a buffer
  holds the fragments received so far), \<open>frame_open\<close> (the frame under construction and what its packets
  will be on the wire), \<open>tx_inv\<close> and \<open>link_inv\<close> (the two ends of the link), \<open>ring_wf\<close>
  and \<open>ring_inv\<close> (a ring at rest, and under concurrent use), \<open>rx_wf\<close> (the system of the receiving threads is well-formed)
  and \<open>rx_progress\<close> (what has arrived on each ring and how much of it has been dispatched).

  Bounds and fuel.  Loops with a bound in the code are folds over the indices.  The loop over
  the packets of a frame ends after at most half the frame size plus two packets
  (\<open>packet_loop_bounded\<close>); that bound is its fuel.  \<open>drain_fragments\<close> and the loops of the
  ring are \<open>partial_function\<close>s: that they end is part of the theorems.  Theorems about the whole link are for
  PDUs the plan of \<open>Channel\<close> admits: at most 4087 bytes when sent whole and, when a PDU does not fit
  into the frame, at most 1514 bytes and two fragments (the receiver's buffers have 1518 bytes).
  With \<open>n\<close> rings and \<open>N\<close> events, \<open>(n + 1) (N + 1)\<close> steps of the decapsulating thread empty the
  rings (\<open>rx_debt\<close> counts them down); a single operation on a ring counts as one step there, which \<open>RingThreads\<close>
  justifies, and the schedules of the delivery theorems stay within one period of the search for timeouts.

  Not modelled.  The \<open>TAG_ROUTE\<close> variants (the macro is never defined; \<open>identify_isl\<close>, which only they call, is modelled).  \<open>encapsulate_pdu\<close>, \<open>snd_tun_pdu\<close>, \<open>decapsulate_pdu\<close>
  and \<open>router.c\<close>: they work on \<open>ROUTERHEADER\<close>, whose declaration is not in the repository;
  \<open>decapsulate_pdu\<close> is an argument of the dispatcher.  The statistics (\<open>stats.c\<close>; their structure is not
  in the repository either), except the counters of the rings and of sending.  Opening and reading sockets and
  capture (\<open>rcv_send.c\<close> but \<open>snd_pkt\<close>, \<open>router_libcap.c\<close>, \<open>tun.c\<close>, \<open>write_pcap.c\<close>;
  \<open>send.c\<close> is commented out), logging and printing (\<open>system_log.c\<close>, \<open>show_version.c\<close>), the creation
  of threads and pools (\<open>main.c\<close>, \<open>sys_thread.c\<close>, \<open>mem_utils.c\<close>, \<open>timer.c\<close>): input and output, or calls of the operating
  system.  The vendored headers of DPDK other than the functions the rings and mbufs above need.
\<close>

section \<open>Properties of the whole link\<close>

text \<open>A sample channel and its receiver, for the instances below.\<close>

lemma sample_chan_ok: "chan_ok (sample_encap_env 1) 1991 1"
  using sample_encap_env_ok payload_modcod_1
  by (simp add: chan_ok_def MAX_DEVICE_NUM_def) (simp add: sample_encap_env_def sample_port_def ENUM_FWD_Tx_FWD_Data_def)

lemma sample_plan:
  "sendable (sample_tx n) \<longleftrightarrow> 0 < n \<and> unat n \<le> 4087" "ip_type (pdu_type (sample_tx n))" "tm_data_len (sample_tx n) = n"
  "middle_room 1991 = 1976" "unat (ee_threshold (sample_encap_env 1)) = 16"
  by (simp_all add: sendable_def sample_tx_def pdu_type_def ip_type_def PROTOCOL_IPV4_def middle_room_def GSE_MAX_SIZE_def
      sample_encap_env_def)

lemma sample_link:
  "link_inv (\<lambda>_. roomy_rx_env) (\<lambda>_. junk_header) [2, 0, 0, 0, 0, 1] 0 None start_decap_state"
proof -
  have "rx_env_ok (\<lambda>_. roomy_rx_env) (\<lambda>_. junk_header) [2, 0, 0, 0, 0, 1]"
    by (simp add: rx_env_ok_def rx_ready_def roomy_rx_env_def junk_header_def)
  then show ?thesis by (intro start_link) (simp_all add: MAX_DEVICE_NUM_def)
qed

lemma sample_link_idle: "ds_encap_ring start_decap_state = []" "ds_freed start_decap_state = []"
  by (simp_all add: start_decap_state_def init_decap_mem_def boot_decap_state_def)

lemma sample_frame_mbuf: "\<forall>f. mb_data (frame_mbuf f) = f"
  by (simp add: frame_mbuf_def)



text \<open>How many frames a stream fills: a frame is never empty, and no PDU makes more than two packets.\<close>

lemma rx_steps_length:
  "rx_steps w ps = Some w' \<Longrightarrow>
   length ps + (if w = None then 0 else 1) \<le> 2 * length (delivered ps) + (if w' = None then 0 else (1 :: nat))"
proof (induction ps arbitrary: w)
  case (Cons p ps)
  then obtain w1 where w1: "rx_step w p = Some w1" "rx_steps w1 ps = Some w'" by (auto split: option.splits)
  from Cons.IH [OF w1(2)] w1(1) show ?case by (cases p) (auto split: if_splits)
qed simp

lemma carried_length: "list_all2 bb_carries pss ms \<Longrightarrow> length ms \<le> length (concat pss)"
proof (induction rule: list_all2_induct)
  case (Cons ps pss m ms)
  then show ?case by (cases ps) (auto simp: bb_carries_def)
qed simp

lemma arrivals_from_zero:
  "arrivals i (map (\<lambda>f. Arrive 0 (Some (g f))) fs) = (if i = 0 then map g fs else [])"
  by (induction fs) simp_all

lemma arrivals_polls: "arrivals i (replicate m (DecapStep j t u)) = []"
  by (simp add: arrivals_def)

text \<open>C1: the whole way with the threads of the receiving side: the frames the sending thread has handed out arrive
  at device 0, interleaved in any way with packets of the other devices and with the polls of the decapsulating
  thread; when the thread has gone on for long enough, every PDU of every burst is on the ring to the encapsulation exactly
  once, unchanged and in the order the plan says, and no packet was lost.\<close>

theorem threads_deliver_pdus:
  assumes "chan_ok e mx mid" "frame_open e mx [] s" "no_fragment_waiting s" "es_loop_count s = 0"
    "TS_GS (initialBBHeader (es_frame_param s)) \<in> {0, 1}"
    "list_all (\<lambda>ms. ms \<noteq> []) mss" "plan_turns mx (unat (ee_threshold e)) (0, 0, None) mss = Some (st, out)"
    "rx_start k n env junk mac r" "single_conf n conf" "2 * length out < 2 ^ k"
    "\<forall>s'. encap_passes (encap_pass e mid) (mss @ replicate 100 []) s = Some (Inr s') \<longrightarrow>
       es_sent s' = es_sent s @ map mb_data (arrivals 0 evs)"
    "\<forall>i. 0 < i \<and> i < n \<longrightarrow> list_all tunnel_pkt (arrivals i evs) \<and> length (arrivals i evs) < 2 ^ k"
    "list_all (schedule_ok n conf (dt_pre_time (sy_thread r 0))) (evs @ polls)" "list_all decap_event polls"
    "Suc n * Suc (length evs) \<le> length polls"
  shows "mset out = mset (concat mss) \<and> (\<exists>s' r' bs.
      encap_passes (encap_pass e mid) (mss @ replicate 100 []) s = Some (Inr s') \<and> es_freed s' = es_freed s @ map tm_address out
    \<and> rx_run (dispatch_decap_pkt env junk index0 mac pdu_packs fp) conf (evs @ polls) r = Some (Inr r')
    \<and> rcv_queues k n r' (\<lambda>_. []) \<and> sy_refused r' = sy_refused r
    \<and> ds_encap_ring (sy_decap r') = ds_encap_ring (sy_decap r) @ bs \<and> map pdu_of bs = map (pdu_desc e) out
    \<and> (\<forall>i. 0 < i \<and> i < n \<longrightarrow>
         of_queue i (sy_tunnel r') = of_queue i (sy_tunnel r) @ map tunnel_out (arrivals i evs)))"
proof -
  obtain s' where s': "encap_passes (encap_pass e mid) (mss @ replicate 100 []) s = Some (Inr s')" "all_sent e mx s out s'"
    using single_thread_sends [OF assms(1-4) _ assms(6,7)] assms(5) by auto
  obtain pss new where c: "es_sent s' = es_sent s @ new" "\<forall>ms. map mb_data ms = new \<longrightarrow> list_all2 bb_carries pss ms"
    "rx_steps None (concat pss) = Some None" "delivered (concat pss) = map (pdu_desc e) out"
    "es_freed s' = es_freed s @ map tm_address out"
    using s'(2) by (auto simp: all_sent_def)
  have "map mb_data (arrivals 0 evs) = new" using assms(11) s'(1) c(1) by simp
  then have l: "list_all2 bb_carries pss (arrivals 0 evs)" using c(2) by blast
  have "length (arrivals 0 evs) < 2 ^ k"
    using carried_length [OF l] rx_steps_length [OF c(3)] assms(10) by (simp add: c(4))
  then have len: "\<forall>i < n. length (arrivals i evs) < 2 ^ k" using assms(12) by (metis neq0_conv)
  have t: "\<forall>i. 0 < i \<and> i < n \<longrightarrow> list_all tunnel_pkt (arrivals i evs)" using assms(12) by blast
  from rx_threads_delivered [OF assms(8,9) l c(3) t len assms(13-15), of index0 pdu_packs fp]
  show ?thesis using s'(1) c(4,5) plan_turns_sent [OF assms(7)] by auto
qed

theorem threads_deliver_pdus_witness:
  "\<forall>fp. \<exists>s' evs r' bs. encap_passes (encap_pass (sample_encap_env 1) 1) ([[sample_tx 1000, sample_tx 1400], [sample_tx 500]]
        @ replicate 100 []) start_encap_state = Some (Inr s')
    \<and> map mb_data (arrivals 0 evs) = es_sent s'
    \<and> rx_run (dispatch_decap_pkt (\<lambda>_. roomy_rx_env) (\<lambda>_. junk_header) 0 [2, 0, 0, 0, 0, 1] (\<lambda>_ _. Inr) fp)
       two_device_conf evs started_system = Some (Inr r')
    \<and> ds_encap_ring (sy_decap r') = bs
    \<and> map pdu_of bs = map (pdu_desc (sample_encap_env 1)) [sample_tx 1000, sample_tx 1400, sample_tx 500]"
proof
  fix fp :: FRAME_PARAM
  let ?e = "sample_encap_env 1" and ?mss = "[[sample_tx 1000, sample_tx 1400], [sample_tx 500]]"
  have pl: "plan_turns 1991 (unat (ee_threshold ?e)) (0, 0, None) ?mss
      = Some ((941, 2, None), [sample_tx 1000, sample_tx 1400, sample_tx 500])"
    by (simp add: plan_drain_def plan_pdu_def close_if_full_def sample_plan)
  have ts: "TS_GS (initialBBHeader (es_frame_param start_encap_state)) \<in> {0, 1}" using start_encap_ok(6) by simp
  have ne: "list_all (\<lambda>ms. ms \<noteq> []) ?mss" by simp
  obtain s' where s': "encap_passes (encap_pass ?e 1) (?mss @ replicate 100 []) start_encap_state = Some (Inr s')"
    using single_thread_sends [OF sample_chan_ok start_encap_ok(1,2,7) _ ne pl] ts by auto
  define evs where "evs = map (\<lambda>f. Arrive 0 (Some (frame_mbuf f))) (es_sent s')"
  let ?polls = "replicate (3 * Suc (length evs)) (DecapStep 0 5 0)"
  have a: "arrivals 0 evs = map frame_mbuf (es_sent s')" "arrivals 1 evs = []"
    by (simp_all add: evs_def arrivals_from_zero del: One_nat_def)
  have i: "0 < i \<and> i < 2 \<longleftrightarrow> i = 1" for i :: nat by arith
  have t: "\<forall>i. 0 < i \<and> i < 2 \<longrightarrow> list_all tunnel_pkt (arrivals i evs) \<and> length (arrivals i evs) < 2 ^ 3"
    unfolding i by (simp add: a(2) del: One_nat_def)
  have ok: "list_all (schedule_ok 2 two_device_conf (dt_pre_time (sy_thread started_system 0))) (evs @ ?polls)"
    by (simp add: evs_def started_system_def two_device_conf_def list_all_iff)
  have m: "map mb_data (arrivals 0 evs) = es_sent s'" using sample_frame_mbuf by (simp add: a(1) o_def)
  have sent: "\<forall>s1. encap_passes (encap_pass ?e 1) (?mss @ replicate 100 []) start_encap_state = Some (Inr s1) \<longrightarrow>
       es_sent s1 = es_sent start_encap_state @ map mb_data (arrivals 0 evs)"
    using s' m start_encap_ok(3) by simp
  have o: "2 * length [sample_tx 1000, sample_tx 1400, sample_tx 500] < 2 ^ 3" by simp
  have p: "list_all decap_event ?polls" "Suc 2 * Suc (length evs) \<le> length ?polls" by (simp_all add: list_all_iff)
  note d = threads_deliver_pdus [OF sample_chan_ok start_encap_ok(1,2,7) ts ne pl started_ok o sent t ok p, of 0 "\<lambda>_ _. Inr" fp]
  have z: "ds_encap_ring (sy_decap started_system) = []" by (simp add: started_system_def start_ring_empty)
  show "\<exists>s' evs r' bs. encap_passes (encap_pass ?e 1) (?mss @ replicate 100 []) start_encap_state = Some (Inr s')
    \<and> map mb_data (arrivals 0 evs) = es_sent s'
    \<and> rx_run (dispatch_decap_pkt (\<lambda>_. roomy_rx_env) (\<lambda>_. junk_header) 0 [2, 0, 0, 0, 0, 1] (\<lambda>_ _. Inr) fp)
       two_device_conf evs started_system = Some (Inr r')
    \<and> ds_encap_ring (sy_decap r') = bs \<and> map pdu_of bs = map (pdu_desc ?e) [sample_tx 1000, sample_tx 1400, sample_tx 500]"
    using d s' m p z by (intro exI [of _ s'] exI [of _ "evs @ ?polls"]) (auto simp: arrivals_polls)
qed

end
